(* ===== verification/Prelude.thy ===== *)
theory Prelude
  imports Main "HOL-Library.Word" "HOL-Library.Sublist"
begin

text \<open>
  Shared vocabulary of the development.  Memory and files of the program are lists of bytes
  (\<^typ>\<open>8 word\<close>); integers stored in them are little endian, as on the x86-64 hosts
  that the code's AVX2 intrinsics require.  The theory holds the byte-level encodings
  (\<open>le_bytes\<close>, \<open>le_val\<close>), reading and overwriting a range of a byte list
  (\<open>get_bytes\<close>, \<open>put_bytes\<close>), and the lemma collections the components share.
\<close>

unbundle bit_operations_syntax

type_synonym byte = "8 word"
type_synonym bytes = "8 word list"
type_synonym u32 = "32 word"
type_synonym u64 = "64 word"

named_theorems bytes_simps "length and read-back facts of byte ranges"
named_theorems store_simps "unfolding rules of the store operations"
named_theorems pool_simps "unfolding rules of the pool operations"

section \<open>Little-endian encoding\<close>

primrec le_bytes :: "nat \<Rightarrow> nat \<Rightarrow> bytes" where
  "le_bytes 0 v = []"
| "le_bytes (Suc n) v = of_nat v # le_bytes n (v div 256)"

primrec le_val :: "bytes \<Rightarrow> nat" where
  "le_val [] = 0"
| "le_val (b # bs) = unat b + 256 * le_val bs"

lemma length_le_bytes [simp, bytes_simps]: "length (le_bytes n v) = n"
  by (induction n arbitrary: v) auto

lemma le_bytes_not_Nil [simp]: "le_bytes n v \<noteq> [] \<longleftrightarrow> n \<noteq> 0" "(le_bytes n v = []) \<longleftrightarrow> n = 0"
  by (cases n; simp)+

lemma unat_byte_less: "unat (b :: byte) < 256"
  using unsigned_less [of b] by simp

lemma le_val_le_bytes [bytes_simps]: "le_val (le_bytes n v) = v mod 256 ^ n"
proof (induction n arbitrary: v)
  case 0
  then show ?case by simp
next
  case (Suc n)
  have "unat (of_nat v :: byte) = v mod 256"
    by (simp add: unat_of_nat)
  with Suc show ?case
    by (simp add: mod_mult2_eq)
qed

lemma le_val_bound: "le_val bs < 256 ^ length bs"
proof (induction bs)
  case Nil
  then show ?case by simp
next
  case (Cons b bs)
  then show ?case using unat_byte_less [of b] by simp
qed

lemma le_bytes_le_val [bytes_simps]: "length bs = n \<Longrightarrow> le_bytes n (le_val bs) = bs"
proof (induction bs arbitrary: n)
  case Nil
  then show ?case by simp
next
  case (Cons b bs)
  have "(unat b + 256 * le_val bs) div 256 = le_val bs"
    using unat_byte_less [of b] by simp
  moreover have "(of_nat (unat b + 256 * le_val bs) :: byte) = b"
  proof -
    have "unat (of_nat (unat b + 256 * le_val bs) :: byte) = unat b"
      by (simp only: unat_of_nat) (simp add: unat_byte_less)
    then show ?thesis by (rule word_unat_eq_iff [THEN iffD2])
  qed
  ultimately show ?case using Cons by (auto simp del: of_nat_add)
qed

lemma le_val_inj: "length xs = length ys \<Longrightarrow> le_val xs = le_val ys \<Longrightarrow> xs = ys"
  by (metis le_bytes_le_val)

lemma le_val_append: "le_val (xs @ ys) = le_val xs + 256 ^ length xs * le_val ys"
  by (induction xs) (auto simp: algebra_simps)

lemma le_val_zeros [simp]: "le_val (replicate n 0) = 0"
  by (induction n) auto

section \<open>Ranges of a byte list\<close>

definition get_bytes :: "nat \<Rightarrow> nat \<Rightarrow> bytes \<Rightarrow> bytes" where
  "get_bytes pos n f = take n (drop pos f)"

text \<open>Overwriting a range; a gap between the end of the list and the range is filled with zeros.\<close>

definition put_bytes :: "nat \<Rightarrow> bytes \<Rightarrow> bytes \<Rightarrow> bytes" where
  "put_bytes pos bs f =
     take pos (f @ replicate (pos - length f) 0) @ bs @ drop (pos + length bs) f"

lemma length_put_bytes [simp, bytes_simps]:
  "length (put_bytes pos bs f) = max (length f) (pos + length bs)"
  by (auto simp: put_bytes_def)

lemma length_get_bytes [bytes_simps]: "length (get_bytes pos n f) = min n (length f - pos)"
  by (simp add: get_bytes_def)

lemma get_put_same [simp, bytes_simps]: "get_bytes pos (length bs) (put_bytes pos bs f) = bs"
  by (auto simp: get_bytes_def put_bytes_def)

lemma nth_put_bytes:
  "i < max (length f) (pos + length bs) \<Longrightarrow>
   put_bytes pos bs f ! i =
     (if pos \<le> i \<and> i < pos + length bs then bs ! (i - pos)
      else if i < length f then f ! i else 0)"
  by (auto simp: put_bytes_def nth_append min_def not_less)

lemma get_put_disjoint [bytes_simps]:
  assumes "p + n \<le> pos \<or> pos + length bs \<le> p" and "p + n \<le> length f"
  shows "get_bytes p n (put_bytes pos bs f) = get_bytes p n f"
proof (rule nth_equalityI)
  show "length (get_bytes p n (put_bytes pos bs f)) = length (get_bytes p n f)"
    using assms by (auto simp: length_get_bytes)
  fix i
  assume "i < length (get_bytes p n (put_bytes pos bs f))"
  then have i: "i < n" by (simp add: length_get_bytes)
  with assms show "get_bytes p n (put_bytes pos bs f) ! i = get_bytes p n f ! i"
    by (auto simp: get_bytes_def nth_put_bytes)
qed

lemma put_bytes_Nil [simp]: "pos \<le> length f \<Longrightarrow> put_bytes pos [] f = f"
  by (simp add: put_bytes_def)

lemma put_bytes_end: "put_bytes (length f) bs f = f @ bs"
  by (simp add: put_bytes_def)

lemma put_bytes_append:
  "put_bytes (pos + length xs) ys (put_bytes pos xs f) = put_bytes pos (xs @ ys) f"
proof (rule nth_equalityI)
  show "length (put_bytes (pos + length xs) ys (put_bytes pos xs f)) = length (put_bytes pos (xs @ ys) f)"
    by simp
  fix i
  assume "i < length (put_bytes (pos + length xs) ys (put_bytes pos xs f))"
  then show "put_bytes (pos + length xs) ys (put_bytes pos xs f) ! i = put_bytes pos (xs @ ys) f ! i"
    by (auto simp: nth_put_bytes nth_append)
qed

lemma put_bytes_frame:
  "take (length xs + length ys) (put_bytes 0 xs (put_bytes (length xs) ys f)) = xs @ ys"
  by (auto simp: put_bytes_def)

section \<open>Arithmetic of \<open>size_t\<close>\<close>

definition add64 :: "nat \<Rightarrow> nat \<Rightarrow> nat" where
  "add64 a b = (a + b) mod 2 ^ 64"

definition sub64 :: "nat \<Rightarrow> nat \<Rightarrow> nat" where
  "sub64 a b = nat ((int a - int b) mod 2 ^ 64)"

lemma sub64_add: "sub64 ((s + n) mod 2 ^ 64) n = s mod 2 ^ 64"
proof -
  have "int (sub64 ((s + n) mod 2 ^ 64) n) = ((int s + int n) mod 2 ^ 64 - int n) mod 2 ^ 64"
    by (simp add: sub64_def zmod_int)
  also have "\<dots> = int s mod 2 ^ 64" by (simp only: mod_diff_left_eq) simp
  also have "\<dots> = int (s mod 2 ^ 64)" by (simp add: zmod_int)
  finally show ?thesis by (simp only: of_nat_eq_iff)
qed

lemma add64_mod: "add64 (s mod 2 ^ 64) n = (s + n) mod 2 ^ 64"
  by (simp only: add64_def mod_add_left_eq)

lemmas size_mod_simps [simp] =
  sub64_add add64_mod sub64_add [simplified] add64_mod [simplified]

lemma sub64_le: "b \<le> a \<Longrightarrow> a < 2 ^ 64 \<Longrightarrow> sub64 a b = a - b"
proof -
  assume le: "b \<le> a" and lt: "a < 2 ^ 64"
  have "int a < int (2 ^ 64)" using lt by (simp only: of_nat_less_iff)
  then have "int a - int b < 2 ^ 64" by simp
  then have "(int a - int b) mod 2 ^ 64 = int a - int b"
    using le by (intro mod_pos_pos_trivial) simp_all
  then show ?thesis by (simp only: sub64_def)
qed

end
