(* ===== verification/Murmur.thy ===== *)
theory Murmur
  imports Prelude
begin

text \<open>
  \<open>Utils::MurmurHash2\<close> (kernel/common/utils/utils.cc): the 32-bit hash every index of the
  program is built on, on \<^typ>\<open>32 word\<close>, with its shared facts: the mixing steps are
  injective, so keys of one length up to four bytes never collide.
\<close>

section \<open>The hash\<close>

definition murmur_m :: u32 where
  "murmur_m = 0x5bd1e995"

definition murmur_r :: nat where
  "murmur_r = 24"

text \<open>A 32-bit read through \<open>reinterpret_cast<const uint32_t*>\<close>.\<close>

definition read_u32 :: "bytes \<Rightarrow> u32" where
  "read_u32 bs = of_nat (le_val bs)"

definition mix_block :: "u32 \<Rightarrow> u32" where
  "mix_block k0 =
     (let k1 = k0 * murmur_m;
          k2 = k1 XOR drop_bit murmur_r k1
      in k2 * murmur_m)"

text \<open>The loop over whole 4-byte blocks: the state after it and the remaining bytes.\<close>

fun murmur_blocks :: "u32 \<Rightarrow> bytes \<Rightarrow> u32 \<times> bytes" where
  "murmur_blocks h (a # b # c # d # rest) =
     murmur_blocks ((h * murmur_m) XOR mix_block (read_u32 [a, b, c, d])) rest"
| "murmur_blocks h rest = (h, rest)"

text \<open>The \<open>switch\<close> over the remaining length, with its fall-through.\<close>

fun murmur_tail :: "u32 \<Rightarrow> bytes \<Rightarrow> u32" where
  "murmur_tail h [a, b, c] =
     (((h XOR push_bit 16 (ucast c)) XOR push_bit 8 (ucast b)) XOR ucast a) * murmur_m"
| "murmur_tail h [a, b] = ((h XOR push_bit 8 (ucast b)) XOR ucast a) * murmur_m"
| "murmur_tail h [a] = (h XOR ucast a) * murmur_m"
| "murmur_tail h _ = h"

definition murmur_final :: "u32 \<Rightarrow> u32" where
  "murmur_final h0 =
     (let h1 = h0 XOR drop_bit 13 h0;
          h2 = h1 * murmur_m
      in h2 XOR drop_bit 15 h2)"

text \<open>
  The hash reads \<open>len\<close> bytes behind \<open>key\<close>; a negative \<open>len\<close> runs neither the loop
  nor the switch.
\<close>

definition MurmurHash2 :: "bytes \<Rightarrow> int \<Rightarrow> u32 \<Rightarrow> u32" where
  "MurmurHash2 key len seed =
     (case murmur_blocks (seed XOR word_of_int len) (take (nat len) key) of
        (h, rest) \<Rightarrow> murmur_final (murmur_tail h rest))"

section \<open>Injectivity of the mixing steps\<close>

lemma murmur_m_unit: "murmur_m * 0xe59b19bd = 1"
  by (simp add: murmur_m_def)

lemma mult_murmur_m_inj: "a * murmur_m = b * murmur_m \<longleftrightarrow> a = b"
proof
  assume "a * murmur_m = b * murmur_m"
  then have "a * (murmur_m * 0xe59b19bd) = b * (murmur_m * 0xe59b19bd)"
    by (metis mult.assoc)
  then show "a = b" by (simp add: murmur_m_unit)
qed simp

lemma xor_cancel_right: "(a :: u32) XOR c = b XOR c \<longleftrightarrow> a = b"
  by (metis xor.assoc xor.right_neutral xor_self_eq)

lemma xor_cancel_left: "(c :: u32) XOR a = c XOR b \<longleftrightarrow> a = b"
  by (metis xor.commute xor_cancel_right)

text \<open>
  A word is determined by its exclusive or with its own right shift: bit by bit from the top.
\<close>

lemma xorshift_inj:
  fixes a b :: u32
  assumes n: "0 < n" and eq: "a XOR drop_bit n a = b XOR drop_bit n b"
  shows "a = b"
proof (rule bit_word_eqI)
  have step: "bit a i = bit b i" if "i < 32" for i
    using that
  proof (induction "32 - i" arbitrary: i rule: less_induct)
    case (less i)
    have top: "bit a (n + i) = bit b (n + i)"
    proof (cases "n + i < 32")
      case True
      then show ?thesis using less n by (intro less.hyps) auto
    next
      case False
      then show ?thesis by (auto dest: bit_imp_le_length)
    qed
    have "bit (a XOR drop_bit n a) i = bit (b XOR drop_bit n b) i"
      using eq by simp
    with top less.prems show ?case by (auto simp: bit_xor_iff bit_drop_bit_eq)
  qed
  fix i
  assume "i < LENGTH(32)"
  then show "bit a i \<longleftrightarrow> bit b i" using step by simp
qed

lemma murmur_final_inj: "murmur_final a = murmur_final b \<longleftrightarrow> a = b"
proof
  assume "murmur_final a = murmur_final b"
  then have "(a XOR drop_bit 13 a) * murmur_m = (b XOR drop_bit 13 b) * murmur_m"
    unfolding murmur_final_def Let_def by (rule xorshift_inj [of 15, rotated]) simp
  then have "a XOR drop_bit 13 a = b XOR drop_bit 13 b"
    by (simp add: mult_murmur_m_inj)
  then show "a = b" by (rule xorshift_inj [rotated]) simp
qed simp

lemma mix_block_inj: "mix_block a = mix_block b \<longleftrightarrow> a = b"
proof
  assume "mix_block a = mix_block b"
  then have "a * murmur_m XOR drop_bit murmur_r (a * murmur_m) =
             b * murmur_m XOR drop_bit murmur_r (b * murmur_m)"
    by (simp add: mix_block_def Let_def mult_murmur_m_inj)
  then have "a * murmur_m = b * murmur_m"
    by (rule xorshift_inj [rotated]) (simp add: murmur_r_def)
  then show "a = b" by (simp add: mult_murmur_m_inj)
qed simp

lemma read_u32_inj:
  assumes "length xs = length ys" "length xs \<le> 4" "read_u32 xs = read_u32 ys"
  shows "xs = ys"
proof (rule le_val_inj)
  have bound: "le_val zs < 2 ^ 32" if "length zs \<le> 4" for zs
  proof -
    have "le_val zs < 256 ^ length zs" by (rule le_val_bound)
    also have "\<dots> \<le> 256 ^ 4" using that by (intro power_increasing) auto
    finally show ?thesis by simp
  qed
  have "unat (read_u32 zs) = le_val zs" if "length zs \<le> 4" for zs
    using bound [OF that] unfolding read_u32_def by (simp add: unat_of_nat take_bit_nat_eq_self)
  with assms show "le_val xs = le_val ys" by metis
qed (use assms in auto)

section \<open>No collisions among short keys\<close>

text \<open>The remaining bytes enter the state as three disjoint byte lanes.\<close>

definition tail_lanes :: "byte \<Rightarrow> byte \<Rightarrow> byte \<Rightarrow> u32" where
  "tail_lanes a b c = (push_bit 16 (ucast c) XOR push_bit 8 (ucast b)) XOR ucast a"

lemma tail_lanes_inj: "tail_lanes a b c = tail_lanes a' b' c' \<longleftrightarrow> a = a' \<and> b = b' \<and> c = c'"
proof -
  have bits: "ucast (tail_lanes a b c) = a \<and> ucast (drop_bit 8 (tail_lanes a b c)) = b
      \<and> ucast (drop_bit 16 (tail_lanes a b c)) = c" for a b c
    unfolding tail_lanes_def
    by (intro conjI; rule bit_word_eqI)
      (auto simp: bit_simps dest: bit_imp_le_length)
  show ?thesis using bits [of a b c] bits [of a' b' c'] by metis
qed

lemma murmur_tail_lanes:
  "murmur_tail h [a] = (h XOR tail_lanes a 0 0) * murmur_m"
  "murmur_tail h [a, b] = (h XOR tail_lanes a b 0) * murmur_m"
  "murmur_tail h [a, b, c] = (h XOR tail_lanes a b c) * murmur_m"
  by (simp_all add: tail_lanes_def xor.assoc)

lemma murmur_blocks_short: "length bs < 4 \<Longrightarrow> murmur_blocks h bs = (h, bs)"
  by (induction h bs rule: murmur_blocks.induct) auto

lemma murmur_short_inj:
  assumes "length k1 = n" "length k2 = n" "n \<le> 4"
  shows "MurmurHash2 k1 (int n) seed = MurmurHash2 k2 (int n) seed \<longleftrightarrow> k1 = k2"
proof -
  consider "n = 0" | "n = 1" | "n = 2" | "n = 3" | "n = 4"
    using assms(3) by linarith
  then show ?thesis
  proof cases
    case 5
    then obtain a b c d a' b' c' d' where "k1 = [a, b, c, d]" "k2 = [a', b', c', d']"
      using assms(1,2) by (auto simp: length_Suc_conv numeral_eq_Suc)
    then show ?thesis using 5 read_u32_inj [of k1 k2]
      by (auto simp: MurmurHash2_def murmur_final_inj xor_cancel_left mix_block_inj)
  qed (use assms(1,2) in \<open>auto simp: length_Suc_conv numeral_eq_Suc MurmurHash2_def
        murmur_blocks_short murmur_tail_lanes murmur_final_inj mult_murmur_m_inj
        xor_cancel_left tail_lanes_inj simp del: murmur_tail.simps\<close>)
qed

text \<open>
  Two keys of the same length of at most four bytes (an \<open>int32\<close> key, say) have the same
  MurmurHash2 under a seed only if they are the same bytes.
\<close>

theorem murmur_short_keys_no_collision:
  assumes "length k1 = n" "length k2 = n" "n \<le> 4"
  shows "MurmurHash2 k1 (int n) seed = MurmurHash2 k2 (int n) seed \<longleftrightarrow> k1 = k2"
  by (rule murmur_short_inj [OF assms])

theorem murmur_short_keys_no_collision_witness:
  "MurmurHash2 [1, 0, 0, 0] 4 7 \<noteq> MurmurHash2 [0, 1, 0, 0] 4 7"
  using murmur_short_keys_no_collision [of "[1, 0, 0, 0]" 4 "[0, 1, 0, 0]" 7] by simp

end
