(* ===== verification/String_Utils.thy ===== *)
theory String_Utils
  imports Prelude
begin

text \<open>
  The string helpers: \<open>Utils::Split\<close> into strings, \<open>Strip\<close> and \<open>Join\<close>
  (kernel/common/utils/utils.cc), and \<open>SplitStr\<close>, \<open>StrContain\<close>, \<open>VectorJoin\<close> and
  \<open>ArrayJoin\<close> (kernel/common/utils/string_util).  A pointer into the text is an index.
  A loop that may not end is a partial function.
\<close>

section \<open>Searching\<close>

text \<open>\<open>std::string::find\<close>: the first occurrence at or after \<open>start\<close>, None for \<open>npos\<close>.\<close>

definition str_find :: "string \<Rightarrow> string \<Rightarrow> nat \<Rightarrow> nat option" where
  "str_find s sub start = find (\<lambda>i. prefix sub (drop i s)) [start..<Suc (length s)]"

definition StrContain :: "string \<Rightarrow> string \<Rightarrow> bool" where
  "StrContain origin sub_str = (str_find origin sub_str 0 \<noteq> None)"

lemma str_find_Some:
  assumes "str_find s sub start = Some i"
  shows "start \<le> i" "i \<le> length s" "drop i s = sub @ drop (i + length sub) s"
    "\<And>j. start \<le> j \<Longrightarrow> j < i \<Longrightarrow> \<not> prefix sub (drop j s)"
proof -
  obtain k where k: "k < Suc (length s) - start" "i = start + k"
    "prefix sub (drop i s)" "\<forall>j<k. \<not> prefix sub (drop (start + j) s)"
    using assms unfolding str_find_def find_Some_iff by (auto simp del: upt_Suc)
  then show "start \<le> i" "i \<le> length s" by auto
  show "drop i s = sub @ drop (i + length sub) s"
    using k(3) by (metis add.commute append_eq_conv_conj drop_drop prefix_def)
  fix j
  assume "start \<le> j" "j < i"
  with k show "\<not> prefix sub (drop j s)"
    by (metis add_diff_inverse_nat add_less_cancel_left not_less)
qed

lemma str_find_None:
  "str_find s sub start = None \<longleftrightarrow> (\<forall>i. start \<le> i \<longrightarrow> i \<le> length s \<longrightarrow> \<not> prefix sub (drop i s))"
  unfolding str_find_def find_None_iff by (auto simp del: upt_Suc)

lemma StrContain_iff_sublist: "StrContain s sub \<longleftrightarrow> sublist sub s"
proof
  assume "StrContain s sub"
  then obtain i where "str_find s sub 0 = Some i"
    by (auto simp: StrContain_def)
  then have "s = take i s @ sub @ drop (i + length sub) s"
    using str_find_Some(3) by (metis append_take_drop_id)
  then show "sublist sub s" by (metis sublist_appendI)
next
  assume "sublist sub s"
  then obtain ps ss where "s = ps @ sub @ ss" by (auto simp: sublist_def)
  then have "prefix sub (drop (length ps) s)" "length ps \<le> length s" by auto
  then show "StrContain s sub"
    by (auto simp: StrContain_def str_find_None simp del: not_None_eq)
qed

section \<open>Splitting by a separator string\<close>

text \<open>\<open>if (!ignore_empty || len > 0) vec->emplace_back(...)\<close>\<close>

definition emit_piece :: "bool \<Rightarrow> string \<Rightarrow> string list \<Rightarrow> string list" where
  "emit_piece ignore_empty piece vec =
     (if \<not> ignore_empty \<or> piece \<noteq> [] then vec @ [piece] else vec)"

text \<open>
  The two overloads on \<open>std::string\<close> run the same loop and differ in the element type of the
  result only.  An empty separator is found at \<open>start\<close> again and again: the loop never ends.
\<close>

partial_function (option) split_string_loop ::
  "string \<Rightarrow> string \<Rightarrow> bool \<Rightarrow> nat \<Rightarrow> string list \<Rightarrow> string list option" where
  "split_string_loop str sep ignore_empty start vec =
     (case str_find str sep start of
        None \<Rightarrow> Some (emit_piece ignore_empty (drop start str) vec)
      | Some found \<Rightarrow>
          split_string_loop str sep ignore_empty (found + length sep)
            (emit_piece ignore_empty (take (found - start) (drop start str)) vec))"

definition Split_string :: "string \<Rightarrow> string \<Rightarrow> bool \<Rightarrow> string list option" where
  "Split_string str sep ignore_empty = split_string_loop str sep ignore_empty 0 []"

text \<open>The specification of a split: what to put between the pieces to get the text back.\<close>

fun intercalate :: "string \<Rightarrow> string list \<Rightarrow> string" where
  "intercalate sep [] = []"
| "intercalate sep [x] = x"
| "intercalate sep (x # y # ys) = x @ sep @ intercalate sep (y # ys)"

lemma intercalate_snoc: "xs \<noteq> [] \<Longrightarrow> intercalate sep (xs @ [x]) = intercalate sep xs @ sep @ x"
  by (induction sep xs rule: intercalate.induct) auto

lemma not_sublist_before_first:
  assumes "\<And>j. start \<le> j \<Longrightarrow> j < i \<Longrightarrow> \<not> prefix sep (drop j s)" "start \<le> i" "sep \<noteq> []"
    "i \<le> length s"
  shows "\<not> sublist sep (take (i - start) (drop start s))"
proof
  assume "sublist sep (take (i - start) (drop start s))"
  then obtain ps ss where eq: "take (i - start) (drop start s) = ps @ sep @ ss"
    by (auto simp: sublist_def)
  have "drop start s = (ps @ sep @ ss) @ drop (i - start) (drop start s)"
    by (metis eq append_take_drop_id)
  then have "drop (start + length ps) s = sep @ ss @ drop (i - start) (drop start s)"
    by (metis add.commute append.assoc append_eq_conv_conj drop_drop)
  then have "prefix sep (drop (start + length ps) s)" by simp
  moreover have "length ps < i - start"
  proof -
    have "length (ps @ sep @ ss) \<le> i - start" using eq by (metis length_take min.cobounded2)
    then show ?thesis using assms(3) by (cases sep) auto
  qed
  ultimately show False using assms(1) [of "start + length ps"] by linarith
qed

lemma split_string_loop_spec:
  assumes "sep \<noteq> []" "start \<le> length str"
  shows "\<exists>ps. split_string_loop str sep False start vec = Some (vec @ ps) \<and> ps \<noteq> [] \<and>
           intercalate sep ps = drop start str \<and> (\<forall>p \<in> set ps. \<not> sublist sep p)"
  using assms(2)
proof (induction "length str - start" arbitrary: start vec rule: less_induct)
  case less
  show ?case
  proof (cases "str_find str sep start")
    case None
    then have "\<not> sublist sep (take (length str - start) (drop start str))"
      using assms(1) less.prems
      by (intro not_sublist_before_first) (auto simp: str_find_None)
    then show ?thesis
      using None by (intro exI [of _ "[drop start str]"])
        (simp add: split_string_loop.simps emit_piece_def)
  next
    case (Some found)
    note f = str_find_Some [OF Some]
    let ?piece = "take (found - start) (drop start str)"
    have after: "found + length sep \<le> length str"
      using arg_cong [OF f(3), of length] f(2) by auto
    have "length str - (found + length sep) < length str - start"
      using f(1) after assms(1) by (cases sep) auto
    then obtain ps where ps: "split_string_loop str sep False (found + length sep) (vec @ [?piece]) =
        Some ((vec @ [?piece]) @ ps)" "ps \<noteq> []"
        "intercalate sep ps = drop (found + length sep) str" "\<forall>p \<in> set ps. \<not> sublist sep p"
      using less.hyps after by blast
    have "intercalate sep (?piece # ps) = ?piece @ drop found str"
      using ps(2,3) f(3) by (cases ps) auto
    also have "\<dots> = drop start str"
      using f(1) by (metis append_take_drop_id drop_drop le_add_diff_inverse2)
    finally have "intercalate sep (?piece # ps) = drop start str" .
    moreover have "\<not> sublist sep ?piece"
      using f assms(1) by (intro not_sublist_before_first) auto
    ultimately show ?thesis
      using ps Some by (intro exI [of _ "?piece # ps"])
        (simp add: split_string_loop.simps [of str sep False start] emit_piece_def)
  qed
qed

lemma empty_separator_loops:
  assumes "split_string_loop s sep ign start vec = Some r" "sep = []" "start \<le> length s"
  shows False
proof -
  have "sep = [] \<longrightarrow> start \<le> length s \<longrightarrow> False"
  proof (rule split_string_loop.raw_induct [OF _ assms(1)])
    fix f s sep ign start vec r
    assume IH: "\<And>s sep ign start vec r. f s sep ign start vec = Some r \<Longrightarrow>
        sep = [] \<longrightarrow> start \<le> length s \<longrightarrow> False"
      and eq: "(case str_find s sep start of
          None \<Rightarrow> Some (emit_piece ign (drop start s) vec)
        | Some found \<Rightarrow> f s sep ign (found + length sep)
            (emit_piece ign (take (found - start) (drop start s)) vec)) = Some r"
    show "sep = [] \<longrightarrow> start \<le> length s \<longrightarrow> False"
    proof (intro impI)
      assume "sep = []" "start \<le> length s"
      then have "str_find s sep start \<noteq> None"
        by (auto simp: str_find_None simp del: not_None_eq)
      then obtain found where "str_find s sep start = Some found" "found \<le> length s"
        using str_find_Some(2) by blast
      with eq IH \<open>sep = []\<close> show False by fastforce
    qed
  qed
  with assms show False by blast
qed

text \<open>With any other separator it ends.\<close>

lemma split_string_loop_ends:
  assumes "sep \<noteq> []" "start \<le> length str"
  shows "split_string_loop str sep ign start vec \<noteq> None"
  using assms(2)
proof (induction "length str - start" arbitrary: start vec rule: less_induct)
  case less
  show ?case
  proof (cases "str_find str sep start")
    case None
    then show ?thesis by (simp add: split_string_loop.simps)
  next
    case (Some found)
    note f = str_find_Some [OF Some]
    have after: "found + length sep \<le> length str"
      using arg_cong [OF f(3), of length] f(2) by auto
    have "length str - (found + length sep) < length str - start"
      using f(1) after assms(1) by (cases sep) auto
    then show ?thesis using Some less.hyps after by (simp add: split_string_loop.simps [of str sep ign start])
  qed
qed

text \<open>
  With an empty separator the splitting loop never returns, whatever the text.
\<close>

theorem Split_string_empty_separator_diverges: "Split_string str [] ignore_empty = None"
  using empty_separator_loops [of str "[]" ignore_empty 0 "[]"]
  by (cases "Split_string str [] ignore_empty") (auto simp: Split_string_def)

section \<open>Separators of one character\<close>

lemma prefix_single_drop: "prefix [c] (drop i s) \<longleftrightarrow> i < length s \<and> s ! i = c"
proof (cases "i < length s")
  case True
  then show ?thesis by (auto simp: Cons_nth_drop_Suc [symmetric])
qed simp

lemma str_find_single_None: "str_find s [c] start = None \<longleftrightarrow> (\<forall>i. start \<le> i \<longrightarrow> i < length s \<longrightarrow> s ! i \<noteq> c)"
  unfolding str_find_None prefix_single_drop by auto

lemma str_find_single_Some:
  assumes "start \<le> i" "i < length s" "s ! i = c" "\<forall>j. start \<le> j \<longrightarrow> j < i \<longrightarrow> s ! j \<noteq> c"
  shows "str_find s [c] start = Some i"
proof (cases "str_find s [c] start")
  case None
  then show ?thesis using assms by (auto simp: str_find_single_None)
next
  case (Some k)
  note f = str_find_Some [OF Some]
  have "prefix [c] (drop k s)" using f(3) by (metis prefixI)
  then have "s ! k = c" "k < length s" by (auto simp: prefix_single_drop)
  with Some assms f(1,4) show ?thesis by (metis linorder_neqE_nat prefix_single_drop)
qed

section \<open>Joining\<close>

text \<open>The element's \<open>operator<<\<close> is the argument \<open>render\<close>.\<close>

definition VectorJoin :: "('a \<Rightarrow> string) \<Rightarrow> 'a list \<Rightarrow> string \<Rightarrow> string" where
  "VectorJoin render vec symbol =
     (if vec \<noteq> [] then concat (map (\<lambda>x. render x @ symbol) (butlast vec)) @ render (last vec)
      else [])"

fun array_join_rest :: "('a \<Rightarrow> string) \<Rightarrow> 'a list \<Rightarrow> char \<Rightarrow> string \<Rightarrow> string" where
  "array_join_rest render [] separator out = out"
| "array_join_rest render (x # xs) separator out =
     array_join_rest render xs separator (out @ [separator] @ render x)"

definition ArrayJoin :: "('a \<Rightarrow> string) \<Rightarrow> 'a list \<Rightarrow> char \<Rightarrow> string" where
  "ArrayJoin render xs separator =
     (case xs of [] \<Rightarrow> [] | x # rest \<Rightarrow> array_join_rest render rest separator (render x))"

lemma VectorJoin_intercalate: "VectorJoin render vec symbol = intercalate symbol (map render vec)"
proof -
  have "intercalate symbol (map render (x # xs)) =
      concat (map (\<lambda>x. render x @ symbol) (butlast (x # xs))) @ render (last (x # xs))" for x xs
    by (induction xs arbitrary: x) auto
  then show ?thesis by (cases vec) (auto simp: VectorJoin_def)
qed

lemma intercalate_Cons_join: "intercalate [c] ((a @ c # b) # ys) = a @ c # intercalate [c] (b # ys)"
  by (cases ys) auto

lemma array_join_rest_intercalate:
  "array_join_rest render xs c out = intercalate [c] (out # map render xs)"
  by (induction render xs c out rule: array_join_rest.induct) (simp_all add: intercalate_Cons_join)

lemma ArrayJoin_eq_VectorJoin: "ArrayJoin render xs c = VectorJoin render xs [c]"
  by (cases xs) (simp_all add: ArrayJoin_def VectorJoin_intercalate array_join_rest_intercalate)

text \<open>
  C39: with a non-empty separator \<open>Utils::Split\<close> on strings (keeping empty pieces) ends,
  \<open>VectorJoin\<close> of its pieces gives the text back, and no piece contains the separator.
\<close>

theorem Split_string_roundtrip:
  assumes "sep \<noteq> []"
  shows "\<exists>ps. Split_string str sep False = Some ps \<and> VectorJoin (\<lambda>p. p) ps sep = str \<and>
           (\<forall>p \<in> set ps. \<not> StrContain p sep)"
  using split_string_loop_spec [OF assms, of 0 str "[]"]
  by (auto simp: Split_string_def VectorJoin_intercalate StrContain_iff_sublist)

theorem Split_string_roundtrip_witness:
  "\<exists>ps. Split_string ''a.b'' ''.'' False = Some ps \<and> VectorJoin (\<lambda>p. p) ps ''.'' = ''a.b''"
  using Split_string_roundtrip [of "''.''" "''a.b''"] by blast

definition join_section :: "string \<Rightarrow> string \<Rightarrow> string \<Rightarrow> string" where
  "join_section join_with sect res = (if sect \<noteq> [] then res @ join_with @ sect else res)"

definition Utils_Join ::
  "string \<Rightarrow> string \<Rightarrow> string \<Rightarrow> string \<Rightarrow> string \<Rightarrow> string \<Rightarrow> string \<Rightarrow> string" where
  "Utils_Join join_with section0 section1 section2 section3 section4 section5 =
     (let res0 = [] @ section0;
          res1 = join_section join_with section1 res0;
          res2 = join_section join_with section2 res1;
          res3 = join_section join_with section3 res2;
          res4 = join_section join_with section4 res3
      in join_section join_with section5 res4)"



lemma Utils_Join_intercalate:
  "Utils_Join w s0 s1 s2 s3 s4 s5 = intercalate w (s0 # filter (\<lambda>s. s \<noteq> []) [s1, s2, s3, s4, s5])"
  by (cases "s1 = []"; cases "s2 = []"; cases "s3 = []"; cases "s4 = []"; cases "s5 = []")
    (simp_all add: Utils_Join_def join_section_def)

section \<open>Strip\<close>

definition is_blank :: "char \<Rightarrow> bool" where
  "is_blank c \<longleftrightarrow> c = CHR '' '' \<or> c = CHR 0x0A \<or> c = CHR 0x09 \<or> c = CHR 0x00"

function strip_start :: "string \<Rightarrow> int \<Rightarrow> int \<Rightarrow> int" where
  "strip_start s i e = (if i \<le> e \<and> is_blank (s ! nat i) then strip_start s (i + 1) e else i)"
  by pat_completeness auto
termination
  by (relation "measure (\<lambda>(s, i, e). nat (e - i + 1))") auto

function strip_end :: "string \<Rightarrow> int \<Rightarrow> int \<Rightarrow> int" where
  "strip_end s i e = (if i \<le> e \<and> is_blank (s ! nat e) then strip_end s i (e - 1) else e)"
  by pat_completeness auto
termination
  by (relation "measure (\<lambda>(s, i, e). nat (e - i + 1))") auto

declare strip_start.simps [simp del] strip_end.simps [simp del]

definition Strip :: "string \<Rightarrow> string" where
  "Strip str =
     (let e0 = int (length str) - 1;
          start = strip_start str 0 e0;
          e = strip_end str start e0
      in if start > e then [] else take (nat (e - start + 1)) (drop (nat start) str))"

lemma strip_start_spec:
  "0 \<le> i \<Longrightarrow> i \<le> int (length s) \<Longrightarrow>
   strip_start s i (int (length s) - 1) = i + int (length (takeWhile is_blank (drop (nat i) s)))"
proof (induction "nat (int (length s) - i)" arbitrary: i rule: less_induct)
  case less
  show ?case
  proof (cases "i < int (length s)")
    case False
    with less show ?thesis by (simp add: strip_start.simps)
  next
    case True
    then have "drop (nat i) s = s ! nat i # drop (nat (i + 1)) s"
      using less.prems(1) by (simp add: Cons_nth_drop_Suc nat_add_distrib)
    with less True show ?thesis
      by (auto simp: strip_start.simps [of s i])
  qed
qed

abbreviation rstrip :: "string \<Rightarrow> string" where
  "rstrip xs \<equiv> rev (dropWhile is_blank (rev xs))"

lemma strip_end_spec:
  "i \<le> n \<Longrightarrow> n \<le> length s \<Longrightarrow>
   strip_end s (int i) (int n - 1) = int i + int (length (rstrip (take (n - i) (drop i s)))) - 1"
proof (induction n)
  case 0
  then show ?case by (simp add: strip_end.simps)
next
  case (Suc n)
  show ?case
  proof (cases "i = Suc n")
    case True
    then show ?thesis by (simp add: strip_end.simps)
  next
    case False
    with Suc.prems have "take (Suc n - i) (drop i s) = take (n - i) (drop i s) @ [s ! n]"
      by (simp add: Suc_diff_le take_Suc_conv_app_nth)
    with Suc False show ?thesis by (auto simp: strip_end.simps [of s "int i" "int n"])
  qed
qed

lemma rstrip_prefix: "take (length (rstrip xs)) xs = rstrip xs"
  by (metis append_eq_conv_conj append_take_drop_id rev_append rev_rev_ident
      takeWhile_dropWhile_id)

text \<open>
  \<open>Utils::Strip\<close> removes exactly the blanks, tabs, newlines and null characters at both
  ends of the text (all of it when nothing else is there).
\<close>

theorem Strip_correct: "Strip s = rev (dropWhile is_blank (rev (dropWhile is_blank s)))"
proof -
  define i where "i = length (takeWhile is_blank s)"
  have i: "i \<le> length s" "drop i s = dropWhile is_blank s"
    by (auto simp: i_def length_takeWhile_le dropWhile_eq_drop)
  have "strip_start s 0 (int (length s) - 1) = int i"
    using strip_start_spec [of 0 s] by (simp add: i_def)
  moreover have "strip_end s (int i) (int (length s) - 1) =
      int i + int (length (rstrip (drop i s))) - 1"
    using strip_end_spec [of i "length s" s] i(1) by simp
  ultimately show ?thesis
    using rstrip_prefix [of "dropWhile is_blank s"] i by (simp add: Strip_def Let_def)
qed

section \<open>SplitStr over strtok_r\<close>

datatype cpp_exception = Null_String_Construction

text \<open>\<open>std::string::c_str\<close> as a C string ends at the first null character.\<close>

definition c_str :: "string \<Rightarrow> string" where
  "c_str s = takeWhile (\<lambda>c. c \<noteq> CHR 0x00) s"

definition strtok_r :: "string \<Rightarrow> string \<Rightarrow> (string \<times> string) option" where
  "strtok_r delims s =
     (let t = dropWhile (\<lambda>c. c \<in> set delims) s in
      if t = [] then None
      else Some (takeWhile (\<lambda>c. c \<notin> set delims) t, drop 1 (dropWhile (\<lambda>c. c \<notin> set delims) t)))"

lemma strtok_r_shorter: "strtok_r delims s = Some (tok, rest) \<Longrightarrow> length rest < length s"
proof -
  assume "strtok_r delims s = Some (tok, rest)"
  then have t: "dropWhile (\<lambda>c. c \<in> set delims) s \<noteq> []"
    and rest: "rest = drop 1 (dropWhile (\<lambda>c. c \<notin> set delims) (dropWhile (\<lambda>c. c \<in> set delims) s))"
    by (auto simp: strtok_r_def Let_def split: if_splits)
  have "length rest \<le> length (dropWhile (\<lambda>c. c \<in> set delims) s) - 1"
    using length_dropWhile_le [of "\<lambda>c. c \<notin> set delims" "dropWhile (\<lambda>c. c \<in> set delims) s"]
    by (simp add: rest)
  with t length_dropWhile_le [of "\<lambda>c. c \<in> set delims" s] show ?thesis
    by (metis One_nat_def diff_less dual_order.trans le_less_trans length_greater_0_conv
        less_imp_le_nat not_less zero_less_one leD)
qed

function split_tokens :: "string \<Rightarrow> string \<Rightarrow> string list" where
  "split_tokens delims s =
     (case strtok_r delims s of None \<Rightarrow> [] | Some (tok, rest) \<Rightarrow> tok # split_tokens delims rest)"
  by pat_completeness auto
termination
  by (relation "measure (\<lambda>(delims, s). length s)") (auto dest: strtok_r_shorter)

declare split_tokens.simps [simp del]

definition SplitStr :: "string \<Rightarrow> string \<Rightarrow> string list \<Rightarrow> cpp_exception + (bool \<times> string list)" where
  "SplitStr origin symbol container =
     (if origin = [] \<or> symbol = [] then Inr (False, container)
      else case strtok_r (c_str symbol) (c_str origin) of
             None \<Rightarrow> Inl Null_String_Construction
           | Some (p, rest) \<Rightarrow> Inr (True, p # split_tokens (c_str symbol) rest))"

lemma strtok_r_spec:
  assumes "strtok_r delims s = Some (tok, rest)"
  shows "tok \<noteq> []" "set tok \<inter> set delims = {}"
    "filter (\<lambda>c. c \<notin> set delims) s = tok @ filter (\<lambda>c. c \<notin> set delims) rest"
proof -
  let ?D = "\<lambda>c. c \<in> set delims" and ?N = "\<lambda>c. c \<notin> set delims"
  define t where "t = dropWhile ?D s"
  have t: "t \<noteq> []" "tok = takeWhile ?N t" "rest = drop 1 (dropWhile ?N t)"
    using assms by (auto simp: strtok_r_def t_def Let_def split: if_splits)
  then have "hd t \<notin> set delims" using hd_dropWhile [of ?D s] by (auto simp: t_def)
  with t(1,2) show "tok \<noteq> []" by (cases t) auto
  show "set tok \<inter> set delims = {}" using t(2) by (auto dest: set_takeWhileD)
  have "filter ?N (takeWhile ?D s) = []"
    by (auto simp: filter_empty_conv dest: set_takeWhileD)
  then have "filter ?N s = filter ?N t"
    using filter_append [of ?N "takeWhile ?D s" t] by (simp add: t_def)
  also have "\<dots> = filter ?N (takeWhile ?N t) @ filter ?N (dropWhile ?N t)"
    by (simp only: filter_append [symmetric] takeWhile_dropWhile_id)
  also have "filter ?N (takeWhile ?N t) = tok"
    using t(2) by (auto simp: filter_id_conv dest: set_takeWhileD)
  also have "filter ?N (dropWhile ?N t) = filter ?N rest"
  proof (cases "dropWhile ?N t")
    case Nil
    then show ?thesis unfolding t(3) by (simp only: drop_Nil)
  next
    case (Cons x xs)
    then have "x \<in> set delims" using hd_dropWhile [of ?N t] by auto
    with Cons t(3) show ?thesis by simp
  qed
  finally show "filter ?N s = tok @ filter ?N rest" .
qed

lemma strtok_r_None: "strtok_r delims s = None \<longleftrightarrow> set s \<subseteq> set delims"
  by (auto simp: strtok_r_def Let_def)

lemma split_tokens_spec:
  "concat (split_tokens delims s) = filter (\<lambda>c. c \<notin> set delims) s \<and>
   (\<forall>t \<in> set (split_tokens delims s). t \<noteq> [] \<and> set t \<inter> set delims = {})"
proof (induction delims s rule: split_tokens.induct)
  case (1 delims s)
  show ?case
  proof (cases "strtok_r delims s")
    case None
    then have "filter (\<lambda>c. c \<notin> set delims) s = []"
      using strtok_r_None [of delims s] by (auto simp: filter_empty_conv)
    with None show ?thesis by (simp add: split_tokens.simps)
  next
    case (Some r)
    obtain tok rest where "r = (tok, rest)" by (cases r)
    with Some 1 strtok_r_spec [of delims s tok rest] show ?thesis
      by (auto simp: split_tokens.simps [of delims s])
  qed
qed

text \<open>
  On non-empty arguments \<open>SplitStr\<close> either returns true with the maximal
  delimiter-free runs of the text (non-empty, holding no delimiter, together exactly the
  non-delimiter characters in order), or throws: it constructs a string from a null pointer
  exactly when the text has nothing but delimiters.
\<close>

theorem SplitStr_cases:
  assumes "origin \<noteq> []" "symbol \<noteq> []"
  shows "if set (c_str origin) \<subseteq> set (c_str symbol)
         then SplitStr origin symbol container = Inl Null_String_Construction
         else \<exists>tokens. SplitStr origin symbol container = Inr (True, tokens) \<and>
           concat tokens = filter (\<lambda>c. c \<notin> set (c_str symbol)) (c_str origin) \<and>
           list_all (\<lambda>t. t \<noteq> [] \<and> set t \<inter> set (c_str symbol) = {}) tokens"
proof (cases "strtok_r (c_str symbol) (c_str origin)")
  case None
  then have "set (c_str origin) \<subseteq> set (c_str symbol)" by (simp add: strtok_r_None)
  with None show ?thesis using assms by (simp add: SplitStr_def)
next
  case (Some r)
  obtain tok rest where r: "r = (tok, rest)" by (cases r)
  have "\<not> set (c_str origin) \<subseteq> set (c_str symbol)"
    using Some strtok_r_None by (metis option.distinct(1))
  with Some r strtok_r_spec [of "c_str symbol" "c_str origin" tok rest]
    split_tokens_spec [of "c_str symbol" rest]
  show ?thesis using assms by (auto simp: SplitStr_def list_all_iff)
qed

theorem SplitStr_cases_witness:
  "SplitStr '',,'' '','' [] = Inl Null_String_Construction"
  using SplitStr_cases [of "'',,''" "'',''" "[]"] by (simp add: c_str_def)

end
