(* ===== verification/Data_Views.thy ===== *)
theory Data_Views
  imports String_Utils
begin

text \<open>
  The views of src/kernel/common/data/data.h, a pointer with a length, and the two overloads of
  \<open>Utils::Split\<close> (kernel/common/utils/utils.cc) that cut a text into views instead of copies.
  Memory is a function from addresses to characters.  Read back, the views are the pieces that
  \<open>String_Utils\<close> computes on strings.
\<close>

section \<open>Data\<close>

record data_view =
  dv_data :: nat
  dv_len :: nat

definition Data_new :: "nat \<Rightarrow> nat \<Rightarrow> data_view" where
  "Data_new p l = \<lparr>dv_data = p, dv_len = l\<rparr>"

definition dv_Empty :: "data_view \<Rightarrow> bool" where
  "dv_Empty d = (dv_len d = 0)"

definition dv_Assign :: "nat \<Rightarrow> nat \<Rightarrow> data_view \<Rightarrow> data_view" where
  "dv_Assign p l d = d\<lparr>dv_data := p, dv_len := l\<rparr>"

definition dv_Assign_data :: "data_view \<Rightarrow> data_view \<Rightarrow> data_view" where
  "dv_Assign_data e d = d\<lparr>dv_data := dv_data e, dv_len := dv_len e\<rparr>"

text \<open>A string whose characters lie from \<open>a\<close> on.\<close>

definition dv_Assign_string :: "nat \<Rightarrow> string \<Rightarrow> data_view \<Rightarrow> data_view" where
  "dv_Assign_string a s d = d\<lparr>dv_data := a, dv_len := length s\<rparr>"

definition dv_ToString :: "(nat \<Rightarrow> char) \<Rightarrow> data_view \<Rightarrow> string" where
  "dv_ToString mem d = map mem [dv_data d..<dv_data d + dv_len d]"

definition dv_clear :: "data_view \<Rightarrow> data_view" where
  "dv_clear d = d\<lparr>dv_len := 0\<rparr>"

lemma dv_ToString_nil [simp]: "dv_ToString mem d = [] \<longleftrightarrow> dv_len d = 0"
  by (auto simp: dv_ToString_def)

section \<open>Splitting without copies\<close>

definition emit_view :: "bool \<Rightarrow> nat \<Rightarrow> nat \<Rightarrow> data_view list \<Rightarrow> data_view list" where
  "emit_view ignore_empty p len vec = (if \<not> ignore_empty \<or> 0 < len then vec @ [Data_new p len] else vec)"

text \<open>The overload on a string, whose characters lie from \<open>a\<close> on.\<close>

partial_function (option) split_views_loop ::
  "nat \<Rightarrow> string \<Rightarrow> string \<Rightarrow> bool \<Rightarrow> nat \<Rightarrow> data_view list \<Rightarrow> data_view list option" where
  "split_views_loop a str sep ignore_empty start vec =
     (case str_find str sep start of
        None \<Rightarrow> Some (emit_view ignore_empty (a + start) (length str - start) vec)
      | Some found \<Rightarrow>
          split_views_loop a str sep ignore_empty (found + length sep)
            (emit_view ignore_empty (a + start) (found - start) vec))"

definition Split_views :: "nat \<Rightarrow> string \<Rightarrow> string \<Rightarrow> bool \<Rightarrow> data_view list option" where
  "Split_views a str sep ignore_empty = split_views_loop a str sep ignore_empty 0 []"

text \<open>
  The overload on a view scans once and keeps how much of the separator is matched; \<open>split_point\<close> is where the
  current match began.  \<open>sep[sep.size()]\<close> is the terminating null character.  \<open>n\<close> counts the characters that are
  left, \<open>start\<close> is the code's \<open>begin\<close>.
\<close>

definition sep_at :: "string \<Rightarrow> nat \<Rightarrow> char" where
  "sep_at sep i = (if i < length sep then sep ! i else CHR 0x00)"

fun scan_views_loop ::
  "(nat \<Rightarrow> char) \<Rightarrow> string \<Rightarrow> bool \<Rightarrow> nat \<Rightarrow> nat \<Rightarrow> nat \<Rightarrow> nat \<Rightarrow> nat \<Rightarrow> data_view list \<Rightarrow> data_view list" where
  "scan_views_loop mem sep ignore_empty 0 p cmp_point split_point start vec =
     emit_view ignore_empty start (p - start) vec"
| "scan_views_loop mem sep ignore_empty (Suc n) p cmp_point split_point start vec =
     (if mem p = sep_at sep cmp_point then
        let split_point' = (if cmp_point = 0 then p else split_point) in
        if Suc cmp_point = length sep then
          scan_views_loop mem sep ignore_empty n (Suc p) 0 split_point' (Suc p)
            (emit_view ignore_empty start (split_point' - start) vec)
        else scan_views_loop mem sep ignore_empty n (Suc p) (Suc cmp_point) split_point' start vec
      else scan_views_loop mem sep ignore_empty n (Suc p) 0 split_point start vec)"

definition Split_view :: "(nat \<Rightarrow> char) \<Rightarrow> data_view \<Rightarrow> string \<Rightarrow> bool \<Rightarrow> data_view list" where
  "Split_view mem data sep ignore_empty =
     scan_views_loop mem sep ignore_empty (dv_len data) (dv_data data) 0 (dv_data data + dv_len data) (dv_data data) []"

section \<open>The views read back\<close>

definition lies_at :: "(nat \<Rightarrow> char) \<Rightarrow> nat \<Rightarrow> string \<Rightarrow> bool" where
  "lies_at mem a s \<longleftrightarrow> (\<forall>i < length s. mem (a + i) = s ! i)"

lemma lies_at_ToString: "lies_at mem a (dv_ToString mem \<lparr>dv_data = a, dv_len = n\<rparr>)"
  by (simp add: lies_at_def dv_ToString_def)

lemma read_view:
  assumes "lies_at mem a s" "i + n \<le> length s"
  shows "dv_ToString mem (Data_new (a + i) n) = take n (drop i s)"
  using assms by (intro nth_equalityI) (auto simp: dv_ToString_def Data_new_def lies_at_def add.assoc)

lemma read_emit:
  assumes "lies_at mem a s" "i + n \<le> length s"
  shows "map (dv_ToString mem) (emit_view ign (a + i) n vec) =
    emit_piece ign (take n (drop i s)) (map (dv_ToString mem) vec)"
  using read_view [OF assms] assms(2) by (auto simp: emit_view_def emit_piece_def)

lemma found_in_text: "str_find s sub start = Some i \<Longrightarrow> start \<le> i \<and> i + length sub \<le> length s"
proof -
  assume f: "str_find s sub start = Some i"
  have "length s - i = length sub + (length s - (i + length sub))" using arg_cong [OF str_find_Some(3) [OF f], of length] by simp
  then show ?thesis using str_find_Some(1,2) [OF f] by linarith
qed

lemma views_loop_read:
  assumes "lies_at mem a s" "start \<le> length s"
  shows "map_option (map (dv_ToString mem)) (split_views_loop a s sep ign start vec) =
    split_string_loop s sep ign start (map (dv_ToString mem) vec)"
proof (cases "sep = []")
  case False
  from assms(2) show ?thesis
  proof (induction "length s - start" arbitrary: start vec rule: less_induct)
    case less
    show ?case
    proof (cases "str_find s sep start")
      case None
      then show ?thesis using read_emit [OF assms(1), of start "length s - start" ign vec] less.prems
        by (simp add: split_views_loop.simps split_string_loop.simps)
    next
      case (Some found)
      note f = found_in_text [OF Some]
      have "length s - (found + length sep) < length s - start" using f False by (cases sep) auto
      then show ?thesis
        using Some f less.hyps read_emit [OF assms(1), of start "found - start" ign vec]
        by (simp add: split_views_loop.simps [of _ _ _ _ start] split_string_loop.simps [of _ _ _ start])
    qed
  qed
next
  case True
  have "False" if "split_views_loop b u sp ig st v = Some r" "sp = []" "st \<le> length u" for b u sp ig st v r
  proof -
    have "sp = [] \<longrightarrow> st \<le> length u \<longrightarrow> False"
    proof (rule split_views_loop.raw_induct [OF _ that(1)], intro impI)
      fix f :: "nat \<Rightarrow> string \<Rightarrow> string \<Rightarrow> bool \<Rightarrow> nat \<Rightarrow> data_view list \<Rightarrow> data_view list option" and b u sp ig st v r
      assume IH: "\<And>b u sp ig st v r. f b u sp ig st v = Some r \<Longrightarrow> sp = [] \<longrightarrow> st \<le> length u \<longrightarrow> False"
        and eq: "(case str_find u sp st of None \<Rightarrow> Some (emit_view ig (b + st) (length u - st) v)
          | Some found \<Rightarrow> f b u sp ig (found + length sp) (emit_view ig (b + st) (found - st) v)) = Some r"
        and A: "sp = []" "st \<le> length u"
      then obtain i where "str_find u sp st = Some i" "i \<le> length u"
        using str_find_None [of u sp st] found_in_text [of u sp st] by (cases "str_find u sp st") auto
      then show False using eq IH A(1) by fastforce
    qed
    with that show False by blast
  qed
  then have "split_views_loop a s sep ign start vec = None" using True assms(2) by (cases "split_views_loop a s sep ign start vec") auto
  then show ?thesis using True empty_separator_loops [of s sep ign start] assms(2) by (cases "split_string_loop s sep ign start (map (dv_ToString mem) vec)") auto
qed

text \<open>For a separator of one character scanning finds what searching finds.\<close>

lemma scan_single_read:
  assumes "lies_at mem a s" "s = take p s @ cs" "p \<le> length s" "start \<le> p"
    "\<forall>j. start \<le> j \<longrightarrow> j < p \<longrightarrow> s ! j \<noteq> c"
  shows "split_string_loop s [c] ign start (map (dv_ToString mem) vec) =
    Some (map (dv_ToString mem) (scan_views_loop mem [c] ign (length cs) (a + p) 0 sp (a + start) vec))"
  using assms(2-)
proof (induction cs arbitrary: p sp start vec)
  case Nil
  then have "p = length s" by (metis append_Nil2 length_take min.absorb2)
  with Nil have "str_find s [c] start = None" by (auto simp: str_find_single_None)
  then show ?case
    using Nil \<open>p = length s\<close> read_emit [OF assms(1), of start "p - start" ign vec] by (simp add: split_string_loop.simps)
next
  case (Cons d cs)
  have *: "drop p s = d # cs" using Cons.prems(1) by (metis append_take_drop_id same_append_eq)
  then have p: "p < length s" by (metis drop_eq_Nil list.distinct(1) not_le)
  have d: "s ! p = d" "s = take (Suc p) s @ cs" using * p by (metis Cons_nth_drop_Suc append_take_drop_id list.inject)+
  have mem: "mem (a + p) = d" using assms(1) p d(1) by (simp add: lies_at_def)
  show ?case
  proof (cases "d = c")
    case True
    have "str_find s [c] start = Some p"
      using Cons.prems p d True by (intro str_find_single_Some) auto
    then show ?thesis
      using True mem Cons.IH [of "Suc p" "Suc p" "emit_view ign (a + start) (p - start) vec" "a + p"] d(2) p Cons.prems(3)
        read_emit [OF assms(1), of start "p - start" ign vec]
      by (simp add: split_string_loop.simps [of s "[c]" ign start] sep_at_def Let_def)
  next
    case False
    then have "\<forall>j. start \<le> j \<longrightarrow> j < Suc p \<longrightarrow> s ! j \<noteq> c"
      using Cons.prems(4) d(1) less_Suc_eq by auto
    then show ?thesis
      using False mem Cons.prems(3) d(2) p Cons.IH [of "Suc p" start vec sp] by (simp add: sep_at_def)
  qed
qed

text \<open>
  C40: Splitting into views.  With a non-empty separator the searching overload ends, and its views, read where the
  text lies, are the strings of the overload that copies, with either treatment of empty pieces; with an empty
  separator neither returns.  The overload that scans a view agrees with them for a separator of one character.
\<close>

theorem Split_views_read:
  assumes "lies_at mem a s"
  shows "(sep \<noteq> [] \<longrightarrow>
      (\<exists>vs. Split_views a s sep ign = Some vs \<and> Split_string s sep ign = Some (map (dv_ToString mem) vs))) \<and>
    Split_views a s [] ign = None \<and> Split_string s [] ign = None \<and>
    Split_string s [c] ign = Some (map (dv_ToString mem) (Split_view mem (Data_new a (length s)) [c] ign))"
proof (intro conjI impI)
  note read = views_loop_read [OF assms, of 0, simplified]
  show "Split_string s [] ign = None"
    using empty_separator_loops [of s "[]" ign 0 "[]"] by (cases "Split_string s [] ign") (auto simp: Split_string_def)
  then show "Split_views a s [] ign = None" using read [of "[]" ign "[]"] by (simp add: Split_views_def Split_string_def)
  show "\<exists>vs. Split_views a s sep ign = Some vs \<and> Split_string s sep ign = Some (map (dv_ToString mem) vs)" if "sep \<noteq> []"
    using read [of sep ign "[]"] split_string_loop_ends [OF that, of 0 s ign "[]"]
    by (cases "Split_views a s sep ign") (auto simp: Split_views_def Split_string_def)
  show "Split_string s [c] ign = Some (map (dv_ToString mem) (Split_view mem (Data_new a (length s)) [c] ign))"
    using scan_single_read [OF assms, of 0 s 0 c ign "[]"] by (simp add: Split_string_def Split_view_def Data_new_def)
qed

theorem Split_views_read_witness:
  "(\<exists>vs. Split_views 3 ''a, b'' '', '' False = Some vs \<and> map (dv_ToString (\<lambda>x. ''xyza, b'' ! x)) vs = [''a'', ''b'']) \<and>
   Split_string ''a, b'' '','' False = Some (map (dv_ToString (\<lambda>x. ''xyza, b'' ! x)) (Split_view (\<lambda>x. ''xyza, b'' ! x) (Data_new 3 (length ''a, b'')) '','' False))"
proof -
  have "lies_at (\<lambda>x. ''xyza, b'' ! x) 3 ''a, b''" by (auto simp: lies_at_def less_Suc_eq)
  moreover have "Split_string ''a, b'' '', '' False = Some [''a'', ''b'']"
    by (simp add: Split_string_def split_string_loop.simps str_find_def upt_rec emit_piece_def)
  ultimately show ?thesis
    using Split_views_read [of "\<lambda>x. ''xyza, b'' ! x" 3 "''a, b''" "'', ''" False "CHR '',''"] by auto
qed

text \<open>
  For longer separators the overloads differ: the scanning one goes on behind the character that does not match, and
  misses the separator in \<open>aab\<close> that the searching one finds.
\<close>

theorem Split_view_misses_overlap:
  "map (dv_ToString (\<lambda>x. ''aab'' ! x)) (Split_view (\<lambda>x. ''aab'' ! x) (Data_new 0 3) ''ab'' False) = [''aab''] \<and>
   Split_string ''aab'' ''ab'' False = Some [''a'', '''']"
proof
  have "Split_view (\<lambda>x. ''aab'' ! x) (Data_new 0 3) ''ab'' False = [Data_new 0 3]"
    by (simp add: Split_view_def Data_new_def sep_at_def emit_view_def numeral_3_eq_3)
  then show "map (dv_ToString (\<lambda>x. ''aab'' ! x)) (Split_view (\<lambda>x. ''aab'' ! x) (Data_new 0 3) ''ab'' False) = [''aab'']"
    by (simp add: Data_new_def dv_ToString_def upt_rec)
  show "Split_string ''aab'' ''ab'' False = Some [''a'', '''']"
    by (simp add: Split_string_def split_string_loop.simps str_find_def upt_rec emit_piece_def)
qed

end
