(* ===== verification/File_Store.thy ===== *)
theory File_Store
  imports Prelude
begin

text \<open>
  \<open>data::Status\<close> (kernel/common/data/status) and \<open>FileStore\<close>
  (kernel/store/file_store.cc): a file with positional reads and writes, whose size is cached in
  \<open>size_\<close>.  The operating system is the record \<open>os\<close>: the files' contents and its
  answers to the system calls (how many bytes a \<open>write\<close> or \<open>read\<close> of n bytes transfers,
  None for -1), so that short and failing calls are covered.
\<close>

section \<open>Status\<close>

datatype status_code = Success | Exception | OperatorForbidden

record status =
  status_code :: status_code
  reason :: string

definition Status1 :: "status_code \<Rightarrow> status" where
  "Status1 code = \<lparr>status_code = code, reason = []\<rparr>"

definition Status2 :: "status_code \<Rightarrow> string \<Rightarrow> status" where
  "Status2 code rs = \<lparr>status_code = code, reason = rs\<rparr>"

definition operate :: "status \<Rightarrow> bool" where
  "operate st = (status_code st = Success)"

lemma operate_simps [simp]:
  "operate (Status1 c) \<longleftrightarrow> c = Success"
  "operate (Status2 c r) \<longleftrightarrow> c = Success"
  by (simp_all add: operate_def Status1_def Status2_def)

section \<open>The operating system\<close>

record os =
  files :: "string \<Rightarrow> bytes option"
  open_ok :: "string \<Rightarrow> bool \<Rightarrow> bool"
  wr_ans :: "nat \<Rightarrow> nat option"
  rd_ans :: "nat \<Rightarrow> nat option"
  mmap_ans :: "nat option"

type_synonym fd = "string \<times> bool"  \<comment> \<open>the path, and whether it was opened read-only\<close>

definition file_of :: "os \<Rightarrow> string \<Rightarrow> bytes" where
  "file_of os path = (case files os path of None \<Rightarrow> [] | Some f \<Rightarrow> f)"

definition set_file :: "os \<Rightarrow> string \<Rightarrow> bytes \<Rightarrow> os" where
  "set_file os path f = os\<lparr>files := (files os)(path \<mapsto> f)\<rparr>"

definition sys_open :: "os \<Rightarrow> string \<Rightarrow> bool \<Rightarrow> os \<times> fd option" where
  "sys_open os path read_only =
     (if \<not> open_ok os path read_only then (os, None)
      else if read_only then
        (os, if files os path = None then None else Some (path, True))
      else (if files os path = None then set_file os path [] else os, Some (path, False)))"

text \<open>A file offset is a non-negative \<open>off_t\<close>.\<close>

definition sys_lseek :: "int \<Rightarrow> nat option" where
  "sys_lseek pos = (if 0 \<le> pos \<and> pos < 2 ^ 63 then Some (nat pos) else None)"

definition sys_write :: "os \<Rightarrow> fd \<Rightarrow> nat \<Rightarrow> bytes \<Rightarrow> os \<times> nat option" where
  "sys_write os fd pos buf =
     (case fd of (path, read_only) \<Rightarrow>
       if read_only then (os, None)
       else case wr_ans os (length buf) of
              None \<Rightarrow> (os, None)
            | Some n \<Rightarrow>
                let chunk = take n buf in
                (if chunk = [] then os
                 else set_file os path (put_bytes pos chunk (file_of os path)),
                 Some (length chunk)))"

definition sys_read :: "os \<Rightarrow> fd \<Rightarrow> nat \<Rightarrow> nat \<Rightarrow> bytes option" where
  "sys_read os fd pos n =
     (case rd_ans os n of
        None \<Rightarrow> None
      | Some k \<Rightarrow> Some (take k (get_bytes pos n (file_of os (fst fd)))))"

definition sys_ftruncate :: "os \<Rightarrow> fd option \<Rightarrow> nat \<Rightarrow> os option" where
  "sys_ftruncate os fd n =
     (case fd of
        None \<Rightarrow> None
      | Some (path, read_only) \<Rightarrow>
          if read_only \<or> 2 ^ 63 \<le> n then None
          else let f = file_of os path in
               Some (set_file os path (take n f @ replicate (n - length f) 0)))"

section \<open>FileStore\<close>

record file_store =
  fs_fd :: "fd option"
  fs_size :: nat
  fs_name :: string

definition FileStore_new :: file_store where
  "FileStore_new = \<lparr>fs_fd = None, fs_size = 0, fs_name = []\<rparr>"

text \<open>Positions arrive as pointers: an address is 64 bits, read as a signed \<open>off_t\<close>.\<close>

definition fs_GetFileSize :: "os \<Rightarrow> 'a file_store_scheme \<Rightarrow> nat" where
  "fs_GetFileSize os st =
     (case fs_fd st of None \<Rightarrow> 2 ^ 64 - 1 | Some fd \<Rightarrow> length (file_of os (fst fd)))"

definition fs_Open ::
  "os \<Rightarrow> 'a file_store_scheme \<Rightarrow> string \<Rightarrow> bool \<Rightarrow> status \<times> os \<times> 'a file_store_scheme" where
  "fs_Open os st name read_only =
     (if fs_fd st \<noteq> None then (Status2 Exception ''already open'', os, st)
      else case sys_open os name read_only of
             (os', None) \<Rightarrow> (Status2 Exception ''Open Fail'', os', st)
           | (os', Some fd) \<Rightarrow>
               let st1 = st\<lparr>fs_fd := Some fd\<rparr> in
               (Status1 Success, os', st1\<lparr>fs_size := fs_GetFileSize os' st1, fs_name := name\<rparr>))"

definition fs_Close :: "'a file_store_scheme \<Rightarrow> status \<times> 'a file_store_scheme" where
  "fs_Close st =
     (if fs_fd st = None then (Status1 Success, st)
      else (Status1 Success, st\<lparr>fs_fd := None, fs_size := 0, fs_name := []\<rparr>))"

definition fs_Write ::
  "os \<Rightarrow> 'a file_store_scheme \<Rightarrow> u64 \<Rightarrow> bytes \<Rightarrow> status \<times> os \<times> 'a file_store_scheme" where
  "fs_Write os st addr data =
     (case fs_fd st of
        None \<Rightarrow> (Status2 Exception ''Not Open'', os, st)
      | Some fd \<Rightarrow>
          (case sys_lseek (sint addr) of
             None \<Rightarrow> (Status2 Exception ''Lseek Fail'', os, st)
           | Some pos \<Rightarrow>
               (case sys_write os fd pos data of
                  (os', None) \<Rightarrow> (Status2 Exception ''Write Fail'', os', st)
                | (os', Some ret) \<Rightarrow>
                    (Status1 Success, os',
                     st\<lparr>fs_size := (if unat addr + length data > fs_size st
                                  then unat addr + length data else fs_size st)\<rparr>))))"

definition fs_Append ::
  "os \<Rightarrow> 'a file_store_scheme \<Rightarrow> bytes \<Rightarrow> status \<times> os \<times> 'a file_store_scheme" where
  "fs_Append os st data =
     (let addr = of_nat (fs_size st) :: u64 in
      if sint addr < 0 then (Status2 Exception ''get size exception'', os, st)
      else fs_Write os st addr data)"

text \<open>The bytes are those put into the caller's buffer, \<open>data->len\<close> of them, on success.\<close>

definition fs_Read :: "os \<Rightarrow> 'a file_store_scheme \<Rightarrow> u64 \<Rightarrow> nat \<Rightarrow> status \<times> bytes" where
  "fs_Read os st addr len =
     (case fs_fd st of
        None \<Rightarrow> (Status2 Exception ''Not Open'', [])
      | Some fd \<Rightarrow>
          let pos = sint addr; size = length (file_of os (fst fd)) in
          if pos > int size then (Status2 Exception ''Pos Out Of Range'', [])
          else case sys_lseek pos of
                 None \<Rightarrow> (Status2 Exception ''Lseek Fail'', [])
               | Some pointer \<Rightarrow>
                   let left_size = size - pointer;
                       read_len = (if left_size > len then len else left_size)
                   in (case sys_read os fd pointer read_len of
                         None \<Rightarrow> (Status2 Exception ''Length Exception'', [])
                       | Some buf \<Rightarrow>
                           if read_len \<noteq> length buf
                           then (Status2 Exception ''Length Exception'', [])
                           else (Status1 Success, buf)))"

text \<open>
  \<open>Expand\<close> seeks \<open>size - 1\<close> bytes past the end of the file and writes one byte there: the
  lowest byte of the variable \<open>size\<close> itself.
\<close>

definition fs_Expand ::
  "os \<Rightarrow> 'a file_store_scheme \<Rightarrow> nat \<Rightarrow> status \<times> os \<times> 'a file_store_scheme" where
  "fs_Expand os st sz =
     (if sz = 0 then (Status1 Success, os, st)
      else case fs_fd st of
             None \<Rightarrow> (Status2 Exception ''not open'', os, st)
           | Some fd \<Rightarrow>
               (case sys_lseek (int (length (file_of os (fst fd))) + sint (of_nat (sz - 1) :: u64)) of
                  None \<Rightarrow> (Status2 Exception ''expand size exception'', os, st)
                | Some pos \<Rightarrow>
                    (case sys_write os fd pos (le_bytes 1 sz) of
                       (os', None) \<Rightarrow> (Status2 Exception ''expand size exception'', os', st)
                     | (os', Some _) \<Rightarrow> (Status1 Success, os', st\<lparr>fs_size := fs_size st + sz\<rparr>))))"

definition fs_Truncate :: "os \<Rightarrow> 'a file_store_scheme \<Rightarrow> nat \<Rightarrow> status \<times> os" where
  "fs_Truncate os st sz =
     (case sys_ftruncate os (fs_fd st) sz of
        None \<Rightarrow> (Status2 Exception ''ftruncate exception'', os)
      | Some os' \<Rightarrow> (Status1 Success, os'))"

definition fs_GetSize :: "'a file_store_scheme \<Rightarrow> nat" where
  "fs_GetSize st = fs_size st"

section \<open>Facts about the system calls\<close>

definition full_io :: "os \<Rightarrow> bool" where
  "full_io os \<longleftrightarrow> (\<forall>n. wr_ans os n = Some n \<and> rd_ans os n = Some n)"

lemma sint_u64_small: "unat (a :: u64) < 2 ^ 63 \<Longrightarrow> sint a = int (unat a)"
proof -
  assume small: "unat a < 2 ^ 63"
  have u: "uint a = int (unat a)" by simp
  have "uint a < 2 ^ 63"
    using small u by (metis of_nat_less_iff of_nat_numeral of_nat_power)
  moreover have "- (2 ^ 63) \<le> uint a"
    by (rule order_trans [OF _ uint_ge_0]) simp
  ultimately
  show "sint a = int (unat a)"
    unfolding sint_uint u [symmetric] by (intro signed_take_bit_int_eq_self) simp_all
qed

lemma sint_of_nat_u64 [simp]: "n < 2 ^ 63 \<Longrightarrow> sint (of_nat n :: u64) = int n"
  by (subst sint_u64_small) (simp_all add: unat_of_nat take_bit_nat_eq_self)

lemma unat_of_nat_u64 [simp]: "n < 2 ^ 64 \<Longrightarrow> unat (of_nat n :: u64) = n"
  by (simp add: unat_of_nat take_bit_nat_eq_self)

lemma sint_u64_nonneg: "0 \<le> sint (a :: u64) \<Longrightarrow> sint a = int (unat a)"
proof -
  assume nonneg: "0 \<le> sint a"
  have "sint a < 2 ^ 63" using sint_less [of a] by simp
  then have small: "nat (sint a) < 2 ^ 64" using nonneg by simp
  have "a = of_nat (nat (sint a))"
    using nonneg by simp
  then have "unat a = nat (sint a)"
    using unat_of_nat_u64 [OF small] by metis
  then show ?thesis using nonneg by simp
qed

lemma sys_lseek_int [simp]: "n < 2 ^ 63 \<Longrightarrow> sys_lseek (int n) = Some n"
  by (simp add: sys_lseek_def)

lemma sys_lseek_addr: "unat (a :: u64) < 2 ^ 63 \<Longrightarrow> sys_lseek (sint a) = Some (unat a)"
  by (subst sint_u64_small) (simp_all del: of_nat_unat)

lemma file_of_set_file [simp]: "file_of (set_file os p f) q = (if q = p then f else file_of os q)"
  by (simp add: file_of_def set_file_def)

lemma set_file_env [simp]:
  "wr_ans (set_file os p f) = wr_ans os" "rd_ans (set_file os p f) = rd_ans os"
  "mmap_ans (set_file os p f) = mmap_ans os" "open_ok (set_file os p f) = open_ok os"
  "full_io (set_file os p f) = full_io os"
  by (simp_all add: set_file_def full_io_def)

lemma sys_write_full:
  "full_io os \<Longrightarrow> sys_write os (p, False) pos buf =
     (if buf = [] then os else set_file os p (put_bytes pos buf (file_of os p)), Some (length buf))"
  by (simp add: sys_write_def full_io_def)

lemma sys_read_full:
  "full_io os \<Longrightarrow> sys_read os fd pos n = Some (get_bytes pos n (file_of os (fst fd)))"
  by (simp add: sys_read_def full_io_def get_bytes_def)

lemma fs_Write_full:
  assumes "full_io os" "fs_fd st = Some (p, False)" "unat addr < 2 ^ 63"
  shows "fs_Write os st addr data =
    (Status1 Success,
     if data = [] then os else set_file os p (put_bytes (unat addr) data (file_of os p)),
     st\<lparr>fs_size := max (fs_size st) (unat addr + length data)\<rparr>)"
  using assms by (simp add: fs_Write_def sys_lseek_addr sys_write_full max_def)

lemma fs_Expand_full:
  assumes "full_io os" "fs_fd st = Some (p, False)" "0 < n"
    "length (file_of os p) + n \<le> 2 ^ 63"
  shows "fs_Expand os st n =
    (Status1 Success,
     set_file os p (put_bytes (length (file_of os p) + n - 1) (le_bytes 1 n) (file_of os p)),
     st\<lparr>fs_size := fs_size st + n\<rparr>)"
proof -
  have "sint (of_nat (n - 1) :: u64) = int (n - 1)"
    using assms(3,4) by (intro sint_of_nat_u64) linarith
  then have "sys_lseek (int (length (file_of os p)) + sint (of_nat (n - 1) :: u64)) =
      Some (length (file_of os p) + n - 1)"
    using assms(3,4) sys_lseek_int [of "length (file_of os p) + (n - 1)"]
    by (simp only: of_nat_add [symmetric]) auto
  then show ?thesis
    using assms by (simp add: fs_Expand_def sys_write_full)
qed

lemma fs_Read_full:
  assumes "full_io os" "fs_fd st = Some (p, ro)" "a < 2 ^ 63" "a + n \<le> length (file_of os p)"
  shows "fs_Read os st (of_nat a) n = (Status1 Success, get_bytes a n (file_of os p))"
proof (cases "n = length (file_of os p) - a")
  case True
  then show ?thesis using assms by (simp add: fs_Read_def sys_read_full get_bytes_def Let_def)
next
  case False
  then have "n < length (file_of os p) - a" using assms(4) by linarith
  then show ?thesis using assms by (simp add: fs_Read_def sys_read_full length_get_bytes Let_def)
qed

section \<open>Reading back what was written\<close>

text \<open>
  C37: on a file opened for writing, with an operating system that transfers what it is
  asked to, \<open>Write\<close> of non-empty data succeeds, a \<open>Read\<close> of its length at the same address
  gives the data back, and every range of the old file that does not meet the written one reads
  as before.
\<close>

theorem fs_Write_Read:
  assumes "full_io os" "fs_fd st = Some (p, False)" "unat addr < 2 ^ 63" "data \<noteq> []"
    and "fs_Write os st addr data = (s, os', st')"
  shows "operate s \<and> fs_Read os' st' addr (length data) = (Status1 Success, data) \<and>
    (\<forall>q n. q + n \<le> unat addr \<or> unat addr + length data \<le> q \<longrightarrow> q + n \<le> length (file_of os p) \<longrightarrow>
      get_bytes q n (file_of os' p) = get_bytes q n (file_of os p))"
proof (intro conjI allI impI)
  have w: "s = Status1 Success"
    "os' = set_file os p (put_bytes (unat addr) data (file_of os p))"
    "fs_fd st' = Some (p, False)"
    using assms by (auto simp: fs_Write_full)
  show "operate s" by (simp add: w(1))
  show "fs_Read os' st' addr (length data) = (Status1 Success, data)"
    using assms(1,3) by (simp add: fs_Read_def w sys_lseek_addr sys_read_full sint_u64_small Let_def
        del: of_nat_unat)
  show "get_bytes q n (file_of os' p) = get_bytes q n (file_of os p)"
    if "q + n \<le> unat addr \<or> unat addr + length data \<le> q" "q + n \<le> length (file_of os p)" for q n
    using that by (simp add: w get_put_disjoint)
qed

text \<open>An operating system with no files that does what it is asked to, for concrete runs.\<close>

definition plain_os :: os where
  "plain_os = \<lparr>files = Map.empty, open_ok = (\<lambda>_ _. True), wr_ans = Some, rd_ans = Some,
     mmap_ans = Some 4096\<rparr>"

lemma full_io_plain [simp]: "full_io plain_os" "full_io (plain_os\<lparr>files := f\<rparr>)"
  by (simp_all add: full_io_def plain_os_def)

theorem fs_Write_Read_witness:
  "\<exists>os' (st' :: file_store). fs_Read os' st' 2 1 = (Status1 Success, [7]) \<and>
     get_bytes 0 2 (file_of os' ''f'') = get_bytes 0 2 (file_of (plain_os\<lparr>files := [''f'' \<mapsto> [1, 2, 3, 4, 5]]\<rparr>) ''f'')"
proof -
  let ?os = "plain_os\<lparr>files := [''f'' \<mapsto> [1, 2, 3, 4, 5]]\<rparr>"
  let ?st = "\<lparr>fs_fd = Some (''f'', False), fs_size = 5, fs_name = ''f''\<rparr>"
  obtain s os' st' where w: "fs_Write ?os ?st 2 [7] = (s, os', st')"
    by (cases "fs_Write ?os ?st 2 [7]")
  have "unat (2 :: u64) < 2 ^ 63" "length (file_of ?os ''f'') = 5" "length [7 :: byte] = 1"
    by (simp_all add: file_of_def)
  with fs_Write_Read [of ?os ?st "''f''" 2 "[7]" s os' st', OF _ _ _ _ w]
  have "fs_Read os' st' 2 1 = (Status1 Success, [7])"
    "get_bytes 0 2 (file_of os' ''f'') = get_bytes 0 2 (file_of ?os ''f'')"
    by auto
  then show ?thesis by blast
qed

section \<open>The cached size\<close>

text \<open>
  A store is coherent when \<open>size_\<close> is the length of its file.  The operations of a store as a
  state machine on the operating system and the store:
\<close>

definition coherent :: "os \<Rightarrow> 'a file_store_scheme \<Rightarrow> bool" where
  "coherent os st \<longleftrightarrow>
     fs_size st = (case fs_fd st of None \<Rightarrow> 0 | Some fd \<Rightarrow> length (file_of os (fst fd)))"

datatype fs_op =
  OpOpen string bool
| OpClose
| OpWrite u64 bytes
| OpAppend bytes
| OpRead u64 nat
| OpExpand nat
| OpTruncate nat

fun fs_step :: "os \<times> file_store \<Rightarrow> fs_op \<Rightarrow> os \<times> file_store" where
  "fs_step (os, st) (OpOpen name ro) = snd (fs_Open os st name ro)"
| "fs_step (os, st) OpClose = (os, snd (fs_Close st))"
| "fs_step (os, st) (OpWrite addr data) = snd (fs_Write os st addr data)"
| "fs_step (os, st) (OpAppend data) = snd (fs_Append os st data)"
| "fs_step (os, st) (OpRead addr len) = (os, st)"
| "fs_step (os, st) (OpExpand n) = snd (fs_Expand os st n)"
| "fs_step (os, st) (OpTruncate n) = (snd (fs_Truncate os st n), st)"

fun size_tracked :: "fs_op \<Rightarrow> bool" where
  "size_tracked (OpWrite addr data) = (data \<noteq> [])"
| "size_tracked (OpExpand n) = (n \<le> 2 ^ 63)"
| "size_tracked (OpTruncate n) = False"
| "size_tracked _ = True"

lemma coherent_Open:
  "coherent os st \<Longrightarrow> fs_Open os st name ro = (s, os', st') \<Longrightarrow>
   coherent os' st' \<and> (full_io os \<longrightarrow> full_io os')"
  by (auto simp: fs_Open_def coherent_def sys_open_def fs_GetFileSize_def Let_def
      split: if_splits option.splits)

lemma coherent_Write:
  assumes "coherent os st" "full_io os" "data \<noteq> [] \<or> unat addr \<le> fs_size st"
    "fs_Write os st addr data = (s, os', st')"
  shows "coherent os' st' \<and> full_io os'"
proof (cases "fs_fd st")
  case None
  then show ?thesis using assms by (simp add: fs_Write_def)
next
  case (Some fd)
  obtain p ro where fd: "fd = (p, ro)" by (cases fd)
  show ?thesis
  proof (cases "ro \<or> sint addr < 0")
    case True
    then show ?thesis using assms Some fd
      by (auto simp: fs_Write_def sys_write_def sys_lseek_def split: if_splits)
  next
    case False
    then have "sint addr = int (unat addr)" by (intro sint_u64_nonneg) simp
    moreover have "sint addr < 2 ^ 63" using sint_less [of addr] by simp
    ultimately have "unat addr < 2 ^ 63" by (simp del: of_nat_unat)
    then show ?thesis using assms Some fd False
      by (auto simp: fs_Write_full coherent_def max_def split: if_splits)
  qed
qed

lemma coherent_Append:
  assumes "coherent os st" "full_io os" "fs_Append os st data = (s, os', st')"
  shows "coherent os' st' \<and> full_io os'"
proof (cases "fs_size st < 2 ^ 64")
  case True
  then show ?thesis using assms coherent_Write [of os st data "of_nat (fs_size st)" s os' st']
    by (auto simp: fs_Append_def Let_def split: if_splits)
next
  case False
  have "unat (of_nat (fs_size st) :: u64) < 2 ^ 64" using unsigned_less [of "of_nat (fs_size st) :: u64"] by simp
  then show ?thesis using False assms coherent_Write [of os st data "of_nat (fs_size st)" s os' st']
    by (auto simp: fs_Append_def Let_def split: if_splits)
qed

lemma coherent_Expand:
  assumes "coherent os st" "full_io os" "n \<le> 2 ^ 63" "fs_Expand os st n = (s, os', st')"
  shows "coherent os' st' \<and> full_io os'"
proof (cases "n = 0 \<or> fs_fd st = None")
  case True
  then show ?thesis using assms by (auto simp: fs_Expand_def split: if_splits)
next
  case False
  then obtain p ro where fd: "fs_fd st = Some (p, ro)" by auto
  have off: "sint (of_nat (n - 1) :: u64) = int (n - 1)"
    using assms(3) False by (intro sint_of_nat_u64) linarith
  show ?thesis
  proof (cases "ro \<or> 2 ^ 63 < length (file_of os p) + n")
    case True
    then show ?thesis using assms False fd off
      by (auto simp: fs_Expand_def sys_lseek_def sys_write_def split: if_splits)
  next
    case False': False
    then show ?thesis using assms False fd
      by (auto simp: fs_Expand_full coherent_def)
  qed
qed

lemma fs_step_coherent:
  assumes "size_tracked op" "coherent os st" "full_io os" "fs_step (os, st) op = (os', st')"
  shows "coherent os' st' \<and> full_io os'"
proof (cases op)
  case (OpOpen name ro)
  then show ?thesis using assms coherent_Open [of os st name ro] by (cases "fs_Open os st name ro") auto
next
  case OpClose
  then show ?thesis using assms by (auto simp: fs_Close_def coherent_def split: if_splits)
next
  case (OpWrite addr data)
  then have "data \<noteq> []" "fs_Write os st addr data = (fst (fs_Write os st addr data), os', st')"
    using assms(1,4) by (simp_all, metis prod.collapse)
  then show ?thesis using assms(2,3) coherent_Write by blast
next
  case (OpAppend data)
  then have "fs_Append os st data = (fst (fs_Append os st data), os', st')"
    using assms(4) by (simp, metis prod.collapse)
  then show ?thesis using assms(2,3) coherent_Append by blast
next
  case (OpExpand n)
  then have "n \<le> 2 ^ 63" "fs_Expand os st n = (fst (fs_Expand os st n), os', st')"
    using assms(1,4) by (simp_all, metis prod.collapse)
  then show ?thesis using assms(2,3) coherent_Expand by blast
qed (use assms in auto)

text \<open>
  C38: after any sequence of operations on a new store that never truncates, never writes empty
  data at an address and expands by at most 2^63 bytes, with an operating system that transfers
  what it is asked to, the cached \<open>size_\<close> is the length of the open file (0 when closed).
\<close>

theorem fs_run_coherent:
  assumes "full_io os" "list_all size_tracked ops" "foldl fs_step (os, FileStore_new) ops = (os', st')"
  shows "fs_GetSize st' = (case fs_fd st' of None \<Rightarrow> 0 | Some fd \<Rightarrow> length (file_of os' (fst fd)))"
proof -
  have run: "coherent os' st'" if "coherent os st" "full_io os" "list_all size_tracked ops"
    "foldl fs_step (os, st) ops = (os', st')" for os st ops
    using that
  proof (induction ops arbitrary: os st)
    case (Cons op ops)
    obtain os1 st1 where "fs_step (os, st) op = (os1, st1)" by (cases "fs_step (os, st) op")
    with Cons fs_step_coherent [of op os st os1 st1] show ?case by auto
  qed simp
  show ?thesis using run [of os FileStore_new ops] assms
    by (simp add: coherent_def FileStore_new_def fs_GetSize_def)
qed

theorem fs_run_coherent_witness:
  "\<exists>os' st'. foldl fs_step (plain_os, FileStore_new) [OpOpen ''f'' False, OpAppend [1, 2]] = (os', st') \<and>
     fs_GetSize st' = (case fs_fd st' of None \<Rightarrow> 0 | Some fd \<Rightarrow> length (file_of os' (fst fd)))"
proof -
  let ?ops = "[OpOpen ''f'' False, OpAppend [1, 2]]"
  obtain os' st' where r: "foldl fs_step (plain_os, FileStore_new) ?ops = (os', st')"
    by (cases "foldl fs_step (plain_os, FileStore_new) ?ops")
  with fs_run_coherent [of plain_os ?ops os' st'] show ?thesis by simp
qed

text \<open>
  \<open>Truncate\<close> leaves the cached size as it was, so the next \<open>Append\<close> writes at the old end:
  behind the truncated contents and a hole of zero bytes.
\<close>

theorem fs_Truncate_stale_size:
  assumes "full_io os" "fs_fd st = Some (p, False)" "coherent os st" "fs_size st < 2 ^ 63"
    "n < fs_size st" "data \<noteq> []" "fs_Truncate os st n = (s, os1)"
    "fs_Append os1 st data = (s', os2, st2)"
  shows "operate s \<and> operate s' \<and> length (file_of os1 p) = n \<and> n < fs_GetSize st \<and>
    file_of os2 p = take n (file_of os p) @ replicate (length (file_of os p) - n) 0 @ data"
proof (intro conjI)
  have len: "fs_size st = length (file_of os p)" using assms(2,3) by (simp add: coherent_def)
  have t: "s = Status1 Success" "os1 = set_file os p (take n (file_of os p))"
    using assms(2,4,5,7) len by (auto simp: fs_Truncate_def sys_ftruncate_def)
  show "operate s" "length (file_of os1 p) = n" "n < fs_GetSize st"
    using assms(5) len by (simp_all add: t fs_GetSize_def)
  have "full_io os1" using assms(1) t(2) by simp
  then have "fs_Append os1 st data =
    (Status1 Success, set_file os1 p (put_bytes (fs_size st) data (file_of os1 p)),
     st\<lparr>fs_size := fs_size st + length data\<rparr>)"
    using assms(2,4,6) by (simp add: fs_Append_def fs_Write_full)
  with assms(8) have a: "s' = Status1 Success"
    "os2 = set_file os1 p (put_bytes (fs_size st) data (file_of os1 p))" by auto
  show "operate s'" using a(1) by simp
  show "file_of os2 p = take n (file_of os p) @ replicate (length (file_of os p) - n) 0 @ data"
    using assms(5) len by (simp add: a(2) t(2) put_bytes_def min_def)
qed

theorem fs_Truncate_stale_size_witness:
  "\<exists>os2. file_of os2 ''f'' = [1, 0, 0, 9]"
proof -
  let ?os = "plain_os\<lparr>files := [''f'' \<mapsto> [1, 2, 3]]\<rparr>"
  let ?st = "\<lparr>fs_fd = Some (''f'', False), fs_size = 3, fs_name = ''f''\<rparr>"
  obtain s os1 where t: "fs_Truncate ?os ?st 1 = (s, os1)" by (cases "fs_Truncate ?os ?st 1")
  obtain s' os2 st2 where a: "fs_Append os1 ?st [9] = (s', os2, st2)"
    by (cases "fs_Append os1 ?st [9]")
  have "coherent ?os ?st" "take 1 [1, 2, 3 :: byte] = [1]"
    by (simp_all add: coherent_def file_of_def)
  with fs_Truncate_stale_size [of ?os ?st "''f''" 1 "[9]", OF _ _ _ _ _ _ t a]
  have "file_of os2 ''f'' = [1, 0, 0, 9]"
    by (simp add: file_of_def)
  then show ?thesis by blast
qed

text \<open>
  \<open>Expand\<close> by n bytes appends n - 1 zero bytes and one byte holding the lowest byte of
  n; the old contents stay.
\<close>

theorem fs_Expand_contents:
  assumes "full_io os" "fs_fd st = Some (p, False)" "0 < n" "length (file_of os p) + n \<le> 2 ^ 63"
  shows "\<exists>os' st'. fs_Expand os st n = (Status1 Success, os', st') \<and>
    file_of os' p = file_of os p @ replicate (n - 1) 0 @ [of_nat n] \<and>
    fs_size st' = fs_size st + n"
proof -
  have "put_bytes (length f + n - 1) [of_nat n] f = f @ replicate (n - 1) 0 @ [of_nat n]"
    for f :: bytes using assms(3) by (cases n) (simp_all add: put_bytes_def)
  then show ?thesis using assms by (simp add: fs_Expand_full)
qed

theorem fs_Expand_contents_witness:
  "\<exists>os' st'. fs_Expand (plain_os\<lparr>files := [''f'' \<mapsto> [5]]\<rparr>)
      \<lparr>fs_fd = Some (''f'', False), fs_size = 1, fs_name = ''f''\<rparr> 3 = (Status1 Success, os', st') \<and>
    file_of os' ''f'' = [5] @ replicate 2 0 @ [3]"
  using fs_Expand_contents [of "plain_os\<lparr>files := [''f'' \<mapsto> [5]]\<rparr>"
      "\<lparr>fs_fd = Some (''f'', False), fs_size = 1, fs_name = ''f''\<rparr>" "''f''" 3]
  by (auto simp: file_of_def)

text \<open>
  A \<open>write\<close> that stores fewer bytes than asked is reported as a success, and the cached
  size then counts bytes the file does not have.
\<close>

theorem fs_Write_short:
  assumes "fs_fd st = Some (p, False)" "unat addr < 2 ^ 63"
    and "wr_ans os (length data) = Some k" "0 < k" "k < length data"
    and "length (file_of os p) \<le> unat addr" "fs_size st \<le> unat addr"
  shows "\<exists>os' st'. fs_Write os st addr data = (Status1 Success, os', st') \<and>
    length (file_of os' p) = unat addr + k \<and> fs_GetSize st' = unat addr + length data"
  using assms by (auto simp: fs_Write_def sys_lseek_addr sys_write_def fs_GetSize_def min_def)

theorem fs_Write_short_witness:
  "\<exists>os' st'. fs_Write (plain_os\<lparr>wr_ans := \<lambda>_. Some 1\<rparr>)
      \<lparr>fs_fd = Some (''f'', False), fs_size = 0, fs_name = ''f''\<rparr> 0 [1, 2, 3] = (Status1 Success, os', st') \<and>
    length (file_of os' ''f'') = 1 \<and> fs_GetSize st' = 3"
  using fs_Write_short [of "\<lparr>fs_fd = Some (''f'', False), fs_size = 0, fs_name = ''f''\<rparr>" "''f''" 0
      "plain_os\<lparr>wr_ans := \<lambda>_. Some 1\<rparr>" "[1, 2, 3]" 1]
  by (simp add: plain_os_def file_of_def numeral_3_eq_3)

end
