(* ===== verification/Mmap_Store.thy ===== *)
theory Mmap_Store
  imports File_Store
begin

text \<open>
  \<open>MMapStore\<close> (kernel/store/mmap_store.cc): a \<open>FileStore\<close> whose file is mapped at
  \<open>base_\<close> for \<open>mmap_size_\<close> bytes.  The mapping is shared, so a byte at address a is byte
  \<open>a - base_\<close> of the file.  None is an access that the file does not back: a store to a
  read-only mapping, or bytes past the end of the file, where the access faults (or, up to the
  end of its last page, meets bytes that are not the file's).
\<close>

record mmap_store = file_store +
  mm_base :: "nat option"
  mm_size :: nat
  mm_memory_lock :: bool
  mm_memory_preload :: bool

definition kDefaultMMapSize :: nat where
  "kDefaultMMapSize = 1 * 1024 * 1024 * 1024"

definition MMapStore_new :: mmap_store where
  "MMapStore_new =
     \<lparr>fs_fd = None, fs_size = 0, fs_name = [], mm_base = None, mm_size = kDefaultMMapSize,
      mm_memory_lock = False, mm_memory_preload = False\<rparr>"

section \<open>Access through the mapping\<close>

definition mapped_read :: "os \<Rightarrow> 'a mmap_store_scheme \<Rightarrow> nat \<Rightarrow> nat \<Rightarrow> bytes option" where
  "mapped_read os st a n =
     (case (fs_fd st, mm_base st) of
        (Some (p, ro), Some b) \<Rightarrow>
          if b \<le> a \<and> a - b + n \<le> length (file_of os p) \<and> a - b + n \<le> mm_size st
          then Some (get_bytes (a - b) n (file_of os p)) else None
      | _ \<Rightarrow> None)"

definition mapped_write :: "os \<Rightarrow> 'a mmap_store_scheme \<Rightarrow> nat \<Rightarrow> bytes \<Rightarrow> os option" where
  "mapped_write os st a bs =
     (if bs = [] then Some os
      else case (fs_fd st, mm_base st) of
        (Some (p, False), Some b) \<Rightarrow>
          if b \<le> a \<and> a - b + length bs \<le> length (file_of os p) \<and> a - b + length bs \<le> mm_size st
          then Some (set_file os p (put_bytes (a - b) bs (file_of os p))) else None
      | _ \<Rightarrow> None)"

section \<open>The operations\<close>

definition mm_Open ::
  "os \<Rightarrow> 'a mmap_store_scheme \<Rightarrow> string \<Rightarrow> bool \<Rightarrow> status \<times> os \<times> 'a mmap_store_scheme" where
  "mm_Open os st name read_only =
     (case fs_Open os st name read_only of
        (status, os1, st1) \<Rightarrow>
          if \<not> operate status then (Status2 Exception ''Open Fail'', os1, st1)
          else case mmap_ans os1 of
                 None \<Rightarrow> (Status2 Exception ''MMap Fail'', os1, st1)
               | Some b \<Rightarrow> (Status1 Success, os1, st1\<lparr>mm_base := Some b\<rparr>))"

definition mm_Close :: "'a mmap_store_scheme \<Rightarrow> status \<times> 'a mmap_store_scheme" where
  "mm_Close st = fs_Close (if mm_base st \<noteq> None then st\<lparr>mm_base := None\<rparr> else st)"

text \<open>On success \<open>data\<close> is a view: the address itself and the length.\<close>

definition mm_Read :: "'a mmap_store_scheme \<Rightarrow> nat \<Rightarrow> nat \<Rightarrow> status \<times> nat \<times> nat" where
  "mm_Read st addr len =
     (case mm_base st of
        None \<Rightarrow> (Status2 Exception ''Base nullptr'', 0, 0)
      | Some b \<Rightarrow>
          let mmap_end = b + mm_size st in
          if \<not> (b \<le> addr \<and> addr + len \<le> mmap_end) then (Status2 Exception ''addr error'', 0, 0)
          else (Status1 Success, addr, len))"

definition mm_Write ::
  "os \<Rightarrow> 'a mmap_store_scheme \<Rightarrow> nat \<Rightarrow> bytes \<Rightarrow> (status \<times> os \<times> 'a mmap_store_scheme) option" where
  "mm_Write os st addr data =
     (case mm_base st of
        None \<Rightarrow> Some (Status2 Exception ''Base nullptr'', os, st)
      | Some b \<Rightarrow>
          if addr < b then Some (Status2 Exception ''addr error'', os, st)
          else
            let file_size = fs_GetSize st;
                mmap_end = b + (if file_size < mm_size st then file_size else mm_size st)
            in if addr + length data > mmap_end then Some (fs_Write os st (of_nat (addr - b)) data)
               else map_option (\<lambda>os'. (Status1 Success, os', st)) (mapped_write os st addr data))"

definition mm_Append ::
  "os \<Rightarrow> 'a mmap_store_scheme \<Rightarrow> bytes \<Rightarrow> (status \<times> os \<times> 'a mmap_store_scheme) option" where
  "mm_Append os st data =
     (let start = fs_GetSize st in
      case fs_Expand os st (length data) of
        (status, os1, st1) \<Rightarrow>
          if \<not> operate status then Some (status, os1, st1)
          else mm_Write os1 st1 ((case mm_base st1 of None \<Rightarrow> 0 | Some b \<Rightarrow> b) + start) data)"

section \<open>The mapping and the file agree\<close>

text \<open>A store opened for writing and mapped at b, with its size tracked.\<close>

definition mapped :: "os \<Rightarrow> 'a mmap_store_scheme \<Rightarrow> string \<Rightarrow> nat \<Rightarrow> bool" where
  "mapped os st p b \<longleftrightarrow> full_io os \<and> coherent os st \<and> fs_fd st = Some (p, False) \<and> mm_base st = Some b"

lemma mapped_size: "mapped os st p b \<Longrightarrow> fs_size st = length (file_of os p)"
  by (simp add: mapped_def coherent_def)

lemma mapped_write_mapped:
  assumes "mapped os st p b" "b \<le> a" "a - b + length bs \<le> length (file_of os p)"
    "a - b + length bs \<le> mm_size st"
  shows "\<exists>os'. mapped_write os st a bs = Some os' \<and> mapped os' st p b \<and>
    file_of os' p = put_bytes (a - b) bs (file_of os p)"
  using assms by (auto simp: mapped_def mapped_write_def coherent_def max_def)

lemma mapped_read_mapped:
  "mapped os st p b \<Longrightarrow> b \<le> a \<Longrightarrow> a - b + n \<le> length (file_of os p) \<Longrightarrow> a - b + n \<le> mm_size st \<Longrightarrow>
   mapped_read os st a n = Some (get_bytes (a - b) n (file_of os p))"
  by (simp add: mapped_def mapped_read_def)

lemma mm_Write_mapped:
  assumes "mapped os st p b" "b \<le> a" "data \<noteq> []" "a - b < 2 ^ 63"
  shows "\<exists>os' st'. mm_Write os st a data = Some (Status1 Success, os', st') \<and> mapped os' st' p b \<and>
    mm_size st' = mm_size st \<and> file_of os' p = put_bytes (a - b) data (file_of os p)"
proof (cases "a + length data > b + (if fs_size st < mm_size st then fs_size st else mm_size st)")
  case True
  obtain n where n: "a = b + n" using assms(2) by (auto simp: le_iff_add)
  then have "fs_Write os st (of_nat n) data =
    (Status1 Success, set_file os p (put_bytes n data (file_of os p)),
     st\<lparr>fs_size := max (fs_size st) (n + length data)\<rparr>)"
    using fs_Write_full [of os st p "of_nat n" data] assms by (simp add: mapped_def)
  then have "mm_Write os st a data =
    Some (Status1 Success, set_file os p (put_bytes n data (file_of os p)),
          st\<lparr>fs_size := max (fs_size st) (n + length data)\<rparr>)"
    using True assms(1) n by (simp add: mm_Write_def fs_GetSize_def mapped_def)
  moreover have "mapped (set_file os p (put_bytes n data (file_of os p)))
      (st\<lparr>fs_size := max (fs_size st) (n + length data)\<rparr>) p b"
    using assms(1) by (simp add: mapped_def coherent_def)
  ultimately show ?thesis
    using n by (intro exI [of _ "set_file os p (put_bytes n data (file_of os p))"]
        exI [of _ "st\<lparr>fs_size := max (fs_size st) (n + length data)\<rparr>"]) simp
next
  case False
  then have "a - b + length data \<le> length (file_of os p)" "a - b + length data \<le> mm_size st"
    using mapped_size [OF assms(1)] assms(2) by (auto split: if_splits)
  then obtain os' where "mapped_write os st a data = Some os'" "mapped os' st p b"
    "file_of os' p = put_bytes (a - b) data (file_of os p)"
    using mapped_write_mapped [OF assms(1,2)] by blast
  moreover from this have "mm_Write os st a data = Some (Status1 Success, os', st)"
    using False assms(1,2) by (simp add: mm_Write_def fs_GetSize_def mapped_def)
  ultimately show ?thesis by blast
qed

text \<open>
  For a mapped store opened for writing, a write of non-empty data at any address from the
  base on succeeds, whether it goes through the mapping or through the file descriptor: the
  file is overwritten at the corresponding offset, the size stays tracked, and a read of the same
  range within the mapping succeeds with a view that holds the data.
\<close>

theorem mm_Write_Read:
  assumes "mapped os st p b" "b \<le> a" "data \<noteq> []" "a - b < 2 ^ 63" "a + length data \<le> b + mm_size st"
  shows "\<exists>os' st'. mm_Write os st a data = Some (Status1 Success, os', st') \<and> mapped os' st' p b \<and>
    file_of os' p = put_bytes (a - b) data (file_of os p) \<and>
    mm_Read st' a (length data) = (Status1 Success, a, length data) \<and>
    mapped_read os' st' a (length data) = Some data"
proof -
  obtain os' st' where w: "mm_Write os st a data = Some (Status1 Success, os', st')"
    "mapped os' st' p b" "mm_size st' = mm_size st"
    "file_of os' p = put_bytes (a - b) data (file_of os p)"
    using mm_Write_mapped assms(1-4) by blast
  have "mm_base st' = Some b" using w(2) by (simp add: mapped_def)
  then have "mm_Read st' a (length data) = (Status1 Success, a, length data)"
    using assms(2,5) w(3) by (simp add: mm_Read_def)
  moreover have "mapped_read os' st' a (length data) = Some data"
    using assms(2,5) w(3) by (subst mapped_read_mapped [OF w(2)]) (auto simp: w(4))
  ultimately show ?thesis using w by blast
qed

definition demo_mapped :: mmap_store where
  "demo_mapped = \<lparr>fs_fd = Some (''f'', False), fs_size = 3, fs_name = ''f'', mm_base = Some 4096,
     mm_size = 4096, mm_memory_lock = False, mm_memory_preload = False\<rparr>"

definition demo_os :: os where
  "demo_os = plain_os\<lparr>files := [''f'' \<mapsto> [1, 2, 3]]\<rparr>"

lemma demo_is_mapped: "mapped demo_os demo_mapped ''f'' 4096"
  by (simp add: mapped_def demo_os_def demo_mapped_def coherent_def file_of_def)

theorem mm_Write_Read_witness:
  "\<exists>os' st'. mm_Write demo_os demo_mapped 4098 [7, 8] = Some (Status1 Success, os', st') \<and>
     file_of os' ''f'' = [1, 2, 7, 8]"
  using mm_Write_Read [of demo_os demo_mapped "''f''" 4096 4098 "[7, 8]", OF demo_is_mapped]
  by (auto simp: demo_mapped_def demo_os_def file_of_def put_bytes_def)

text \<open>
  \<open>Append\<close> on a mapped store puts the data right behind the old contents.
\<close>

theorem mm_Append_contents:
  assumes "mapped os st p b" "data \<noteq> []" "length (file_of os p) + length data \<le> 2 ^ 63"
  shows "\<exists>os' st'. mm_Append os st data = Some (Status1 Success, os', st') \<and> mapped os' st' p b \<and>
    file_of os' p = file_of os p @ data"
proof -
  let ?f = "file_of os p"
  define os1 where "os1 = set_file os p (put_bytes (length ?f + length data - 1) (le_bytes 1 (length data)) ?f)"
  define st1 where "st1 = st\<lparr>fs_size := fs_size st + length data\<rparr>"
  have "fs_Expand os st (length data) = (Status1 Success, os1, st1)"
    unfolding os1_def st1_def using assms by (intro fs_Expand_full) (auto simp: mapped_def)
  note e = this os1_def st1_def
  have len1: "length (file_of os1 p) = length ?f + length data"
    using assms(2) by (cases data) (auto simp: e(2))
  have m1: "mapped os1 st1 p b"
  proof -
    have "fs_fd st1 = Some (p, False)" "mm_base st1 = Some b" "full_io os1"
      using assms(1) by (simp_all add: mapped_def st1_def os1_def)
    moreover have "fs_size st1 = length (file_of os1 p)"
      unfolding len1 by (simp add: st1_def mapped_size [OF assms(1)])
    ultimately show ?thesis by (simp add: mapped_def coherent_def)
  qed
  have "length ?f < 2 ^ 63" using assms(2,3) by (cases data) auto
  then have "\<exists>os' st'. mm_Write os1 st1 (b + length ?f) data = Some (Status1 Success, os', st') \<and>
    mapped os' st' p b \<and> mm_size st' = mm_size st1 \<and>
    file_of os' p = put_bytes (length ?f) data (file_of os1 p)"
    using mm_Write_mapped [OF m1 le_add1 assms(2), of "length ?f"] by (simp only: add_diff_cancel_left')
  then obtain os' st' where w: "mm_Write os1 st1 (b + length ?f) data = Some (Status1 Success, os', st')"
    "mapped os' st' p b" "file_of os' p = put_bytes (length ?f) data (file_of os1 p)"
    by blast
  have "take (length ?f) (file_of os1 p) = ?f"
    using assms(2) by (cases data) (auto simp: e(2) put_bytes_def)
  then have "file_of os' p = ?f @ data"
    using len1 by (simp add: w(3) put_bytes_def)
  moreover have "mm_base st1 = Some b" using m1 by (simp add: mapped_def)
  then have "mm_Append os st data = Some (Status1 Success, os', st')"
    using w(1) by (simp add: mm_Append_def fs_GetSize_def mapped_size [OF assms(1)] e(1))
  ultimately show ?thesis using w(2) by blast
qed

theorem mm_Append_contents_witness:
  "\<exists>os' st'. mm_Append demo_os demo_mapped [9] = Some (Status1 Success, os', st') \<and>
     file_of os' ''f'' = [1, 2, 3, 9]"
  using mm_Append_contents [of demo_os demo_mapped "''f''" 4096 "[9]", OF demo_is_mapped]
  by (auto simp: demo_os_def file_of_def)

text \<open>
  \<open>Read\<close> checks its range against the mapping, not against the file: it succeeds with a view
  that the file does not back when the range is inside the mapping and past the end of the file.
\<close>

theorem mm_Read_past_file:
  assumes "mapped os st p b" "b \<le> a" "a + len \<le> b + mm_size st" "length (file_of os p) < a - b + len"
  shows "mm_Read st a len = (Status1 Success, a, len) \<and> mapped_read os st a len = None"
  using assms by (auto simp: mm_Read_def mapped_read_def mapped_def)

theorem mm_Read_past_file_witness:
  "mm_Read demo_mapped 4100 4 = (Status1 Success, 4100, 4)"
  using mm_Read_past_file [of demo_os demo_mapped "''f''" 4096 4100 4, OF demo_is_mapped]
  by (simp add: demo_mapped_def demo_os_def file_of_def)

end
