(* ===== verification/Allocator.thy ===== *)
theory Allocator
  imports Prelude "HOL-Library.Multiset"
begin

text \<open>
  What a client of a pool relies on (\<open>Pool\<close>, kernel/pool/pool.h: \<open>Alloc\<close>, \<open>Free\<close>, \<open>Write\<close>,
  \<open>Read\<close>, \<open>NewData\<close>), as two interfaces.  \<open>allocator\<close>: the regions handed out come from the free
  blocks or from above the top of the used space.  \<open>data_pool\<close>: in addition, what is written in a
  region is read back and no operation disturbs the others.  The theorems of the interfaces are
  about every sequence of client operations, interleaved in any way with the steps of the thread
  that performs the delayed frees.
\<close>

section \<open>Regions\<close>

type_synonym region = "nat \<times> nat"  \<comment> \<open>size, address\<close>

definition in_region :: "nat \<Rightarrow> region \<Rightarrow> bool" where
  "in_region x r = (snd r \<le> x \<and> x < snd r + fst r)"

definition cover :: "region multiset \<Rightarrow> nat \<Rightarrow> nat" where
  "cover R x = size (filter_mset (in_region x) R)"

definition separate :: "region multiset \<Rightarrow> bool" where
  "separate R \<longleftrightarrow> (\<forall>x. cover R x \<le> 1)"

definition within :: "nat \<Rightarrow> nat \<Rightarrow> region multiset \<Rightarrow> bool" where
  "within lo hi R \<longleftrightarrow> (\<forall>r \<in># R. 0 < fst r \<and> lo \<le> snd r \<and> snd r + fst r \<le> hi)"

lemma cover_simps [simp]:
  "cover {#} x = 0"
  "cover (add_mset r R) x = (if in_region x r then 1 else 0) + cover R x"
  "cover (R + S) x = cover R x + cover S x"
  by (simp_all add: cover_def)

lemma cover_mono: "R \<subseteq># S \<Longrightarrow> cover R x \<le> cover S x"
  unfolding cover_def by (rule size_mset_mono, rule multiset_filter_mono)

lemma separate_mono: "R \<subseteq># S \<Longrightarrow> separate S \<Longrightarrow> separate R"
  unfolding separate_def using cover_mono order_trans by blast

lemma within_mono: "R \<subseteq># S \<Longrightarrow> within lo hi S \<Longrightarrow> within lo hi R"
  unfolding within_def by (meson mset_subset_eqD)

lemma withinD: "within lo hi R \<Longrightarrow> (n, a) \<in># R \<Longrightarrow> 0 < n \<and> lo \<le> a \<and> a + n \<le> hi"
  by (fastforce simp: within_def)

lemma within_le: "within lo hi R \<Longrightarrow> hi \<le> hi' \<Longrightarrow> within lo hi' R"
  by (fastforce simp: within_def)

lemma within_add [simp]:
  "within lo hi (add_mset r R) \<longleftrightarrow>
   0 < fst r \<and> lo \<le> snd r \<and> snd r + fst r \<le> hi \<and> within lo hi R"
  "within lo hi {#}"
  by (auto simp: within_def)

lemma cover_above: "within lo hi R \<Longrightarrow> hi \<le> x \<Longrightarrow> cover R x = 0"
  by (induction R) (auto simp: in_region_def)

lemma separate_fresh:
  assumes "separate R" "within lo hi R" "hi \<le> snd r"
  shows "separate (add_mset r R)"
  unfolding separate_def
proof
  fix x
  show "cover (add_mset r R) x \<le> 1"
    using assms cover_above [OF assms(2), of x]
    by (cases "in_region x r") (auto simp: separate_def in_region_def)
qed

lemma separate_apart:
  assumes "separate (add_mset r R)" "r' \<in># R" "0 < fst r" "0 < fst r'"
  shows "snd r + fst r \<le> snd r' \<or> snd r' + fst r' \<le> snd r"
proof (rule ccontr)
  assume no: "\<not> ?thesis"
  define x where "x = max (snd r) (snd r')"
  have "in_region x r" "in_region x r'"
    using no assms(3,4) by (auto simp: x_def in_region_def)
  moreover obtain R' where "R = add_mset r' R'" using assms(2) by (meson mset_add)
  ultimately have "2 \<le> cover (add_mset r R) x" by simp
  then show False using assms(1) by (metis Suc_1 not_less_eq_eq separate_def One_nat_def)
qed

section \<open>A client\<close>

text \<open>
  The client stores a datum (\<open>NewData\<close>: allocate, then write), overwrites one in place, or frees
  one; \<open>Tick\<close> is a step of the thread that performs delayed frees.  It keeps the address and the
  value of what it has stored.  None: some call did not return.
\<close>

datatype client_op = New bytes | Put nat bytes | Del nat | Tick

type_synonym heap = "(nat \<times> bytes) list"

fun client_step ::
  "('st \<Rightarrow> nat \<Rightarrow> (nat \<times> 'st) option) \<Rightarrow> ('st \<Rightarrow> nat \<Rightarrow> nat \<Rightarrow> 'st) \<Rightarrow> ('st \<Rightarrow> 'st) \<Rightarrow>
   ('st \<Rightarrow> nat \<Rightarrow> bytes \<Rightarrow> (bool \<times> 'st) option) \<Rightarrow>
   client_op \<Rightarrow> 'st \<times> heap \<Rightarrow> ('st \<times> heap) option" where
  "client_step alloc free tick write (New d) (s, h) =
     (if d = [] then Some (s, h)
      else case alloc s (length d) of
             None \<Rightarrow> None
           | Some (a, s1) \<Rightarrow>
               if a = 0 then Some (s1, h)
               else (case write s1 a d of
                       None \<Rightarrow> None
                     | Some (ok, s2) \<Rightarrow> Some (s2, if ok then (a, d) # h else h)))"
| "client_step alloc free tick write (Put a d) (s, h) =
     (case map_of h a of
        None \<Rightarrow> Some (s, h)
      | Some d' \<Rightarrow>
          if length d \<noteq> length d' then Some (s, h)
          else (case write s a d of
                  None \<Rightarrow> None
                | Some (ok, s2) \<Rightarrow>
                    Some (s2, if ok then map (\<lambda>(b, c). (b, if b = a then d else c)) h else h)))"
| "client_step alloc free tick write (Del a) (s, h) =
     (case map_of h a of
        None \<Rightarrow> Some (s, h)
      | Some d \<Rightarrow> Some (free s a (length d), filter (\<lambda>(b, c). b \<noteq> a) h))"
| "client_step alloc free tick write Tick (s, h) = Some (tick s, h)"

fun client_run ::
  "('st \<Rightarrow> nat \<Rightarrow> (nat \<times> 'st) option) \<Rightarrow> ('st \<Rightarrow> nat \<Rightarrow> nat \<Rightarrow> 'st) \<Rightarrow> ('st \<Rightarrow> 'st) \<Rightarrow>
   ('st \<Rightarrow> nat \<Rightarrow> bytes \<Rightarrow> (bool \<times> 'st) option) \<Rightarrow>
   client_op list \<Rightarrow> 'st \<times> heap \<Rightarrow> ('st \<times> heap) option" where
  "client_run alloc free tick write [] sh = Some sh"
| "client_run alloc free tick write (op # ops) sh =
     (case client_step alloc free tick write op sh of
        None \<Rightarrow> None
      | Some sh' \<Rightarrow> client_run alloc free tick write ops sh')"

definition small_op :: "client_op \<Rightarrow> bool" where
  "small_op op = (case op of New d \<Rightarrow> length d < 2 ^ 63 | _ \<Rightarrow> True)"

definition regions :: "heap \<Rightarrow> region multiset" where
  "regions h = mset (map (\<lambda>(a, d). (length d, a)) h)"

definition heap_apart :: "heap \<Rightarrow> bool" where
  "heap_apart h \<longleftrightarrow> distinct (map fst h) \<and>
     (\<forall>(a, d) \<in> set h. \<forall>(b, c) \<in> set h. a \<noteq> b \<longrightarrow> a + length d \<le> b \<or> b + length c \<le> a)"

lemma heap_apartD:
  "heap_apart h \<Longrightarrow> (a, d) \<in> set h \<Longrightarrow> (b, c) \<in> set h \<Longrightarrow> a \<noteq> b \<Longrightarrow>
   a + length d \<le> b \<or> b + length c \<le> a"
  unfolding heap_apart_def by fast

lemma heap_apartI:
  "distinct (map fst h) \<Longrightarrow>
   (\<And>a d b c. (a, d) \<in> set h \<Longrightarrow> (b, c) \<in> set h \<Longrightarrow> a \<noteq> b \<Longrightarrow> a + length d \<le> b \<or> b + length c \<le> a) \<Longrightarrow>
   heap_apart h"
  unfolding heap_apart_def by blast

lemma regions_simps [simp]:
  "regions [] = {#}" "regions ((a, d) # h) = add_mset (length d, a) (regions h)"
  by (simp_all add: regions_def)

lemma regions_remove:
  assumes "distinct (map fst h)" "map_of h a = Some d"
  shows "regions h = add_mset (length d, a) (regions (filter (\<lambda>(b, c). b \<noteq> a) h))"
  using assms
proof (induction h)
  case Nil
  then show ?case by simp
next
  case (Cons p h)
  obtain b c where p: "p = (b, c)" by fastforce
  show ?case
  proof (cases "b = a")
    case True
    with Cons.prems have "c = d" "a \<notin> fst ` set h" by (auto simp: p)
    moreover from this have "filter (\<lambda>(b, c). b \<noteq> a) h = h"
      by (force simp: filter_id_conv)
    ultimately show ?thesis using True by (simp add: p)
  next
    case False
    with Cons show ?thesis by (auto simp: p)
  qed
qed

lemma regions_update:
  "(\<forall>d'. map_of h a = Some d' \<longrightarrow> length d = length d') \<Longrightarrow> distinct (map fst h) \<Longrightarrow>
   regions (map (\<lambda>(b, c). (b, if b = a then d else c)) h) = regions h"
proof (induction h)
  case Nil
  then show ?case by simp
next
  case (Cons p h)
  obtain b c where p: "p = (b, c)" by fastforce
  have "map_of h a = None" if "b = a"
    using Cons.prems that by (auto simp: p map_of_eq_None_iff)
  then show ?case using Cons by (cases "b = a"; simp add: p)
qed

section \<open>The allocator interface\<close>

locale allocator =
  fixes alloc :: "'st \<Rightarrow> nat \<Rightarrow> (nat \<times> 'st) option"
    and free :: "'st \<Rightarrow> nat \<Rightarrow> nat \<Rightarrow> 'st"
    and tick :: "'st \<Rightarrow> 'st"
    and good :: "'st \<Rightarrow> bool"
    and free_regions :: "'st \<Rightarrow> region multiset"
    and bot :: "'st \<Rightarrow> nat"
    and top :: "'st \<Rightarrow> nat"
  assumes alloc_law: "good s \<Longrightarrow> 0 < n \<Longrightarrow> n < 2 ^ 63 \<Longrightarrow> alloc s n = Some (a, s') \<Longrightarrow>
      good s' \<and> bot s' = bot s \<and> top s \<le> top s' \<and> free_regions s' \<subseteq># free_regions s \<and>
      (a = 0 \<or> add_mset (n, a) (free_regions s') \<subseteq># free_regions s \<or> (bot s \<le> a \<and> top s \<le> a \<and> a + n \<le> top s'))"
    and free_law: "good s \<Longrightarrow> 0 < n \<Longrightarrow> bot s \<le> a \<Longrightarrow> a + n \<le> top s \<Longrightarrow>
      good (free s a n) \<and> bot (free s a n) = bot s \<and> top (free s a n) = top s \<and>
      free_regions (free s a n) \<subseteq># add_mset (n, a) (free_regions s)"
    and tick_law: "good s \<Longrightarrow> good (tick s) \<and> bot (tick s) = bot s \<and> top (tick s) = top s \<and>
      free_regions (tick s) \<subseteq># free_regions s"
begin

definition accounted :: "'st \<Rightarrow> region multiset \<Rightarrow> bool" where
  "accounted s R \<longleftrightarrow>
     good s \<and> separate (R + free_regions s) \<and> within (bot s) (top s) (R + free_regions s)"

lemma accounted_shrink:
  assumes "accounted s R" "good s'" "bot s' = bot s" "top s \<le> top s'"
    "R' + free_regions s' \<subseteq># R + free_regions s"
  shows "accounted s' R'"
  using assms separate_mono within_mono within_le by (metis accounted_def)

lemma alloc_accounted:
  assumes "accounted s R" "0 < n" "n < 2 ^ 63" "alloc s n = Some (a, s')"
  shows "if a = 0 then accounted s' R else accounted s' (add_mset (n, a) R)"
proof -
  note ok = assms(1) [unfolded accounted_def]
  have law: "good s'" "bot s' = bot s" "top s \<le> top s'" "free_regions s' \<subseteq># free_regions s"
    "a = 0 \<or> add_mset (n, a) (free_regions s') \<subseteq># free_regions s \<or>
     (bot s \<le> a \<and> top s \<le> a \<and> a + n \<le> top s')"
    using alloc_law [of s n a s'] assms ok by simp_all
  consider "a = 0" | "add_mset (n, a) (free_regions s') \<subseteq># free_regions s" "a \<noteq> 0"
    | "bot s \<le> a" "top s \<le> a" "a + n \<le> top s'" "a \<noteq> 0"
    using law(5) by blast
  then show ?thesis
  proof cases
    case 1
    then show ?thesis using accounted_shrink [OF assms(1) law(1,2,3)] law(4) by simp
  next
    case 2
    then have "add_mset (n, a) R + free_regions s' \<subseteq># R + free_regions s"
      by (metis add_mset_add_single subset_mset.add_left_mono union_commute union_mset_add_mset_left)
    then show ?thesis using 2 accounted_shrink [OF assms(1) law(1,2,3)] by simp
  next
    case 3
    have "accounted s' R"
      using accounted_shrink [OF assms(1) law(1,2,3)] law(4) by simp
    moreover have "within (bot s) (top s) (R + free_regions s')"
      using ok law(4) within_mono by (meson subset_mset.add_left_mono)
    ultimately show ?thesis
      using 3 assms(2) law(2) separate_fresh [of "R + free_regions s'" "bot s" "top s" "(n, a)"]
      by (simp add: accounted_def)
  qed
qed

lemma free_accounted:
  assumes "accounted s (add_mset (n, a) R)"
  shows "accounted (free s a n) R"
proof -
  have "good s" "0 < n" "bot s \<le> a" "a + n \<le> top s"
    using assms by (auto simp: accounted_def)
  note law = free_law [OF this]
  then have "R + free_regions (free s a n) \<subseteq># add_mset (n, a) R + free_regions s"
    by (simp add: subset_mset.add_left_mono)
  then show ?thesis using accounted_shrink [OF assms] law by simp
qed

lemma tick_accounted: "accounted s R \<Longrightarrow> accounted (tick s) R"
  using accounted_shrink tick_law subset_mset.add_left_mono
  by (metis accounted_def order_refl)

lemma accounted_region:
  assumes "accounted s (regions h)" "(a, d) \<in> set h"
  shows "0 < length d \<and> bot s \<le> a \<and> a + length d \<le> top s"
proof (rule withinD)
  show "within (bot s) (top s) (regions h + free_regions s)"
    using assms(1) by (simp add: accounted_def)
  show "(length d, a) \<in># regions h + free_regions s"
    using assms(2) by (force simp: regions_def)
qed

lemma accounted_fresh:
  assumes "accounted s (add_mset (n, a) (regions h))" "0 < n" "(b, d) \<in> set h"
  shows "a + n \<le> b \<or> b + length d \<le> a"
proof -
  have ok: "separate (add_mset (n, a) (regions h + free_regions s))"
    "within (bot s) (top s) (regions h + free_regions s)"
    using assms(1) by (simp_all add: accounted_def)
  have "(length d, b) \<in># regions h + free_regions s"
    using assms(3) by (force simp: regions_def)
  from separate_apart [OF ok(1) this] withinD [OF ok(2) this] show ?thesis
    using assms(2) by simp
qed

end

section \<open>The data pool interface\<close>

locale data_pool = allocator alloc free tick good free_regions bot top
  for alloc :: "'st \<Rightarrow> nat \<Rightarrow> (nat \<times> 'st) option"
    and free :: "'st \<Rightarrow> nat \<Rightarrow> nat \<Rightarrow> 'st"
    and tick :: "'st \<Rightarrow> 'st"
    and good :: "'st \<Rightarrow> bool"
    and free_regions :: "'st \<Rightarrow> region multiset"
    and bot :: "'st \<Rightarrow> nat"
    and top :: "'st \<Rightarrow> nat" +
  fixes put :: "'st \<Rightarrow> nat \<Rightarrow> bytes \<Rightarrow> (bool \<times> 'st) option"
    and get :: "'st \<Rightarrow> nat \<Rightarrow> nat \<Rightarrow> bytes option"
  assumes alloc_read: "good s \<Longrightarrow> 0 < n \<Longrightarrow> n < 2 ^ 63 \<Longrightarrow> alloc s n = Some (a, s') \<Longrightarrow>
      0 < m \<Longrightarrow> bot s \<le> b \<Longrightarrow> b + m \<le> top s \<Longrightarrow> get s' b m = get s b m"
    and free_read: "good s \<Longrightarrow> get (free s a n) b m = get s b m"
    and tick_read: "good s \<Longrightarrow> get (tick s) b m = get s b m"
    and write_law: "good s \<Longrightarrow> d \<noteq> [] \<Longrightarrow> bot s \<le> a \<Longrightarrow> a + length d \<le> top s \<Longrightarrow>
      \<exists>s'. put s a d = Some (True, s') \<and> good s' \<and> bot s' = bot s \<and> top s' = top s \<and>
        free_regions s' = free_regions s \<and> get s' a (length d) = Some d \<and>
        (\<forall>b m. 0 < m \<longrightarrow> bot s \<le> b \<longrightarrow> b + m \<le> top s \<longrightarrow> b + m \<le> a \<or> a + length d \<le> b \<longrightarrow> get s' b m = get s b m)"
begin

definition holds :: "'st \<Rightarrow> heap \<Rightarrow> bool" where
  "holds s h \<longleftrightarrow> accounted s (regions h) \<and> heap_apart h \<and> (\<forall>(a, d) \<in> set h. get s a (length d) = Some d)"

lemma new_holds:
  assumes "holds s h" "small_op (New d)"
    and "client_step alloc free tick put (New d) (s, h) = Some (s', h')"
  shows "holds s' h'"
proof (cases "d = []")
  case True
  then show ?thesis using assms by simp
next
  case False
  then have n: "0 < length d" "length d < 2 ^ 63"
    using assms(2) by (auto simp: small_op_def)
  have acc: "accounted s (regions h)" and g: "good s"
    using assms(1) by (simp_all add: holds_def accounted_def)
  obtain a s1 where a: "alloc s (length d) = Some (a, s1)"
    using assms(3) False by (auto split: option.splits)
  have law: "bot s1 = bot s" "top s \<le> top s1" using alloc_law [OF g n a] by simp_all
  have kept: "get s1 b (length c) = Some c" if "(b, c) \<in> set h" for b c
    using alloc_read [OF g n a, of "length c" b] accounted_region [OF acc that] assms(1) that
    by (auto simp: holds_def)
  note acc1 = alloc_accounted [OF acc n a]
  show ?thesis
  proof (cases "a = 0")
    case True
    then show ?thesis using acc1 kept assms(1,3) a False by (auto simp: holds_def)
  next
    case nonzero: False
    then have acc1: "accounted s1 (add_mset (length d, a) (regions h))" using acc1 by simp
    then have g1: "good s1" and r1: "bot s1 \<le> a" "a + length d \<le> top s1"
      by (auto simp: accounted_def)
    obtain s2 where w: "put s1 a d = Some (True, s2)" "good s2" "bot s2 = bot s1" "top s2 = top s1"
      "free_regions s2 = free_regions s1" "get s2 a (length d) = Some d"
      "\<forall>b m. 0 < m \<longrightarrow> bot s1 \<le> b \<longrightarrow> b + m \<le> top s1 \<longrightarrow> b + m \<le> a \<or> a + length d \<le> b \<longrightarrow> get s2 b m = get s1 b m"
      using write_law [OF g1 False r1] by blast
    have eq: "s' = s2" "h' = (a, d) # h"
      using assms(3) a w(1) False nonzero by simp_all
    have apart: "a + length d \<le> b \<or> b + length c \<le> a" if "(b, c) \<in> set h" for b c
      using accounted_fresh [OF acc1 n(1) that] .
    have "a \<notin> fst ` set h"
      using apart accounted_region [OF acc] n(1) by fastforce
    then have "heap_apart h'"
      using assms(1) apart unfolding eq holds_def heap_apart_def by fastforce
    moreover have "accounted s2 (regions h')"
      using acc1 w(2-5) by (simp add: eq accounted_def)
    moreover have "get s2 b (length c) = Some c" if "(b, c) \<in> set h" for b c
    proof -
      have "get s2 b (length c) = get s1 b (length c)"
        using w(7) apart [OF that] accounted_region [OF acc that] law by auto
      then show ?thesis using kept [OF that] by simp
    qed
    ultimately show ?thesis using w(6) by (auto simp: eq holds_def)
  qed
qed

lemma heap_apart_remove:
  assumes "heap_apart h"
  shows "heap_apart (filter (\<lambda>(b, c). b \<noteq> a) h)"
proof (rule heap_apartI)
  show "distinct (map fst (filter (\<lambda>(b, c). b \<noteq> a) h))"
    using assms by (simp add: heap_apart_def distinct_map_filter)
qed (use assms heap_apartD in auto)

lemma heap_apart_update:
  assumes "heap_apart h" "map_of h a = Some d'" "length d = length d'"
  shows "heap_apart (map (\<lambda>(b, c). (b, if b = a then d else c)) h)"
proof (rule heap_apartI)
  let ?f = "\<lambda>(b, c). (b, if b = a then d else c)"
  have "map fst (map ?f h) = map fst h" by (auto simp: comp_def case_prod_unfold)
  then show "distinct (map fst (map ?f h))"
    using assms(1) by (simp only: heap_apart_def)
  have same: "\<exists>c'. (b, c') \<in> set h \<and> length c' = length c" if "(b, c) \<in> set (map ?f h)" for b c
    using that map_of_SomeD [OF assms(2)] assms(3) by (auto split: if_splits)
  show "b + length c \<le> e \<or> e + length f \<le> b"
    if x: "(b, c) \<in> set (map ?f h)" and y: "(e, f) \<in> set (map ?f h)" and "b \<noteq> e" for b c e f
    using same [OF x] same [OF y] heap_apartD [OF assms(1) _ _ \<open>b \<noteq> e\<close>] by metis
qed

lemma del_holds:
  assumes "holds s h" "map_of h a = Some d"
  shows "holds (free s a (length d)) (filter (\<lambda>(b, c). b \<noteq> a) h)"
proof -
  let ?h = "filter (\<lambda>(b, c). b \<noteq> a) h"
  have "regions h = add_mset (length d, a) (regions ?h)"
    using assms by (intro regions_remove) (auto simp: holds_def heap_apart_def)
  then have "accounted (free s a (length d)) (regions ?h)"
    using assms(1) free_accounted by (simp add: holds_def)
  moreover have "good s" using assms(1) by (simp add: holds_def accounted_def)
  ultimately show ?thesis
    using assms(1) heap_apart_remove by (auto simp: holds_def free_read)
qed

lemma put_holds:
  assumes "holds s h" "map_of h a = Some d'" "length d = length d'"
  shows "\<exists>s'. put s a d = Some (True, s') \<and>
    holds s' (map (\<lambda>(b, c). (b, if b = a then d else c)) h)"
proof -
  let ?h = "map (\<lambda>(b, c). (b, if b = a then d else c)) h"
  have acc: "accounted s (regions h)" and g: "good s" and ap: "heap_apart h"
    using assms(1) by (simp_all add: holds_def accounted_def)
  have a: "(a, d') \<in> set h" using assms(2) by (rule map_of_SomeD)
  note r = accounted_region [OF acc a]
  then have "d \<noteq> []" using assms(3) by auto
  then obtain s' where w: "put s a d = Some (True, s')" "good s'" "bot s' = bot s" "top s' = top s"
    "free_regions s' = free_regions s" "get s' a (length d) = Some d"
    "\<forall>b m. 0 < m \<longrightarrow> bot s \<le> b \<longrightarrow> b + m \<le> top s \<longrightarrow> b + m \<le> a \<or> a + length d \<le> b \<longrightarrow> get s' b m = get s b m"
    using write_law [OF g, of d a] r assms(3) by auto
  have "regions ?h = regions h"
    using regions_update [of h a d] ap assms(2,3) by (simp add: heap_apart_def)
  then have "accounted s' (regions ?h)"
    using acc w(2-5) by (simp add: accounted_def)
  moreover have "get s' b (length c) = Some c" if "(b, c) \<in> set h" "b \<noteq> a" for b c
  proof -
    have "b + length c \<le> a \<or> a + length d \<le> b"
      using heap_apartD [OF ap that(1) a that(2)] assms(3) by simp
    then have "get s' b (length c) = get s b (length c)"
      using w(7) accounted_region [OF acc that(1)] by blast
    then show ?thesis using assms(1) that(1) by (auto simp: holds_def)
  qed
  ultimately have "holds s' ?h"
    using w(6) heap_apart_update [OF ap assms(2,3)] by (auto simp: holds_def)
  then show ?thesis using w(1) by blast
qed

lemma step_holds:
  assumes "holds s h" "small_op op" "client_step alloc free tick put op (s, h) = Some (s', h')"
  shows "holds s' h'"
proof (cases op)
  case (New d)
  then show ?thesis using assms new_holds by blast
next
  case (Put a d)
  then show ?thesis
    using assms(1,3) put_holds [OF assms(1), of a _ d] by (auto split: option.splits if_splits)
next
  case (Del a)
  then show ?thesis using assms(1,3) del_holds by (auto split: option.splits)
next
  case Tick
  have "good s" using assms(1) by (simp add: holds_def accounted_def)
  then show ?thesis
    using Tick assms(1,3) tick_accounted by (auto simp: holds_def tick_read)
qed

lemma run_holds:
  "client_run alloc free tick put ops (s, h) = Some (s', h') \<Longrightarrow> holds s h \<Longrightarrow>
   list_all small_op ops \<Longrightarrow> holds s' h'"
proof (induction ops arbitrary: s h)
  case Nil
  then show ?case by simp
next
  case (Cons op ops)
  then obtain s1 h1 where "client_step alloc free tick put op (s, h) = Some (s1, h1)"
    by (auto split: option.splits)
  with Cons step_holds show ?case by auto
qed

lemma start_holds:
  "good s \<Longrightarrow> separate (free_regions s) \<Longrightarrow> within (bot s) (top s) (free_regions s) \<Longrightarrow> holds s []"
  by (simp add: holds_def accounted_def heap_apart_def)

lemma holds_readback: "holds s h \<Longrightarrow> heap_apart h \<and> (\<forall>(a, d) \<in> set h. get s a (length d) = Some d)"
  by (simp add: holds_def)

lemma run_from_start:
  assumes "client_run alloc free tick put ops (s, []) = Some (s', h)" "list_all small_op ops"
    and "good s" "separate (free_regions s)" "within (bot s) (top s) (free_regions s)"
  shows "heap_apart h \<and> (\<forall>(a, d) \<in> set h. get s' a (length d) = Some d)"
  using run_holds [OF assms(1) start_holds assms(2)] assms(3-5) by (simp add: holds_def)

lemma run_total:
  assumes "\<And>s n. good s \<Longrightarrow> 0 < n \<Longrightarrow> n < 2 ^ 63 \<Longrightarrow> alloc s n \<noteq> None"
  shows "holds s h \<Longrightarrow> list_all small_op ops \<Longrightarrow> client_run alloc free tick put ops (s, h) \<noteq> None"
proof (induction ops arbitrary: s h)
  case Nil
  then show ?case by simp
next
  case (Cons op ops)
  have "client_step alloc free tick put op (s, h) \<noteq> None"
  proof (cases op)
    case (New d)
    show ?thesis
    proof (cases "d = []")
      case False
      then have n: "0 < length d" "length d < 2 ^ 63"
        using Cons.prems(2) New by (auto simp: small_op_def)
      have g: "good s" and acc: "accounted s (regions h)"
        using Cons.prems(1) by (simp_all add: holds_def accounted_def)
      obtain a s1 where a: "alloc s (length d) = Some (a, s1)"
        using assms [OF g n] by auto
      show ?thesis
      proof (cases "a = 0")
        case False
        with alloc_accounted [OF acc n a] have "accounted s1 (add_mset (length d, a) (regions h))"
          by simp
        then have "good s1" "bot s1 \<le> a" "a + length d \<le> top s1"
          by (auto simp: accounted_def)
        from write_law [OF this(1) \<open>d \<noteq> []\<close> this(2,3)] show ?thesis
          using New a by auto
      qed (use New a in simp)
    qed (use New in simp)
  next
    case (Put a d)
    then show ?thesis
      using put_holds [OF Cons.prems(1), of a _ d] by (fastforce split: option.splits)
  next
    case (Del a)
    then show ?thesis by (simp split: option.splits)
  qed simp
  then obtain s1 h1 where st: "client_step alloc free tick put op (s, h) = Some (s1, h1)"
    by auto
  then have "holds s1 h1" using step_holds Cons.prems by auto
  then show ?case using Cons st by auto
qed

end

end
