(* ===== verification/File_Pool.thy ===== *)
theory File_Pool
  imports File_Store Allocator
begin

text \<open>
  \<open>FilePool\<close> (kernel/pool/file_pool.h, file_pool.cc): an allocator over a store with a free
  list per block size, kept across runs in the file \<open><name>.fl\<close>.  Pointers are numbers with 0
  for \<open>nullptr\<close>; for this pool they are file positions.  The virtual methods a base-class method
  calls are arguments.  None is a call that does not return (it faults or loops for ever).
\<close>

section \<open>Blocks and the free list\<close>

record block =
  b_addr :: nat
  b_timestamp :: nat
  b_size :: nat

definition block_less :: "block \<Rightarrow> block \<Rightarrow> bool" where
  "block_less a b = (b_addr a < b_addr b)"

text \<open>\<open>std::priority_queue<Block>\<close>: the greatest address first.\<close>

fun pq_push :: "block \<Rightarrow> block list \<Rightarrow> block list" where
  "pq_push b [] = [b]"
| "pq_push b (c # cs) = (if block_less c b then b # c # cs else c # pq_push b cs)"

text \<open>\<open>std::map<size_t, std::priority_queue<Block>>\<close>: the queues in ascending order of their size.\<close>

type_synonym free_list = "(nat \<times> block list) list"

fun fl_set :: "nat \<Rightarrow> block list \<Rightarrow> free_list \<Rightarrow> free_list" where
  "fl_set k q [] = [(k, q)]"
| "fl_set k q ((k', q') # rest) =
     (if k < k' then (k, q) # (k', q') # rest
      else if k = k' then (k, q) # rest
      else (k', q') # fl_set k q rest)"

definition fl_erase :: "nat \<Rightarrow> free_list \<Rightarrow> free_list" where
  "fl_erase k fl = filter (\<lambda>(k', _). k' \<noteq> k) fl"

definition fl_push :: "nat \<Rightarrow> block \<Rightarrow> free_list \<Rightarrow> free_list" where
  "fl_push k b fl =
     fl_set k (pq_push b (case map_of fl k of None \<Rightarrow> [] | Some q \<Rightarrow> q)) fl"

section \<open>The pool\<close>

record 's pool =
  p_store :: "'s option"
  p_read_only :: bool
  p_use_free_list :: bool
  p_reuse_timegap :: int
  p_user_space_size :: nat
  p_block_count :: nat
  p_free_list :: free_list
  p_pending :: "(nat \<times> nat) list"  \<comment> \<open>the delayed frees queued on the worker thread\<close>
  p_running :: bool                   \<comment> \<open>the worker thread is started\<close>
  p_junk :: nat                       \<comment> \<open>the uninitialised timestamp of a block on the stack\<close>

definition kDefaultTimegap :: int where
  "kDefaultTimegap = 3"

definition kInitReserveSpace :: nat where
  "kInitReserveSpace = 64"

definition fp_AllocFromFreeList :: "('s, 'a) pool_scheme \<Rightarrow> nat \<Rightarrow> nat \<times> ('s, 'a) pool_scheme" where
  "fp_AllocFromFreeList p sz =
     (case map_of (p_free_list p) sz of
        None \<Rightarrow> (0, p)
      | Some [] \<Rightarrow> (0, p)
      | Some (b # rest) \<Rightarrow>
          (b_addr b,
           p\<lparr>p_free_list := (if rest = [] then fl_erase sz (p_free_list p)
                             else fl_set sz rest (p_free_list p)),
             p_block_count := sub64 (p_block_count p) 1,
             p_user_space_size := sub64 (p_user_space_size p) sz\<rparr>))"

definition fp_AllocFromStore ::
  "os \<Rightarrow> (file_store, 'a) pool_scheme \<Rightarrow> nat \<Rightarrow> (nat \<times> os \<times> (file_store, 'a) pool_scheme) option" where
  "fp_AllocFromStore os p sz =
     (case p_store p of
        None \<Rightarrow> Some (0, os, p)
      | Some st \<Rightarrow>
          let pos = fs_GetSize st in
          (case fs_Expand os st sz of
             (status, os', st') \<Rightarrow>
               Some (if operate status then pos else 0, os', p\<lparr>p_store := Some st'\<rparr>)))"

definition fp_DoAlloc ::
  "(os \<Rightarrow> ('s, 'a) pool_scheme \<Rightarrow> nat \<Rightarrow> (nat \<times> os \<times> ('s, 'a) pool_scheme) option) \<Rightarrow>
   os \<Rightarrow> ('s, 'a) pool_scheme \<Rightarrow> nat \<Rightarrow> (nat \<times> os \<times> ('s, 'a) pool_scheme) option" where
  "fp_DoAlloc alloc_from_store os p sz =
     (case (if p_use_free_list p then fp_AllocFromFreeList p sz else (0, p)) of
        (ret, p') \<Rightarrow> if ret \<noteq> 0 then Some (ret, os, p') else alloc_from_store os p' sz)"

text \<open>The block's size has 32 bits; its timestamp is never assigned.\<close>

definition fp_DoFree :: "('s, 'a) pool_scheme \<Rightarrow> nat \<Rightarrow> nat \<Rightarrow> bool \<times> ('s, 'a) pool_scheme" where
  "fp_DoFree p addr sz =
     (if \<not> p_use_free_list p then (True, p)
      else let b = \<lparr>b_addr = addr, b_timestamp = p_junk p, b_size = sz mod 2 ^ 32\<rparr> in
        (True,
         p\<lparr>p_free_list := fl_push sz b (p_free_list p),
           p_user_space_size := add64 (p_user_space_size p) (b_size b),
           p_block_count := add64 (p_block_count p) 1\<rparr>))"

text \<open>
  With a positive reuse time gap a free is queued on the worker thread, which performs it after
  the delay; once the worker is stopped the task is dropped.  The worker's step:
\<close>

definition fp_Free ::
  "(('s, 'a) pool_scheme \<Rightarrow> nat \<Rightarrow> nat \<Rightarrow> bool \<times> ('s, 'a) pool_scheme) \<Rightarrow>
   ('s, 'a) pool_scheme \<Rightarrow> nat \<Rightarrow> nat \<Rightarrow> bool \<times> ('s, 'a) pool_scheme" where
  "fp_Free do_free p addr sz =
     (if p_reuse_timegap p \<le> 0 then do_free p addr sz
      else (True, if p_running p then p\<lparr>p_pending := p_pending p @ [(addr, sz)]\<rparr> else p))"

definition fp_run_delayed ::
  "(('s, 'a) pool_scheme \<Rightarrow> nat \<Rightarrow> nat \<Rightarrow> bool \<times> ('s, 'a) pool_scheme) \<Rightarrow>
   ('s, 'a) pool_scheme \<Rightarrow> ('s, 'a) pool_scheme" where
  "fp_run_delayed do_free p =
     (case p_pending p of
        [] \<Rightarrow> p
      | (addr, sz) # rest \<Rightarrow> snd (do_free (p\<lparr>p_pending := rest\<rparr>) addr sz))"

definition fp_Write ::
  "os \<Rightarrow> (file_store, 'a) pool_scheme \<Rightarrow> nat \<Rightarrow> bytes \<Rightarrow> bool \<times> os \<times> (file_store, 'a) pool_scheme" where
  "fp_Write os p addr data =
     (case p_store p of
        None \<Rightarrow> (False, os, p)
      | Some st \<Rightarrow>
          (case fs_Write os st (of_nat addr) data of
             (status, os', st') \<Rightarrow> (operate status, os', p\<lparr>p_store := Some st'\<rparr>)))"

definition fp_Read :: "os \<Rightarrow> (file_store, 'a) pool_scheme \<Rightarrow> nat \<Rightarrow> nat \<Rightarrow> bool \<times> bytes" where
  "fp_Read os p addr len =
     (case p_store p of
        None \<Rightarrow> (False, [])
      | Some st \<Rightarrow> (case fs_Read os st (of_nat addr) len of (status, buf) \<Rightarrow> (operate status, buf)))"

definition fp_NewData ::
  "os \<Rightarrow> (file_store, 'a) pool_scheme \<Rightarrow> bytes \<Rightarrow> (int \<times> os \<times> (file_store, 'a) pool_scheme) option" where
  "fp_NewData os p data =
     (if data = [] then Some (-1, os, p)
      else case fp_DoAlloc fp_AllocFromStore os p (length data) of
             None \<Rightarrow> None
           | Some (addr, os1, p1) \<Rightarrow>
               if addr = 0 then Some (-1, os1, p1)
               else (case fp_Write os1 p1 addr data of
                       (ok, os2, p2) \<Rightarrow> Some (if ok then int addr else -1, os2, p2)))"

section \<open>The free list file\<close>

definition encode_block :: "block \<Rightarrow> bytes" where
  "encode_block b = le_bytes 8 (b_addr b) @ le_bytes 4 (b_timestamp b) @ le_bytes 4 (b_size b)"

definition decode_block :: "bytes \<Rightarrow> block" where
  "decode_block bs =
     \<lparr>b_addr = le_val (get_bytes 0 8 bs), b_timestamp = le_val (get_bytes 8 4 bs),
      b_size = le_val (get_bytes 12 4 bs)\<rparr>"

text \<open>A read into a variable that delivers fewer bytes leaves the rest of the variable.\<close>

definition overlay :: "bytes \<Rightarrow> bytes \<Rightarrow> bytes" where
  "overlay buf old = buf @ drop (length buf) old"

text \<open>
  \<open>rel\<close> is what the pool adds to a stored address: 0 for \<open>FilePool\<close>, the start of the mapped
  data for \<open>MMapPool\<close>.
\<close>

fun load_blocks ::
  "os \<Rightarrow> file_store \<Rightarrow> nat \<Rightarrow> nat \<Rightarrow> nat \<Rightarrow> block \<Rightarrow> free_list \<Rightarrow> nat \<Rightarrow> free_list \<times> nat" where
  "load_blocks os fs rel 0 pos blk fl user_space = (fl, user_space)"
| "load_blocks os fs rel (Suc n) pos blk fl user_space =
     (case fs_Read os fs (of_nat pos) 16 of
        (status, buf) \<Rightarrow>
          if \<not> operate status then load_blocks os fs rel n pos blk fl user_space
          else
            let raw = decode_block (overlay buf (encode_block blk));
                b = raw\<lparr>b_addr := (rel + b_addr raw) mod 2 ^ 64\<rparr>
            in load_blocks os fs rel n (pos + length buf) b
                 (fl_push (b_size b) b fl) (add64 user_space (b_size b)))"

definition fp_LoadFreeList ::
  "nat \<Rightarrow> os \<Rightarrow> ('s, 'a) pool_scheme \<Rightarrow> string \<Rightarrow> bool \<times> os \<times> ('s, 'a) pool_scheme" where
  "fp_LoadFreeList rel os p free_list_file =
     (case fs_Open os FileStore_new free_list_file False of
        (status, os1, fs) \<Rightarrow>
          if \<not> operate status then (False, os1, p)
          else
            let p1 = p\<lparr>p_free_list := []\<rparr> in
            (case fs_Read os1 fs 0 8 of
               (status, buf) \<Rightarrow>
                 if \<not> operate status then (False, os1, p1)
                 else
                   let n = le_val (overlay buf (le_bytes 8 0));
                       blk = \<lparr>b_addr = 0, b_timestamp = p_junk p, b_size = 0\<rparr>
                   in (case load_blocks os1 fs rel n (length buf) blk [] (p_user_space_size p) of
                         (fl, us) \<Rightarrow> (True, os1, p1\<lparr>p_free_list := fl, p_user_space_size := us\<rparr>))))"

text \<open>A block that cannot be written is tried again and again: the loop does not pop it.\<close>

partial_function (option) dump_queue ::
  "os \<Rightarrow> file_store \<Rightarrow> nat \<Rightarrow> block list \<Rightarrow> nat \<Rightarrow> nat \<Rightarrow> (os \<times> file_store \<times> nat \<times> nat) option" where
  "dump_queue os fs rel q sz pos =
     (case q of
        [] \<Rightarrow> Some (os, fs, sz, pos)
      | b # rest \<Rightarrow>
          (case fs_Write os fs (of_nat pos) (encode_block (b\<lparr>b_addr := sub64 (b_addr b) rel\<rparr>)) of
             (status, os', fs') \<Rightarrow>
               if \<not> operate status then dump_queue os' fs' rel q (sz + 1) pos
               else dump_queue os' fs' rel rest (sz + 1) (pos + 16)))"

fun dump_lists ::
  "os \<Rightarrow> file_store \<Rightarrow> nat \<Rightarrow> free_list \<Rightarrow> nat \<Rightarrow> nat \<Rightarrow> (os \<times> file_store \<times> nat \<times> nat) option" where
  "dump_lists os fs rel [] sz pos = Some (os, fs, sz, pos)"
| "dump_lists os fs rel ((k, q) # rest) sz pos =
     (case dump_queue os fs rel q sz pos of
        None \<Rightarrow> None
      | Some (os', fs', sz', pos') \<Rightarrow> dump_lists os' fs' rel rest sz' pos')"

definition fp_DumpFreeList ::
  "nat \<Rightarrow> os \<Rightarrow> ('s, 'a) pool_scheme \<Rightarrow> string \<Rightarrow> (bool \<times> os \<times> ('s, 'a) pool_scheme) option" where
  "fp_DumpFreeList rel os p free_list_file =
     (if p_read_only p \<or> p_user_space_size p = 0 then Some (True, os, p)
      else case fs_Open os FileStore_new free_list_file False of
        (status, os1, fs) \<Rightarrow>
          if \<not> operate status then Some (False, os1, p)
          else (case dump_lists os1 fs rel (p_free_list p) 0 8 of
                  None \<Rightarrow> None
                | Some (os2, fs2, n, _) \<Rightarrow>
                    (case fs_Write os2 fs2 0 (le_bytes 8 n) of
                       (status, os3, fs3) \<Rightarrow>
                         if \<not> operate status then
                           Some (False, os3, p\<lparr>p_free_list := map (\<lambda>(k, q). (k, [])) (p_free_list p)\<rparr>)
                         else
                           Some (True, snd (fs_Truncate os3 fs3 (8 + n * 16)),
                                 p\<lparr>p_free_list := [], p_user_space_size := 0\<rparr>))))"

section \<open>Start and stop\<close>

definition FilePool_new :: "nat \<Rightarrow> 's pool" where
  "FilePool_new junk =
     \<lparr>p_store = None, p_read_only = False, p_use_free_list = True,
      p_reuse_timegap = kDefaultTimegap, p_user_space_size = 0, p_block_count = 0,
      p_free_list = [], p_pending = [], p_running = True, p_junk = junk\<rparr>"

definition fl_readable :: "os \<Rightarrow> string \<Rightarrow> bool" where
  "fl_readable os path \<longleftrightarrow> files os path \<noteq> None \<and> open_ok os path True"

definition fp_Init :: "os \<Rightarrow> file_store pool \<Rightarrow> string \<Rightarrow> bool \<Rightarrow> bool \<times> os \<times> file_store pool" where
  "fp_Init os p file_name read_only =
     (let p1 = p\<lparr>p_read_only := read_only\<rparr>;
          st = (case p_store p of None \<Rightarrow> FileStore_new | Some st \<Rightarrow> st)
      in case fs_Open os st file_name read_only of
        (status, os1, st1) \<Rightarrow>
          if \<not> operate status then (False, os1, p1\<lparr>p_store := Some st1\<rparr>)
          else
            (case (if fs_GetSize st1 \<le> 0 then fs_Expand os1 st1 kInitReserveSpace
                   else (Status1 Success, os1, st1)) of
               (status, os2, st2) \<Rightarrow>
                 let p2 = p1\<lparr>p_store := Some st2\<rparr>; free_list_file = fs_name st2 @ ''.fl'' in
                 if \<not> operate status then (False, os2, p2)
                 else if fl_readable os2 free_list_file then
                   (True, snd (fp_LoadFreeList 0 os2 p2 free_list_file))
                 else (True, os2, p2)))"

text \<open>
  \<open>Release\<close> stops the worker, which first performs every queued free, writes the free list and
  closes the store.
\<close>

definition fp_run_all ::
  "(('s, 'a) pool_scheme \<Rightarrow> nat \<Rightarrow> nat \<Rightarrow> bool \<times> ('s, 'a) pool_scheme) \<Rightarrow>
   ('s, 'a) pool_scheme \<Rightarrow> ('s, 'a) pool_scheme" where
  "fp_run_all do_free p =
     fold (\<lambda>(addr, sz) p. snd (do_free p addr sz)) (p_pending p) (p\<lparr>p_pending := []\<rparr>)"

definition fp_Release :: "os \<Rightarrow> file_store pool \<Rightarrow> (os \<times> file_store pool) option" where
  "fp_Release os p =
     (let p1 = (fp_run_all fp_DoFree p)\<lparr>p_running := False\<rparr> in
      case p_store p1 of
        None \<Rightarrow> Some (os, p1)
      | Some st \<Rightarrow>
          (case fp_DumpFreeList 0 os p1 (fs_name st @ ''.fl'') of
             None \<Rightarrow> None
           | Some (_, os2, p2) \<Rightarrow> Some (os2, p2\<lparr>p_store := None\<rparr>)))"

section \<open>The free blocks\<close>

definition fl_regions :: "free_list \<Rightarrow> region multiset" where
  "fl_regions fl = sum_list (map (\<lambda>(k, q). mset (map (\<lambda>b. (k, b_addr b)) q)) fl)"

definition fl_ok :: "free_list \<Rightarrow> bool" where
  "fl_ok fl \<longleftrightarrow> sorted_wrt (<) (map fst fl) \<and>
     (\<forall>(k, q) \<in> set fl. q \<noteq> [] \<and> sorted_wrt (\<lambda>a b. b_addr b \<le> b_addr a) q \<and>
        (\<forall>b \<in> set q. b_size b = k mod 2 ^ 32))"

definition fl_space :: "free_list \<Rightarrow> nat" where
  "fl_space fl = sum_list (map (\<lambda>(k, q). sum_list (map b_size q)) fl)"

lemma fl_regions_simps [simp]:
  "fl_regions [] = {#}"
  "fl_regions ((k, q) # fl) = mset (map (\<lambda>b. (k, b_addr b)) q) + fl_regions fl"
  by (simp_all add: fl_regions_def)

lemma fl_space_simps [simp]:
  "fl_space [] = 0" "fl_space ((k, q) # fl) = sum_list (map b_size q) + fl_space fl"
  by (simp_all add: fl_space_def)

lemma fl_ok_Nil [simp]: "fl_ok []"
  by (simp add: fl_ok_def)

lemma fl_ok_Cons [simp]:
  "fl_ok ((k, q) # fl) \<longleftrightarrow>
   (\<forall>k' \<in> fst ` set fl. k < k') \<and> q \<noteq> [] \<and> sorted_wrt (\<lambda>a b. b_addr b \<le> b_addr a) q \<and>
   (\<forall>b \<in> set q. b_size b = k mod 2 ^ 32) \<and> fl_ok fl"
  by (auto simp: fl_ok_def)

lemma mset_pq_push [simp]: "mset (pq_push b q) = add_mset b (mset q)"
  by (induction q) auto

lemma set_pq_push [simp]: "set (pq_push b q) = insert b (set q)"
  by (metis mset_pq_push set_mset_add_mset_insert set_mset_mset)

lemma pq_push_not_Nil [simp]: "pq_push b q \<noteq> []"
  by (metis mset_pq_push add_mset_not_empty mset_zero_iff)

lemma sorted_pq_push:
  "sorted_wrt (\<lambda>a b. b_addr b \<le> b_addr a) q \<Longrightarrow> sorted_wrt (\<lambda>a b. b_addr b \<le> b_addr a) (pq_push b q)"
  by (induction q) (auto simp: block_less_def)

lemma sum_list_pq_push: "sum_list (map f (pq_push b q)) = f b + sum_list (map f q)" for f :: "block \<Rightarrow> nat"
  by (induction q) auto

lemma mset_map_pq_push: "mset (map f (pq_push b q)) = add_mset (f b) (mset (map f q))"
  by simp

lemma fst_fl_set [simp]: "fst ` set (fl_set k q fl) = insert k (fst ` set fl)"
  by (induction k q fl rule: fl_set.induct) auto

lemma fl_below: "\<forall>x \<in> set fl. k' < fst x \<Longrightarrow> k \<le> k' \<Longrightarrow> map_of fl k = None" for k :: nat
  by (induction fl) auto

lemma fl_set_replace:
  assumes "fl_ok fl" "map_of fl k = Some q"
  shows "fl_regions fl + mset (map (\<lambda>b. (k, b_addr b)) q') =
      fl_regions (fl_set k q' fl) + mset (map (\<lambda>b. (k, b_addr b)) q) \<and>
    fl_space fl + sum_list (map b_size q') = fl_space (fl_set k q' fl) + sum_list (map b_size q)"
  using assms by (induction k q' fl rule: fl_set.induct)
    (auto split: if_splits simp: fl_below)

lemma fl_set_new:
  assumes "fl_ok fl" "map_of fl k = None"
  shows "fl_regions (fl_set k q' fl) = fl_regions fl + mset (map (\<lambda>b. (k, b_addr b)) q') \<and>
    fl_space (fl_set k q' fl) = fl_space fl + sum_list (map b_size q')"
  using assms by (induction k q' fl rule: fl_set.induct) (auto split: if_splits)

lemma fl_set_ok:
  "fl_ok fl \<Longrightarrow> q \<noteq> [] \<Longrightarrow> sorted_wrt (\<lambda>a b. b_addr b \<le> b_addr a) q \<Longrightarrow>
   \<forall>b \<in> set q. b_size b = k mod 2 ^ 32 \<Longrightarrow> fl_ok (fl_set k q fl)"
  by (induction k q fl rule: fl_set.induct) (auto dest: less_trans)

lemma fl_lookup_ok:
  "fl_ok fl \<Longrightarrow> map_of fl k = Some q \<Longrightarrow>
   q \<noteq> [] \<and> sorted_wrt (\<lambda>a b. b_addr b \<le> b_addr a) q \<and> (\<forall>b \<in> set q. b_size b = k mod 2 ^ 32)"
  using map_of_SomeD [of fl k q] by (auto simp: fl_ok_def)

lemma fl_push_facts:
  assumes "fl_ok fl" "b_size b = k mod 2 ^ 32"
  shows "fl_ok (fl_push k b fl) \<and>
    fl_regions (fl_push k b fl) = add_mset (k, b_addr b) (fl_regions fl) \<and>
    fl_space (fl_push k b fl) = fl_space fl + b_size b"
proof (cases "map_of fl k")
  case None
  then show ?thesis
    using fl_set_new [OF assms(1) None, of "[b]"] fl_set_ok [OF assms(1), of "[b]" k] assms(2)
    by (simp add: fl_push_def)
next
  case (Some q)
  note q = fl_lookup_ok [OF assms(1) Some]
  have "fl_ok (fl_push k b fl)"
    using q assms by (auto simp: fl_push_def Some intro!: fl_set_ok sorted_pq_push)
  then show ?thesis
    using fl_set_replace [OF assms(1) Some, of "pq_push b q"] Some
    by (simp add: fl_push_def sum_list_pq_push mset_map_pq_push)
qed

lemma fl_erase_absent: "\<forall>k' \<in> fst ` set fl. k < k' \<Longrightarrow> fl_erase k fl = fl"
  by (force simp: fl_erase_def filter_id_conv)

lemma fl_erase_facts:
  assumes "fl_ok fl" "map_of fl k = Some q"
  shows "fl_ok (fl_erase k fl) \<and>
    fl_regions fl = fl_regions (fl_erase k fl) + mset (map (\<lambda>b. (k, b_addr b)) q) \<and>
    fl_space fl = fl_space (fl_erase k fl) + sum_list (map b_size q)"
  using assms
proof (induction fl)
  case Nil
  then show ?case by simp
next
  case (Cons e fl)
  obtain k' q' where e: "e = (k', q')" by fastforce
  show ?case
  proof (cases "k = k'")
    case True
    with Cons.prems show ?thesis
      using fl_erase_absent [of fl k] by (auto simp: e fl_erase_def)
  next
    case False
    then have er: "fl_erase k (e # fl) = e # fl_erase k fl" by (simp add: e fl_erase_def)
    have "set (fl_erase k fl) \<subseteq> set fl" by (auto simp: fl_erase_def)
    with False Cons show ?thesis unfolding er by (auto simp: e)
  qed
qed

definition pending_regions :: "('s, 'a) pool_scheme \<Rightarrow> region multiset" where
  "pending_regions p = mset (map (\<lambda>(a, n). (n, a)) (p_pending p))"

definition pool_regions :: "('s, 'a) pool_scheme \<Rightarrow> region multiset" where
  "pool_regions p = fl_regions (p_free_list p) + pending_regions p"

lemma AllocFromFreeList_facts:
  assumes "fl_ok (p_free_list p)" "fp_AllocFromFreeList p n = (a, p')"
  shows "fl_ok (p_free_list p') \<and>
    (p' = p \<and> a = 0 \<and> map_of (p_free_list p) n = None \<or>
     fl_regions (p_free_list p) = add_mset (n, a) (fl_regions (p_free_list p')) \<and>
     fl_space (p_free_list p) = fl_space (p_free_list p') + n mod 2 ^ 32 \<and>
     (\<forall>b. (n, b) \<in># mset (map (\<lambda>b. (n, b_addr b)) (case map_of (p_free_list p) n of None \<Rightarrow> [] | Some q \<Rightarrow> q))
        \<longrightarrow> b \<le> a) \<and>
     p_user_space_size p' = sub64 (p_user_space_size p) n) \<and>
    p_pending p' = p_pending p \<and> p_store p' = p_store p"
proof (cases "map_of (p_free_list p) n")
  case None
  then show ?thesis using assms by (auto simp: fp_AllocFromFreeList_def)
next
  case (Some q)
  note q = fl_lookup_ok [OF assms(1) Some]
  then obtain b rest where b: "q = b # rest" by (cases q) auto
  show ?thesis
  proof (cases "rest = []")
    case True
    then have "a = b_addr b" "p' = p\<lparr>p_free_list := fl_erase n (p_free_list p),
        p_block_count := sub64 (p_block_count p) 1,
        p_user_space_size := sub64 (p_user_space_size p) n\<rparr>"
      using assms(2) Some b by (auto simp: fp_AllocFromFreeList_def)
    then show ?thesis
      using fl_erase_facts [OF assms(1) Some] True Some q b by auto
  next
    case False
    then have p': "a = b_addr b" "p' = p\<lparr>p_free_list := fl_set n rest (p_free_list p),
        p_block_count := sub64 (p_block_count p) 1,
        p_user_space_size := sub64 (p_user_space_size p) n\<rparr>"
      using assms(2) Some b by (auto simp: fp_AllocFromFreeList_def)
    have "fl_ok (fl_set n rest (p_free_list p))"
      using False q b assms(1) by (intro fl_set_ok) auto
    moreover have "\<forall>x \<in> set rest. b_addr x \<le> b_addr b" "b_size b = n mod 2 ^ 32" using q b by auto
    ultimately show ?thesis
      using fl_set_replace [OF assms(1) Some, of rest] Some b p' by auto
  qed
qed

lemma DoFree_facts:
  assumes "fl_ok (p_free_list p)" "fp_DoFree p a n = (ok, p')"
  shows "ok \<and> fl_ok (p_free_list p') \<and> p_pending p' = p_pending p \<and> p_store p' = p_store p \<and>
    (if p_use_free_list p then
       fl_regions (p_free_list p') = add_mset (n, a) (fl_regions (p_free_list p)) \<and>
       fl_space (p_free_list p') = fl_space (p_free_list p) + n mod 2 ^ 32 \<and>
       p_user_space_size p' = add64 (p_user_space_size p) (n mod 2 ^ 32)
     else p' = p)"
  using assms
    fl_push_facts [OF assms(1), of "\<lparr>b_addr = a, b_timestamp = p_junk p, b_size = n mod 2 ^ 32\<rparr>" n]
  by (auto simp: fp_DoFree_def Let_def split: if_splits)

text \<open>The free list is exactly accounted for: \<open>user_space_size\<close> is the sum of its blocks.\<close>

definition fl_accounted :: "('s, 'a) pool_scheme \<Rightarrow> bool" where
  "fl_accounted p \<longleftrightarrow> fl_ok (p_free_list p) \<and> p_user_space_size p = fl_space (p_free_list p) mod 2 ^ 64"

lemma fl_regions_key:
  "fl_ok fl \<Longrightarrow> ((n, b) \<in># fl_regions fl) = (\<exists>q. map_of fl n = Some q \<and> b \<in> b_addr ` set q)"
proof (induction fl)
  case Nil
  then show ?case by simp
next
  case (Cons e fl)
  obtain k q where e: "e = (k, q)" by fastforce
  show ?case
  proof (cases "n = k")
    case True
    with Cons.prems have "map_of fl n = None" by (auto simp: e fl_below)
    with Cons show ?thesis by (auto simp: e True)
  next
    case False
    with Cons show ?thesis by (auto simp: e)
  qed
qed

text \<open>
  C25: the free list refines a multiset of (size, address) pairs: \<open>Free\<close> adds exactly the freed
  block, \<open>Alloc\<close> finds a block if and only if one of that size is free, takes out exactly the one it
  returns and returns the highest address; \<open>user_space_size\<close> stays the sum of the free
  blocks' sizes (modulo 2^64) as long as sizes fit the 32-bit field of a block.
\<close>

theorem fp_free_list_refines:
  assumes "fl_accounted p" "n < 2 ^ 32" "p_use_free_list p"
    and "fp_DoFree p c n = (ok, p')" "fp_AllocFromFreeList p n = (a, p'')"
  shows "ok \<and> fl_accounted p' \<and> fl_accounted p'' \<and>
    fl_regions (p_free_list p') = add_mset (n, c) (fl_regions (p_free_list p)) \<and>
    (if \<exists>b \<in># fl_regions (p_free_list p). fst b = n then
       fl_regions (p_free_list p) = add_mset (n, a) (fl_regions (p_free_list p'')) \<and>
       (\<forall>b. (n, b) \<in># fl_regions (p_free_list p) \<longrightarrow> b \<le> a)
     else a = 0 \<and> p'' = p)"
proof -
  have ok: "fl_ok (p_free_list p)" and us: "p_user_space_size p = fl_space (p_free_list p) mod 2 ^ 64"
    using assms(1) by (simp_all add: fl_accounted_def)
  note F = DoFree_facts [OF ok assms(4)] and A = AllocFromFreeList_facts [OF ok assms(5)]
  have 1: "ok \<and> fl_accounted p' \<and> fl_regions (p_free_list p') = add_mset (n, c) (fl_regions (p_free_list p))"
    using F assms(2,3) by (simp add: fl_accounted_def us)
  show ?thesis
  proof (cases "map_of (p_free_list p) n")
    case None
    then have "\<forall>b \<in># fl_regions (p_free_list p). fst b \<noteq> n"
      using fl_regions_key [OF ok, of n] by auto
    moreover have "p'' = p" "a = 0" using None assms(5) by (auto simp: fp_AllocFromFreeList_def)
    ultimately show ?thesis using 1 assms(1) by auto
  next
    case (Some q)
    then have A: "fl_ok (p_free_list p'')"
      "fl_regions (p_free_list p) = add_mset (n, a) (fl_regions (p_free_list p''))"
      "fl_space (p_free_list p) = fl_space (p_free_list p'') + n"
      "p_user_space_size p'' = sub64 (p_user_space_size p) n"
      "\<forall>b \<in> b_addr ` set q. b \<le> a"
      using A assms(2) by auto
    have "fl_accounted p''" unfolding fl_accounted_def A(4) us A(3) using A(1) by simp
    moreover have "\<forall>b. (n, b) \<in># fl_regions (p_free_list p) \<longrightarrow> b \<le> a"
      using A(5) Some fl_regions_key [OF ok, of n] by auto
    moreover have "\<exists>b \<in># fl_regions (p_free_list p). fst b = n" by (simp add: A(2))
    ultimately show ?thesis using 1 A(2) by simp
  qed
qed

definition demo_pool :: "file_store pool" where
  "demo_pool = (FilePool_new 0)\<lparr>p_free_list :=
     [(8, [\<lparr>b_addr = 80, b_timestamp = 0, b_size = 8\<rparr>, \<lparr>b_addr = 64, b_timestamp = 0, b_size = 8\<rparr>])],
     p_user_space_size := 16\<rparr>"

theorem fp_free_list_refines_witness:
  "fst (fp_AllocFromFreeList demo_pool 8) = 80 \<and>
   fl_accounted (snd (fp_AllocFromFreeList demo_pool 8))"
  using fp_free_list_refines [of demo_pool 8 96 "fst (fp_DoFree demo_pool 96 8)" "snd (fp_DoFree demo_pool 96 8)"
      "fst (fp_AllocFromFreeList demo_pool 8)" "snd (fp_AllocFromFreeList demo_pool 8)"]
  by (simp add: fl_accounted_def demo_pool_def FilePool_new_def fp_AllocFromFreeList_def)

section \<open>The file pool as an allocator\<close>

type_synonym file_pool_state = "os \<times> file_store pool"

definition fps_alloc :: "file_pool_state \<Rightarrow> nat \<Rightarrow> (nat \<times> file_pool_state) option" where
  "fps_alloc s n =
     (case fp_DoAlloc fp_AllocFromStore (fst s) (snd s) n of
        None \<Rightarrow> None | Some (a, os', p') \<Rightarrow> Some (a, (os', p')))"

definition fps_free :: "file_pool_state \<Rightarrow> nat \<Rightarrow> nat \<Rightarrow> file_pool_state" where
  "fps_free s a n = (fst s, snd (fp_Free fp_DoFree (snd s) a n))"

definition fps_tick :: "file_pool_state \<Rightarrow> file_pool_state" where
  "fps_tick s = (fst s, fp_run_delayed fp_DoFree (snd s))"

definition fps_write :: "file_pool_state \<Rightarrow> nat \<Rightarrow> bytes \<Rightarrow> (bool \<times> file_pool_state) option" where
  "fps_write s a d =
     (case fp_Write (fst s) (snd s) a d of (ok, os', p') \<Rightarrow> Some (ok, (os', p')))"

definition fps_read :: "file_pool_state \<Rightarrow> nat \<Rightarrow> nat \<Rightarrow> bytes option" where
  "fps_read s a n =
     (case fp_Read (fst s) (snd s) a n of (ok, buf) \<Rightarrow> if ok then Some buf else None)"

definition fps_store :: "file_pool_state \<Rightarrow> file_store \<Rightarrow> string \<Rightarrow> bool" where
  "fps_store s st f \<longleftrightarrow> p_store (snd s) = Some st \<and> fs_fd st = Some (f, False) \<and>
     fs_size st = length (file_of (fst s) f)"

definition fps_good :: "file_pool_state \<Rightarrow> bool" where
  "fps_good s \<longleftrightarrow> full_io (fst s) \<and> (\<exists>st f. fps_store s st f \<and> 0 < fs_size st \<and> fs_size st \<le> 2 ^ 63) \<and>
     fl_ok (p_free_list (snd s))"

definition fps_top :: "file_pool_state \<Rightarrow> nat" where
  "fps_top s = (case p_store (snd s) of None \<Rightarrow> 0 | Some st \<Rightarrow> fs_size st)"

lemma pending_simps [simp]:
  "p_pending p = [] \<Longrightarrow> pending_regions p = {#}"
  "p_pending p = (a, n) # rest \<Longrightarrow> pending_regions p = add_mset (n, a) (pending_regions (p\<lparr>p_pending := rest\<rparr>))"
  by (simp_all add: pending_regions_def)

lemma DoFree_regions:
  assumes "fl_ok (p_free_list p)" "fp_DoFree p a n = (ok, p')"
  shows "pool_regions p' \<subseteq># add_mset (n, a) (pool_regions p)"
  using DoFree_facts [OF assms] by (auto simp: pool_regions_def pending_regions_def split: if_splits)

lemma fp_Free_facts:
  assumes "fl_ok (p_free_list p)" "fp_Free fp_DoFree p a n = (ok, p')"
  shows "fl_ok (p_free_list p') \<and> p_store p' = p_store p \<and>
    pool_regions p' \<subseteq># add_mset (n, a) (pool_regions p)"
proof (cases "p_reuse_timegap p \<le> 0")
  case True
  then show ?thesis
    using assms DoFree_facts [of p a n ok p'] DoFree_regions [of p a n ok p'] by (simp add: fp_Free_def)
next
  case False
  then show ?thesis
    using assms by (auto simp: fp_Free_def pool_regions_def pending_regions_def)
qed

lemma fp_run_delayed_facts:
  assumes "fl_ok (p_free_list p)"
  shows "fl_ok (p_free_list (fp_run_delayed fp_DoFree p)) \<and>
    p_store (fp_run_delayed fp_DoFree p) = p_store p \<and>
    pool_regions (fp_run_delayed fp_DoFree p) \<subseteq># pool_regions p"
proof (cases "p_pending p")
  case Nil
  then show ?thesis using assms by (simp add: fp_run_delayed_def)
next
  case (Cons x rest)
  obtain a n where x: "x = (a, n)" by fastforce
  let ?p = "p\<lparr>p_pending := rest\<rparr>"
  obtain ok p' where f: "fp_DoFree ?p a n = (ok, p')" by fastforce
  have ok: "fl_ok (p_free_list ?p)" using assms by simp
  have "pool_regions p = add_mset (n, a) (pool_regions ?p)"
    using Cons x by (simp add: pool_regions_def)
  then show ?thesis
    using DoFree_facts [OF ok f] DoFree_regions [OF ok f] Cons x f by (simp add: fp_run_delayed_def)
qed

lemma fps_read_good:
  assumes "fps_store s st f" "full_io (fst s)" "fs_size st \<le> 2 ^ 63" "b + m \<le> fs_size st" "0 < m"
  shows "fps_read s b m = Some (get_bytes b m (file_of (fst s) f))"
  using assms fs_Read_full [of "fst s" st f False b m]
  by (simp add: fps_read_def fp_Read_def fps_store_def)

lemma fps_AllocFromStore:
  assumes "fps_good (os, p)" "0 < n" "n < 2 ^ 63"
    and "fp_AllocFromStore os p n = Some (a, os', p')"
  shows "fps_good (os', p') \<and> p_free_list p' = p_free_list p \<and> p_pending p' = p_pending p \<and>
    (a = 0 \<or> a = fps_top (os, p) \<and> fps_top (os', p') = a + n) \<and>
    fps_top (os, p) \<le> fps_top (os', p') \<and>
    (\<forall>b m. 0 < m \<longrightarrow> b + m \<le> fps_top (os, p) \<longrightarrow> fps_read (os', p') b m = fps_read (os, p) b m)"
proof -
  obtain st f where st: "p_store p = Some st" "fs_fd st = Some (f, False)"
    "fs_size st = length (file_of os f)" "0 < fs_size st" "fs_size st \<le> 2 ^ 63" "full_io os"
    "fl_ok (p_free_list p)"
    using assms(1) by (auto simp: fps_good_def fps_store_def)
  show ?thesis
  proof (cases "fs_size st + n \<le> 2 ^ 63")
    case True
    then have e: "fs_Expand os st n = (Status1 Success,
        set_file os f (put_bytes (length (file_of os f) + n - 1) (le_bytes 1 n) (file_of os f)),
        st\<lparr>fs_size := fs_size st + n\<rparr>)"
      using fs_Expand_full st assms(2) by metis
    have len: "fs_size st + n = max (length (file_of os f)) (length (file_of os f) + n - 1 + 1)"
      using assms(2) st(3) by simp
    have "fps_read (os', p') b m = fps_read (os, p) b m" if "b + m \<le> fs_size st" "0 < m" for b m
    proof -
      have "get_bytes b m (put_bytes (length (file_of os f) + n - 1) (le_bytes 1 n) (file_of os f)) =
          get_bytes b m (file_of os f)"
        using that st(3) assms(2) by (intro get_put_disjoint) auto
      moreover have "fps_store (os', p') (st\<lparr>fs_size := fs_size st + n\<rparr>) f" "full_io os'"
        "file_of os' f = put_bytes (length (file_of os f) + n - 1) (le_bytes 1 n) (file_of os f)"
        using assms(4) st len by (auto simp: fp_AllocFromStore_def e fps_store_def)
      moreover have "fps_store (os, p) st f" using st by (simp add: fps_store_def)
      ultimately show ?thesis
        using fps_read_good [of "(os, p)" st f b m] fps_read_good [of "(os', p')" "st\<lparr>fs_size := fs_size st + n\<rparr>" f b m]
          that st True by simp
    qed
    then show ?thesis
      using assms(4) st True len
      by (auto simp: fp_AllocFromStore_def e fs_GetSize_def fps_good_def fps_store_def fps_top_def)
  next
    case False
    have "sint (of_nat (n - 1) :: u64) = int (n - 1)"
      using assms(2,3) by (intro sint_of_nat_u64) simp
    then have "sys_lseek (int (length (file_of os f)) + sint (of_nat (n - 1) :: u64)) = None"
      using False st(3) assms(2) by (auto simp: sys_lseek_def)
    then show ?thesis
      using assms st by (auto simp: fp_AllocFromStore_def fs_Expand_def fps_good_def fps_store_def fps_top_def fps_read_def fp_Read_def)
  qed
qed

lemma fps_alloc_facts:
  assumes "fps_good s" "0 < n" "n < 2 ^ 63" "fps_alloc s n = Some (a, s')"
  shows "fps_good s' \<and> fps_top s \<le> fps_top s' \<and>
    (a = 0 \<and> pool_regions (snd s') \<subseteq># pool_regions (snd s) \<or>
     add_mset (n, a) (pool_regions (snd s')) \<subseteq># pool_regions (snd s) \<or>
     fps_top s \<le> a \<and> a + n \<le> fps_top s' \<and> pool_regions (snd s') \<subseteq># pool_regions (snd s)) \<and>
    (\<forall>b m. 0 < m \<longrightarrow> b + m \<le> fps_top s \<longrightarrow> fps_read s' b m = fps_read s b m)"
proof -
  obtain os p where s: "s = (os, p)" by fastforce
  have ok: "fl_ok (p_free_list p)" using assms(1) by (simp add: fps_good_def s)
  define p1 where "p1 = (if p_use_free_list p then snd (fp_AllocFromFreeList p n) else p)"
  define r where "r = (if p_use_free_list p then fst (fp_AllocFromFreeList p n) else 0)"
  have alloc: "fps_alloc s n =
      (if r \<noteq> 0 then Some (r, (os, p1))
       else case fp_AllocFromStore os p1 n of None \<Rightarrow> None | Some (a, os', p') \<Rightarrow> Some (a, (os', p')))"
    by (simp add: fps_alloc_def fp_DoAlloc_def s p1_def r_def case_prod_unfold)
  have F: "fl_ok (p_free_list p1)" "p_pending p1 = p_pending p" "p_store p1 = p_store p"
    "pool_regions p1 \<subseteq># pool_regions p"
    "r \<noteq> 0 \<Longrightarrow> add_mset (n, r) (pool_regions p1) = pool_regions p"
    using AllocFromFreeList_facts [OF ok, of n "fst (fp_AllocFromFreeList p n)" "snd (fp_AllocFromFreeList p n)"] ok
    by (cases "p_use_free_list p"; auto simp: p1_def r_def pool_regions_def pending_regions_def)+
  have g1: "fps_good (os, p1)" "fps_top (os, p1) = fps_top s"
    using assms(1) F(1,3) by (auto simp: fps_good_def fps_store_def fps_top_def s)
  have rd: "fps_read (os, p1) b m = fps_read s b m" for b m
    by (simp add: fps_read_def fp_Read_def s F(3))
  show ?thesis
  proof (cases "r = 0")
    case False
    then have "s' = (os, p1)" "a = r" using assms(4) alloc by simp_all
    then show ?thesis using False F(5) g1 rd s by simp
  next
    case True
    then obtain os' p' where st: "fp_AllocFromStore os p1 n = Some (a, os', p')" "s' = (os', p')"
      using assms(4) alloc by (auto split: option.splits)
    note S = fps_AllocFromStore [OF g1(1) assms(2,3) st(1)]
    then have "pool_regions p' = pool_regions p1" by (simp add: pool_regions_def pending_regions_def)
    then show ?thesis using S F(4) g1(2) rd st(2) s by auto
  qed
qed

lemma fps_write_facts:
  assumes "fps_good s" "d \<noteq> []" "a + length d \<le> fps_top s"
  shows "\<exists>s'. fps_write s a d = Some (True, s') \<and> fps_good s' \<and> fps_top s' = fps_top s \<and>
    pool_regions (snd s') = pool_regions (snd s) \<and> fps_read s' a (length d) = Some d \<and>
    (\<forall>b m. 0 < m \<longrightarrow> b + m \<le> fps_top s \<longrightarrow> b + m \<le> a \<or> a + length d \<le> b \<longrightarrow> fps_read s' b m = fps_read s b m)"
proof -
  obtain os p where s: "s = (os, p)" by fastforce
  obtain st f where st: "fps_store s st f" "0 < fs_size st" "fs_size st \<le> 2 ^ 63" "full_io os"
    "fl_ok (p_free_list p)"
    using assms(1) by (auto simp: fps_good_def s)
  then have top: "fps_top s = fs_size st" by (simp add: fps_top_def fps_store_def)
  have "0 < length d" using assms(2) by simp
  then have a: "a < 2 ^ 63" using assms(3) st(3) unfolding top by linarith
  let ?os = "set_file os f (put_bytes a d (file_of os f))"
  let ?s = "(?os, p)"
  have "fs_Write os st (of_nat a) d = (Status1 Success, ?os, st)"
    using fs_Write_full [of os st f "of_nat a" d] st a assms(2,3) top
    by (auto simp: fps_store_def s max_def)
  then have w: "fps_write s a d = Some (True, ?s)"
    using st(1) by (simp add: fps_write_def fp_Write_def s fps_store_def)
  have st': "fps_store ?s st f"
    using st(1) assms(3) top by (auto simp: fps_store_def s max_def)
  have rd: "0 < m \<Longrightarrow> b + m \<le> fs_size st \<Longrightarrow> fps_read ?s b m = Some (get_bytes b m (put_bytes a d (file_of os f)))" for b m
    using fps_read_good [OF st'] st by simp
  have "fps_read s b m = Some (get_bytes b m (file_of os f))" if "0 < m" "b + m \<le> fs_size st" for b m
    using fps_read_good [OF st(1)] st that s by simp
  then have "fps_read ?s b m = fps_read s b m"
    if "0 < m" "b + m \<le> fs_size st" "b + m \<le> a \<or> a + length d \<le> b" for b m
    using rd that st(1) s by (simp add: get_put_disjoint fps_store_def)
  moreover have "fps_good ?s" using st st' by (auto simp: fps_good_def)
  moreover have "fps_read ?s a (length d) = Some d" using rd \<open>0 < length d\<close> assms(3) top by simp
  moreover have "fps_top ?s = fps_top s" by (simp add: fps_top_def s)
  ultimately show ?thesis using w top s by auto
qed

interpretation file_pool: data_pool fps_alloc fps_free fps_tick fps_good "\<lambda>s. pool_regions (snd s)" "\<lambda>_. 1"
  fps_top fps_write fps_read
proof unfold_locales
  fix s n a s'
  assume "fps_good s" "0 < n" "n < 2 ^ 63" "fps_alloc s n = Some (a, s')"
  note F = fps_alloc_facts [OF this]
  have "0 < fps_top s" using \<open>fps_good s\<close> by (auto simp: fps_good_def fps_store_def fps_top_def)
  then show "fps_good s' \<and> (1::nat) = 1 \<and> fps_top s \<le> fps_top s' \<and>
      pool_regions (snd s') \<subseteq># pool_regions (snd s) \<and>
      (a = 0 \<or> add_mset (n, a) (pool_regions (snd s')) \<subseteq># pool_regions (snd s) \<or>
       1 \<le> a \<and> fps_top s \<le> a \<and> a + n \<le> fps_top s')"
    using F by (auto dest: mset_subset_eq_insertD subset_mset.less_imp_le)
  show "fps_read s' b m = fps_read s b m" if "0 < m" "b + m \<le> fps_top s" for b m
    using F that by blast
next
  fix s n a
  assume g: "fps_good s"
  note F = fp_Free_facts [of "snd s" a n "fst (fp_Free fp_DoFree (snd s) a n)" "snd (fp_Free fp_DoFree (snd s) a n)"]
  show "fps_good (fps_free s a n) \<and> (1::nat) = 1 \<and> fps_top (fps_free s a n) = fps_top s \<and>
      pool_regions (snd (fps_free s a n)) \<subseteq># add_mset (n, a) (pool_regions (snd s))"
    using g F by (auto simp: fps_good_def fps_store_def fps_top_def fps_free_def)
  show "fps_read (fps_free s a n) b m = fps_read s b m" for b m
    using g F by (auto simp: fps_read_def fp_Read_def fps_free_def fps_good_def)
next
  fix s
  assume g: "fps_good s"
  then have "fl_ok (p_free_list (snd s))" by (simp add: fps_good_def)
  note F = fp_run_delayed_facts [OF this]
  show "fps_good (fps_tick s) \<and> (1::nat) = 1 \<and> fps_top (fps_tick s) = fps_top s \<and>
      pool_regions (snd (fps_tick s)) \<subseteq># pool_regions (snd s)"
    using g F by (auto simp: fps_good_def fps_store_def fps_top_def fps_tick_def)
  show "fps_read (fps_tick s) b m = fps_read s b m" for b m
    using F by (auto simp: fps_read_def fp_Read_def fps_tick_def)
next
  fix s and d :: bytes and a
  assume "fps_good s" "d \<noteq> []" "1 \<le> a" "a + length d \<le> fps_top s"
  from fps_write_facts [OF this(1,2,4)] obtain s' where "fps_write s a d = Some (True, s') \<and> fps_good s' \<and> fps_top s' = fps_top s \<and>
    pool_regions (snd s') = pool_regions (snd s) \<and> fps_read s' a (length d) = Some d \<and>
    (\<forall>b m. 0 < m \<longrightarrow> b + m \<le> fps_top s \<longrightarrow> b + m \<le> a \<or> a + length d \<le> b \<longrightarrow> fps_read s' b m = fps_read s b m)"
    by blast
  then show "\<exists>s'. fps_write s a d = Some (True, s') \<and> fps_good s' \<and> (1::nat) = 1 \<and> fps_top s' = fps_top s \<and>
      pool_regions (snd s') = pool_regions (snd s) \<and> fps_read s' a (length d) = Some d \<and>
      (\<forall>b m. 0 < m \<longrightarrow> 1 \<le> b \<longrightarrow> b + m \<le> fps_top s \<longrightarrow>
        b + m \<le> a \<or> a + length d \<le> b \<longrightarrow> fps_read s' b m = fps_read s b m)"
    by blast
qed

text \<open>
  C2: every sequence of \<open>NewData\<close>, \<open>Write\<close> in place, \<open>Free\<close> and steps of the delayed-free thread
  on a file pool opened for writing returns, and afterwards every datum the client stored and
  did not free lies apart from the others and reads back as last written.
\<close>

theorem file_pool_client:
  assumes "fps_good s" "pool_regions (snd s) = {#}" "list_all small_op ops"
  shows "\<exists>s' h. client_run fps_alloc fps_free fps_tick fps_write ops (s, []) = Some (s', h) \<and>
    heap_apart h \<and> (\<forall>(a, d) \<in> set h. fps_read s' a (length d) = Some d)"
proof -
  have start: "file_pool.holds s []"
    using assms(1,2) by (intro file_pool.start_holds) (simp_all add: separate_def)
  have "fps_alloc s n \<noteq> None" if "fps_good s" for s n
    using that by (auto simp: fps_alloc_def fp_DoAlloc_def fp_AllocFromStore_def
        split: option.splits prod.splits)
  then have "client_run fps_alloc fps_free fps_tick fps_write ops (s, []) \<noteq> None"
    using file_pool.run_total [OF _ start assms(3)] by blast
  then obtain s' h where "client_run fps_alloc fps_free fps_tick fps_write ops (s, []) = Some (s', h)"
    by auto
  moreover have "heap_apart h \<and> (\<forall>(a, d) \<in> set h. fps_read s' a (length d) = Some d)"
    by (rule file_pool.holds_readback [OF file_pool.run_holds [OF calculation start assms(3)]])
  ultimately show ?thesis by blast
qed

definition demo_file_pool :: file_pool_state where
  "demo_file_pool =
     (plain_os\<lparr>files := [''p'' \<mapsto> replicate 64 0]\<rparr>,
      (FilePool_new 0)\<lparr>p_store := Some \<lparr>fs_fd = Some (''p'', False), fs_size = 64, fs_name = ''p''\<rparr>\<rparr>)"

theorem file_pool_client_witness:
  "\<exists>s' h. client_run fps_alloc fps_free fps_tick fps_write
      [New [1], Del 64, Tick, New [7], New [8, 9, 10]] (demo_file_pool, []) = Some (s', h) \<and>
     heap_apart h \<and> (\<forall>(a, d) \<in> set h. fps_read s' a (length d) = Some d)"
  by (rule file_pool_client)
    (simp_all add: fps_good_def fps_store_def demo_file_pool_def FilePool_new_def file_of_def
      pool_regions_def pending_regions_def small_op_def)

section \<open>Writing the free list and reading it again\<close>

lemma decode_encode_block [simp]:
  "b_addr b < 2 ^ 64 \<Longrightarrow> b_timestamp b < 2 ^ 32 \<Longrightarrow> b_size b < 2 ^ 32 \<Longrightarrow>
   decode_block (encode_block b) = b"
  by (simp add: decode_block_def encode_block_def get_bytes_def le_val_le_bytes)

lemma length_encode_block [simp]: "length (encode_block b) = 16"
  by (simp add: encode_block_def)

lemma overlay_full [simp]: "length buf = length old \<Longrightarrow> overlay buf old = buf"
  by (simp add: overlay_def)

lemma dump_queue_full:
  assumes "full_io os" "fs_fd fs = Some (f, False)" "pos + 16 * length q < 2 ^ 63"
  shows "\<exists>os' fs'. dump_queue os fs rel q n pos = Some (os', fs', n + length q, pos + 16 * length q) \<and>
    full_io os' \<and> fs_fd fs' = Some (f, False) \<and> open_ok os' = open_ok os \<and>
    (q \<noteq> [] \<longrightarrow> file_of os' f =
      put_bytes pos (concat (map (\<lambda>b. encode_block (b\<lparr>b_addr := sub64 (b_addr b) rel\<rparr>)) q)) (file_of os f)) \<and>
    (q = [] \<longrightarrow> os' = os)"
  using assms
proof (induction q arbitrary: os fs n pos)
  case Nil
  then show ?case by (subst dump_queue.simps) simp
next
  case (Cons b q)
  let ?e = "encode_block (b\<lparr>b_addr := sub64 (b_addr b) rel\<rparr>)"
  let ?os = "set_file os f (put_bytes pos ?e (file_of os f))"
  let ?fs = "fs\<lparr>fs_size := max (fs_size fs) (pos + length ?e)\<rparr>"
  have "?e \<noteq> []" by (metis length_encode_block list.size(3) zero_neq_numeral)
  then have "fs_Write os fs (of_nat pos) ?e = (Status1 Success, ?os, ?fs)"
    using fs_Write_full [of os fs f "of_nat pos" ?e] Cons.prems by simp
  then have step: "dump_queue os fs rel (b # q) n pos = dump_queue ?os ?fs rel q (n + 1) (pos + 16)"
    by (subst dump_queue.simps) simp
  obtain os' fs' where IH: "dump_queue ?os ?fs rel q (n + 1) (pos + 16) =
      Some (os', fs', n + 1 + length q, pos + 16 + 16 * length q)"
    "full_io os'" "fs_fd fs' = Some (f, False)" "open_ok os' = open_ok ?os"
    "q \<noteq> [] \<longrightarrow> file_of os' f = put_bytes (pos + 16)
      (concat (map (\<lambda>b. encode_block (b\<lparr>b_addr := sub64 (b_addr b) rel\<rparr>)) q)) (file_of ?os f)"
    "q = [] \<longrightarrow> os' = ?os"
    using Cons.IH [of ?os ?fs "pos + 16" "n + 1"] Cons.prems by auto
  have "file_of os' f = put_bytes pos
      (concat (map (\<lambda>b. encode_block (b\<lparr>b_addr := sub64 (b_addr b) rel\<rparr>)) (b # q))) (file_of os f)"
    using IH(5,6) put_bytes_append [of pos ?e _ "file_of os f"] by (cases "q = []") simp_all
  then show ?case using IH step by simp
qed

definition blocks_of :: "free_list \<Rightarrow> block list" where
  "blocks_of fl = concat (map snd fl)"

definition image_of :: "nat \<Rightarrow> block list \<Rightarrow> bytes" where
  "image_of rel bs = concat (map (\<lambda>b. encode_block (b\<lparr>b_addr := sub64 (b_addr b) rel\<rparr>)) bs)"

lemma blocks_of_simps [simp]:
  "blocks_of [] = []" "blocks_of ((k, q) # fl) = q @ blocks_of fl"
  by (simp_all add: blocks_of_def)

lemma image_of_simps [simp]:
  "image_of rel [] = []" "image_of rel (b # bs) = encode_block (b\<lparr>b_addr := sub64 (b_addr b) rel\<rparr>) @ image_of rel bs"
  "image_of rel (xs @ ys) = image_of rel xs @ image_of rel ys"
  by (simp_all add: image_of_def)

lemma length_image_of [simp]: "length (image_of rel bs) = 16 * length bs"
  by (induction bs) auto

lemma dump_lists_full:
  assumes "full_io os" "fs_fd fs = Some (f, False)" "pos + 16 * length (blocks_of fl) < 2 ^ 63"
  shows "\<exists>os' fs'. dump_lists os fs rel fl n pos =
      Some (os', fs', n + length (blocks_of fl), pos + 16 * length (blocks_of fl)) \<and>
    full_io os' \<and> fs_fd fs' = Some (f, False) \<and> open_ok os' = open_ok os \<and>
    (blocks_of fl \<noteq> [] \<longrightarrow> file_of os' f = put_bytes pos (image_of rel (blocks_of fl)) (file_of os f)) \<and>
    (blocks_of fl = [] \<longrightarrow> os' = os)"
  using assms
proof (induction fl arbitrary: os fs n pos)
  case Nil
  then show ?case by simp
next
  case (Cons e fl)
  obtain k q where e: "e = (k, q)" by fastforce
  have "pos + 16 * length q < 2 ^ 63" using Cons.prems(3) by (simp add: e)
  from dump_queue_full [OF Cons.prems(1,2) this, of rel n] obtain os1 fs1 where
    Q: "dump_queue os fs rel q n pos = Some (os1, fs1, n + length q, pos + 16 * length q)"
    "full_io os1" "fs_fd fs1 = Some (f, False)" "open_ok os1 = open_ok os"
    "q \<noteq> [] \<longrightarrow> file_of os1 f = put_bytes pos (image_of rel q) (file_of os f)" "q = [] \<longrightarrow> os1 = os"
    unfolding image_of_def by blast
  have "pos + 16 * length q + 16 * length (blocks_of fl) < 2 ^ 63"
    using Cons.prems(3) by (simp add: e)
  from Cons.IH [OF Q(2,3) this, of "n + length q"] obtain os2 fs2 where
    L: "dump_lists os1 fs1 rel fl (n + length q) (pos + 16 * length q) =
      Some (os2, fs2, n + length q + length (blocks_of fl),
        pos + 16 * length q + 16 * length (blocks_of fl))"
    "full_io os2" "fs_fd fs2 = Some (f, False)" "open_ok os2 = open_ok os1"
    "blocks_of fl \<noteq> [] \<longrightarrow>
      file_of os2 f = put_bytes (pos + 16 * length q) (image_of rel (blocks_of fl)) (file_of os1 f)"
    "blocks_of fl = [] \<longrightarrow> os2 = os1"
    by blast
  have "file_of os2 f = put_bytes pos (image_of rel (q @ blocks_of fl)) (file_of os f)"
    if "q @ blocks_of fl \<noteq> []"
    using that Q(5,6) L(5,6) put_bytes_append [of pos "image_of rel q" "image_of rel (blocks_of fl)" "file_of os f"]
    by (cases "q = []"; cases "blocks_of fl = []") simp_all
  then show ?case
    using Q(1,4,6) L(1-4,6) by (intro exI [of _ os2] exI [of _ fs2]) (simp add: e)
qed

text \<open>What a dump leaves in the file: the number of blocks and the blocks in dump order.\<close>

definition fl_file :: "nat \<Rightarrow> free_list \<Rightarrow> bytes" where
  "fl_file rel fl = le_bytes 8 (length (blocks_of fl)) @ image_of rel (blocks_of fl)"

lemma DumpFreeList_full:
  assumes "full_io os" "open_ok os path False" "8 + 16 * length (blocks_of (p_free_list p)) < 2 ^ 63"
    and "\<not> p_read_only p" "p_user_space_size p \<noteq> 0" "blocks_of (p_free_list p) \<noteq> []"
  shows "\<exists>os'. fp_DumpFreeList rel os p path =
      Some (True, os', p\<lparr>p_free_list := [], p_user_space_size := 0\<rparr>) \<and>
    full_io os' \<and> open_ok os' = open_ok os \<and> file_of os' path = fl_file rel (p_free_list p) \<and>
    files os' path \<noteq> None"
proof -
  let ?bs = "blocks_of (p_free_list p)"
  let ?os = "if files os path = None then set_file os path [] else os"
  define fs where "fs = FileStore_new\<lparr>fs_fd := Some (path, False),
    fs_size := length (file_of ?os path), fs_name := path\<rparr>"
  have fs: "fs_Open os FileStore_new path False = (Status1 Success, ?os, fs)"
    "fs_fd fs = Some (path, False)"
    using assms(2) by (auto simp: fs_Open_def sys_open_def FileStore_new_def fs_GetFileSize_def fs_def)
  have os: "full_io ?os" "open_ok ?os = open_ok os" "file_of ?os path = file_of os path"
    using assms(1) by (auto simp: file_of_def set_file_def full_io_def)
  from dump_lists_full [OF os(1) fs(2) assms(3), of rel 0] obtain os1 fs1 where
    D: "dump_lists ?os fs rel (p_free_list p) 0 8 = Some (os1, fs1, length ?bs, 8 + 16 * length ?bs)"
    "full_io os1" "fs_fd fs1 = Some (path, False)" "open_ok os1 = open_ok os"
    "file_of os1 path = put_bytes 8 (image_of rel ?bs) (file_of os path)"
    using assms(6) os(2,3) by auto
  let ?c = "le_bytes 8 (length ?bs)"
  let ?os2 = "set_file os1 path (put_bytes 0 ?c (file_of os1 path))"
  have c: "?c \<noteq> []" by (metis length_le_bytes list.size(3) zero_neq_numeral)
  have "fs_Write os1 fs1 0 ?c = (Status1 Success, ?os2, fs1\<lparr>fs_size := max (fs_size fs1) (0 + length ?c)\<rparr>)"
    using fs_Write_full [of os1 fs1 path 0 ?c] D(2,3) c by simp
  moreover have "fs_Truncate ?os2 (fs1\<lparr>fs_size := max (fs_size fs1) (0 + length ?c)\<rparr>) (8 + length ?bs * 16) =
    (Status1 Success, set_file ?os2 path (fl_file rel (p_free_list p)))"
  proof -
    have "take (8 + length ?bs * 16) (file_of ?os2 path) = fl_file rel (p_free_list p)"
      using put_bytes_frame [of ?c "image_of rel ?bs" "file_of os path"]
      by (simp add: D(5) fl_file_def mult.commute)
    moreover have "8 + length ?bs * 16 \<le> length (file_of ?os2 path)" by (simp add: D(5))
    ultimately show ?thesis
      using D(3) assms(3) by (simp add: fs_Truncate_def sys_ftruncate_def Let_def mult.commute)
  qed
  ultimately show ?thesis
    using assms(4,5) fs(1) D(1,2,4)
    by (intro exI [of _ "set_file ?os2 path (fl_file rel (p_free_list p))"])
      (simp add: fp_DumpFreeList_def, simp add: set_file_def)
qed

lemma load_blocks_full:
  assumes "full_io os" "fs_fd fs = Some (f, False)"
    "drop pos (file_of os f) = concat (map encode_block bs)" "pos + 16 * length bs < 2 ^ 63"
    "\<forall>b \<in> set bs. b_addr b < 2 ^ 64 \<and> b_timestamp b < 2 ^ 32 \<and> b_size b < 2 ^ 32"
  shows "load_blocks os fs rel (length bs) pos blk fl (us mod 2 ^ 64) =
    (fold (\<lambda>b. fl_push (b_size b) b) (map (\<lambda>b. b\<lparr>b_addr := (rel + b_addr b) mod 2 ^ 64\<rparr>) bs) fl,
     (us + sum_list (map b_size bs)) mod 2 ^ 64)"
  using assms
proof (induction bs arbitrary: pos blk fl us)
  case Nil
  then show ?case by simp
next
  case (Cons b bs)
  have d: "drop pos (file_of os f) = encode_block b @ concat (map encode_block bs)"
    using Cons.prems(3) by simp
  have g: "get_bytes pos 16 (file_of os f) = encode_block b"
    by (simp add: get_bytes_def d)
  have "length (drop pos (file_of os f)) = 16 + length (concat (map encode_block bs))" by (simp add: d)
  then have "pos + 16 \<le> length (file_of os f)" by simp
  then have r: "fs_Read os fs (of_nat pos) 16 = (Status1 Success, encode_block b)"
    using fs_Read_full [OF Cons.prems(1,2), of pos 16] Cons.prems(4) g by simp
  have "drop (pos + 16) (file_of os f) = drop 16 (drop pos (file_of os f))" by (simp add: add.commute)
  then have "drop (pos + 16) (file_of os f) = concat (map encode_block bs)" by (simp add: d)
  note IH = Cons.IH [OF Cons.prems(1,2) this, where us = "us + b_size b"]
  have dec: "decode_block (overlay (encode_block b) (encode_block blk)) = b"
    using Cons.prems(5) by simp
  show ?case
    using Cons.prems(4,5) IH
    by (simp add: r dec Let_def add.assoc)
qed

lemma pq_push_last: "\<forall>x \<in> set q. b_addr b \<le> b_addr x \<Longrightarrow> pq_push b q = q @ [b]"
  by (induction q) (auto simp: block_less_def)

lemma fl_push_last:
  assumes "\<forall>x \<in> set acc. fst x < k"
  shows "fl_push k b acc = acc @ [(k, [b])]"
    "\<forall>x \<in> set q. b_addr b \<le> b_addr x \<Longrightarrow> fl_push k b (acc @ [(k, q)]) = acc @ [(k, q @ [b])]"
proof -
  have 1: "map_of acc k = None" using assms by (force simp: map_of_eq_None_iff)
  have 2: "fl_set k q' acc = acc @ [(k, q')]" "fl_set k q' (acc @ [(k, q)]) = acc @ [(k, q')]" for q'
    using assms by (induction acc) auto
  show "fl_push k b acc = acc @ [(k, [b])]" by (simp add: fl_push_def 1 2)
  show "fl_push k b (acc @ [(k, q)]) = acc @ [(k, q @ [b])]"
    if "\<forall>x \<in> set q. b_addr b \<le> b_addr x"
    using that by (simp add: fl_push_def 1 2 map_add_def map_of_append pq_push_last)
qed

lemma rebuild_queue:
  assumes "\<forall>x \<in> set acc. fst x < k" "sorted_wrt (\<lambda>a b. b_addr b \<le> b_addr a) (q0 @ q)" "\<forall>b \<in> set q. b_size b = k"
  shows "fold (\<lambda>b. fl_push (b_size b) b) q (acc @ [(k, q0)]) = acc @ [(k, q0 @ q)]"
  using assms(2,3)
proof (induction q arbitrary: q0)
  case Nil
  then show ?case by simp
next
  case (Cons b q)
  have "fl_push k b (acc @ [(k, q0)]) = acc @ [(k, q0 @ [b])]"
    using fl_push_last(2) [OF assms(1)] Cons.prems(1) by (auto simp: sorted_wrt_append)
  with Cons.IH [of "q0 @ [b]"] Cons.prems show ?case by simp
qed

lemma rebuild_free_list:
  assumes "fl_ok fl" "\<forall>x \<in> set fl. fst x < 2 ^ 32" "\<forall>x \<in> set acc. \<forall>y \<in> set fl. fst x < fst y"
  shows "fold (\<lambda>b. fl_push (b_size b) b) (blocks_of fl) acc = acc @ fl"
  using assms
proof (induction fl arbitrary: acc)
  case Nil
  then show ?case by simp
next
  case (Cons e fl)
  obtain k q where e: "e = (k, q)" by fastforce
  from Cons.prems(1) obtain b q' where q: "q = b # q'" by (cases q) (auto simp: e)
  have sz: "\<forall>b \<in> set q. b_size b = k" using Cons.prems(1,2) by (auto simp: e)
  have acc: "\<forall>x \<in> set acc. fst x < k" using Cons.prems(3) by (auto simp: e)
  have "fold (\<lambda>b. fl_push (b_size b) b) q acc = acc @ [(k, q)]"
    using fl_push_last(1) [OF acc, of b] rebuild_queue [OF acc, of "[b]" q'] sz Cons.prems(1)
    by (simp add: q e)
  moreover have "fold (\<lambda>b. fl_push (b_size b) b) (blocks_of fl) (acc @ [(k, q)]) = (acc @ [(k, q)]) @ fl"
    using Cons.prems by (intro Cons.IH) (auto simp: e)
  ultimately show ?case by (simp add: e)
qed

definition reloc :: "nat \<Rightarrow> nat \<Rightarrow> block \<Rightarrow> block" where
  "reloc rel rel' b = b\<lparr>b_addr := b_addr b - rel + rel'\<rparr>"

definition reloc_fl :: "nat \<Rightarrow> nat \<Rightarrow> free_list \<Rightarrow> free_list" where
  "reloc_fl rel rel' fl = map (\<lambda>(k, q). (k, map (reloc rel rel') q)) fl"

lemma reloc_fl_simps [simp]:
  "reloc_fl rel rel' [] = []"
  "reloc_fl rel rel' ((k, q) # fl) = (k, map (reloc rel rel') q) # reloc_fl rel rel' fl"
  by (simp_all add: reloc_fl_def)

lemma blocks_of_reloc: "blocks_of (reloc_fl rel rel' fl) = map (reloc rel rel') (blocks_of fl)"
  by (induction fl) auto

lemma keys_reloc: "fst ` set (reloc_fl rel rel' fl) = fst ` set fl"
  by (simp add: reloc_fl_def image_image case_prod_unfold)

lemma fl_ok_reloc: "fl_ok fl \<Longrightarrow> fl_ok (reloc_fl rel rel' fl)"
proof (induction fl)
  case Nil
  then show ?case by simp
next
  case (Cons e fl)
  then show ?case
    by (cases e) (auto simp: sorted_wrt_map reloc_def keys_reloc elim!: sorted_wrt_mono_rel [rotated])
qed

lemma fl_space_blocks: "fl_space fl = sum_list (map b_size (blocks_of fl))"
  by (induction fl) auto

definition file_blocks_ok :: "nat \<Rightarrow> nat \<Rightarrow> free_list \<Rightarrow> bool" where
  "file_blocks_ok rel rel' fl \<longleftrightarrow> (\<forall>x \<in> set fl. fst x < 2 ^ 32) \<and>
     (\<forall>b \<in> set (blocks_of fl). rel \<le> b_addr b \<and> b_addr b < 2 ^ 64 \<and> b_addr b - rel + rel' < 2 ^ 64 \<and>
        b_timestamp b < 2 ^ 32)"

lemma load_file_count:
  assumes "full_io os" "fs_fd fs = Some (path, False)" "file_of os path = fl_file rel fl"
    "8 + 16 * length (blocks_of fl) < 2 ^ 63"
  shows "fs_Read os fs 0 8 = (Status1 Success, le_bytes 8 (length (blocks_of fl))) \<and>
    le_val (overlay (le_bytes 8 (length (blocks_of fl))) (le_bytes 8 0)) = length (blocks_of fl)"
proof -
  have "get_bytes 0 8 (fl_file rel fl) = le_bytes 8 (length (blocks_of fl))"
    by (simp add: get_bytes_def fl_file_def)
  moreover have "0 + 8 \<le> length (file_of os path)" by (simp add: assms(3) fl_file_def)
  ultimately show ?thesis
    using fs_Read_full [OF assms(1,2), of 0 8] assms(3,4) by (simp add: le_val_le_bytes)
qed

lemma LoadFreeList_full:
  assumes "full_io os" "open_ok os path False" "file_of os path = fl_file rel fl" "files os path \<noteq> None"
    and "fl_ok fl" "file_blocks_ok rel rel' fl" "8 + 16 * length (blocks_of fl) < 2 ^ 63"
    and "p_user_space_size p < 2 ^ 64"
  shows "fp_LoadFreeList rel' os p path = (True, os, p\<lparr>p_free_list := reloc_fl rel rel' fl,
     p_user_space_size := (p_user_space_size p + fl_space fl) mod 2 ^ 64\<rparr>)"
proof -
  let ?bs = "blocks_of fl"
  define fs where "fs = FileStore_new\<lparr>fs_fd := Some (path, False),
    fs_size := length (file_of os path), fs_name := path\<rparr>"
  have fs: "fs_Open os FileStore_new path False = (Status1 Success, os, fs)" "fs_fd fs = Some (path, False)"
    using assms(2,4) by (auto simp: fs_Open_def sys_open_def FileStore_new_def fs_GetFileSize_def fs_def)
  note R = load_file_count [OF assms(1) fs(2) assms(3,7)]
  define stored where "stored = map (\<lambda>b. b\<lparr>b_addr := b_addr b - rel\<rparr>) ?bs"
  have range: "rel \<le> b_addr b \<and> b_addr b < 2 ^ 64 \<and> b_addr b - rel + rel' < 2 ^ 64 \<and> b_timestamp b < 2 ^ 32"
    if "b \<in> set ?bs" for b
    using assms(6) that unfolding file_blocks_ok_def by blast
  have "image_of rel ?bs = concat (map encode_block stored)"
    using range by (auto simp: image_of_def stored_def sub64_le intro!: arg_cong [of _ _ concat])
  then have d: "drop 8 (file_of os path) = concat (map encode_block stored)"
    by (simp add: assms(3) fl_file_def)
  have sz: "b_size b < 2 ^ 32" if b: "b \<in> set ?bs" for b
  proof -
    obtain k q where "(k, q) \<in> set fl" "b \<in> set q" using b by (fastforce simp: blocks_of_def)
    then show ?thesis using assms(5) by (fastforce simp: fl_ok_def)
  qed
  have "\<forall>b \<in> set stored. b_addr b < 2 ^ 64 \<and> b_timestamp b < 2 ^ 32 \<and> b_size b < 2 ^ 32"
    using range sz by (fastforce simp: stored_def)
  then have "load_blocks os fs rel' (length stored) 8 blk [] (p_user_space_size p mod 2 ^ 64) =
    (fold (\<lambda>b. fl_push (b_size b) b) (map (\<lambda>b. b\<lparr>b_addr := (rel' + b_addr b) mod 2 ^ 64\<rparr>) stored) [],
     (p_user_space_size p + sum_list (map b_size stored)) mod 2 ^ 64)" for blk
    using assms(7) by (intro load_blocks_full [OF assms(1) fs(2) d]) (simp_all add: stored_def)
  moreover have "map (\<lambda>b. b\<lparr>b_addr := (rel' + b_addr b) mod 2 ^ 64\<rparr>) stored = blocks_of (reloc_fl rel rel' fl)"
  proof -
    have "(rel' + (b_addr b - rel)) mod 2 ^ 64 = b_addr b - rel + rel'" if "b \<in> set ?bs" for b
      using range [OF that] by (metis add.commute mod_less)
    then show ?thesis by (simp add: stored_def blocks_of_reloc reloc_def cong: map_cong)
  qed
  moreover have "fold (\<lambda>b. fl_push (b_size b) b) (blocks_of (reloc_fl rel rel' fl)) [] = [] @ reloc_fl rel rel' fl"
  proof (intro rebuild_free_list fl_ok_reloc assms(5))
    show "\<forall>x \<in> set (reloc_fl rel rel' fl). fst x < 2 ^ 32"
      using assms(6) by (auto simp: file_blocks_ok_def reloc_fl_def)
  qed simp
  moreover have "sum_list (map b_size stored) = fl_space fl"
    by (simp add: stored_def fl_space_blocks comp_def)
  moreover have "length stored = length ?bs" by (simp add: stored_def)
  ultimately show ?thesis
    using R assms(8) by (simp add: fp_LoadFreeList_def fs(1) Let_def)
qed

text \<open>
  C26: what a pool dumps when it stops is what a pool loads when it starts: the free list comes
  back with every queue in its order and every address moved with the start of the data, and the
  free space is the sum of its blocks.
\<close>

theorem fp_Dump_Load:
  assumes "full_io os" "open_ok os path False" "\<not> p_read_only p" "p_user_space_size p \<noteq> 0"
    and "fl_ok (p_free_list p)" "p_free_list p \<noteq> []" "file_blocks_ok rel rel' (p_free_list p)"
    and "8 + 16 * length (blocks_of (p_free_list p)) < 2 ^ 63" "p_user_space_size q = 0"
  shows "\<exists>os'. fp_DumpFreeList rel os p path = Some (True, os', p\<lparr>p_free_list := [], p_user_space_size := 0\<rparr>) \<and>
    fp_LoadFreeList rel' os' q path = (True, os', q\<lparr>p_free_list := reloc_fl rel rel' (p_free_list p),
      p_user_space_size := fl_space (p_free_list p) mod 2 ^ 64\<rparr>)"
proof -
  have "blocks_of (p_free_list p) \<noteq> []"
    using assms(5,6) by (cases "p_free_list p") auto
  from DumpFreeList_full [OF assms(1,2,8,3,4) this, of rel] obtain os' where
    D: "fp_DumpFreeList rel os p path = Some (True, os', p\<lparr>p_free_list := [], p_user_space_size := 0\<rparr>)"
    "full_io os'" "open_ok os' = open_ok os" "file_of os' path = fl_file rel (p_free_list p)"
    "files os' path \<noteq> None"
    by blast
  have "p_user_space_size q < 2 ^ 64" by (simp add: assms(9))
  from LoadFreeList_full [OF D(2) _ D(4,5) assms(5,7,8) this] show ?thesis
    using D assms(2,9) by auto
qed

theorem fp_Dump_Load_witness:
  "\<exists>os'. fp_DumpFreeList 0 plain_os demo_pool ''p.fl'' =
      Some (True, os', demo_pool\<lparr>p_free_list := [], p_user_space_size := 0\<rparr>) \<and>
    p_free_list (snd (snd (fp_LoadFreeList 4096 os' (FilePool_new 0 :: file_store pool) ''p.fl''))) =
      [(8, [\<lparr>b_addr = 4176, b_timestamp = 0, b_size = 8\<rparr>, \<lparr>b_addr = 4160, b_timestamp = 0, b_size = 8\<rparr>])]"
proof -
  obtain os' where
    "fp_DumpFreeList 0 plain_os demo_pool ''p.fl'' =
      Some (True, os', demo_pool\<lparr>p_free_list := [], p_user_space_size := 0\<rparr>)"
    "fp_LoadFreeList 4096 os' (FilePool_new 0 :: file_store pool) ''p.fl'' = (True, os', (FilePool_new 0)\<lparr>
      p_free_list := reloc_fl 0 4096 (p_free_list demo_pool),
      p_user_space_size := fl_space (p_free_list demo_pool) mod 2 ^ 64\<rparr>)"
    using fp_Dump_Load [of plain_os "''p.fl''" demo_pool 0 4096 "FilePool_new 0 :: file_store pool"]
    by (auto simp: demo_pool_def FilePool_new_def file_blocks_ok_def plain_os_def full_io_def)
  then show ?thesis by (simp add: demo_pool_def reloc_def)
qed

lemma reloc_fl_id [simp]: "reloc_fl 0 0 fl = fl"
proof -
  have "reloc 0 0 = (\<lambda>b. b)" by (auto simp: reloc_def)
  then show ?thesis by (simp add: reloc_fl_def)
qed

text \<open>
  C36: a pool whose free blocks have all been reused does not rewrite its free-list file when it
  stops, so the next start reads the old file and hands out blocks that are in use.
\<close>

theorem fp_stale_free_list:
  assumes "p_user_space_size p = 0"
    and "full_io os" "open_ok os path False" "file_of os path = fl_file 0 fl" "files os path \<noteq> None"
    and "fl_ok fl" "file_blocks_ok 0 0 fl" "8 + 16 * length (blocks_of fl) < 2 ^ 63"
    and "map_of fl n = Some (b # bs)" "p_user_space_size q < 2 ^ 64"
  shows "\<exists>q'. fp_DumpFreeList 0 os p path = Some (True, os, p) \<and>
    fp_LoadFreeList 0 os q path = (True, os, q') \<and> fst (fp_AllocFromFreeList q' n) = b_addr b"
  using LoadFreeList_full [OF assms(2-8,10)] assms(1,9)
  by (auto simp: fp_DumpFreeList_def fp_AllocFromFreeList_def)

theorem fp_stale_free_list_witness:
  "\<exists>q'. fp_DumpFreeList 0 (plain_os\<lparr>files := [''p.fl'' \<mapsto> fl_file 0 (p_free_list demo_pool)]\<rparr>)
      (FilePool_new 0 :: file_store pool) ''p.fl'' =
      Some (True, plain_os\<lparr>files := [''p.fl'' \<mapsto> fl_file 0 (p_free_list demo_pool)]\<rparr>, FilePool_new 0) \<and>
    fst (fp_AllocFromFreeList (q' :: file_store pool) 8) = 80"
  using fp_stale_free_list [of "FilePool_new 0 :: file_store pool"
      "plain_os\<lparr>files := [''p.fl'' \<mapsto> fl_file 0 (p_free_list demo_pool)]\<rparr>"
      "''p.fl''" "p_free_list demo_pool" 8 "\<lparr>b_addr = 80, b_timestamp = 0, b_size = 8\<rparr>"
      "[\<lparr>b_addr = 64, b_timestamp = 0, b_size = 8\<rparr>]" "FilePool_new 0 :: file_store pool"]
  by (auto simp: demo_pool_def FilePool_new_def file_blocks_ok_def plain_os_def full_io_def file_of_def)

lemma dump_queue_stuck:
  assumes "dump_queue os fs rel q n pos = Some r" "fs_fd fs = Some (f, ro)" "wr_ans os 16 = None"
  shows "q = []"
proof -
  have "fs_fd fs = Some (f, ro) \<longrightarrow> wr_ans os 16 = None \<longrightarrow> q = []"
  proof (rule dump_queue.raw_induct [OF _ assms(1)])
    fix dump os fs rel q n pos r
    assume IH: "\<And>os fs rel q n pos r. dump os fs rel q n pos = Some r \<Longrightarrow>
        fs_fd fs = Some (f, ro) \<longrightarrow> wr_ans os 16 = None \<longrightarrow> q = []"
      and eq: "(case q of [] \<Rightarrow> Some (os, fs, n, pos)
        | b # rest \<Rightarrow>
            (case fs_Write os fs (of_nat pos) (encode_block (b\<lparr>b_addr := sub64 (b_addr b) rel\<rparr>)) of
               (status, os', fs') \<Rightarrow>
                 if \<not> operate status then dump os' fs' rel q (n + 1) pos
                 else dump os' fs' rel rest (n + 1) (pos + 16))) = Some r"
    show "fs_fd fs = Some (f, ro) \<longrightarrow> wr_ans os 16 = None \<longrightarrow> q = []"
    proof (intro impI)
      assume fd: "fs_fd fs = Some (f, ro)" and no: "wr_ans os 16 = None"
      show "q = []"
      proof (cases q)
        case (Cons b bs)
        have "\<exists>s. fs_Write os fs (of_nat pos) (encode_block (b\<lparr>b_addr := sub64 (b_addr b) rel\<rparr>)) = (s, os, fs) \<and>
            \<not> operate s"
          using fd no by (auto simp: fs_Write_def sys_write_def split: option.splits)
        then have "dump os fs rel q (n + 1) pos = Some r" using eq Cons by auto
        then show ?thesis using IH fd no by blast
      qed
    qed
  qed
  then show ?thesis using assms(2,3) by blast
qed

text \<open>
  When the operating system refuses to write a block, \<open>DumpFreeList\<close> never returns.
\<close>

theorem fp_Dump_diverges:
  assumes "open_ok os path False" "wr_ans os 16 = None" "\<not> p_read_only p" "p_user_space_size p \<noteq> 0"
    and "fl_ok (p_free_list p)" "p_free_list p \<noteq> []"
  shows "fp_DumpFreeList rel os p path = None"
proof -
  obtain k q fl where fl: "p_free_list p = (k, q) # fl" "q \<noteq> []"
    using assms(5,6) by (cases "p_free_list p") auto
  let ?os = "if files os path = None then set_file os path [] else os"
  obtain fs where fs: "fs_Open os FileStore_new path False = (Status1 Success, ?os, fs)"
    "fs_fd fs = Some (path, False)"
    using assms(1) by (auto simp: fs_Open_def sys_open_def FileStore_new_def Let_def)
  have "wr_ans ?os 16 = None" using assms(2) by simp
  then have "dump_queue ?os fs rel q 0 8 = None"
    using dump_queue_stuck [of ?os fs rel q 0 8 _ path False] fs(2) fl(2)
    by (cases "dump_queue ?os fs rel q 0 8") auto
  then have "dump_lists ?os fs rel (p_free_list p) 0 8 = None" by (simp add: fl(1))
  then show ?thesis using assms(3,4) by (simp add: fp_DumpFreeList_def fs(1))
qed

theorem fp_Dump_diverges_witness:
  "fp_DumpFreeList 0 (plain_os\<lparr>wr_ans := \<lambda>n. if n = 16 then None else Some n\<rparr>) demo_pool ''p.fl'' = None"
  by (rule fp_Dump_diverges) (simp_all add: plain_os_def demo_pool_def FilePool_new_def)

end
