(* ===== verification/Mmap_Pool.thy ===== *)
theory Mmap_Pool
  imports Mmap_Store File_Pool
begin

text \<open>
  \<open>MMapPool\<close> (kernel/pool/mmap_pool.h, mmap_pool.cc): a pool over a mapped file.  The first
  eight bytes of the file hold the used size, data starts 64 bytes in, and space is taken by moving
  the used size up.  Blocks are addresses of the mapping.  None is a fault or a loop without end.
\<close>

record mmap_pool = "mmap_store pool" +
  mp_begin :: "nat option"
  mp_min_expand :: nat

definition kDefaultMinExpandSize :: nat where
  "kDefaultMinExpandSize = 1 * 1024 * 1024"

definition MMapPool_new :: "nat \<Rightarrow> mmap_pool" where
  "MMapPool_new junk =
     pool.extend (FilePool_new junk) \<lparr>mp_begin = None, mp_min_expand = kDefaultMinExpandSize\<rparr>"

section \<open>The header word\<close>

definition mp_peek :: "os \<Rightarrow> mmap_pool \<Rightarrow> nat \<Rightarrow> nat option" where
  "mp_peek os p b =
     (case p_store p of None \<Rightarrow> None | Some st \<Rightarrow> map_option le_val (mapped_read os st b 8))"

definition mp_poke :: "os \<Rightarrow> mmap_pool \<Rightarrow> nat option \<Rightarrow> nat \<Rightarrow> os option" where
  "mp_poke os p base v =
     (case (p_store p, base) of
        (Some st, Some b) \<Rightarrow> mapped_write os st b (le_bytes 8 v)
      | _ \<Rightarrow> None)"

definition mp_GetUsedSize :: "os \<Rightarrow> mmap_pool \<Rightarrow> nat option" where
  "mp_GetUsedSize os p = (case mp_begin p of None \<Rightarrow> Some 0 | Some b \<Rightarrow> mp_peek os p b)"

definition mp_GetDataSize :: "os \<Rightarrow> mmap_pool \<Rightarrow> nat option" where
  "mp_GetDataSize os p =
     (case mp_begin p of None \<Rightarrow> Some 0 | Some b \<Rightarrow> map_option (\<lambda>u. sub64 u 64) (mp_peek os p b))"

definition mp_base :: "mmap_pool \<Rightarrow> nat" where
  "mp_base p = (case mp_begin p of None \<Rightarrow> 0 | Some b \<Rightarrow> b)"

definition mp_GetDataOffset :: "mmap_pool \<Rightarrow> nat \<Rightarrow> nat" where
  "mp_GetDataOffset p addr = sub64 (sub64 addr (mp_base p)) 64"

definition mp_GetDataAddr :: "mmap_pool \<Rightarrow> nat \<Rightarrow> nat" where
  "mp_GetDataAddr p offset = add64 (add64 (mp_base p) 64) offset"

definition mp_GetMMapDataBegin :: "mmap_pool \<Rightarrow> nat" where
  "mp_GetMMapDataBegin p = add64 (mp_base p) 64"

definition mp_Resize :: "os \<Rightarrow> mmap_pool \<Rightarrow> nat \<Rightarrow> os option" where
  "mp_Resize os p sz = mp_poke os p (mp_begin p) (add64 64 sz)"

definition mp_Empty :: "os \<Rightarrow> mmap_pool \<Rightarrow> bool option" where
  "mp_Empty os p = map_option (\<lambda>n. n = 0) (mp_GetDataSize os p)"

section \<open>Allocation\<close>

partial_function (option) mp_grow :: "os \<Rightarrow> mmap_pool \<Rightarrow> nat \<Rightarrow> (bool \<times> os \<times> mmap_pool) option" where
  "mp_grow os p sz =
     (case p_store p of
        None \<Rightarrow> Some (False, os, p)
      | Some st \<Rightarrow>
          (case mp_GetUsedSize os p of
             None \<Rightarrow> None
           | Some used \<Rightarrow>
               if add64 used sz \<ge> fs_GetSize st then
                 (case fs_Expand os st (mp_min_expand p) of
                    (status, os', st') \<Rightarrow>
                      let p' = p\<lparr>p_store := Some st'\<rparr> in
                      if \<not> operate status then Some (False, os', p') else mp_grow os' p' sz)
               else Some (True, os, p)))"

definition mp_AllocFromStore :: "os \<Rightarrow> mmap_pool \<Rightarrow> nat \<Rightarrow> (nat \<times> os \<times> mmap_pool) option" where
  "mp_AllocFromStore os p sz =
     (case mp_grow os p sz of
        None \<Rightarrow> None
      | Some (False, os1, p1) \<Rightarrow> Some (0, os1, p1)
      | Some (True, os1, p1) \<Rightarrow>
          (case mp_GetUsedSize os1 p1 of
             None \<Rightarrow> None
           | Some used \<Rightarrow>
               (case mp_poke os1 p1 (mp_begin p1) (add64 used sz) of
                  None \<Rightarrow> None
                | Some os2 \<Rightarrow> Some (add64 (mp_base p1) used, os2, p1))))"

definition mp_Write :: "os \<Rightarrow> mmap_pool \<Rightarrow> nat \<Rightarrow> bytes \<Rightarrow> (bool \<times> os \<times> mmap_pool) option" where
  "mp_Write os p addr data =
     (case p_store p of
        None \<Rightarrow> Some (False, os, p)
      | Some st \<Rightarrow>
          map_option (\<lambda>(status, os', st'). (operate status, os', p\<lparr>p_store := Some st'\<rparr>))
            (mm_Write os st addr data))"

definition mp_Read :: "mmap_pool \<Rightarrow> nat \<Rightarrow> nat \<Rightarrow> bool \<times> nat \<times> nat" where
  "mp_Read p addr len =
     (case p_store p of
        None \<Rightarrow> (False, 0, 0)
      | Some st \<Rightarrow> (case mm_Read st addr len of (status, view) \<Rightarrow> (operate status, view)))"

definition mp_NewData :: "os \<Rightarrow> mmap_pool \<Rightarrow> bytes \<Rightarrow> (int \<times> os \<times> mmap_pool) option" where
  "mp_NewData os p data =
     (if data = [] then Some (-1, os, p)
      else case fp_DoAlloc mp_AllocFromStore os p (length data) of
             None \<Rightarrow> None
           | Some (addr, os1, p1) \<Rightarrow>
               if addr = 0 then Some (-1, os1, p1)
               else map_option (\<lambda>(ok, os2, p2). (if ok then int (mp_GetDataOffset p2 addr) else -1, os2, p2))
                      (mp_Write os1 p1 addr data))"

section \<open>Start and stop\<close>

text \<open>
  The free-list file holds offsets from the start of the data; the loops are those of
  \<open>FilePool\<close>, with that start added to what is read and subtracted from what is written.
\<close>

definition mp_LoadFreeList :: "os \<Rightarrow> mmap_pool \<Rightarrow> string \<Rightarrow> bool \<times> os \<times> mmap_pool" where
  "mp_LoadFreeList os p free_list_file = fp_LoadFreeList (mp_GetMMapDataBegin p) os p free_list_file"

definition mp_DumpFreeList :: "os \<Rightarrow> mmap_pool \<Rightarrow> string \<Rightarrow> (bool \<times> os \<times> mmap_pool) option" where
  "mp_DumpFreeList os p free_list_file = fp_DumpFreeList (mp_GetMMapDataBegin p) os p free_list_file"

definition mp_Init :: "os \<Rightarrow> mmap_pool \<Rightarrow> string \<Rightarrow> bool \<Rightarrow> (bool \<times> os \<times> mmap_pool) option" where
  "mp_Init os p file_name read_only =
     (let p1 = p\<lparr>p_read_only := read_only\<rparr>;
          st = (case p_store p of None \<Rightarrow> MMapStore_new | Some st \<Rightarrow> st)
      in case mm_Open os st file_name read_only of
        (status, os1, st1) \<Rightarrow>
          if \<not> operate status then Some (False, os1, p1\<lparr>p_store := Some st1\<rparr>)
          else
            let p2 = p1\<lparr>p_store := Some st1, mp_begin := mm_base st1\<rparr> in
            (case (if fs_GetSize st1 \<le> 0 then
                     (case fs_Expand os1 st1 (mp_min_expand p2) of
                        (_, os2, st2) \<Rightarrow>
                          let p3 = p2\<lparr>p_store := Some st2\<rparr> in
                          map_option (\<lambda>os3. (os3, p3)) (mp_poke os2 p3 (mp_begin p3) 64))
                   else Some (os1, p2)) of
               None \<Rightarrow> None
             | Some (os3, p3) \<Rightarrow>
                 let free_list_file = file_name @ ''.fl'' in
                 if fl_readable os3 free_list_file then
                   Some (True, snd (mp_LoadFreeList os3 p3 free_list_file))
                 else Some (True, os3, p3)))"

text \<open>\<open>Release\<close> leaves \<open>begin_\<close> as it was; the destructor drops the store without a dump.\<close>

definition mp_Release :: "os \<Rightarrow> mmap_pool \<Rightarrow> (os \<times> mmap_pool) option" where
  "mp_Release os p =
     (let p1 = (fp_run_all fp_DoFree p)\<lparr>p_running := False\<rparr> in
      case p_store p1 of
        None \<Rightarrow> Some (os, p1)
      | Some st \<Rightarrow>
          (case mp_DumpFreeList os p1 (fs_name st @ ''.fl'') of
             None \<Rightarrow> None
           | Some (_, os2, p2) \<Rightarrow> Some (os2, p2\<lparr>p_store := None\<rparr>)))"

definition mp_delete :: "os \<Rightarrow> mmap_pool \<Rightarrow> (os \<times> mmap_pool) option" where
  "mp_delete os p = mp_Release os (p\<lparr>p_store := None\<rparr>)"

section \<open>Growing the file\<close>

type_synonym mmap_pool_state = "os \<times> mmap_pool"

definition mps_layout :: "mmap_pool_state \<Rightarrow> mmap_store \<Rightarrow> string \<Rightarrow> nat \<Rightarrow> bool" where
  "mps_layout s st f b \<longleftrightarrow> p_store (snd s) = Some st \<and> mapped (fst s) st f b \<and>
     mp_begin (snd s) = Some b \<and> 0 < b \<and> b < 2 ^ 63 \<and> 8 \<le> mm_size st \<and>
     0 < mp_min_expand (snd s) \<and> mp_min_expand (snd s) < 2 ^ 63 \<and>
     64 \<le> le_val (get_bytes 0 8 (file_of (fst s) f)) \<and>
     le_val (get_bytes 0 8 (file_of (fst s) f)) \<le> length (file_of (fst s) f) \<and>
     length (file_of (fst s) f) \<le> 2 ^ 63"

definition mps_used :: "mmap_pool_state \<Rightarrow> nat" where
  "mps_used s = (case mp_GetUsedSize (fst s) (snd s) of None \<Rightarrow> 0 | Some u \<Rightarrow> u)"

definition mps_bytes :: "mmap_pool_state \<Rightarrow> nat \<Rightarrow> nat \<Rightarrow> bytes option" where
  "mps_bytes s a n =
     (case p_store (snd s) of
        None \<Rightarrow> None
      | Some st \<Rightarrow>
          (case (fs_fd st, mm_base st) of
             (Some (f, _), Some b) \<Rightarrow> Some (get_bytes (a - b) n (file_of (fst s) f))
           | _ \<Rightarrow> None))"

lemma get_bytes_put_after: "p + n \<le> pos \<Longrightarrow> p + n \<le> length f \<Longrightarrow> get_bytes p n (put_bytes pos xs f) = get_bytes p n f"
  by (rule get_put_disjoint) simp_all

lemma mps_layout_used:
  assumes "mps_layout (os, p) st f b"
  shows "mp_GetUsedSize os p = Some (le_val (get_bytes 0 8 (file_of os f)))"
    "fs_size st = length (file_of os f)"
  using assms mapped_size by (auto simp: mps_layout_def mp_GetUsedSize_def mp_peek_def mapped_read_def mapped_def)

text \<open>A step of the loop: the file grows, or the expansion fails.\<close>

lemma mps_Expand:
  assumes L: "mps_layout (os, p) st f b" and room: "length (file_of os f) + mp_min_expand p \<le> 2 ^ 63"
  obtains os1 st1 where "fs_Expand os st (mp_min_expand p) = (Status1 Success, os1, st1)"
    "mps_layout (os1, p\<lparr>p_store := Some st1\<rparr>) st1 f b" "mm_size st1 = mm_size st"
    "length (file_of os1 f) = length (file_of os f) + mp_min_expand p"
    "take (length (file_of os f)) (file_of os1 f) = file_of os f"
    "get_bytes 0 8 (file_of os1 f) = get_bytes 0 8 (file_of os f)"
proof -
  let ?file = "file_of os f" and ?m = "mp_min_expand p"
  have bounds: "64 \<le> le_val (get_bytes 0 8 ?file)" "le_val (get_bytes 0 8 ?file) \<le> length ?file" "0 < ?m"
    and store: "p_store p = Some st" "mapped os st f b"
    using L by (simp_all add: mps_layout_def)
  define os1 where "os1 = set_file os f (put_bytes (length ?file + ?m - 1) (le_bytes 1 ?m) ?file)"
  define st1 where "st1 = st\<lparr>fs_size := fs_size st + ?m\<rparr>"
  have e: "fs_Expand os st ?m = (Status1 Success, os1, st1)"
    unfolding os1_def st1_def using store(2) bounds(3) room
    by (intro fs_Expand_full) (auto simp: mapped_def)
  have len: "length (file_of os1 f) = length ?file + ?m"
    using bounds(3) by (simp add: os1_def)
  have pre: "take (length ?file) (file_of os1 f) = ?file"
    using bounds(3) by (auto simp: os1_def put_bytes_def)
  have u: "get_bytes 0 8 (file_of os1 f) = get_bytes 0 8 ?file"
    unfolding os1_def using bounds by (simp add: get_bytes_put_after)
  have "mapped os1 st1 f b"
    using store(2) len unfolding mapped_def coherent_def by (simp add: os1_def st1_def)
  then have L1: "mps_layout (os1, p\<lparr>p_store := Some st1\<rparr>) st1 f b"
    using L len u room bounds by (simp add: mps_layout_def st1_def)
  show ?thesis by (rule that [OF e L1 _ len pre u]) (simp add: st1_def)
qed

lemma mps_Expand_fails:
  assumes L: "mps_layout (os, p) st f b" and "2 ^ 63 < length (file_of os f) + mp_min_expand p"
  obtains s where "fs_Expand os st (mp_min_expand p) = (s, os, st)" "\<not> operate s"
proof -
  let ?file = "file_of os f" and ?m = "mp_min_expand p"
  have m: "0 < ?m" "?m < 2 ^ 63" "mapped os st f b" using L by (simp_all add: mps_layout_def)
  have "sint (of_nat (?m - 1) :: u64) = int (?m - 1)"
    using m(2) by (intro sint_of_nat_u64) simp
  then have "sys_lseek (int (length ?file) + sint (of_nat (?m - 1) :: u64)) = None"
    using assms(2) m(1) by (auto simp: sys_lseek_def)
  then have "\<exists>s. fs_Expand os st ?m = (s, os, st) \<and> \<not> operate s"
    using m(1,3) by (auto simp: fs_Expand_def mapped_def)
  then show ?thesis using that by blast
qed

lemma mp_grow_returns:
  assumes "mps_layout (os, p) st f b" "n < 2 ^ 63"
  shows "\<exists>ok os' p' st'. mp_grow os p n = Some (ok, os', p') \<and> mps_layout (os', p') st' f b \<and>
    mm_size st' = mm_size st \<and> p' = p\<lparr>p_store := Some st'\<rparr> \<and>
    length (file_of os f) \<le> length (file_of os' f) \<and>
    take (length (file_of os f)) (file_of os' f) = file_of os f \<and>
    (ok \<longrightarrow> le_val (get_bytes 0 8 (file_of os f)) + n < length (file_of os' f)) \<and>
    (le_val (get_bytes 0 8 (file_of os f)) + n + mp_min_expand p \<le> 2 ^ 63 \<longrightarrow> ok)"
  using assms
proof (induction "2 ^ 63 - length (file_of os f)" arbitrary: os p st rule: less_induct)
  case less
  let ?file = "file_of os f" and ?m = "mp_min_expand p" and ?u = "le_val (get_bytes 0 8 (file_of os f))"
  note L = less.prems(1) and U = mps_layout_used [OF less.prems(1)]
  have bounds: "?u \<le> length ?file" "length ?file \<le> 2 ^ 63" "0 < ?m" and store: "p_store p = Some st"
    using L by (simp_all add: mps_layout_def)
  then have add: "add64 ?u n = ?u + n" using less.prems(2) by (simp add: add64_def)
  consider "?u + n < length ?file" | "\<not> ?u + n < length ?file" "length ?file + ?m \<le> 2 ^ 63"
    | "\<not> ?u + n < length ?file" "2 ^ 63 < length ?file + ?m" by linarith
  then show ?case
  proof cases
    case 1
    then have "mp_grow os p n = Some (True, os, p)"
      by (subst mp_grow.simps) (simp add: store U add fs_GetSize_def)
    then show ?thesis using 1 L store by (intro exI [of _ True] exI [of _ os] exI [of _ p] exI [of _ st]) auto
  next
    case 2
    obtain os1 st1 where E: "fs_Expand os st ?m = (Status1 Success, os1, st1)"
      "mps_layout (os1, p\<lparr>p_store := Some st1\<rparr>) st1 f b" "mm_size st1 = mm_size st"
      "length (file_of os1 f) = length ?file + ?m" "take (length ?file) (file_of os1 f) = ?file"
      "get_bytes 0 8 (file_of os1 f) = get_bytes 0 8 ?file"
      by (rule mps_Expand [OF L 2(2)])
    have grow: "mp_grow os p n = mp_grow os1 (p\<lparr>p_store := Some st1\<rparr>) n"
      by (subst mp_grow.simps) (use 2(1) in \<open>simp add: store U add fs_GetSize_def E(1)\<close>)
    have "2 ^ 63 - length (file_of os1 f) < 2 ^ 63 - length ?file"
      using E(4) bounds(3) 2(2) by linarith
    from less.hyps [OF this E(2) less.prems(2)] obtain ok os' p' st' where
      H: "mp_grow os1 (p\<lparr>p_store := Some st1\<rparr>) n = Some (ok, os', p')" "mps_layout (os', p') st' f b"
      "mm_size st' = mm_size st1" "p' = p\<lparr>p_store := Some st'\<rparr>"
      "length (file_of os1 f) \<le> length (file_of os' f)"
      "take (length (file_of os1 f)) (file_of os' f) = file_of os1 f"
      "ok \<longrightarrow> le_val (get_bytes 0 8 (file_of os1 f)) + n < length (file_of os' f)"
      "le_val (get_bytes 0 8 (file_of os1 f)) + n + ?m \<le> 2 ^ 63 \<longrightarrow> ok"
      by auto
    have "take (length ?file) (file_of os' f) = take (length ?file) (take (length (file_of os1 f)) (file_of os' f))"
      using E(4) by (simp add: min_def)
    also have "\<dots> = ?file" unfolding H(6) by (rule E(5))
    finally show ?thesis
      using H E(3,4,6) grow by (intro exI [of _ ok] exI [of _ os'] exI [of _ p'] exI [of _ st']) auto
  next
    case 3
    obtain s where "fs_Expand os st ?m = (s, os, st)" "\<not> operate s" by (rule mps_Expand_fails [OF L 3(2)])
    then have "mp_grow os p n = Some (False, os, p\<lparr>p_store := Some st\<rparr>)"
      by (subst mp_grow.simps) (use 3(1) in \<open>simp add: store U add fs_GetSize_def\<close>)
    moreover have "p\<lparr>p_store := Some st\<rparr> = p" using store by simp
    ultimately show ?thesis
      using L 3 by (intro exI [of _ False] exI [of _ os] exI [of _ p] exI [of _ st]) simp
  qed
qed

section \<open>The mapped pool as an allocator\<close>

definition mps_alloc :: "mmap_pool_state \<Rightarrow> nat \<Rightarrow> (nat \<times> mmap_pool_state) option" where
  "mps_alloc s n =
     (case fp_DoAlloc mp_AllocFromStore (fst s) (snd s) n of
        None \<Rightarrow> None | Some (a, os', p') \<Rightarrow> Some (a, (os', p')))"

definition mps_free :: "mmap_pool_state \<Rightarrow> nat \<Rightarrow> nat \<Rightarrow> mmap_pool_state" where
  "mps_free s a n = (fst s, snd (fp_Free fp_DoFree (snd s) a n))"

definition mps_tick :: "mmap_pool_state \<Rightarrow> mmap_pool_state" where
  "mps_tick s = (fst s, fp_run_delayed fp_DoFree (snd s))"

definition mps_write :: "mmap_pool_state \<Rightarrow> nat \<Rightarrow> bytes \<Rightarrow> (bool \<times> mmap_pool_state) option" where
  "mps_write s a d =
     (case mp_Write (fst s) (snd s) a d of None \<Rightarrow> None | Some (ok, os', p') \<Rightarrow> Some (ok, (os', p')))"

definition mps_good :: "mmap_pool_state \<Rightarrow> bool" where
  "mps_good s \<longleftrightarrow> (\<exists>st f b. mps_layout s st f b) \<and> fl_ok (p_free_list (snd s))"

definition mps_bot :: "mmap_pool_state \<Rightarrow> nat" where
  "mps_bot s = mp_base (snd s) + 64"

definition mps_top :: "mmap_pool_state \<Rightarrow> nat" where
  "mps_top s = mp_base (snd s) + mps_used s"

lemma mps_layout_top:
  assumes "mps_layout s st f b"
  shows "mps_bot s = b + 64" "mps_top s = b + le_val (get_bytes 0 8 (file_of (fst s) f))"
    "mps_bytes s a n = Some (get_bytes (a - b) n (file_of (fst s) f))"
  using assms mps_layout_used [of "fst s" "snd s" st f b]
  by (auto simp: mps_layout_def mps_bot_def mps_top_def mps_used_def mp_base_def mps_bytes_def mapped_def)

text \<open>The used size is written back into the first word of a file that has grown to \<open>os1\<close>.\<close>

lemma mps_store_used:
  assumes L: "mps_layout (os1, p1) st1 f b" and u: "64 \<le> u" and fit: "u + n < length (file_of os1 f)"
  obtains os2 where "mp_poke os1 p1 (Some b) (u + n) = Some os2" "mps_layout (os2, p1) st1 f b"
    "le_val (get_bytes 0 8 (file_of os2 f)) = u + n"
    "\<And>q m. 8 \<le> q \<Longrightarrow> q + m \<le> length (file_of os1 f) \<Longrightarrow> get_bytes q m (file_of os2 f) = get_bytes q m (file_of os1 f)"
proof -
  have st1: "p_store p1 = Some st1" "mapped os1 st1 f b" "8 \<le> mm_size st1" and len: "length (file_of os1 f) \<le> 2 ^ 63"
    using L by (simp_all add: mps_layout_def)
  obtain os2 where W: "mapped_write os1 st1 b (le_bytes 8 (u + n)) = Some os2" "mapped os2 st1 f b"
    "file_of os2 f = put_bytes 0 (le_bytes 8 (u + n)) (file_of os1 f)"
    using mapped_write_mapped [OF st1(2), of b "le_bytes 8 (u + n)"] st1(3) u fit by auto
  have new: "le_val (get_bytes 0 8 (file_of os2 f)) = u + n"
    using get_put_same [of 0 "le_bytes 8 (u + n)" "file_of os1 f"] fit len by (simp add: W(3) le_val_le_bytes)
  moreover have "length (file_of os2 f) = length (file_of os1 f)" using u fit by (simp add: W(3) max_def)
  ultimately have "mps_layout (os2, p1) st1 f b" using L W(2) fit u by (simp add: mps_layout_def)
  moreover have "get_bytes q m (file_of os2 f) = get_bytes q m (file_of os1 f)" if "8 \<le> q" "q + m \<le> length (file_of os1 f)" for q m
    unfolding W(3) using that by (intro get_put_disjoint) auto
  ultimately show ?thesis using that new W(1) st1(1) by (simp add: mp_poke_def)
qed

lemma mps_AllocFromStore:
  assumes "mps_layout (os, p) st f b" "0 < n" "n < 2 ^ 63"
  shows "\<exists>a os' p' st'. mp_AllocFromStore os p n = Some (a, os', p') \<and> mps_layout (os', p') st' f b \<and>
    p' = p\<lparr>p_store := Some st'\<rparr> \<and> mm_size st' = mm_size st \<and>
    (a = 0 \<and> mps_top (os', p') = mps_top (os, p) \<or>
     a = mps_top (os, p) \<and> mps_top (os', p') = a + n) \<and>
    (mps_used (os, p) + n + mp_min_expand p \<le> 2 ^ 63 \<longrightarrow> a \<noteq> 0) \<and>
    (\<forall>c m. b + 64 \<le> c \<longrightarrow> c + m \<le> mps_top (os, p) \<longrightarrow> mps_bytes (os', p') c m = mps_bytes (os, p) c m)"
proof -
  let ?file = "file_of os f"
  let ?u = "le_val (get_bytes 0 8 ?file)"
  obtain ok os1 p1 st1 where G: "mp_grow os p n = Some (ok, os1, p1)" "mps_layout (os1, p1) st1 f b"
    "mm_size st1 = mm_size st" "p1 = p\<lparr>p_store := Some st1\<rparr>"
    "length ?file \<le> length (file_of os1 f)" "take (length ?file) (file_of os1 f) = ?file"
    "ok \<longrightarrow> ?u + n < length (file_of os1 f)" "?u + n + mp_min_expand p \<le> 2 ^ 63 \<longrightarrow> ok"
    using mp_grow_returns [OF assms(1,3)] by blast
  have used: "mps_used (os, p) = ?u"
    using mps_layout_used(1) [OF assms(1)] by (simp add: mps_used_def)
  have u: "64 \<le> ?u" "?u \<le> length ?file" and len1: "length (file_of os1 f) \<le> 2 ^ 63" and b: "0 < b" "b < 2 ^ 63"
    and st1: "mp_begin p1 = Some b"
    using assms(1) G(2) by (simp_all add: mps_layout_def)
  have same: "get_bytes q m (file_of os1 f) = get_bytes q m ?file" if "q + m \<le> length ?file" for q m
    using that arg_cong [OF G(6), of "\<lambda>x. take m (drop q x)"] by (simp add: get_bytes_def take_drop min_def)
  have u1: "get_bytes 0 8 (file_of os1 f) = get_bytes 0 8 ?file" using u same by simp
  note T = mps_layout_top [OF assms(1), simplified] and T1 = mps_layout_top [OF G(2), simplified]
  show ?thesis
  proof (cases ok)
    case False
    then show ?thesis
      using G(1-4,8) T T1 u1 u(2) same used
      by (intro exI [of _ 0] exI [of _ os1] exI [of _ p1] exI [of _ st1]) (auto simp: mp_AllocFromStore_def)
  next
    case True
    then have fit: "?u + n < length (file_of os1 f)" using G(7) by simp
    then have add: "add64 ?u n = ?u + n" "add64 b ?u = b + ?u"
      using len1 b(2) u(2) G(5) by (simp_all add: add64_def)
    obtain os2 where W: "mp_poke os1 p1 (Some b) (?u + n) = Some os2" "mps_layout (os2, p1) st1 f b"
      "le_val (get_bytes 0 8 (file_of os2 f)) = ?u + n"
      "\<And>q m. 8 \<le> q \<Longrightarrow> q + m \<le> length (file_of os1 f) \<Longrightarrow> get_bytes q m (file_of os2 f) = get_bytes q m (file_of os1 f)"
      using mps_store_used [OF G(2) u(1) fit] by blast
    have "mp_AllocFromStore os p n = Some (b + ?u, os2, p1)"
      using G(1) True mps_layout_used(1) [OF G(2)] u1 st1 W(1) add
      by (simp add: mp_AllocFromStore_def mp_base_def)
    moreover have "mps_bytes (os2, p1) c m = mps_bytes (os, p) c m" if "b + 64 \<le> c" "c + m \<le> mps_top (os, p)" for c m
    proof -
      have r: "8 \<le> c - b" "c - b + m \<le> length ?file" using that T(2) u(2) by auto
      then show ?thesis
        using W(4) [of "c - b" m] G(5) mps_layout_top(3) [OF W(2)] mps_layout_top(3) [OF assms(1)] same [OF r(2)] by simp
    qed
    moreover have "mps_top (os2, p1) = b + (?u + n)" using mps_layout_top(2) [OF W(2)] W(3) by simp
    ultimately show ?thesis
      using W(2) G(3,4) T(2) b(1) by (intro exI [of _ "b + ?u"] exI [of _ os2] exI [of _ p1] exI [of _ st1]) simp
  qed
qed

text \<open>The end of the mapping.\<close>

definition mps_end :: "mmap_pool_state \<Rightarrow> nat" where
  "mps_end s = (case p_store (snd s) of None \<Rightarrow> 0 | Some st \<Rightarrow> mp_base (snd s) + mm_size st)"

lemma mps_end_layout: "mps_layout s st f b \<Longrightarrow> mps_end s = b + mm_size st"
  by (simp add: mps_end_def mps_layout_def mp_base_def)

lemma mps_alloc_facts:
  assumes "mps_good s" "0 < n" "n < 2 ^ 63"
  shows "\<exists>a s'. mps_alloc s n = Some (a, s') \<and> mps_good s' \<and> mps_bot s' = mps_bot s \<and> mps_top s \<le> mps_top s' \<and> mps_end s' = mps_end s \<and>
    (a = 0 \<and> pool_regions (snd s') \<subseteq># pool_regions (snd s) \<or>
     add_mset (n, a) (pool_regions (snd s')) \<subseteq># pool_regions (snd s) \<or>
     a = mps_top s \<and> mps_top s' = a + n \<and> pool_regions (snd s') \<subseteq># pool_regions (snd s)) \<and>
    (\<forall>c m. mps_bot s \<le> c \<longrightarrow> c + m \<le> mps_top s \<longrightarrow> mps_bytes s' c m = mps_bytes s c m) \<and>
    (mps_used s + n + mp_min_expand (snd s) \<le> 2 ^ 63 \<longrightarrow> a \<noteq> 0)"
proof -
  obtain os p where s: "s = (os, p)" by fastforce
  obtain st f b where L: "mps_layout (os, p) st f b" and ok: "fl_ok (p_free_list p)"
    using assms(1) by (auto simp: mps_good_def s)
  define p1 where "p1 = (if p_use_free_list p then snd (fp_AllocFromFreeList p n) else p)"
  define r where "r = (if p_use_free_list p then fst (fp_AllocFromFreeList p n) else 0)"
  have alloc: "mps_alloc s n =
      (if r \<noteq> 0 then Some (r, (os, p1))
       else case mp_AllocFromStore os p1 n of None \<Rightarrow> None | Some (a, os', p') \<Rightarrow> Some (a, (os', p')))"
    by (simp add: mps_alloc_def fp_DoAlloc_def s p1_def r_def case_prod_unfold)
  have F: "fl_ok (p_free_list p1)" "p_pending p1 = p_pending p" "p_store p1 = p_store p"
    "pool_regions p1 \<subseteq># pool_regions p"
    "r \<noteq> 0 \<Longrightarrow> add_mset (n, r) (pool_regions p1) = pool_regions p"
    using AllocFromFreeList_facts [OF ok, of n "fst (fp_AllocFromFreeList p n)" "snd (fp_AllocFromFreeList p n)"] ok
    by (cases "p_use_free_list p"; auto simp: p1_def r_def pool_regions_def pending_regions_def)+
  have more: "mmap_pool.more p1 = mmap_pool.more p" "mp_begin p1 = mp_begin p" "mp_min_expand p1 = mp_min_expand p"
    by (auto simp: p1_def fp_AllocFromFreeList_def split: option.splits list.splits)
  have L1: "mps_layout (os, p1) st f b" using L F(3) more by (simp add: mps_layout_def)
  note T = mps_layout_top [OF L] and T1 = mps_layout_top [OF L1]
  have used: "mps_used (os, p1) = mps_used s"
    using mps_layout_used(1) [OF L] mps_layout_used(1) [OF L1] by (simp add: mps_used_def s)
  show ?thesis
  proof (cases "r = 0")
    case False
    then show ?thesis
      using alloc F(1,5) L1 T T1 s
      by (intro exI [of _ r] exI [of _ "(os, p1)"]) (auto simp: mps_good_def mps_end_layout [OF L] mps_end_layout [OF L1])
  next
    case True
    obtain a os' p' st' where A: "mp_AllocFromStore os p1 n = Some (a, os', p')" "mps_layout (os', p') st' f b"
      "p' = p1\<lparr>p_store := Some st'\<rparr>" "mm_size st' = mm_size st"
      "a = 0 \<and> mps_top (os', p') = mps_top (os, p1) \<or> a = mps_top (os, p1) \<and> mps_top (os', p') = a + n"
      "\<forall>c m. b + 64 \<le> c \<longrightarrow> c + m \<le> mps_top (os, p1) \<longrightarrow> mps_bytes (os', p') c m = mps_bytes (os, p1) c m"
      "mps_used (os, p1) + n + mp_min_expand p1 \<le> 2 ^ 63 \<longrightarrow> a \<noteq> 0"
      using mps_AllocFromStore [OF L1 assms(2,3)] by blast
    have "pool_regions p' = pool_regions p1" by (simp add: A(3) pool_regions_def pending_regions_def)
    moreover have "fl_ok (p_free_list p')" using F(1) by (simp add: A(3))
    ultimately show ?thesis
      using True alloc A(1,2,4-7) used more(3) F(4) T T1 s mps_layout_top(1) [OF A(2)] mps_end_layout [OF A(2)] mps_end_layout [OF L]
      by (intro exI [of _ a] exI [of _ "(os', p')"]) (auto simp: mps_good_def)
  qed
qed

lemma mps_write_facts:
  assumes "mps_good s" "d \<noteq> []" "mps_bot s \<le> a" "a + length d \<le> mps_top s"
  shows "\<exists>s'. mps_write s a d = Some (True, s') \<and> mps_good s' \<and> mps_bot s' = mps_bot s \<and> mps_top s' = mps_top s \<and> mps_end s' = mps_end s \<and>
    pool_regions (snd s') = pool_regions (snd s) \<and> mps_bytes s' a (length d) = Some d \<and>
    (\<forall>c m. mps_bot s \<le> c \<longrightarrow> c + m \<le> mps_top s \<longrightarrow> c + m \<le> a \<or> a + length d \<le> c \<longrightarrow>
      mps_bytes s' c m = mps_bytes s c m)"
proof -
  obtain os p where s: "s = (os, p)" by fastforce
  obtain st f b where L: "mps_layout (os, p) st f b" and ok: "fl_ok (p_free_list p)"
    using assms(1) by (auto simp: mps_good_def s)
  let ?file = "file_of os f"
  let ?u = "le_val (get_bytes 0 8 ?file)"
  note T = mps_layout_top [OF L, folded s]
  have st: "p_store p = Some st" "mapped os st f b" "?u \<le> length ?file" "length ?file \<le> 2 ^ 63"
    using L by (simp_all add: mps_layout_def)
  have "0 < length d" using assms(2) by simp
  have a: "b + 64 \<le> a" "a - b + length d \<le> ?u"
    using assms(3,4) T by (auto simp: s)
  with \<open>0 < length d\<close> st(3,4) have a63: "a - b < 2 ^ 63" by linarith
  obtain os' st' where W: "mm_Write os st a d = Some (Status1 Success, os', st')" "mapped os' st' f b"
    "mm_size st' = mm_size st" "file_of os' f = put_bytes (a - b) d ?file"
    using mm_Write_mapped [OF st(2) _ assms(2) a63] a(1) by auto
  let ?p = "p\<lparr>p_store := Some st'\<rparr>"
  have len: "length (file_of os' f) = length ?file" using a(2) st(3) by (simp add: W(4) max_def)
  have u: "get_bytes 0 8 (file_of os' f) = get_bytes 0 8 ?file"
    unfolding W(4) using a(1,2) st(3) by (intro get_put_disjoint) auto
  have L': "mps_layout (os', ?p) st' f b"
    using L W(2,3) len u by (simp add: mps_layout_def)
  have "mps_write s a d = Some (True, (os', ?p))"
    by (simp add: mps_write_def mp_Write_def s st(1) W(1))
  moreover have "mps_bytes (os', ?p) a (length d) = Some d"
    using mps_layout_top(3) [OF L'] by (simp add: W(4))
  moreover have "mps_bytes (os', ?p) c m = mps_bytes s c m"
    if "mps_bot s \<le> c" "c + m \<le> mps_top s" "c + m \<le> a \<or> a + length d \<le> c" for c m
  proof -
    have "get_bytes (c - b) m (file_of os' f) = get_bytes (c - b) m ?file"
      unfolding W(4) using that T a(1,2) st(3) by (intro get_put_disjoint) (auto simp: s)
    then show ?thesis using mps_layout_top(3) [OF L'] T(3) s by simp
  qed
  moreover have "pool_regions ?p = pool_regions p" by (simp add: pool_regions_def pending_regions_def)
  moreover have "mps_good (os', ?p)" using L' ok by (auto simp: mps_good_def)
  ultimately show ?thesis
    using mps_layout_top(1,2) [OF L'] mps_end_layout [OF L'] mps_end_layout [OF L] W(3) T u s by (intro exI [of _ "(os', ?p)"]) auto
qed

lemma mps_same_store:
  assumes "mps_good (os, p)" "p_store p' = p_store p" "mp_begin p' = mp_begin p"
    "mp_min_expand p' = mp_min_expand p" "fl_ok (p_free_list p')"
  shows "mps_good (os, p') \<and> mps_bot (os, p') = mps_bot (os, p) \<and> mps_top (os, p') = mps_top (os, p) \<and>
    mps_bytes (os, p') c m = mps_bytes (os, p) c m"
proof -
  obtain st f b where L: "mps_layout (os, p) st f b" using assms(1) by (auto simp: mps_good_def)
  then have L': "mps_layout (os, p') st f b" using assms(2-4) by (simp add: mps_layout_def)
  show ?thesis
    using mps_layout_top [OF L] mps_layout_top [OF L'] assms(5) L' by (auto simp: mps_good_def)
qed

lemma DoFree_frame:
  fixes p :: mmap_pool
  shows "mp_begin (snd (fp_DoFree p a n)) = mp_begin p \<and> mp_min_expand (snd (fp_DoFree p a n)) = mp_min_expand p"
  by (simp add: fp_DoFree_def Let_def)

interpretation mapped_pool: data_pool mps_alloc mps_free mps_tick mps_good "\<lambda>s. pool_regions (snd s)" mps_bot
  mps_top mps_write mps_bytes
proof unfold_locales
  fix s n a s'
  assume g: "mps_good s" "0 < n" "n < 2 ^ 63" and a: "mps_alloc s n = Some (a, s')"
  from mps_alloc_facts [OF g] a have F: "mps_good s'" "mps_bot s' = mps_bot s" "mps_top s \<le> mps_top s'"
    "a = 0 \<and> pool_regions (snd s') \<subseteq># pool_regions (snd s) \<or>
     add_mset (n, a) (pool_regions (snd s')) \<subseteq># pool_regions (snd s) \<or>
     a = mps_top s \<and> mps_top s' = a + n \<and> pool_regions (snd s') \<subseteq># pool_regions (snd s)"
    "\<forall>c m. mps_bot s \<le> c \<longrightarrow> c + m \<le> mps_top s \<longrightarrow> mps_bytes s' c m = mps_bytes s c m"
    by auto
  have "mps_bot s \<le> mps_top s"
    using g(1) mps_layout_top by (fastforce simp: mps_good_def mps_layout_def)
  then show "mps_good s' \<and> mps_bot s' = mps_bot s \<and> mps_top s \<le> mps_top s' \<and>
      pool_regions (snd s') \<subseteq># pool_regions (snd s) \<and>
      (a = 0 \<or> add_mset (n, a) (pool_regions (snd s')) \<subseteq># pool_regions (snd s) \<or>
       mps_bot s \<le> a \<and> mps_top s \<le> a \<and> a + n \<le> mps_top s')"
    using F(1-4) by (auto dest: mset_subset_eq_insertD subset_mset.less_imp_le)
  show "mps_bytes s' c m = mps_bytes s c m" if "mps_bot s \<le> c" "c + m \<le> mps_top s" for c m
    using F(5) that by blast
next
  fix s n a
  assume g: "mps_good s"
  obtain os p where s: "s = (os, p)" by fastforce
  have ok: "fl_ok (p_free_list p)" using g by (simp add: mps_good_def s)
  have fr: "mp_begin (snd (fp_Free fp_DoFree p a n)) = mp_begin p \<and>
      mp_min_expand (snd (fp_Free fp_DoFree p a n)) = mp_min_expand p"
    using DoFree_frame [of p a n] by (simp add: fp_Free_def)
  note F = fp_Free_facts [OF ok, of a n "fst (fp_Free fp_DoFree p a n)" "snd (fp_Free fp_DoFree p a n)"]
  note G = mps_same_store [of os p "snd (fp_Free fp_DoFree p a n)"]
  show "mps_good (mps_free s a n) \<and> mps_bot (mps_free s a n) = mps_bot s \<and> mps_top (mps_free s a n) = mps_top s \<and>
      pool_regions (snd (mps_free s a n)) \<subseteq># add_mset (n, a) (pool_regions (snd s))"
    using G F fr g by (simp add: mps_free_def s)
  show "mps_bytes (mps_free s a n) b m = mps_bytes s b m" for b m
    using G F fr g by (simp add: mps_free_def s)
next
  fix s
  assume g: "mps_good s"
  obtain os p where s: "s = (os, p)" by fastforce
  have ok: "fl_ok (p_free_list p)" using g by (simp add: mps_good_def s)
  have fr: "mp_begin (fp_run_delayed fp_DoFree p) = mp_begin p \<and>
      mp_min_expand (fp_run_delayed fp_DoFree p) = mp_min_expand p"
    by (auto simp: fp_run_delayed_def fp_DoFree_def Let_def split: list.splits)
  note F = fp_run_delayed_facts [OF ok] and G = mps_same_store [of os p "fp_run_delayed fp_DoFree p"]
  show "mps_good (mps_tick s) \<and> mps_bot (mps_tick s) = mps_bot s \<and> mps_top (mps_tick s) = mps_top s \<and>
      pool_regions (snd (mps_tick s)) \<subseteq># pool_regions (snd s)"
    using G F fr g by (simp add: mps_tick_def s)
  show "mps_bytes (mps_tick s) b m = mps_bytes s b m" for b m
    using G F fr g by (simp add: mps_tick_def s)
next
  fix s and d :: bytes and a
  assume "mps_good s" "d \<noteq> []" "mps_bot s \<le> a" "a + length d \<le> mps_top s"
  from mps_write_facts [OF this] show "\<exists>s'. mps_write s a d = Some (True, s') \<and> mps_good s' \<and> mps_bot s' = mps_bot s \<and>
      mps_top s' = mps_top s \<and> pool_regions (snd s') = pool_regions (snd s) \<and> mps_bytes s' a (length d) = Some d \<and>
      (\<forall>b m. 0 < m \<longrightarrow> mps_bot s \<le> b \<longrightarrow> b + m \<le> mps_top s \<longrightarrow>
        b + m \<le> a \<or> a + length d \<le> b \<longrightarrow> mps_bytes s' b m = mps_bytes s b m)"
    by blast
qed

lemma mapped_pool_readable:
  assumes "mps_good s" "p_store (snd s) = Some st" "mm_base st = Some b" "mps_bytes s a n = Some d" "length d = n"
    "b \<le> a" "a + n \<le> b + mm_size st" "0 < n"
  shows "mp_Read (snd s) a n = (True, a, n) \<and> mapped_read (fst s) st a n = Some d"
proof -
  obtain st' f b' where L: "mps_layout s st' f b'" using assms(1) by (auto simp: mps_good_def)
  then have eq: "st' = st" "b' = b" using assms(2,3) by (auto simp: mps_layout_def mapped_def)
  have d: "d = get_bytes (a - b) n (file_of (fst s) f)"
    using mps_layout_top(3) [OF L] assms(4) eq by simp
  then have "a - b + n \<le> length (file_of (fst s) f)"
    using assms(5,8) by (simp add: length_get_bytes)
  then have "mapped_read (fst s) st a n = Some d"
    using L assms(6,7) d mapped_read_mapped [of "fst s" st f b a n] by (simp add: eq mps_layout_def)
  then show ?thesis using assms(2,3,6,7) by (simp add: mp_Read_def mm_Read_def)
qed

text \<open>
  C1: on a mapped pool opened for writing, with a positive expansion step, every sequence of
  \<open>NewData\<close>, \<open>Write\<close> in place, \<open>Free\<close> and steps of the delayed-free thread returns (the loop
  that grows the file ends); what the client stored lies apart, and every datum within the mapping
  is read through \<open>Read\<close> as last written.
\<close>

theorem mmap_pool_client:
  assumes "mps_good s" "pool_regions (snd s) = {#}" "list_all small_op ops"
  shows "\<exists>s' h. client_run mps_alloc mps_free mps_tick mps_write ops (s, []) = Some (s', h) \<and>
    heap_apart h \<and>
    (\<forall>(a, d) \<in> set h. \<forall>st b. p_store (snd s') = Some st \<longrightarrow> mm_base st = Some b \<longrightarrow>
      a + length d \<le> b + mm_size st \<longrightarrow>
      mp_Read (snd s') a (length d) = (True, a, length d) \<and> mapped_read (fst s') st a (length d) = Some d)"
proof -
  have start: "mapped_pool.holds s []"
    using assms(1,2) by (intro mapped_pool.start_holds) (simp_all add: separate_def)
  have "mps_alloc s n \<noteq> None" if "mps_good s" "0 < n" "n < 2 ^ 63" for s n
    using mps_alloc_facts [OF that] by auto
  then have "client_run mps_alloc mps_free mps_tick mps_write ops (s, []) \<noteq> None"
    using mapped_pool.run_total [OF _ start assms(3)] by blast
  then obtain s' h where run: "client_run mps_alloc mps_free mps_tick mps_write ops (s, []) = Some (s', h)"
    by auto
  note H = mapped_pool.run_holds [OF run start assms(3)]
  have g: "mps_good s'" and acc: "mapped_pool.accounted s' (regions h)"
    using H by (simp_all add: mapped_pool.holds_def mapped_pool.accounted_def)
  have "mp_Read (snd s') a (length d) = (True, a, length d) \<and> mapped_read (fst s') st a (length d) = Some d"
    if h: "(a, d) \<in> set h" and st: "p_store (snd s') = Some st" "mm_base st = Some b" "a + length d \<le> b + mm_size st"
    for a d st b
  proof -
    have "mps_bytes s' a (length d) = Some d" using mapped_pool.holds_readback [OF H] h by auto
    moreover have "mps_bot s' = b + 64"
      using g st mps_layout_top(1) by (fastforce simp: mps_good_def mps_layout_def mapped_def)
    ultimately show ?thesis
      using mapped_pool_readable [OF g st(1,2)] mapped_pool.accounted_region [OF acc h] st(3) by simp
  qed
  then show ?thesis using run mapped_pool.holds_readback [OF H] by blast
qed

definition demo_mmap_pool :: mmap_pool_state where
  "demo_mmap_pool =
     (plain_os\<lparr>files := [''p'' \<mapsto> le_bytes 8 64 @ replicate 56 0]\<rparr>,
      (MMapPool_new 0)\<lparr>p_store := Some \<lparr>fs_fd = Some (''p'', False), fs_size = 64, fs_name = ''p'',
          mm_base = Some 4096, mm_size = 4096, mm_memory_lock = False, mm_memory_preload = False\<rparr>,
        mp_begin := Some 4096, mp_min_expand := 16\<rparr>)"

lemma demo_mmap_pool_ok: "mps_good demo_mmap_pool \<and> pool_regions (snd demo_mmap_pool) = {#}"
proof -
  have "le_val (get_bytes 0 8 (le_bytes 8 64 @ replicate 56 0)) = 64"
    by (simp add: get_bytes_def le_val_le_bytes)
  then have "mps_layout demo_mmap_pool \<lparr>fs_fd = Some (''p'', False), fs_size = 64, fs_name = ''p'',
          mm_base = Some 4096, mm_size = 4096, mm_memory_lock = False, mm_memory_preload = False\<rparr> ''p'' 4096"
    by (simp add: mps_layout_def demo_mmap_pool_def MMapPool_new_def pool.defs FilePool_new_def mapped_def
        coherent_def file_of_def del: le_bytes.simps)
  then show ?thesis
    by (auto simp: mps_good_def demo_mmap_pool_def MMapPool_new_def pool.defs FilePool_new_def
        pool_regions_def pending_regions_def)
qed

theorem mmap_pool_client_witness:
  "\<exists>s' h. client_run mps_alloc mps_free mps_tick mps_write
      [New [1, 2, 3], Del 4160, Tick, New [4, 5, 6], Put 4163 [7]] (demo_mmap_pool, []) = Some (s', h) \<and> heap_apart h"
  using mmap_pool_client [of demo_mmap_pool "[New [1, 2, 3], Del 4160, Tick, New [4, 5, 6], Put 4163 [7]]"]
    demo_mmap_pool_ok
  by (auto simp: small_op_def)

text \<open>
  \<open>Init\<close> of a pool on a file that does not exist makes a pool of the form the client's theorem
  starts from: the file has the expansion size, the header says 64, no block is free, no data.
\<close>

theorem mp_Init_fresh:
  assumes "full_io os" "files os f = None" "files os (f @ ''.fl'') = None" "open_ok os f False"
    and "mmap_ans os = Some b" "0 < b" "b < 2 ^ 63"
    and "p_store p = None" "p_free_list p = []" "p_pending p = []"
    and "64 \<le> mp_min_expand p" "mp_min_expand p < 2 ^ 63"
  shows "\<exists>os' p'. mp_Init os p f False = Some (True, os', p') \<and> mps_good (os', p') \<and>
    pool_regions p' = {#} \<and> mp_GetDataSize os' p' = Some 0 \<and>
    length (file_of os' f) = mp_min_expand p \<and> mp_GetMMapDataBegin p' = b + 64"
proof -
  let ?m = "mp_min_expand p"
  define os1 where "os1 = set_file os f []"
  define st1 where "st1 = MMapStore_new\<lparr>fs_fd := Some (f, False), fs_size := 0, fs_name := f, mm_base := Some b\<rparr>"
  have o: "mm_Open os MMapStore_new f False = (Status1 Success, os1, st1)"
    using assms(2,4,5)
    by (simp add: mm_Open_def fs_Open_def sys_open_def MMapStore_new_def fs_GetFileSize_def os1_def st1_def Let_def)
  define os2 where "os2 = set_file os1 f (put_bytes (0 + ?m - 1) (le_bytes 1 ?m) [])"
  define st2 where "st2 = st1\<lparr>fs_size := ?m\<rparr>"
  have e: "fs_Expand os1 st1 ?m = (Status1 Success, os2, st2)"
    using fs_Expand_full [of os1 st1 f ?m] assms(1,11,12)
    by (simp add: os1_def st1_def os2_def st2_def)
  define fresh where "fresh = put_bytes (?m - 1) (le_bytes 1 ?m) []"
  have f2: "file_of os2 f = fresh" "length fresh = ?m"
    using assms(11) by (simp_all add: os2_def fresh_def)
  have m2: "mapped os2 st2 f b"
    using assms(1) f2 by (simp add: mapped_def coherent_def os2_def os1_def st2_def st1_def)
  have sz: "mm_size st2 = 1073741824"
    by (simp add: st2_def st1_def MMapStore_new_def kDefaultMMapSize_def)
  obtain os3 where W: "mapped_write os2 st2 b (le_bytes 8 64) = Some os3" "mapped os3 st2 f b"
    "file_of os3 f = put_bytes 0 (le_bytes 8 64) fresh"
    using mapped_write_mapped [OF m2, of b "le_bytes 8 64"] assms(11) f2 sz by auto
  have os3: "os3 = set_file os2 f (put_bytes 0 (le_bytes 8 64) fresh)"
    using W(1) m2 f2 assms(11) sz by (auto simp: mapped_write_def mapped_def split: if_splits)
  have u: "le_val (get_bytes 0 8 (file_of os3 f)) = 64"
    using get_put_same [of 0 "le_bytes 8 64" fresh] by (simp add: W(3) le_val_le_bytes del: le_bytes.simps)
  have len: "length (file_of os3 f) = ?m" using assms(11) f2 by (simp add: W(3) max_def)
  define p3 where "p3 = p\<lparr>p_read_only := False, p_store := Some st2, mp_begin := Some b\<rparr>"
  have no: "\<not> fl_readable os3 (f @ ''.fl'')"
    using assms(3) by (simp add: fl_readable_def os3 os2_def os1_def set_file_def)
  have "mp_Init os p f False = Some (True, os3, p3)"
    using assms(8) o e W(1) no
    by (simp add: mp_Init_def Let_def fs_GetSize_def mp_poke_def p3_def) (simp add: st1_def)
  moreover have L: "mps_layout (os3, p3) st2 f b"
    using W(2) u len sz assms(6,7,11,12) by (simp add: mps_layout_def p3_def)
  moreover have "mps_good (os3, p3)" using L assms(9) by (auto simp: mps_good_def p3_def)
  moreover have "pool_regions p3 = {#}" using assms(9,10) by (simp add: pool_regions_def p3_def)
  moreover have "mp_GetDataSize os3 p3 = Some 0"
    using mps_layout_used(1) [OF L] u by (simp add: mp_GetUsedSize_def mp_GetDataSize_def p3_def sub64_def)
  moreover have "mp_GetMMapDataBegin p3 = b + 64"
    using assms(7) by (simp add: mp_GetMMapDataBegin_def mp_base_def p3_def add64_def)
  ultimately show ?thesis using len by blast
qed

theorem mp_Init_fresh_witness:
  "\<exists>os' p'. mp_Init plain_os ((MMapPool_new 0)\<lparr>mp_min_expand := 128\<rparr>) ''p'' False = Some (True, os', p') \<and>
    length (file_of os' ''p'') = 128 \<and> mp_GetMMapDataBegin p' = 4160"
  using mp_Init_fresh [of plain_os "''p''" 4096 "(MMapPool_new 0)\<lparr>mp_min_expand := 128\<rparr>"]
  by (auto simp: plain_os_def full_io_def MMapPool_new_def pool.defs FilePool_new_def)

lemma mp_offset_addr:
  assumes "mp_begin p = Some b" "b + 64 \<le> a" "a < 2 ^ 64"
  shows "mp_GetDataOffset p a = a - b - 64 \<and> mp_GetDataAddr p (a - b - 64) = a"
proof -
  have "sub64 a b = a - b" using assms(2,3) by (intro sub64_le) simp_all
  moreover have "sub64 (a - b) 64 = a - b - 64" using assms(2,3) by (intro sub64_le) simp_all
  moreover have "b + 64 < 2 ^ 64" using assms(2,3) by (rule le_less_trans)
  moreover from this have "b + 64 + (a - b - 64) = a" "(b + 64) mod 2 ^ 64 = b + 64"
    using assms(2) by simp_all
  ultimately show ?thesis
    using assms by (simp add: mp_GetDataOffset_def mp_GetDataAddr_def mp_base_def add64_def)
qed

text \<open>
  \<open>NewData\<close> on a mapped pool whose free blocks lie apart in the data area returns: either
  -1, or an offset from which \<open>GetDataAddr\<close> gives an address where the pool holds the data.
\<close>

lemma NewData_readback:
  assumes "mps_good (os, p)" "separate (pool_regions p)"
    and "within (mps_bot (os, p)) (mps_top (os, p)) (pool_regions p)" "d \<noteq> []" "length d < 2 ^ 63"
  shows "\<exists>r os' p'. mp_NewData os p d = Some (r, os', p') \<and> mps_good (os', p') \<and>
    (r = -1 \<or> 0 \<le> r \<and> mps_bytes (os', p') (mp_GetDataAddr p' (nat r)) (length d) = Some d)"
proof -
  have start: "mapped_pool.holds (os, p) []"
    using assms(1-3) by (intro mapped_pool.start_holds) simp_all
  have small: "list_all small_op [New d]" using assms(5) by (simp add: small_op_def)
  have "mps_alloc s n \<noteq> None" if "mps_good s" "0 < n" "n < 2 ^ 63" for s n
    using mps_alloc_facts [OF that] by auto
  then have "client_run mps_alloc mps_free mps_tick mps_write [New d] ((os, p), []) \<noteq> None"
    using mapped_pool.run_total [OF _ start small] by blast
  then obtain s' h where run: "client_run mps_alloc mps_free mps_tick mps_write [New d] ((os, p), []) = Some (s', h)"
    by auto
  obtain os' p' where s': "s' = (os', p')" by fastforce
  note H = mapped_pool.run_holds [OF run start small]
  have g: "mps_good (os', p')" and acc: "mapped_pool.accounted (os', p') (regions h)"
    using H by (simp_all add: mapped_pool.holds_def mapped_pool.accounted_def s')
  obtain a os1 p1 where A: "fp_DoAlloc mp_AllocFromStore os p (length d) = Some (a, os1, p1)"
    using run assms(4) by (auto simp: mps_alloc_def s' split: option.splits prod.splits)
  have "\<exists>r. mp_NewData os p d = Some (r, os', p') \<and>
      (r = -1 \<or> (\<exists>a. r = int (mp_GetDataOffset p' a) \<and> (a, d) \<in> set h))"
  proof (cases "a = 0")
    case True
    then show ?thesis using run assms(4) A by (auto simp: mp_NewData_def mps_alloc_def s')
  next
    case False
    then obtain ok where "mp_Write os1 p1 a d = Some (ok, os', p')" "h = (if ok then [(a, d)] else [])"
      using run assms(4) A by (auto simp: mps_alloc_def mps_write_def s' split: option.splits prod.splits)
    then show ?thesis using False assms(4) A by (cases ok) (auto simp: mp_NewData_def)
  qed
  then obtain r where r: "mp_NewData os p d = Some (r, os', p') \<and>
      (r = -1 \<or> (\<exists>a. r = int (mp_GetDataOffset p' a) \<and> (a, d) \<in> set h))"
    by blast
  have "mps_bytes (os', p') (mp_GetDataAddr p' (mp_GetDataOffset p' a)) (length d) = Some d"
    if a: "(a, d) \<in> set h" for a
  proof -
    obtain st f b where L: "mps_layout (os', p') st f b" using g by (auto simp: mps_good_def)
    have "b + 64 \<le> a" "a + length d \<le> b + le_val (get_bytes 0 8 (file_of os' f))"
      using mapped_pool.accounted_region [OF acc a] mps_layout_top [OF L] by simp_all
    moreover have "le_val (get_bytes 0 8 (file_of os' f)) \<le> 2 ^ 63" "b < 2 ^ 63" "mp_begin p' = Some b"
      using L by (simp_all add: mps_layout_def)
    ultimately have "mp_GetDataAddr p' (mp_GetDataOffset p' a) = a"
      using mp_offset_addr [of p' b a] by simp
    then show ?thesis using mapped_pool.holds_readback [OF H] a s' by auto
  qed
  then show ?thesis using r g by auto
qed

lemma mp_grow_stuck:
  assumes "mp_grow os p n = Some r" "p_store p = Some st" "mp_min_expand p = 0"
    "mp_GetUsedSize os p = Some u" "fs_GetSize st \<le> add64 u n"
  shows False
proof -
  have "p_store p = Some st \<longrightarrow> mp_min_expand p = 0 \<longrightarrow> mp_GetUsedSize os p = Some u \<longrightarrow>
      fs_GetSize st \<le> add64 u n \<longrightarrow> False"
  proof (rule mp_grow.raw_induct [OF _ assms(1)])
    fix grow :: "os \<Rightarrow> mmap_pool \<Rightarrow> nat \<Rightarrow> (bool \<times> os \<times> mmap_pool) option"
      and os :: os and p :: mmap_pool and n r
    assume IH: "\<And>os p n r. grow os p n = Some r \<Longrightarrow>
        p_store p = Some st \<longrightarrow> mp_min_expand p = 0 \<longrightarrow> mp_GetUsedSize os p = Some u \<longrightarrow>
        fs_GetSize st \<le> add64 u n \<longrightarrow> False"
      and eq: "(case p_store p of
        None \<Rightarrow> Some (False, os, p)
      | Some st \<Rightarrow>
          (case mp_GetUsedSize os p of
             None \<Rightarrow> None
           | Some used \<Rightarrow>
               if add64 used n \<ge> fs_GetSize st then
                 (case fs_Expand os st (mp_min_expand p) of
                    (status, os', st') \<Rightarrow>
                      let p' = p\<lparr>p_store := Some st'\<rparr> in
                      if \<not> operate status then Some (False, os', p') else grow os' p' n)
               else Some (True, os, p))) = Some r"
    show "p_store p = Some st \<longrightarrow> mp_min_expand p = 0 \<longrightarrow> mp_GetUsedSize os p = Some u \<longrightarrow>
        fs_GetSize st \<le> add64 u n \<longrightarrow> False"
    proof (intro impI)
      assume st: "p_store p = Some st" "mp_min_expand p = 0" "mp_GetUsedSize os p = Some u"
        "fs_GetSize st \<le> add64 u n"
      then have same: "p\<lparr>p_store := Some st\<rparr> = p" by simp
      have "grow os (p\<lparr>p_store := Some st\<rparr>) n = Some r"
        using eq st by (simp add: fs_Expand_def)
      then have "grow os p n = Some r" by (simp only: same)
      then show False using IH st by blast
    qed
  qed
  then show ?thesis using assms(2-5) by blast
qed

text \<open>
  With \<open>SetMinExpandSize(0)\<close> an allocation that does not fit and finds no free block never
  returns.
\<close>

theorem mp_Alloc_diverges:
  assumes "mps_layout (os, p\<lparr>mp_min_expand := 1\<rparr>) st f b" "mp_min_expand p = 0"
    and "map_of (p_free_list p) n = None" "n < 2 ^ 63"
    and "length (file_of os f) \<le> le_val (get_bytes 0 8 (file_of os f)) + n"
  shows "fp_DoAlloc mp_AllocFromStore os p n = None"
proof -
  let ?u = "le_val (get_bytes 0 8 (file_of os f))"
  have st: "p_store p = Some st" using assms(1) by (simp add: mps_layout_def)
  have "mp_GetUsedSize os p = mp_GetUsedSize os (p\<lparr>mp_min_expand := 1\<rparr>)"
    by (cases "mp_begin p") (simp_all add: mp_GetUsedSize_def mp_peek_def)
  then have u: "mp_GetUsedSize os p = Some ?u" using mps_layout_used(1) [OF assms(1)] by simp
  have "?u \<le> 2 ^ 63" using assms(1) by (simp add: mps_layout_def)
  then have "fs_GetSize st \<le> add64 ?u n"
    using assms(4,5) mps_layout_used(2) [OF assms(1)] by (simp add: add64_def fs_GetSize_def)
  then have "mp_grow os p n = None"
    using mp_grow_stuck [OF _ st assms(2) u] by (cases "mp_grow os p n") auto
  moreover have "(if p_use_free_list p then fp_AllocFromFreeList p n else (0, p)) = (0, p)"
    using assms(3) by (simp add: fp_AllocFromFreeList_def)
  ultimately show ?thesis by (simp add: fp_DoAlloc_def mp_AllocFromStore_def)
qed

theorem mp_Alloc_diverges_witness:
  "fp_DoAlloc mp_AllocFromStore (fst demo_mmap_pool) ((snd demo_mmap_pool)\<lparr>mp_min_expand := 0\<rparr>) 8 = None"
proof (rule mp_Alloc_diverges)
  have "le_val (get_bytes 0 8 (le_bytes 8 64 @ replicate 56 0)) = 64"
    by (simp add: get_bytes_def le_val_le_bytes)
  then show "mps_layout (fst demo_mmap_pool, ((snd demo_mmap_pool)\<lparr>mp_min_expand := 0\<rparr>)\<lparr>mp_min_expand := 1\<rparr>)
      \<lparr>fs_fd = Some (''p'', False), fs_size = 64, fs_name = ''p'',
          mm_base = Some 4096, mm_size = 4096, mm_memory_lock = False, mm_memory_preload = False\<rparr> ''p'' 4096"
    by (simp add: mps_layout_def demo_mmap_pool_def MMapPool_new_def pool.defs FilePool_new_def mapped_def
        coherent_def file_of_def del: le_bytes.simps)
  show "length (file_of (fst demo_mmap_pool) ''p'') \<le>
      le_val (get_bytes 0 8 (file_of (fst demo_mmap_pool) ''p'')) + 8"
    by (simp add: demo_mmap_pool_def file_of_def get_bytes_def le_val_le_bytes del: le_bytes.simps)
qed (simp_all add: demo_mmap_pool_def MMapPool_new_def pool.defs FilePool_new_def)

end
