(* ===== verification/Upward_Pools.thy ===== *)
theory Upward_Pools
  imports Mmap_Pool
begin

text \<open>
  What the indexes rely on in a pool: space is handed out upwards without gaps (\<open>bump_pool\<close>), and blocks
  that are given back stay out of the way (\<open>table_pool\<close>).  The mapped pool is such a pool as long as its
  free list is empty and freed blocks wait for their delay.  Its blocks are memory only where the mapping
  reaches: \<open>Alloc\<close> does not look at the length of the mapping, and the client that writes to a block behind its
  end faults.  \<open>mps_touch\<close> is \<open>Alloc\<close> with that fault.
\<close>

section \<open>Pools that grow upwards\<close>

locale bump_pool =
  fixes alloc :: "'p \<Rightarrow> nat \<Rightarrow> (nat \<times> 'p) option"
    and ok :: "'p \<Rightarrow> bool"
    and top :: "'p \<Rightarrow> nat"
    and room :: "'p \<Rightarrow> nat"
  assumes bump: "ok p \<Longrightarrow> 0 < n \<Longrightarrow> n \<le> room p \<Longrightarrow>
      \<exists>q. alloc p n = Some (top p, q) \<and> ok q \<and> top q = top p + n \<and> room q = room p - n"
    and top_pos: "ok p \<Longrightarrow> 0 < top p"

locale table_pool = bump_pool +
  fixes free :: "'a \<Rightarrow> nat \<Rightarrow> nat \<Rightarrow> bool \<times> 'a"
  assumes free_keeps: "ok p \<Longrightarrow> \<exists>q. free p a n = (True, q) \<and> ok q \<and> top q = top p \<and> room q = room p"

text \<open>The mapped pool with an empty free list is such a pool; its room is bounded by the width of \<open>off_t\<close>.\<close>

definition mps_fresh :: "mmap_pool_state \<Rightarrow> bool" where
  "mps_fresh s \<longleftrightarrow> mps_good s \<and> p_free_list (snd s) = []"

definition mps_room :: "mmap_pool_state \<Rightarrow> nat" where
  "mps_room s = 2 ^ 63 - (mps_used s + mp_min_expand (snd s))"

lemma mps_fresh_alloc:
  assumes "mps_fresh s" "0 < n" "n \<le> mps_room s"
  shows "\<exists>q. mps_alloc s n = Some (mps_top s, q) \<and> mps_fresh q \<and> mps_top q = mps_top s + n \<and> mps_room q = mps_room s - n \<and>
    p_reuse_timegap (snd q) = p_reuse_timegap (snd s) \<and> mps_end q = mps_end s \<and> mps_bot q = mps_bot s"
proof -
  note 1 = assms
  obtain os p where s: "s = (os, p)" by (cases s)
  obtain st f b where L: "mps_layout (os, p) st f b" and fl: "p_free_list p = []"
    using 1(1) by (auto simp: mps_fresh_def mps_good_def s)
  have n: "n < 2 ^ 63" "mps_used (os, p) + n + mp_min_expand p \<le> 2 ^ 63"
    using 1(2,3) L by (auto simp: mps_room_def s mps_layout_def)
  obtain a os' p' st' where A: "mp_AllocFromStore os p n = Some (a, os', p')" "mps_layout (os', p') st' f b"
      "p' = p\<lparr>p_store := Some st'\<rparr>" "a = 0 \<and> mps_top (os', p') = mps_top (os, p) \<or>
        a = mps_top (os, p) \<and> mps_top (os', p') = a + n" "a \<noteq> 0" "mm_size st' = mm_size st"
    using mps_AllocFromStore [OF L 1(2) n(1)] n(2) by blast
  have base: "mp_base p' = mp_base p" using A(3) by (simp add: mp_base_def)
  then have used: "mps_used (os', p') = mps_used (os, p) + n" using A(4,5) by (simp add: mps_top_def)
  have good: "mps_good (os', p')" using A(2,3) fl by (auto simp: mps_good_def)
  have "(if p_use_free_list p then fp_AllocFromFreeList p n else (0, p)) = (0, p)"
    by (simp add: fp_AllocFromFreeList_def fl)
  then have "mps_alloc s n = Some (a, (os', p'))"
    using A(1) by (simp add: mps_alloc_def fp_DoAlloc_def s)
  moreover have "mm_size st' = mm_size st" "mps_end (os, p) = b + mm_size st" "mps_end (os', p') = b + mm_size st'"
    using A(6) mps_end_layout [OF L] mps_end_layout [OF A(2)] by simp_all
  ultimately show ?thesis using A good used fl base
    by (intro exI [of _ "(os', p')"]) (simp add: mps_fresh_def mps_room_def s mps_bot_def)
qed

lemma mps_fresh_top: "mps_fresh s \<Longrightarrow> 0 < mps_top s"
proof -
  assume "mps_fresh s"
  then obtain st f b where "mps_layout s st f b" by (auto simp: mps_fresh_def mps_good_def)
  then show ?thesis using mps_layout_top(2) [of s st f b] by (simp add: mps_layout_def)
qed

text \<open>\<open>Free\<close> of a mapped pool with a delay: the block waits in a queue, and the file does not change.\<close>

definition mps_Free :: "mmap_pool_state \<Rightarrow> nat \<Rightarrow> nat \<Rightarrow> bool \<times> mmap_pool_state" where
  "mps_Free s a n = (case fp_Free fp_DoFree (snd s) a n of (ok, p) \<Rightarrow> (ok, (fst s, p)))"

definition mps_patient :: "mmap_pool_state \<Rightarrow> bool" where
  "mps_patient s \<longleftrightarrow> mps_fresh s \<and> 0 < p_reuse_timegap (snd s)"

lemma mps_Free_patient:
  assumes "mps_patient s"
  shows "\<exists>q. mps_Free s a n = (True, q) \<and> mps_patient q \<and> mps_top q = mps_top s \<and> mps_room q = mps_room s \<and>
    mps_end q = mps_end s \<and> mps_bot q = mps_bot s"
proof -
  obtain os p where s: "s = (os, p)" by (cases s)
  define p' where "p' = (if p_running p then p\<lparr>p_pending := p_pending p @ [(a, n)]\<rparr> else p)"
  have same: "p_store p' = p_store p" "mp_begin p' = mp_begin p" "mp_min_expand p' = mp_min_expand p"
    "p_free_list p' = p_free_list p" "p_reuse_timegap p' = p_reuse_timegap p"
    by (simp_all add: p'_def)
  have good: "mps_good (os, p)" "p_free_list p = []" "0 < p_reuse_timegap p"
    using assms by (simp_all add: mps_patient_def mps_fresh_def s)
  have "fl_ok (p_free_list p')" using same(4) good(1) by (simp add: mps_good_def)
  then have "mps_good (os, p')" "mps_top (os, p') = mps_top (os, p)"
    using mps_same_store [OF good(1) same(1-3)] by simp_all
  moreover have "mps_used (os, p') = mps_used (os, p)"
    by (cases "mp_begin p") (simp_all add: mps_used_def mp_GetUsedSize_def mp_peek_def same(1,2))
  moreover have "mps_end (os, p') = mps_end (os, p)" by (simp add: mps_end_def mp_base_def same(1,2) split: option.split)
  moreover have "mps_Free s a n = (True, (os, p'))"
    using good(3) by (simp add: mps_Free_def fp_Free_def s p'_def)
  ultimately show ?thesis
    using good same by (intro exI [of _ "(os, p')"]) (simp add: mps_patient_def mps_fresh_def mps_room_def mps_bot_def mp_base_def s)
qed

interpretation mapped_bump: bump_pool mps_alloc mps_fresh mps_top mps_room
  by unfold_locales (use mps_fresh_alloc mps_fresh_top in blast)+

interpretation mapped_table: table_pool mps_alloc mps_patient mps_top mps_room mps_Free
proof unfold_locales
  fix s n
  assume "mps_patient s" "0 < n" "n \<le> mps_room s"
  then show "\<exists>q. mps_alloc s n = Some (mps_top s, q) \<and> mps_patient q \<and> mps_top q = mps_top s + n \<and> mps_room q = mps_room s - n"
    using mps_fresh_alloc [of s n] by (auto simp: mps_patient_def)
next
  show "mps_patient s \<Longrightarrow> 0 < mps_top s" for s using mps_fresh_top by (simp add: mps_patient_def)
  show "mps_patient s \<Longrightarrow> \<exists>q. mps_Free s a n = (True, q) \<and> mps_patient q \<and> mps_top q = mps_top s \<and> mps_room q = mps_room s"
    for s a n using mps_Free_patient [of s a n] by blast
qed

section \<open>Blocks that are memory\<close>

text \<open>An access through the mapping finds memory where the file and the mapping reach (\<open>mapped_read\<close>).\<close>

definition mps_accessible :: "mmap_pool_state \<Rightarrow> nat \<Rightarrow> nat \<Rightarrow> bool" where
  "mps_accessible s a n \<longleftrightarrow>
     (case p_store (snd s) of None \<Rightarrow> False | Some st \<Rightarrow> mapped_read (fst s) st a n \<noteq> None)"

text \<open>
  \<open>Alloc\<close>, and the client's first writes to the block.  None: a part of the block is no memory.  The
  hash table writes to every byte of a block it gets at once, and faults there.  The sort table fills a larger block
  from its beginning while records are added: for it the fault comes no later than in the code.
\<close>

definition mps_touch :: "mmap_pool_state \<Rightarrow> nat \<Rightarrow> (nat \<times> mmap_pool_state) option" where
  "mps_touch s n =
     (case mps_alloc s n of
        None \<Rightarrow> None
      | Some (a, q) \<Rightarrow> if a = 0 \<or> mps_accessible q a n then Some (a, q) else None)"

definition mps_inside :: "mmap_pool_state \<Rightarrow> bool" where
  "mps_inside s \<longleftrightarrow> mps_fresh s \<and> mps_top s \<le> mps_end s"

text \<open>Freed blocks wait, and the data of the pool begins at \<open>b\<close>.\<close>

definition mps_mapped :: "nat \<Rightarrow> mmap_pool_state \<Rightarrow> bool" where
  "mps_mapped b s \<longleftrightarrow> mps_inside s \<and> 0 < p_reuse_timegap (snd s) \<and> mps_bot s = b"

text \<open>The room to the end of the mapping.\<close>

definition mps_space :: "mmap_pool_state \<Rightarrow> nat" where
  "mps_space s = min (mps_room s) (mps_end s - mps_top s)"

lemma mps_layout_accessible:
  assumes "mps_layout s st f b" "b \<le> a" "a + n \<le> mps_top s" "mps_top s \<le> mps_end s"
  shows "mps_accessible s a n"
proof -
  have "a + n \<le> b + length (file_of (fst s) f)" "a + n \<le> b + mm_size st"
    using assms mps_layout_top(2) [OF assms(1)] mps_end_layout [OF assms(1)] by (auto simp: mps_layout_def)
  then show ?thesis
    using assms(1,2) by (auto simp: mps_accessible_def mps_layout_def mapped_def mapped_read_def)
qed

lemma mps_inside_accessible:
  assumes "mps_inside s" "mps_bot s \<le> a" "a + n \<le> mps_top s"
  shows "mps_accessible s a n"
proof -
  obtain st f b where L: "mps_layout s st f b" using assms(1) by (auto simp: mps_inside_def mps_fresh_def mps_good_def)
  have "b \<le> a" using assms(2) mps_layout_top(1) [OF L] by simp
  then show ?thesis using mps_layout_accessible [OF L] assms(1,3) by (simp add: mps_inside_def)
qed

lemma mps_inside_bot: "mps_inside s \<Longrightarrow> mps_bot s \<le> mps_top s"
  using mps_layout_top(1,2) by (fastforce simp: mps_inside_def mps_fresh_def mps_good_def mps_layout_def)

lemma mps_touch_inside:
  assumes "mps_inside s" "0 < n" "n \<le> mps_space s"
  shows "\<exists>q. mps_touch s n = Some (mps_top s, q) \<and> mps_inside q \<and> mps_top q = mps_top s + n \<and> mps_space q = mps_space s - n \<and>
    p_reuse_timegap (snd q) = p_reuse_timegap (snd s) \<and> mps_bot q = mps_bot s"
proof -
  have fresh: "mps_fresh s" and n: "n \<le> mps_room s" "mps_top s + n \<le> mps_end s"
    using assms by (auto simp: mps_inside_def mps_space_def)
  obtain q where Q: "mps_alloc s n = Some (mps_top s, q)" "mps_fresh q" "mps_top q = mps_top s + n" "mps_room q = mps_room s - n"
    "p_reuse_timegap (snd q) = p_reuse_timegap (snd s)" "mps_end q = mps_end s" "mps_bot q = mps_bot s"
    using mps_fresh_alloc [OF fresh assms(2) n(1)] by blast
  have in_q: "mps_inside q" using Q n(2) by (simp add: mps_inside_def)
  have "mps_accessible q (mps_top s) n"
    using mps_inside_bot [OF assms(1)] Q(3,7) by (intro mps_inside_accessible [OF in_q]) simp_all
  then have "mps_touch s n = Some (mps_top s, q)" using Q(1) by (simp add: mps_touch_def)
  moreover have "mps_space q = mps_space s - n" using Q(3,4,6) n by (simp add: mps_space_def)
  ultimately show ?thesis using Q(3,5,7) in_q by blast
qed

interpretation touched_bump: bump_pool mps_touch mps_inside mps_top mps_space
  by unfold_locales (use mps_touch_inside in blast, simp add: mps_inside_def mps_fresh_top)

interpretation touched_table: table_pool mps_touch "mps_mapped b" mps_top mps_space mps_Free for b
proof unfold_locales
  fix s n
  assume "mps_mapped b s" "0 < n" "n \<le> mps_space s"
  then show "\<exists>q. mps_touch s n = Some (mps_top s, q) \<and> mps_mapped b q \<and> mps_top q = mps_top s + n \<and> mps_space q = mps_space s - n"
    using mps_touch_inside [of s n] by (auto simp: mps_mapped_def)
next
  show "mps_mapped b s \<Longrightarrow> 0 < mps_top s" for s using mps_fresh_top by (simp add: mps_mapped_def mps_inside_def)
next
  fix s a n
  assume s: "mps_mapped b s"
  then have "mps_patient s" by (simp add: mps_mapped_def mps_inside_def mps_patient_def)
  then obtain q where "mps_Free s a n = (True, q)" "mps_patient q" "mps_top q = mps_top s" "mps_room q = mps_room s"
    "mps_end q = mps_end s" "mps_bot q = mps_bot s"
    using mps_Free_patient by blast
  then show "\<exists>q. mps_Free s a n = (True, q) \<and> mps_mapped b q \<and> mps_top q = mps_top s \<and> mps_space q = mps_space s"
    using s by (auto simp: mps_mapped_def mps_patient_def mps_inside_def mps_space_def)
qed

section \<open>The same bytes mapped elsewhere\<close>

text \<open>Two pools over files with the same bytes, the second mapped at least as far as the first.\<close>

definition same_bytes :: "mmap_pool_state \<Rightarrow> mmap_pool_state \<Rightarrow> bool" where
  "same_bytes s r \<longleftrightarrow> (\<exists>st f b st' f' b'. mps_layout s st f b \<and> mps_layout r st' f' b' \<and>
     file_of (fst r) f' = file_of (fst s) f \<and> mm_size st \<le> mm_size st')"

lemma same_bytes_accessible:
  assumes "same_bytes s r" "mps_inside s" "mps_bot s \<le> a" "a + n \<le> mps_top s"
  shows "mps_accessible r (mps_bot r + (a - mps_bot s)) n"
proof -
  obtain st f b st' f' b' where L: "mps_layout s st f b" "mps_layout r st' f' b'"
    "file_of (fst r) f' = file_of (fst s) f" "mm_size st \<le> mm_size st'"
    using assms(1) by (auto simp: same_bytes_def)
  note T = mps_layout_top [OF L(1)] mps_layout_top [OF L(2)] mps_end_layout [OF L(1)] mps_end_layout [OF L(2)]
  have "mps_top r \<le> mps_end r" using T(2,5,7,8) L(3,4) assms(2) by (simp add: mps_inside_def)
  then show ?thesis using T(1,2,4,5) L(3) assms(3,4) by (intro mps_layout_accessible [OF L(2)]) simp_all
qed

lemma mps_data_begin: "mps_layout s st f b \<Longrightarrow> mp_GetMMapDataBegin (snd s) = mps_bot s"
  using mps_layout_top(1) [of s st f b] by (simp add: mp_GetMMapDataBegin_def mp_base_def add64_def mps_layout_def)

text \<open>A pool whose mapping is moved.\<close>

definition moved_pool :: "mmap_pool_state \<Rightarrow> nat \<Rightarrow> mmap_pool_state" where
  "moved_pool s b = (fst s, (snd s)\<lparr>p_store := map_option (\<lambda>st. st\<lparr>mm_base := Some b\<rparr>) (p_store (snd s)), mp_begin := Some b\<rparr>)"

lemma moved_same_bytes:
  assumes "mps_good s" "0 < b" "b < 2 ^ 63"
  shows "same_bytes s (moved_pool s b)"
proof -
  obtain st f c where L: "mps_layout s st f c" using assms(1) by (auto simp: mps_good_def)
  then have "mps_layout (moved_pool s b) (st\<lparr>mm_base := Some b\<rparr>) f b"
    using assms(2,3) by (simp add: mps_layout_def moved_pool_def mapped_def coherent_def)
  moreover have "file_of (fst (moved_pool s b)) f = file_of (fst s) f" "mm_size st \<le> mm_size (st\<lparr>mm_base := Some b\<rparr>)"
    by (simp_all add: moved_pool_def)
  ultimately show ?thesis unfolding same_bytes_def using L by blast
qed

text \<open>A new pool of 64 bytes, mapped with the default length of 1 GB, to try tables in.\<close>

definition demo_table_pool :: mmap_pool_state where
  "demo_table_pool =
     (plain_os\<lparr>files := [''p'' \<mapsto> le_bytes 8 64 @ replicate 56 0]\<rparr>,
      (MMapPool_new 0)\<lparr>p_store := Some \<lparr>fs_fd = Some (''p'', False), fs_size = 64, fs_name = ''p'',
          mm_base = Some 4096, mm_size = kDefaultMMapSize, mm_memory_lock = False, mm_memory_preload = False\<rparr>,
        mp_begin := Some 4096, mp_min_expand := 16\<rparr>)"

lemma demo_table_pool_facts:
  "mps_patient demo_table_pool" "mps_mapped 4160 demo_table_pool" "mps_used demo_table_pool = 64" "mps_top demo_table_pool = 4160"
  "mps_bot demo_table_pool = 4160" "mps_end demo_table_pool = 4096 + 2 ^ 30" "mp_min_expand (snd demo_table_pool) = 16"
proof -
  have le: "le_val (get_bytes 0 8 (le_bytes 8 64 @ replicate 56 0)) = 64"
    by (simp add: get_bytes_def le_val_le_bytes)
  have L: "mps_layout demo_table_pool \<lparr>fs_fd = Some (''p'', False), fs_size = 64, fs_name = ''p'',
          mm_base = Some 4096, mm_size = kDefaultMMapSize, mm_memory_lock = False, mm_memory_preload = False\<rparr> ''p'' 4096"
    using le by (simp add: mps_layout_def demo_table_pool_def MMapPool_new_def pool.defs FilePool_new_def mapped_def
        coherent_def file_of_def kDefaultMMapSize_def del: le_bytes.simps)
  show used: "mps_used demo_table_pool = 64"
    using le by (simp add: mps_used_def mp_GetUsedSize_def mp_peek_def demo_table_pool_def mapped_read_def file_of_def
        kDefaultMMapSize_def del: le_bytes.simps)
  have "mp_base (snd demo_table_pool) = 4096" by (simp add: mp_base_def demo_table_pool_def)
  then show bounds: "mps_bot demo_table_pool = 4160" "mps_top demo_table_pool = 4160" "mps_end demo_table_pool = 4096 + 2 ^ 30"
    using used by (simp_all add: mps_bot_def mps_top_def mps_end_def demo_table_pool_def kDefaultMMapSize_def)
  show "mp_min_expand (snd demo_table_pool) = 16" by (simp add: demo_table_pool_def)
  show pat: "mps_patient demo_table_pool"
    using L by (auto simp: mps_patient_def mps_fresh_def mps_good_def demo_table_pool_def MMapPool_new_def pool.defs FilePool_new_def
        kDefaultTimegap_def)
  then show "mps_mapped 4160 demo_table_pool" by (simp add: mps_mapped_def mps_inside_def mps_patient_def bounds)
qed

end
