(* ===== verification/Kv_Index.thy ===== *)
theory Kv_Index
  imports Mmap_Pool
begin

text \<open>
  What the two indexes share (kernel/index/index.h, index.cc): \<open>KvPair\<close> with its order,
  \<open>IndexHeader\<close> with its magic words, \<open>CheckMagic\<close> and \<open>MakeHeader\<close> on a mapped pool, and the
  default batch operations.  A key is the list of the \<open>len\<close> bytes at its pointer, None is
  \<open>nullptr\<close>; lengths are not negative.
\<close>

section \<open>Key-value pairs\<close>

record kv_pair =
  kv_key :: "bytes option"
  kv_value :: int
  kv_payload :: bytes

definition key_bytes :: "kv_pair \<Rightarrow> bytes" where
  "key_bytes kv = (case kv_key kv of None \<Rightarrow> [] | Some k \<Rightarrow> k)"

text \<open>The bytes are compared as \<open>char\<close>, which is signed.\<close>

fun chars_less :: "bytes \<Rightarrow> bytes \<Rightarrow> bool" where
  "chars_less (l # ls) (r # rs) = (if l = r then chars_less ls rs else sint l < sint r)"
| "chars_less _ _ = False"

definition key_less :: "bytes \<Rightarrow> bytes \<Rightarrow> bool" where
  "key_less a b = (if length a = length b then chars_less a b else length a < length b)"

definition kv_less :: "kv_pair \<Rightarrow> kv_pair \<Rightarrow> bool" where
  "kv_less a b = key_less (key_bytes a) (key_bytes b)"

text \<open>The copy constructor does not copy the payload; the assignment operator does.\<close>

definition kv_copy :: "kv_pair \<Rightarrow> kv_pair" where
  "kv_copy kv = \<lparr>kv_key = kv_key kv, kv_value = kv_value kv, kv_payload = []\<rparr>"

definition kv_assign :: "kv_pair \<Rightarrow> kv_pair" where
  "kv_assign kv = \<lparr>kv_key = kv_key kv, kv_value = kv_value kv, kv_payload = kv_payload kv\<rparr>"

section \<open>The order is linear\<close>

lemma chars_less_irrefl: "\<not> chars_less a a"
  by (induction a) auto

lemma chars_less_trans:
  "chars_less a b \<Longrightarrow> chars_less b c \<Longrightarrow> length a = length b \<Longrightarrow> length b = length c \<Longrightarrow> chars_less a c"
proof (induction a arbitrary: b c)
  case Nil
  then show ?case by simp
next
  case (Cons x a)
  then obtain y b' z c' where "b = y # b'" "c = z # c'" by (metis length_Suc_conv)
  with Cons show ?case by (auto split: if_splits)
qed

lemma chars_less_linear: "length a = length b \<Longrightarrow> chars_less a b \<or> a = b \<or> chars_less b a"
proof (induction a arbitrary: b)
  case Nil
  then show ?case by simp
next
  case (Cons x a)
  then obtain y b' where "b = y # b'" by (metis length_Suc_conv)
  with Cons show ?case by (auto split: if_splits) (metis linorder_less_linear signed_word_eqI)+
qed

datatype sort_key = Sort_Key (sort_key_bytes: bytes)

instantiation sort_key :: linorder
begin

definition less_sort_key :: "sort_key \<Rightarrow> sort_key \<Rightarrow> bool" where
  "less_sort_key a b \<longleftrightarrow> key_less (sort_key_bytes a) (sort_key_bytes b)"

definition less_eq_sort_key :: "sort_key \<Rightarrow> sort_key \<Rightarrow> bool" where
  "less_eq_sort_key a b \<longleftrightarrow> a = b \<or> key_less (sort_key_bytes a) (sort_key_bytes b)"

instance
proof
  fix a b c :: sort_key
  have irr: "\<not> key_less x x" for x by (simp add: key_less_def chars_less_irrefl)
  have tr: "key_less x y \<Longrightarrow> key_less y z \<Longrightarrow> key_less x z" for x y z
    by (auto simp: key_less_def intro: chars_less_trans split: if_splits)
  have lin: "key_less x y \<or> x = y \<or> key_less y x" for x y
    using chars_less_linear [of x y] by (auto simp: key_less_def)
  show "a < b \<longleftrightarrow> a \<le> b \<and> \<not> b \<le> a"
    unfolding less_sort_key_def less_eq_sort_key_def using irr tr by (metis sort_key.expand)
  show "a \<le> a" by (simp add: less_eq_sort_key_def)
  show "a \<le> b \<Longrightarrow> b \<le> c \<Longrightarrow> a \<le> c"
    unfolding less_eq_sort_key_def using tr by metis
  show "a \<le> b \<Longrightarrow> b \<le> a \<Longrightarrow> a = b"
    unfolding less_eq_sort_key_def using irr tr by metis
  show "a \<le> b \<or> b \<le> a"
    unfolding less_eq_sort_key_def using lin by (metis sort_key.expand)
qed

end

section \<open>The index header\<close>

definition kMagicVec :: "u32 list" where
  "kMagicVec = [0xD5C5473F, 0x236434A6, 0xD898C43C, 0x7B34A9B4, 0x90E7F69D,
     0x0FEE88E1, 0x89741124, 0xF57AC10B, 0xD25E5371, 0x87C37615,
     0x15EF7111, 0x8974ABCD, 0xB59ACD6B, 0x423E9371, 0xD898C43C, 0xB59ACD6B]"

definition words_bytes :: "u32 list \<Rightarrow> bytes" where
  "words_bytes ws = concat (map (\<lambda>w. le_bytes 4 (unat w)) ws)"

fun bytes_words :: "nat \<Rightarrow> bytes \<Rightarrow> u32 list" where
  "bytes_words 0 bs = []"
| "bytes_words (Suc n) bs = of_nat (le_val (take 4 bs)) # bytes_words n (drop 4 bs)"

definition header_CheckMagic :: "u32 list \<Rightarrow> bool" where
  "header_CheckMagic magic = (\<forall>i < length kMagicVec. kMagicVec ! i = magic ! i)"

definition IndexHeader_size :: nat where
  "IndexHeader_size = 64"

text \<open>None: the pool's memory is not mapped there.\<close>

definition idx_CheckMagic :: "os \<Rightarrow> mmap_pool option \<Rightarrow> bool option" where
  "idx_CheckMagic os mmap_pool =
     (case mmap_pool of
        None \<Rightarrow> Some False
      | Some p \<Rightarrow>
          (case mp_GetDataSize os p of
             None \<Rightarrow> None
           | Some n \<Rightarrow>
               if n < IndexHeader_size then Some False
               else (case p_store p of
                       None \<Rightarrow> None
                     | Some st \<Rightarrow>
                         map_option (\<lambda>bs. header_CheckMagic (bytes_words 16 bs))
                           (mapped_read os st (mp_GetMMapDataBegin p) IndexHeader_size))))"

definition idx_MakeHeader :: "os \<Rightarrow> mmap_pool option \<Rightarrow> (bool \<times> os \<times> mmap_pool option) option" where
  "idx_MakeHeader os mmap_pool =
     (case mmap_pool of
        None \<Rightarrow> Some (False, os, None)
      | Some p \<Rightarrow>
          (case mp_GetDataSize os p of
             None \<Rightarrow> None
           | Some n \<Rightarrow>
               (case (if n < IndexHeader_size then fp_DoAlloc mp_AllocFromStore os p IndexHeader_size
                      else Some (1, os, p)) of
                  None \<Rightarrow> None
                | Some (a, os1, p1) \<Rightarrow>
                    if a = 0 then Some (False, os1, Some p1)
                    else (case p_store p1 of
                            None \<Rightarrow> None
                          | Some st \<Rightarrow>
                              map_option (\<lambda>os2. (True, os2, Some p1))
                                (mapped_write os1 st (mp_GetMMapDataBegin p1) (words_bytes kMagicVec))))))"

section \<open>Batches\<close>

fun idx_BatchInsert ::
  "('t \<Rightarrow> kv_pair \<Rightarrow> (bool \<times> 't) option) \<Rightarrow> 't \<Rightarrow> kv_pair list \<Rightarrow> bool \<Rightarrow> (bool \<times> 't) option" where
  "idx_BatchInsert ins t [] success = Some (success, t)"
| "idx_BatchInsert ins t (kv # kvs) success =
     (case ins t kv of
        None \<Rightarrow> None
      | Some (ok, t') \<Rightarrow> idx_BatchInsert ins t' kvs (if ok then success else False))"

fun idx_BatchSearch ::
  "('t \<Rightarrow> kv_pair \<Rightarrow> (bool \<times> kv_pair) option) \<Rightarrow> 't \<Rightarrow> kv_pair list \<Rightarrow> bool \<Rightarrow> (bool \<times> kv_pair list) option" where
  "idx_BatchSearch search t [] success = Some (success, [])"
| "idx_BatchSearch search t (kv # kvs) success =
     (case search t kv of
        None \<Rightarrow> None
      | Some (ok, kv') \<Rightarrow>
          map_option (\<lambda>(s, kvs'). (s, kv' # kvs'))
            (idx_BatchSearch search t kvs (if ok then success else False)))"

fun idx_BatchDelete ::
  "('t \<Rightarrow> kv_pair \<Rightarrow> (bool \<times> 't) option) \<Rightarrow> 't \<Rightarrow> kv_pair list \<Rightarrow> bool \<Rightarrow> (bool \<times> 't) option" where
  "idx_BatchDelete delete t [] success = Some (success, t)"
| "idx_BatchDelete delete t (kv # kvs) success =
     (case delete t kv of
        None \<Rightarrow> None
      | Some (ok, t') \<Rightarrow> idx_BatchDelete delete t' kvs (if ok then success else False))"

section \<open>A header that was made is found\<close>

lemma length_words_bytes [simp]: "length (words_bytes ws) = 4 * length ws"
  by (induction ws) (auto simp: words_bytes_def)

lemma bytes_words_words_bytes: "bytes_words (length ws) (words_bytes ws) = ws"
proof (induction ws)
  case Nil
  then show ?case by simp
next
  case (Cons w ws)
  have "le_val (le_bytes 4 (unat w)) = unat w"
  proof -
    have "unat w < 2 ^ 32" using unsigned_less [of w, where 'a = nat] by simp
    then show ?thesis by (simp add: le_val_le_bytes del: le_bytes.simps)
  qed
  with Cons show ?case by (simp add: words_bytes_def del: le_bytes.simps)
qed

lemma length_kMagicVec [simp]: "length kMagicVec = 16"
  by (simp add: kMagicVec_def)

lemma mp_GetDataSize_layout:
  assumes "mps_layout (os, p) st f b"
  shows "mp_GetDataSize os p = Some (le_val (get_bytes 0 8 (file_of os f)) - 64)"
    "64 \<le> le_val (get_bytes 0 8 (file_of os f))" "mp_GetMMapDataBegin p = b + 64"
proof -
  let ?u = "le_val (get_bytes 0 8 (file_of os f))"
  have L: "64 \<le> ?u" "?u < 2 ^ 64" "mp_begin p = Some b" "b < 2 ^ 63"
    using assms by (simp_all add: mps_layout_def)
  show "64 \<le> ?u" by (rule L(1))
  show "mp_GetDataSize os p = Some (?u - 64)"
    using L mps_layout_used(1) [OF assms] sub64_le [of 64 ?u]
    by (auto simp: mp_GetDataSize_def mp_GetUsedSize_def)
  show "mp_GetMMapDataBegin p = b + 64" using L by (simp add: mp_GetMMapDataBegin_def mp_base_def add64_def)
qed

text \<open>The magic words written at the start of the data.\<close>

lemma write_magic:
  assumes L: "mps_layout (os, p) st f b" and u: "le_val (get_bytes 0 8 (file_of os f)) = 128" and m: "128 \<le> mm_size st"
  obtains os' where "mapped_write os st (b + 64) (words_bytes kMagicVec) = Some os'" "mps_layout (os', p) st f b"
    "mp_GetDataSize os' p = Some 64" "idx_CheckMagic os' (Some p) = Some True"
proof -
  have st: "mapped os st f b" "p_store p = Some st" and len: "128 \<le> length (file_of os f)"
    using L u by (simp_all add: mps_layout_def)
  obtain os' where W: "mapped_write os st (b + 64) (words_bytes kMagicVec) = Some os'" "mapped os' st f b"
    "file_of os' f = put_bytes 64 (words_bytes kMagicVec) (file_of os f)"
    using mapped_write_mapped [OF st(1), of "b + 64" "words_bytes kMagicVec"] len m by auto
  have u': "le_val (get_bytes 0 8 (file_of os' f)) = 128"
    using len u by (simp add: W(3) get_put_disjoint)
  have L': "mps_layout (os', p) st f b"
    using L W(2,3) u' u len by (simp add: mps_layout_def max_def)
  note size = mp_GetDataSize_layout [OF L']
  have "mapped_read os' st (b + 64) 64 = Some (words_bytes kMagicVec)"
    using mapped_read_mapped [OF W(2), of "b + 64" 64] len m
      get_put_same [of 64 "words_bytes kMagicVec" "file_of os f"]
    by (simp add: W(3) max_def)
  then have "idx_CheckMagic os' (Some p) = Some True"
    using size(1,3) u' st(2) bytes_words_words_bytes [of kMagicVec]
    by (simp add: idx_CheckMagic_def IndexHeader_size_def header_CheckMagic_def)
  then show ?thesis using that W(1) L' size(1) u' by simp
qed

text \<open>
  On a pool in good state with nothing allocated or free yet, \<open>MakeHeader\<close> returns; when it
  succeeds and the mapping has room, \<open>CheckMagic\<close> then accepts the pool.
\<close>

theorem idx_MakeHeader_CheckMagic:
  assumes "mps_good (os, p)" "p_free_list p = []" "mp_GetDataSize os p = Some 0"
    and "p_store p = Some st" "128 \<le> mm_size st"
  shows "\<exists>ok os' p'. idx_MakeHeader os (Some p) = Some (ok, os', Some p') \<and> mps_good (os', p') \<and>
    (ok \<longrightarrow> mp_GetDataSize os' p' = Some 64 \<and> idx_CheckMagic os' (Some p') = Some True)"
proof -
  obtain f b where L: "mps_layout (os, p) st f b"
    using assms(1,4) by (auto simp: mps_good_def mps_layout_def)
  let ?u = "\<lambda>os. le_val (get_bytes 0 8 (file_of os f))"
  have u: "?u os = 64" using mp_GetDataSize_layout(1,2) [OF L] assms(3) by simp
  obtain a os1 p1 st1 where A: "mp_AllocFromStore os p 64 = Some (a, os1, p1)" "mps_layout (os1, p1) st1 f b"
    "p1 = p\<lparr>p_store := Some st1\<rparr>" "mm_size st1 = mm_size st"
    "a = 0 \<and> mps_top (os1, p1) = mps_top (os, p) \<or> a = mps_top (os, p) \<and> mps_top (os1, p1) = a + 64"
    using mps_AllocFromStore [OF L, of 64] by auto
  have D: "fp_DoAlloc mp_AllocFromStore os p 64 = Some (a, os1, p1)"
    using assms(2) A(1) by (simp add: fp_DoAlloc_def fp_AllocFromFreeList_def)
  show ?thesis
  proof (cases "a = 0")
    case True
    then have "idx_MakeHeader os (Some p) = Some (False, os1, Some p1)"
      using D assms(3) by (simp add: idx_MakeHeader_def IndexHeader_size_def)
    moreover have "mps_good (os1, p1)" using A(2,3) assms(2) by (auto simp: mps_good_def)
    ultimately show ?thesis by blast
  next
    case False
    then have u1: "?u os1 = 128"
      using A(5) u mps_layout_top(2) [OF L] mps_layout_top(2) [OF A(2)] by simp
    have m1: "128 \<le> mm_size st1" "p_store p1 = Some st1" using A(2,4) assms(5) by (simp_all add: mps_layout_def)
    obtain os2 where W: "mapped_write os1 st1 (b + 64) (words_bytes kMagicVec) = Some os2" "mps_layout (os2, p1) st1 f b"
      "mp_GetDataSize os2 p1 = Some 64" "idx_CheckMagic os2 (Some p1) = Some True"
      by (rule write_magic [OF A(2) u1 m1(1)])
    have "idx_MakeHeader os (Some p) = Some (True, os2, Some p1)"
      using D assms(3) False m1(2) mp_GetDataSize_layout(3) [OF A(2)] W(1) by (simp add: idx_MakeHeader_def IndexHeader_size_def)
    moreover have "mps_good (os2, p1)" using W(2) A(3) assms(2) by (auto simp: mps_good_def)
    ultimately show ?thesis using W(3,4) by (intro exI [of _ True] exI [of _ os2] exI [of _ p1]) simp
  qed
qed

theorem idx_MakeHeader_CheckMagic_witness:
  "\<exists>ok os' p'. idx_MakeHeader (fst demo_mmap_pool) (Some (snd demo_mmap_pool)) = Some (ok, os', Some p') \<and>
    (ok \<longrightarrow> idx_CheckMagic os' (Some p') = Some True)"
proof -
  have "mp_GetDataSize (fst demo_mmap_pool) (snd demo_mmap_pool) = Some 0"
    by (simp add: mp_GetDataSize_def mp_peek_def demo_mmap_pool_def MMapPool_new_def pool.defs FilePool_new_def
        mapped_read_def file_of_def get_bytes_def le_val_le_bytes sub64_def del: le_bytes.simps)
  then show ?thesis
    using idx_MakeHeader_CheckMagic [of "fst demo_mmap_pool" "snd demo_mmap_pool"
        "\<lparr>fs_fd = Some (''p'', False), fs_size = 64, fs_name = ''p'',
          mm_base = Some 4096, mm_size = 4096, mm_memory_lock = False, mm_memory_preload = False\<rparr>"]
      demo_mmap_pool_ok
    by (auto simp: demo_mmap_pool_def MMapPool_new_def pool.defs FilePool_new_def)
qed

end
