(* ===== verification/Table_Session.thy ===== *)
theory Table_Session
  imports Kv_Index
begin

text \<open>
  Sessions: sequences of operations on an index, their answers, and the reference they are compared
  with, a map from keys to values.  \<open>map_table\<close> is the contract between a table and its
  client: a relation with the map that every operation keeps while its budget of operations lasts.
\<close>

section \<open>Records\<close>

text \<open>A record that \<open>Insert\<close> accepts and \<open>Search\<close> can find again.\<close>

definition plain_kv :: "kv_pair \<Rightarrow> bool" where
  "plain_kv kv \<longleftrightarrow> (\<exists>k. kv_key kv = Some k \<and> k \<noteq> [] \<and> length k < 256) \<and> kv_payload kv = []"

lemma plain_kvD: "plain_kv kv \<Longrightarrow> kv_key kv = Some (key_bytes kv) \<and> key_bytes kv \<noteq> [] \<and> length (key_bytes kv) < 256 \<and> kv_payload kv = []"
  by (auto simp: plain_kv_def key_bytes_def)

section \<open>Operations and answers\<close>

datatype table_op = OpInsert kv_pair | OpDelete kv_pair | OpSearch kv_pair | OpSize

datatype table_ans = Answer bool | Found bool kv_pair | Entries nat

fun table_session :: "(table_op \<Rightarrow> 't \<Rightarrow> (table_ans \<times> 't) option) \<Rightarrow> table_op list \<Rightarrow> 't \<Rightarrow> (table_ans list \<times> 't) option" where
  "table_session step [] t = Some ([], t)"
| "table_session step (op # ops) t =
     Option.bind (step op t) (\<lambda>(a, t').
       map_option (map_prod (Cons a) id) (table_session step ops t'))"

text \<open>
  The reference: \<open>key\<close> is what the table takes two keys for the same by, \<open>val\<close> what it keeps of a value.
\<close>

fun map_step ::
  "(kv_pair \<Rightarrow> 'k) \<Rightarrow> (int \<Rightarrow> int) \<Rightarrow> table_op \<Rightarrow> ('k \<Rightarrow> int option) \<Rightarrow> table_ans \<times> ('k \<Rightarrow> int option)" where
  "map_step key val (OpInsert kv) f = (Answer True, f(key kv \<mapsto> val (kv_value kv)))"
| "map_step key val (OpDelete kv) f = (Answer True, f(key kv := None))"
| "map_step key val (OpSearch kv) f =
     ((case f (key kv) of None \<Rightarrow> Found False (kv\<lparr>kv_value := -1\<rparr>) | Some v \<Rightarrow> Found True (kv\<lparr>kv_value := v\<rparr>)), f)"
| "map_step key val OpSize f = (Entries (card (dom f)), f)"

fun map_session ::
  "(kv_pair \<Rightarrow> 'k) \<Rightarrow> (int \<Rightarrow> int) \<Rightarrow> table_op list \<Rightarrow> ('k \<Rightarrow> int option) \<Rightarrow> table_ans list \<times> ('k \<Rightarrow> int option)" where
  "map_session key val [] f = ([], f)"
| "map_session key val (op # ops) f =
     (case map_step key val op f of (a, g) \<Rightarrow> map_prod (Cons a) id (map_session key val ops g))"

section \<open>The contract\<close>

locale map_table =
  fixes step :: "table_op \<Rightarrow> 't \<Rightarrow> (table_ans \<times> 't) option"
    and key :: "kv_pair \<Rightarrow> 'k"
    and val :: "int \<Rightarrow> int"
    and plain :: "table_op \<Rightarrow> bool"
    and rel :: "nat \<Rightarrow> 't \<Rightarrow> ('k \<Rightarrow> int option) \<Rightarrow> bool"
  assumes step_rel: "rel (Suc n) t f \<Longrightarrow> plain op \<Longrightarrow> map_step key val op f = (a, g) \<Longrightarrow>
      \<exists>t'. step op t = Some (a, t') \<and> rel n t' g"

context map_table begin

lemma session_rel:
  assumes "rel (length ops + n) t f" "\<forall>op \<in> set ops. plain op"
  shows "\<exists>t'. table_session step ops t = Some (fst (map_session key val ops f), t') \<and>
    rel n t' (snd (map_session key val ops f))"
  using assms
proof (induction ops arbitrary: t f)
  case Nil
  then show ?case by simp
next
  case (Cons op ops)
  obtain a g where m: "map_step key val op f = (a, g)" by fastforce
  obtain t1 where T: "step op t = Some (a, t1)" "rel (length ops + n) t1 g"
    using step_rel [OF _ _ m, of "length ops + n" t] Cons.prems by auto
  from Cons.IH [OF T(2)] Cons.prems(2) show ?case using T(1) m by (auto split: prod.splits)
qed

end

text \<open>A session to try the tables with.\<close>

definition demo_kv :: "bytes \<Rightarrow> int \<Rightarrow> kv_pair" where
  "demo_kv k v = \<lparr>kv_key = Some k, kv_value = v, kv_payload = []\<rparr>"

definition demo_ops :: "table_op list" where
  "demo_ops = [OpInsert (demo_kv [1] 5), OpInsert (demo_kv [2, 3, 4] 6), OpInsert (demo_kv [1] 7), OpSize,
     OpDelete (demo_kv [2, 3, 4] 0), OpSearch (demo_kv [2, 3, 4] 0), OpSearch (demo_kv [1] 0),
     OpInsert (demo_kv [9] 8), OpSize, OpDelete (demo_kv [8] 0)]"

end
