(* ===== verification/Hash_Bucket.thy ===== *)
theory Hash_Bucket
  imports Prelude
begin

text \<open>
  \<open>HashBucket\<close> (kernel/index/hash_table/hash_bucket.h, hash_bucket.cc): a packed bucket of 17
  bytes with a 48-bit value, a 29-bit link, three flags, a hash code, an 8-bit key size and a
  payload of \<open>HASH_BUCKET_PAYLOAD_SIZE\<close> = 2 bytes.  Every setter truncates to its field.
\<close>

record hash_bucket =
  hb_value :: int
  hb_next :: nat
  hb_flags :: "3 word"
  hb_hash_code :: u32
  hb_key_size :: byte
  hb_payload :: bytes

definition HASH_BUCKET_PAYLOAD_SIZE :: nat where
  "HASH_BUCKET_PAYLOAD_SIZE = 2"

definition kCheckPayloadSize :: nat where
  "kCheckPayloadSize = (if 4 > HASH_BUCKET_PAYLOAD_SIZE then HASH_BUCKET_PAYLOAD_SIZE else 4)"

definition HashBucket_size :: nat where
  "HashBucket_size = 17"

definition HashBucket_new :: hash_bucket where
  "HashBucket_new =
     \<lparr>hb_value = 0, hb_next = 0, hb_flags = 0, hb_hash_code = 0, hb_key_size = 0,
      hb_payload = replicate HASH_BUCKET_PAYLOAD_SIZE 0\<rparr>"

definition BucketOccupied :: "hash_bucket \<Rightarrow> bool" where
  "BucketOccupied b = (hb_flags b AND 0x1 \<noteq> 0)"

definition MarkBucketOccupied :: "hash_bucket \<Rightarrow> hash_bucket" where
  "MarkBucketOccupied b = b\<lparr>hb_flags := hb_flags b OR 0x1\<rparr>"

definition ClearBucketOccupied :: "hash_bucket \<Rightarrow> hash_bucket" where
  "ClearBucketOccupied b = b\<lparr>hb_flags := hb_flags b AND NOT 0x1\<rparr>"

definition HashCodeInPayload :: "hash_bucket \<Rightarrow> bool" where
  "HashCodeInPayload b = (hb_flags b AND 0x2 \<noteq> 0)"

definition MarkHashCodeInPayload :: "hash_bucket \<Rightarrow> hash_bucket" where
  "MarkHashCodeInPayload b = b\<lparr>hb_flags := hb_flags b OR 0x2\<rparr>"

definition KeyInPayload :: "hash_bucket \<Rightarrow> bool" where
  "KeyInPayload b = (hb_flags b AND 0x4 \<noteq> 0)"

definition MarkKeyInPayload :: "hash_bucket \<Rightarrow> hash_bucket" where
  "MarkKeyInPayload b = b\<lparr>hb_flags := hb_flags b OR 0x4\<rparr>"

definition hb_Clear :: "hash_bucket \<Rightarrow> hash_bucket" where
  "hb_Clear b = HashBucket_new"

definition SetHashCodeInPayload :: "hash_bucket \<Rightarrow> u32 \<Rightarrow> hash_bucket" where
  "SetHashCodeInPayload b hash_code =
     MarkHashCodeInPayload
       (b\<lparr>hb_payload := le_bytes kCheckPayloadSize (unat hash_code) @ drop kCheckPayloadSize (hb_payload b)\<rparr>)"

definition CheckHashCodeInPayload :: "hash_bucket \<Rightarrow> u32 \<Rightarrow> bool" where
  "CheckHashCodeInPayload b hash_code =
     (if \<not> HashCodeInPayload b then False
      else take kCheckPayloadSize (hb_payload b) = le_bytes kCheckPayloadSize (unat hash_code))"

definition SetKeyInPayload :: "hash_bucket \<Rightarrow> bytes option \<Rightarrow> hash_bucket" where
  "SetKeyInPayload b key =
     (case key of
        None \<Rightarrow> b
      | Some k \<Rightarrow>
          let len = (if length k > HASH_BUCKET_PAYLOAD_SIZE then HASH_BUCKET_PAYLOAD_SIZE else length k)
          in MarkKeyInPayload
               (b\<lparr>hb_key_size := of_nat (length k), hb_payload := take len k @ drop len (hb_payload b)\<rparr>))"

text \<open>
  The length compared is at most 2, so the loop over blocks of 32 bytes does not run and the
  comparison is the final \<open>memcmp\<close>.
\<close>

definition CheckKeyInPayload :: "hash_bucket \<Rightarrow> bytes option \<Rightarrow> bool" where
  "CheckKeyInPayload b key =
     (case key of
        None \<Rightarrow> False
      | Some k \<Rightarrow>
          if \<not> KeyInPayload b \<or> length k \<noteq> unat (hb_key_size b) then False
          else
            let len = (if length k > HASH_BUCKET_PAYLOAD_SIZE then HASH_BUCKET_PAYLOAD_SIZE else length k)
            in take len k = take len (hb_payload b))"

definition SetNextBucket :: "hash_bucket \<Rightarrow> nat \<Rightarrow> hash_bucket" where
  "SetNextBucket b next = b\<lparr>hb_next := next mod 2 ^ 29\<rparr>"

definition SetHashCode :: "hash_bucket \<Rightarrow> u32 \<Rightarrow> hash_bucket" where
  "SetHashCode b code = b\<lparr>hb_hash_code := code\<rparr>"

definition SetValue :: "hash_bucket \<Rightarrow> int \<Rightarrow> hash_bucket" where
  "SetValue b v = b\<lparr>hb_value := signed_take_bit 47 v\<rparr>"

definition SetKeySize :: "hash_bucket \<Rightarrow> nat \<Rightarrow> hash_bucket" where
  "SetKeySize b len = b\<lparr>hb_key_size := of_nat len\<rparr>"

section \<open>Flags and fields do not interfere\<close>

lemma occupied_bit: "BucketOccupied b \<longleftrightarrow> bit (hb_flags b) 0"
  by (simp add: BucketOccupied_def and_exp_eq_0_iff_not_bit [of _ 0, simplified])

lemma hash_code_bit: "HashCodeInPayload b \<longleftrightarrow> bit (hb_flags b) 1"
  using and_exp_eq_0_iff_not_bit [of "hb_flags b" 1] by (simp add: HashCodeInPayload_def)

lemma key_bit: "KeyInPayload b \<longleftrightarrow> bit (hb_flags b) 2"
  using and_exp_eq_0_iff_not_bit [of "hb_flags b" 2] by (simp add: KeyInPayload_def)

lemma bits_of_flags:
  "bit (2 :: 3 word) n \<longleftrightarrow> n = 1" "bit (4 :: 3 word) n \<longleftrightarrow> n = 2"
  using bit_exp_iff [of 1 n, where 'a = "3 word"] bit_exp_iff [of 2 n, where 'a = "3 word"] by auto

named_theorems bucket_simps "what each setter of a bucket changes"

lemma flag_simps [bucket_simps, simp]:
  "BucketOccupied (MarkBucketOccupied b)"
  "\<not> BucketOccupied (ClearBucketOccupied b)"
  "BucketOccupied (MarkHashCodeInPayload b) = BucketOccupied b"
  "BucketOccupied (MarkKeyInPayload b) = BucketOccupied b"
  "HashCodeInPayload (MarkBucketOccupied b) = HashCodeInPayload b"
  "HashCodeInPayload (ClearBucketOccupied b) = HashCodeInPayload b"
  "HashCodeInPayload (MarkHashCodeInPayload b)"
  "HashCodeInPayload (MarkKeyInPayload b) = HashCodeInPayload b"
  "KeyInPayload (MarkBucketOccupied b) = KeyInPayload b"
  "KeyInPayload (ClearBucketOccupied b) = KeyInPayload b"
  "KeyInPayload (MarkHashCodeInPayload b) = KeyInPayload b"
  "KeyInPayload (MarkKeyInPayload b)"
  by (simp_all add: occupied_bit hash_code_bit key_bit bit_or_iff bit_and_iff bit_not_iff bits_of_flags
      MarkBucketOccupied_def ClearBucketOccupied_def MarkHashCodeInPayload_def MarkKeyInPayload_def)

lemma flag_field_simps [bucket_simps, simp]:
  "BucketOccupied (b\<lparr>hb_value := v\<rparr>) = BucketOccupied b"
  "BucketOccupied (b\<lparr>hb_next := n\<rparr>) = BucketOccupied b"
  "BucketOccupied (b\<lparr>hb_hash_code := c\<rparr>) = BucketOccupied b"
  "BucketOccupied (b\<lparr>hb_key_size := s\<rparr>) = BucketOccupied b"
  "BucketOccupied (b\<lparr>hb_payload := p\<rparr>) = BucketOccupied b"
  "HashCodeInPayload (b\<lparr>hb_value := v\<rparr>) = HashCodeInPayload b"
  "HashCodeInPayload (b\<lparr>hb_next := n\<rparr>) = HashCodeInPayload b"
  "HashCodeInPayload (b\<lparr>hb_hash_code := c\<rparr>) = HashCodeInPayload b"
  "HashCodeInPayload (b\<lparr>hb_key_size := s\<rparr>) = HashCodeInPayload b"
  "HashCodeInPayload (b\<lparr>hb_payload := p\<rparr>) = HashCodeInPayload b"
  "KeyInPayload (b\<lparr>hb_value := v\<rparr>) = KeyInPayload b"
  "KeyInPayload (b\<lparr>hb_next := n\<rparr>) = KeyInPayload b"
  "KeyInPayload (b\<lparr>hb_hash_code := c\<rparr>) = KeyInPayload b"
  "KeyInPayload (b\<lparr>hb_key_size := s\<rparr>) = KeyInPayload b"
  "KeyInPayload (b\<lparr>hb_payload := p\<rparr>) = KeyInPayload b"
  by (simp_all add: BucketOccupied_def HashCodeInPayload_def KeyInPayload_def)

lemma mark_field_simps [bucket_simps, simp]:
  "hb_value (MarkBucketOccupied b) = hb_value b" "hb_next (MarkBucketOccupied b) = hb_next b"
  "hb_hash_code (MarkBucketOccupied b) = hb_hash_code b" "hb_key_size (MarkBucketOccupied b) = hb_key_size b"
  "hb_payload (MarkBucketOccupied b) = hb_payload b"
  "hb_value (ClearBucketOccupied b) = hb_value b" "hb_next (ClearBucketOccupied b) = hb_next b"
  "hb_hash_code (ClearBucketOccupied b) = hb_hash_code b" "hb_key_size (ClearBucketOccupied b) = hb_key_size b"
  "hb_payload (ClearBucketOccupied b) = hb_payload b"
  "hb_value (MarkHashCodeInPayload b) = hb_value b" "hb_next (MarkHashCodeInPayload b) = hb_next b"
  "hb_hash_code (MarkHashCodeInPayload b) = hb_hash_code b" "hb_key_size (MarkHashCodeInPayload b) = hb_key_size b"
  "hb_payload (MarkHashCodeInPayload b) = hb_payload b"
  "hb_value (MarkKeyInPayload b) = hb_value b" "hb_next (MarkKeyInPayload b) = hb_next b"
  "hb_hash_code (MarkKeyInPayload b) = hb_hash_code b" "hb_key_size (MarkKeyInPayload b) = hb_key_size b"
  "hb_payload (MarkKeyInPayload b) = hb_payload b"
  by (simp_all add: MarkBucketOccupied_def ClearBucketOccupied_def MarkHashCodeInPayload_def MarkKeyInPayload_def)

section \<open>What a bucket says of its key\<close>

text \<open>
  A key of up to two bytes is in the payload whole; of a longer one the bucket holds the length,
  one hash and the low half of another.
\<close>

datatype key_sig = Short bytes | Long nat u32 bytes

definition bucket_sig :: "hash_bucket \<Rightarrow> key_sig option" where
  "bucket_sig b =
     (let n = unat (hb_key_size b) in
      if n \<le> 2 then (if KeyInPayload b then Some (Short (take n (hb_payload b))) else None)
      else if HashCodeInPayload b then Some (Long n (hb_hash_code b) (take 2 (hb_payload b))) else None)"

lemma bucket_sig_simps [bucket_simps, simp]:
  "bucket_sig (MarkBucketOccupied b) = bucket_sig b"
  "bucket_sig (ClearBucketOccupied b) = bucket_sig b"
  "bucket_sig (b\<lparr>hb_value := v\<rparr>) = bucket_sig b"
  "bucket_sig (b\<lparr>hb_next := n\<rparr>) = bucket_sig b"
  by (simp_all add: bucket_sig_def Let_def)

lemma CheckKeyInPayload_sig:
  assumes "length (hb_payload b) = 2" "length k \<le> 2"
  shows "CheckKeyInPayload b (Some k) \<longleftrightarrow> bucket_sig b = Some (Short k)"
  using assms by (auto simp: CheckKeyInPayload_def bucket_sig_def HASH_BUCKET_PAYLOAD_SIZE_def Let_def min_def
      split: if_splits)

lemma CheckHashCodeInPayload_sig:
  assumes "length (hb_payload b) = 2" "2 < n"
  shows "(unat (hb_key_size b) = n \<and> hb_hash_code b = c \<and> CheckHashCodeInPayload b h) \<longleftrightarrow>
    bucket_sig b = Some (Long n c (le_bytes 2 (unat h)))"
  using assms by (auto simp: CheckHashCodeInPayload_def bucket_sig_def kCheckPayloadSize_def
      HASH_BUCKET_PAYLOAD_SIZE_def Let_def)

lemma SetKeyInPayload_sig:
  assumes "length (hb_payload b) = 2" "length k \<le> 2"
  shows "bucket_sig (SetKeyInPayload b (Some k)) = Some (Short k)"
    "length (hb_payload (SetKeyInPayload b (Some k))) = 2"
    "BucketOccupied (SetKeyInPayload b (Some k)) = BucketOccupied b"
    "hb_next (SetKeyInPayload b (Some k)) = hb_next b"
proof -
  have "unat (of_nat (length k) :: byte) = length k"
    using assms(2) by (simp add: unat_of_nat)
  then show "bucket_sig (SetKeyInPayload b (Some k)) = Some (Short k)"
    using assms(2) by (simp add: SetKeyInPayload_def bucket_sig_def HASH_BUCKET_PAYLOAD_SIZE_def Let_def)
qed (use assms in \<open>simp_all add: SetKeyInPayload_def HASH_BUCKET_PAYLOAD_SIZE_def Let_def\<close>)

lemma SetLong_sig:
  fixes c h :: u32
  assumes "length (hb_payload b) = 2" "2 < n" "n < 256"
  defines "b' \<equiv> SetHashCodeInPayload (SetHashCode (SetKeySize b n) c) h"
  shows "bucket_sig b' = Some (Long n c (le_bytes 2 (unat h)))" "length (hb_payload b') = 2"
    "BucketOccupied b' = BucketOccupied b" "hb_next b' = hb_next b"
proof -
  have "unat (of_nat n :: byte) = n" using assms(3) by (simp add: unat_of_nat)
  then show "bucket_sig b' = Some (Long n c (le_bytes 2 (unat h)))"
    using assms(1,2)
    by (simp add: b'_def SetHashCodeInPayload_def SetHashCode_def SetKeySize_def bucket_sig_def
        kCheckPayloadSize_def HASH_BUCKET_PAYLOAD_SIZE_def Let_def)
qed (use assms(1) in \<open>simp_all add: b'_def SetHashCodeInPayload_def SetHashCode_def SetKeySize_def
        kCheckPayloadSize_def HASH_BUCKET_PAYLOAD_SIZE_def\<close>)

end
