(* ===== verification/Hash_Table.thy ===== *)
theory Hash_Table
  imports Kv_Index Hash_Bucket Murmur
begin

text \<open>
  \<open>MurMurHashTable\<close> (kernel/index/hash_table/murmurhash_table.h, murmurhash_table.cc): a table of
  buckets in the memory of a pool, with overflow buckets allocated from it and linked by their
  distance from the first bucket.  The memory is seen as headers and buckets at addresses; the
  pool's \<open>Alloc\<close> and \<open>Free\<close> are arguments.  None is a call that faults, does not return, or
  subtracts pointers that are not whole buckets apart.

  The headers and buckets are functions of the address and do not know how far the memory reaches.  The table writes
  to every byte of a block as soon as it has it, so that the fault of a block which lies outside the
  mapping is a part of the argument \<open>alloc\<close> (\<open>mps_touch\<close> of \<open>Upward_Pools\<close>); the theorems about
  tables in a mapped pool take that one, and ask for room in the mapping.
\<close>

section \<open>The table\<close>

record table_header =
  hh_bucket_num :: nat
  hh_used_size :: nat
  hh_magic :: "u32 list"

record 'p hash_table =
  ht_attached :: bool               \<comment> \<open>\<open>mmap_pool_\<close> is not null\<close>
  ht_bucket_num :: nat
  ht_header :: nat
  ht_first :: nat
  ht_pool :: 'p
  ht_headers :: "nat \<Rightarrow> table_header"
  ht_buckets :: "nat \<Rightarrow> hash_bucket"

definition kDefaultBucketNum :: nat where
  "kDefaultBucketNum = 256 * 1024"

definition kTableMagicVec :: "u32 list" where
  "kTableMagicVec = [0xD5C5473F, 0x236434A6, 0xD898C43C, 0x7B34A9B4, 0x90E7F69D,
     0x0FEE88E1, 0x89741124, 0xF57AC10B, 0xD25E5371, 0x87C37615,
     0x15EF7111, 0x8974ABCD, 0xB59ACD6B, 0x423E9372]"

definition kRawKeyHashSeed :: u32 where "kRawKeyHashSeed = 0x89741511"
definition kCheckKeyHashSeed :: u32 where "kCheckKeyHashSeed = 0x91BA1109"
definition kCheckPayloadHashSeed :: u32 where "kCheckPayloadHashSeed = 0x27EF9050"

definition TableHeader_size :: nat where
  "TableHeader_size = 64"

definition header_Init :: "nat \<Rightarrow> table_header" where
  "header_Init bn = \<lparr>hh_bucket_num = bn, hh_used_size = 0, hh_magic = kTableMagicVec\<rparr>"

definition table_CheckMagic :: "table_header \<Rightarrow> bool" where
  "table_CheckMagic h = (\<forall>i < 14. hh_magic h ! i = kTableMagicVec ! i)"

definition HashTable_new :: "'p \<Rightarrow> (nat \<Rightarrow> table_header) \<Rightarrow> (nat \<Rightarrow> hash_bucket) \<Rightarrow> 'p hash_table" where
  "HashTable_new pl headers buckets =
     \<lparr>ht_attached = False, ht_bucket_num = kDefaultBucketNum, ht_header = 0, ht_first = 0,
      ht_pool = pl, ht_headers = headers, ht_buckets = buckets\<rparr>"

text \<open>The loop shifts a 32-bit 1 by 1 to 31 and stops at the first power that is large enough.\<close>

function round_bucket_num :: "nat \<Rightarrow> nat \<Rightarrow> nat \<Rightarrow> nat" where
  "round_bucket_num i tmp n =
     (if i < 32 then (if 2 ^ i \<ge> n then 2 ^ i else round_bucket_num (i + 1) (2 ^ i) n) else tmp)"
  by auto
termination by (relation "measure (\<lambda>(i, _). 32 - i)") auto

declare round_bucket_num.simps [simp del]

definition ht_SetBucketNum :: "'p hash_table \<Rightarrow> nat \<Rightarrow> 'p hash_table" where
  "ht_SetBucketNum t bucket_num =
     t\<lparr>ht_bucket_num := round_bucket_num 1 1 (if bucket_num > 2 then bucket_num else 2)\<rparr>"

definition bucket_at :: "'p hash_table \<Rightarrow> nat \<Rightarrow> nat" where
  "bucket_at t i = ht_first t + HashBucket_size * i"

definition ht_upd :: "nat \<Rightarrow> (hash_bucket \<Rightarrow> hash_bucket) \<Rightarrow> 'p hash_table \<Rightarrow> 'p hash_table" where
  "ht_upd a f t = t\<lparr>ht_buckets := (ht_buckets t)(a := f (ht_buckets t a))\<rparr>"

definition ht_add_used :: "int \<Rightarrow> 'p hash_table \<Rightarrow> 'p hash_table" where
  "ht_add_used d t =
     (let h = ht_headers t (ht_header t) in
      t\<lparr>ht_headers := (ht_headers t)(ht_header t :=
          h\<lparr>hh_used_size := nat ((int (hh_used_size h) + d) mod 2 ^ 32)\<rparr>)\<rparr>)"

text \<open>The distance of a bucket from the first one, in buckets.\<close>

definition bucket_diff :: "'p hash_table \<Rightarrow> nat \<Rightarrow> int option" where
  "bucket_diff t a =
     (let d = int a - int (ht_first t) in
      if d mod int HashBucket_size = 0 then Some (d div int HashBucket_size) else None)"

section \<open>Start\<close>

definition ht_InitEmpty ::
  "('p \<Rightarrow> nat \<Rightarrow> (nat \<times> 'p) option) \<Rightarrow> 'p hash_table \<Rightarrow> nat \<Rightarrow> (bool \<times> 'p hash_table) option" where
  "ht_InitEmpty alloc t bucket_num =
     (if \<not> ht_attached t then Some (False, t)
      else case alloc (ht_pool t) (TableHeader_size + HashBucket_size * bucket_num) of
             None \<Rightarrow> None
           | Some (addr, pl) \<Rightarrow>
               let t1 = t\<lparr>ht_pool := pl, ht_header := addr\<rparr> in
               if addr = 0 then Some (False, t1)
               else
                 let t2 = t1\<lparr>ht_headers := (ht_headers t1)(addr := header_Init bucket_num),
                             ht_first := addr + TableHeader_size\<rparr>
                 in Some (True, fold (\<lambda>i t. ht_upd (bucket_at t i) hb_Clear t) [0..<bucket_num] t2))"

definition ht_Load :: "'p hash_table \<Rightarrow> nat \<Rightarrow> bool \<times> 'p hash_table" where
  "ht_Load t begin_addr =
     (let t1 = t\<lparr>ht_header := begin_addr\<rparr> in
      if begin_addr = 0 then (False, t1)
      else if \<not> table_CheckMagic (ht_headers t1 begin_addr) then (False, t1)
      else (True, t1\<lparr>ht_bucket_num := hh_bucket_num (ht_headers t1 begin_addr),
                     ht_first := begin_addr + TableHeader_size\<rparr>))"

definition ht_Init ::
  "('p \<Rightarrow> nat \<Rightarrow> (nat \<times> 'p) option) \<Rightarrow> 'p hash_table \<Rightarrow> 'p option \<Rightarrow> nat \<Rightarrow> bool \<Rightarrow>
   (bool \<times> 'p hash_table) option" where
  "ht_Init alloc t mmap_pool begin_addr create =
     (case mmap_pool of
        None \<Rightarrow> Some (False, t)
      | Some pl \<Rightarrow>
          let t1 = t\<lparr>ht_attached := True, ht_pool := pl\<rparr> in
          if \<not> create then Some (ht_Load t1 begin_addr)
          else ht_InitEmpty alloc t1 (ht_bucket_num t1))"

definition ht_GetSize :: "'p hash_table \<Rightarrow> nat" where
  "ht_GetSize t = (if ht_header t = 0 then 0 else hh_used_size (ht_headers t (ht_header t)))"

section \<open>Finding a bucket\<close>

definition key_hash :: "bytes \<Rightarrow> u32 \<Rightarrow> u32" where
  "key_hash k seed = MurmurHash2 k (int (length k)) seed"

definition ht_raw :: "'p hash_table \<Rightarrow> bytes \<Rightarrow> nat" where
  "ht_raw t k = unat (key_hash k kRawKeyHashSeed AND (of_nat (ht_bucket_num t) - 1))"

definition matches :: "hash_bucket \<Rightarrow> bytes \<Rightarrow> bool" where
  "matches b k =
     (unat (hb_key_size b) = length k \<and> hb_hash_code b = key_hash k kCheckKeyHashSeed \<and>
      CheckHashCodeInPayload b (key_hash k kCheckPayloadHashSeed))"

text \<open>The walk along a chain: a matching bucket and the one before it, or the last bucket.\<close>

partial_function (option) ht_walk ::
  "(hash_bucket \<Rightarrow> bool) \<Rightarrow> 'p hash_table \<Rightarrow> nat \<Rightarrow> (nat \<times> nat + nat) option" where
  "ht_walk match t bucket =
     (if hb_next (ht_buckets t bucket) \<ge> ht_bucket_num t then
        let pre = bucket; bucket' = bucket_at t (hb_next (ht_buckets t bucket)) in
        if BucketOccupied (ht_buckets t bucket') \<and> match (ht_buckets t bucket') then Some (Inl (pre, bucket'))
        else ht_walk match t bucket'
      else Some (Inr bucket))"

text \<open>
  Both finders answer with the bucket (0 for \<open>nullptr\<close>) and the one before it; with
  \<open>allow_create\<close> a key that is not there gets the first bucket of its chain when that is free, or
  a bucket from the pool linked at the end of the chain.  \<open>Alloc\<close>'s result is used unchecked.
\<close>

definition ht_append ::
  "('p \<Rightarrow> nat \<Rightarrow> (nat \<times> 'p) option) \<Rightarrow> (hash_bucket \<Rightarrow> hash_bucket) \<Rightarrow> 'p hash_table \<Rightarrow> nat \<Rightarrow> nat \<Rightarrow>
   (nat \<times> nat \<times> 'p hash_table) option" where
  "ht_append alloc set_key t first_bucket tail =
     (if \<not> ht_attached t then Some (0, 0, t)
      else case alloc (ht_pool t) HashBucket_size of
             None \<Rightarrow> None
           | Some (a, pl) \<Rightarrow>
               if a = 0 then None
               else
                 let t1 = ht_upd a set_key (t\<lparr>ht_pool := pl\<rparr>) in
                 (case (bucket_diff t1 a, bucket_diff t1 first_bucket) of
                    (Some d, Some d0) \<Rightarrow>
                      Some (a, tail,
                        ht_upd a (\<lambda>b. SetNextBucket b (nat (d0 mod 2 ^ 32)))
                          (ht_upd tail (\<lambda>b. SetNextBucket b (nat (d mod 2 ^ 32))) t1))
                  | _ \<Rightarrow> None))"

definition GetBucketByKeyLePayloadSize ::
  "('p \<Rightarrow> nat \<Rightarrow> (nat \<times> 'p) option) \<Rightarrow> 'p hash_table \<Rightarrow> bytes option \<Rightarrow> bool \<Rightarrow>
   (nat \<times> nat \<times> 'p hash_table) option" where
  "GetBucketByKeyLePayloadSize alloc t key allow_create =
     (case key of
        None \<Rightarrow> Some (0, 0, t)
      | Some k \<Rightarrow>
          if k = [] then Some (0, 0, t)
          else
            let first_bucket = bucket_at t (ht_raw t k); fb = ht_buckets t first_bucket in
            if BucketOccupied fb \<and> CheckKeyInPayload fb key then Some (first_bucket, 0, t)
            else (case ht_walk (\<lambda>b. CheckKeyInPayload b key) t first_bucket of
                    None \<Rightarrow> None
                  | Some (Inl (pre, bucket)) \<Rightarrow> Some (bucket, pre, t)
                  | Some (Inr tail) \<Rightarrow>
                      if \<not> allow_create then Some (0, 0, t)
                      else if \<not> BucketOccupied fb then
                        Some (first_bucket, 0, ht_upd first_bucket (\<lambda>b. SetKeyInPayload b key) t)
                      else ht_append alloc (\<lambda>b. SetKeyInPayload b key) t first_bucket tail))"

definition GetBucketByKeyGtPayloadSize ::
  "('p \<Rightarrow> nat \<Rightarrow> (nat \<times> 'p) option) \<Rightarrow> 'p hash_table \<Rightarrow> bytes option \<Rightarrow> bool \<Rightarrow>
   (nat \<times> nat \<times> 'p hash_table) option" where
  "GetBucketByKeyGtPayloadSize alloc t key allow_create =
     (case key of
        None \<Rightarrow> Some (0, 0, t)
      | Some k \<Rightarrow>
          if k = [] then Some (0, 0, t)
          else
            let first_bucket = bucket_at t (ht_raw t k); fb = ht_buckets t first_bucket;
                set_key = (\<lambda>b. SetHashCodeInPayload
                    (SetHashCode (SetKeySize b (length k)) (key_hash k kCheckKeyHashSeed))
                    (key_hash k kCheckPayloadHashSeed))
            in
            if BucketOccupied fb \<and> matches fb k then Some (first_bucket, 0, t)
            else (case ht_walk (\<lambda>b. matches b k) t first_bucket of
                    None \<Rightarrow> None
                  | Some (Inl (pre, bucket)) \<Rightarrow> Some (bucket, pre, t)
                  | Some (Inr tail) \<Rightarrow>
                      if \<not> allow_create then Some (0, 0, t)
                      else if \<not> BucketOccupied fb then Some (first_bucket, 0, ht_upd first_bucket set_key t)
                      else ht_append alloc set_key t first_bucket tail))"

definition GetBucketByKey ::
  "('p \<Rightarrow> nat \<Rightarrow> (nat \<times> 'p) option) \<Rightarrow> 'p hash_table \<Rightarrow> bytes option \<Rightarrow> bool \<Rightarrow>
   (nat \<times> nat \<times> 'p hash_table) option" where
  "GetBucketByKey alloc t key allow_create =
     (if length (case key of None \<Rightarrow> [] | Some k \<Rightarrow> k) \<le> HASH_BUCKET_PAYLOAD_SIZE
      then GetBucketByKeyLePayloadSize alloc t key allow_create
      else GetBucketByKeyGtPayloadSize alloc t key allow_create)"

section \<open>The operations\<close>

definition ht_Insert ::
  "('p \<Rightarrow> nat \<Rightarrow> (nat \<times> 'p) option) \<Rightarrow> 'p hash_table \<Rightarrow> kv_pair \<Rightarrow> (bool \<times> 'p hash_table) option" where
  "ht_Insert alloc t kv =
     (if kv_payload kv \<noteq> [] then Some (False, t)
      else case GetBucketByKey alloc t (kv_key kv) True of
             None \<Rightarrow> None
           | Some (bucket, _, t1) \<Rightarrow>
               if bucket = 0 then Some (False, t1)
               else
                 let t2 = (if \<not> BucketOccupied (ht_buckets t1 bucket) then ht_add_used 1 t1 else t1)
                 in Some (True, ht_upd bucket MarkBucketOccupied
                            (ht_upd bucket (\<lambda>b. SetValue b (kv_value kv)) t2)))"

definition ht_Search ::
  "('p \<Rightarrow> nat \<Rightarrow> (nat \<times> 'p) option) \<Rightarrow> 'p hash_table \<Rightarrow> kv_pair \<Rightarrow> (bool \<times> kv_pair) option" where
  "ht_Search alloc t kv =
     (case GetBucketByKey alloc t (kv_key kv) False of
        None \<Rightarrow> None
      | Some (bucket, _, _) \<Rightarrow>
          if bucket = 0 then Some (False, kv\<lparr>kv_value := -1\<rparr>)
          else Some (True, kv\<lparr>kv_value := hb_value (ht_buckets t bucket)\<rparr>))"

definition ht_Delete ::
  "('p \<Rightarrow> nat \<Rightarrow> (nat \<times> 'p) option) \<Rightarrow> ('p \<Rightarrow> nat \<Rightarrow> nat \<Rightarrow> bool \<times> 'p) \<Rightarrow>
   'p hash_table \<Rightarrow> kv_pair \<Rightarrow> (bool \<times> 'p hash_table) option" where
  "ht_Delete alloc free t kv =
     (case GetBucketByKey alloc t (kv_key kv) False of
        None \<Rightarrow> None
      | Some (bucket, prev, _) \<Rightarrow>
          if bucket = 0 then Some (True, t)
          else
            let t1 = ht_add_used (-1) (ht_upd bucket ClearBucketOccupied t) in
            (case bucket_diff t1 bucket of
               None \<Rightarrow> None
             | Some offset \<Rightarrow>
                 if \<not> (0 \<le> offset \<and> offset < int (ht_bucket_num t1)) then Some (True, t1)
                 else
                   let next = hb_next (ht_buckets t1 bucket) in
                   if next \<ge> ht_bucket_num t1 then
                     let second = bucket_at t1 next;
                         t2 = ht_upd second hb_Clear (ht_upd bucket (\<lambda>_. ht_buckets t1 second) t1)
                     in if \<not> ht_attached t2 then Some (False, t2)
                        else (case free (ht_pool t2) second HashBucket_size of
                                (ok, pl) \<Rightarrow> Some (ok, t2\<lparr>ht_pool := pl\<rparr>))
                   else
                     let t2 = (if prev \<noteq> 0 then ht_upd prev (\<lambda>b. SetNextBucket b next) t1 else t1);
                         t3 = ht_upd bucket hb_Clear t2
                     in if \<not> ht_attached t3 then Some (False, t3)
                        else (case free (ht_pool t3) bucket HashBucket_size of
                                (ok, pl) \<Rightarrow> Some (ok, t3\<lparr>ht_pool := pl\<rparr>))))"

section \<open>The iterator\<close>

text \<open>An element is a header and a bucket; 0 is \<open>nullptr\<close>.\<close>

partial_function (option) ht_next_in_chain ::
  "'p hash_table \<Rightarrow> nat \<Rightarrow> int \<Rightarrow> (nat + nat \<times> int) option" where
  "ht_next_in_chain t bucket n =
     (if hb_next (ht_buckets t bucket) \<ge> ht_bucket_num t then
        let bucket' = bucket_at t (hb_next (ht_buckets t bucket)) in
        if BucketOccupied (ht_buckets t bucket') then
          (if n - 1 \<le> 0 then Some (Inl bucket') else ht_next_in_chain t bucket' (n - 1))
        else ht_next_in_chain t bucket' n
      else Some (Inr (bucket, n)))"

partial_function (option) ht_back :: "'p hash_table \<Rightarrow> nat \<Rightarrow> nat option" where
  "ht_back t bucket =
     (if bucket \<ge> bucket_at t (ht_bucket_num t) then ht_back t (bucket_at t (hb_next (ht_buckets t bucket)))
      else Some bucket)"

partial_function (option) ht_next_loop :: "'p hash_table \<Rightarrow> nat \<Rightarrow> int \<Rightarrow> nat option" where
  "ht_next_loop t bucket n =
     (if BucketOccupied (ht_buckets t bucket) \<and> n - 1 \<le> 0 then Some bucket
      else case ht_next_in_chain t bucket (if BucketOccupied (ht_buckets t bucket) then n - 1 else n) of
             None \<Rightarrow> None
           | Some (Inl b) \<Rightarrow> Some b
           | Some (Inr (b, n')) \<Rightarrow>
               (case ht_back t b of
                  None \<Rightarrow> None
                | Some b' \<Rightarrow>
                    if b' + HashBucket_size < bucket_at t (ht_bucket_num t)
                    then ht_next_loop t (b' + HashBucket_size) n' else Some 0))"

definition ht_GetNextElement :: "'p hash_table \<Rightarrow> nat \<times> nat \<Rightarrow> int \<Rightarrow> (nat \<times> nat) option" where
  "ht_GetNextElement t ele n =
     (case ele of (meta, bucket) \<Rightarrow>
       if bucket < ht_first t \<or> n < 0 then Some (0, 0)
       else (case ht_next_loop t bucket (if BucketOccupied (ht_buckets t bucket) then n + 1 else n) of
               None \<Rightarrow> None
             | Some b \<Rightarrow> Some (if b = 0 then (0, 0) else (meta, b))))"

definition ht_Begin :: "('p \<Rightarrow> nat \<Rightarrow> nat) \<Rightarrow> 'p hash_table \<Rightarrow> int \<Rightarrow> (nat \<times> nat) option" where
  "ht_Begin data_addr t offset =
     (let header = (if offset = -1 \<or> \<not> ht_attached t then ht_header t else data_addr (ht_pool t) (nat offset)) in
      if header = 0 \<or> hh_used_size (ht_headers t header) = 0 then Some (0, 0)
      else if BucketOccupied (ht_buckets t (ht_first t)) then Some (header, ht_first t)
      else ht_GetNextElement t (header, ht_first t) 1)"

definition ht_ConvertElementToDocId :: "'p hash_table \<Rightarrow> nat \<times> nat \<Rightarrow> int" where
  "ht_ConvertElementToDocId t ele = hb_value (ht_buckets t (snd ele))"

section \<open>Chains\<close>

text \<open>
  The bucket of an index, and the chain of overflow buckets behind a bucket: links below the
  number of buckets end it.
\<close>

definition bucket_of :: "'p hash_table \<Rightarrow> nat \<Rightarrow> hash_bucket" where
  "bucket_of t i = ht_buckets t (bucket_at t i)"

fun linked :: "'p hash_table \<Rightarrow> nat \<Rightarrow> nat list \<Rightarrow> bool" where
  "linked t i [] = (hb_next (bucket_of t i) < ht_bucket_num t)"
| "linked t i (j # js) = (hb_next (bucket_of t i) = j \<and> ht_bucket_num t \<le> j \<and> linked t j js)"

definition key_sig_of :: "bytes \<Rightarrow> key_sig" where
  "key_sig_of k =
     (if length k \<le> 2 then Short k
      else Long (length k) (key_hash k kCheckKeyHashSeed) (le_bytes 2 (unat (key_hash k kCheckPayloadHashSeed))))"

definition hit :: "'p hash_table \<Rightarrow> bytes \<Rightarrow> nat \<Rightarrow> bool" where
  "hit t k i \<longleftrightarrow> BucketOccupied (bucket_of t i) \<and> bucket_sig (bucket_of t i) = Some (key_sig_of k)"

definition set_key :: "bytes \<Rightarrow> hash_bucket \<Rightarrow> hash_bucket" where
  "set_key k b =
     (if length k \<le> 2 then SetKeyInPayload b (Some k)
      else SetHashCodeInPayload
        (SetHashCode (SetKeySize b (length k)) (key_hash k kCheckKeyHashSeed)) (key_hash k kCheckPayloadHashSeed))"

lemma bucket_at_inj [simp]: "bucket_at t i = bucket_at t j \<longleftrightarrow> i = j"
  by (simp add: bucket_at_def HashBucket_size_def)

lemma ht_upd_simps [simp]:
  "ht_bucket_num (ht_upd a f t) = ht_bucket_num t" "ht_first (ht_upd a f t) = ht_first t"
  "ht_attached (ht_upd a f t) = ht_attached t" "ht_header (ht_upd a f t) = ht_header t"
  "ht_pool (ht_upd a f t) = ht_pool t" "ht_headers (ht_upd a f t) = ht_headers t"
  "ht_buckets (ht_upd a f t) b = (if a = b then f (ht_buckets t a) else ht_buckets t b)"
  "bucket_at (ht_upd a f t) i = bucket_at t i"
  by (simp_all add: ht_upd_def bucket_at_def)

lemma ht_add_used_simps [simp]:
  "ht_bucket_num (ht_add_used d t) = ht_bucket_num t" "ht_first (ht_add_used d t) = ht_first t"
  "ht_attached (ht_add_used d t) = ht_attached t" "ht_header (ht_add_used d t) = ht_header t"
  "ht_pool (ht_add_used d t) = ht_pool t" "ht_buckets (ht_add_used d t) = ht_buckets t"
  "bucket_at (ht_add_used d t) i = bucket_at t i" "bucket_of (ht_add_used d t) i = bucket_of t i"
  by (simp_all add: ht_add_used_def bucket_at_def bucket_of_def Let_def)

lemma ht_pool_simps [simp]:
  "bucket_at (t\<lparr>ht_pool := q\<rparr>) i = bucket_at t i" "bucket_of (t\<lparr>ht_pool := q\<rparr>) i = bucket_of t i"
  "bucket_diff (t\<lparr>ht_pool := q\<rparr>) a = bucket_diff t a"
  by (simp_all add: bucket_at_def bucket_of_def bucket_diff_def)

lemma bucket_of_upd [simp]:
  "bucket_of (ht_upd (bucket_at t x) f t') i =
    (if bucket_at t x = bucket_at t' i then f (bucket_of t' i) else bucket_of t' i)"
  by (simp add: bucket_of_def)

lemma bucket_diff_at [simp]: "bucket_diff t (bucket_at t i) = Some (int i)"
  by (simp add: bucket_diff_def bucket_at_def HashBucket_size_def)

lemma bucket_diff_upd [simp]: "bucket_diff (ht_upd a f t) x = bucket_diff t x"
  "bucket_diff (ht_add_used d t) x = bucket_diff t x"
  by (simp_all add: bucket_diff_def)

fun walk_spec :: "(hash_bucket \<Rightarrow> bool) \<Rightarrow> 'p hash_table \<Rightarrow> nat \<Rightarrow> nat list \<Rightarrow> nat \<times> nat + nat" where
  "walk_spec match t i [] = Inr (bucket_at t i)"
| "walk_spec match t i (j # js) =
     (if BucketOccupied (bucket_of t j) \<and> match (bucket_of t j) then Inl (bucket_at t i, bucket_at t j)
      else walk_spec match t j js)"

lemma ht_walk_linked: "linked t i js \<Longrightarrow> ht_walk match t (bucket_at t i) = Some (walk_spec match t i js)"
proof (induction js arbitrary: i)
  case Nil
  then show ?case by (subst ht_walk.simps) (simp add: bucket_of_def)
next
  case (Cons j js)
  then show ?case by (subst ht_walk.simps) (simp add: bucket_of_def Let_def)
qed

lemma walk_spec_find:
  assumes "\<And>j. j \<in> set js \<Longrightarrow> (BucketOccupied (bucket_of t j) \<and> match (bucket_of t j)) = P j"
  shows "case find P js of
      None \<Rightarrow> walk_spec match t i js = Inr (bucket_at t (last (i # js)))
    | Some j \<Rightarrow> \<exists>pre. walk_spec match t i js = Inl (bucket_at t pre, bucket_at t j)"
  using assms
proof (induction js arbitrary: i)
  case Nil
  then show ?case by simp
next
  case (Cons j js)
  have "(BucketOccupied (bucket_of t j) \<and> match (bucket_of t j)) = P j" using Cons.prems by simp
  with Cons.IH [of j] Cons.prems show ?case by (auto split: option.splits)
qed

section \<open>The finders by signature\<close>

lemma key_sig_match:
  assumes "length (hb_payload b) = 2"
  shows "length k \<le> 2 \<Longrightarrow> CheckKeyInPayload b (Some k) \<longleftrightarrow> bucket_sig b = Some (key_sig_of k)"
    "2 < length k \<Longrightarrow> matches b k \<longleftrightarrow> bucket_sig b = Some (key_sig_of k)"
  using assms CheckHashCodeInPayload_sig [OF assms, of "length k"]
  by (simp_all add: CheckKeyInPayload_sig key_sig_of_def matches_def)

definition payloads_ok :: "'p hash_table \<Rightarrow> bool" where
  "payloads_ok t \<longleftrightarrow> (\<forall>a. length (hb_payload (ht_buckets t a)) = 2)"

lemma payloads_okD: "payloads_ok t \<Longrightarrow> length (hb_payload (bucket_of t i)) = 2"
  by (simp add: payloads_ok_def bucket_of_def)

lemma GetBucketByKey_chain:
  assumes "payloads_ok t" "linked t (ht_raw t k) js" "k \<noteq> []"
  defines "i \<equiv> ht_raw t k"
  shows "case find (hit t k) (i # js) of
      Some j \<Rightarrow> \<exists>pre. GetBucketByKey alloc t (Some k) create = Some (bucket_at t j, pre, t) \<and> (j = i \<longrightarrow> pre = 0)
    | None \<Rightarrow> GetBucketByKey alloc t (Some k) create =
        (if \<not> create then Some (0, 0, t)
         else if \<not> BucketOccupied (bucket_of t i) then Some (bucket_at t i, 0, ht_upd (bucket_at t i) (set_key k) t)
         else ht_append alloc (set_key k) t (bucket_at t i) (bucket_at t (last (i # js))))"
proof -
  define match where "match = (if length k \<le> 2 then (\<lambda>b. CheckKeyInPayload b (Some k)) else (\<lambda>b. matches b k))"
  have m: "(BucketOccupied (bucket_of t j) \<and> match (bucket_of t j)) = hit t k j" for j
    using key_sig_match [OF payloads_okD [OF assms(1)], of k j]
    by (cases "length k \<le> 2") (simp_all add: match_def hit_def)
  have sk: "set_key k = (if length k \<le> 2 then (\<lambda>b. SetKeyInPayload b (Some k))
      else (\<lambda>b. SetHashCodeInPayload (SetHashCode (SetKeySize b (length k)) (key_hash k kCheckKeyHashSeed))
          (key_hash k kCheckPayloadHashSeed)))"
    by (auto simp: set_key_def)
  have get: "GetBucketByKey alloc t (Some k) create =
      (if hit t k i then Some (bucket_at t i, 0, t)
       else case walk_spec match t i js of
              Inl (pre, bucket) \<Rightarrow> Some (bucket, pre, t)
            | Inr tail \<Rightarrow>
                if \<not> create then Some (0, 0, t)
                else if \<not> BucketOccupied (bucket_of t i) then Some (bucket_at t i, 0, ht_upd (bucket_at t i) (set_key k) t)
                else ht_append alloc (set_key k) t (bucket_at t i) tail)"
    using assms(3) m [of i, symmetric] ht_walk_linked [OF assms(2), folded i_def, of match]
    by (cases "length k \<le> 2")
      (simp_all add: GetBucketByKey_def GetBucketByKeyLePayloadSize_def GetBucketByKeyGtPayloadSize_def
        HASH_BUCKET_PAYLOAD_SIZE_def Let_def i_def bucket_of_def match_def sk split: sum.split)
  note W = walk_spec_find [of js t match "hit t k" i, OF m]
  show ?thesis
  proof (cases "hit t k i")
    case True
    then show ?thesis by (simp add: get)
  next
    case miss: False
    show ?thesis
    proof (cases "find (hit t k) js")
      case None
      then have "walk_spec match t i js = Inr (bucket_at t (last (i # js)))" using W by simp
      then show ?thesis using miss None by (simp add: get)
    next
      case (Some j)
      then obtain pre where "walk_spec match t i js = Inl (bucket_at t pre, bucket_at t j)" using W by auto
      moreover have "j \<noteq> i" using Some miss by (auto simp: find_Some_iff)
      ultimately show ?thesis using miss Some by (simp add: get)
    qed
  qed
qed

section \<open>Well-formed tables\<close>

text \<open>
  \<open>ch i\<close> are the overflow buckets behind bucket \<open>i\<close>; the chains share no bucket and use
  indices from the number of buckets up to \<open>m\<close>, which the 29-bit link can hold.  No chain has two
  occupied buckets for one signature.
\<close>

definition chain_of :: "(nat \<Rightarrow> nat list) \<Rightarrow> nat \<Rightarrow> nat list" where
  "chain_of ch i = i # ch i"

definition sigs_distinct :: "'p hash_table \<Rightarrow> nat list \<Rightarrow> bool" where
  "sigs_distinct t js \<longleftrightarrow> (\<forall>x \<in> set js. \<forall>y \<in> set js. x \<noteq> y \<longrightarrow>
     BucketOccupied (bucket_of t x) \<longrightarrow> BucketOccupied (bucket_of t y) \<longrightarrow>
     bucket_sig (bucket_of t x) \<noteq> bucket_sig (bucket_of t y))"

text \<open>The last overflow bucket of a chain leads back to the chain's first bucket.\<close>

definition closes :: "'p hash_table \<Rightarrow> nat \<Rightarrow> nat list \<Rightarrow> bool" where
  "closes t i js \<longleftrightarrow> (js \<noteq> [] \<longrightarrow> hb_next (bucket_of t (last js)) = i)"

lemma closes_simps [simp]:
  "closes t i []" "closes t i (js @ [j]) = (hb_next (bucket_of t j) = i)"
  "closes t i (j # js) = (hb_next (bucket_of t (last (j # js))) = i)"
  by (simp_all add: closes_def)

lemma closes_cong: "(\<And>x. x \<in> set js \<Longrightarrow> hb_next (bucket_of t' x) = hb_next (bucket_of t x)) \<Longrightarrow> closes t' i js = closes t i js"
  by (simp add: closes_def)

definition ht_wf :: "'p hash_table \<Rightarrow> (nat \<Rightarrow> nat list) \<Rightarrow> nat \<Rightarrow> bool" where
  "ht_wf t ch m \<longleftrightarrow> 0 < ht_bucket_num t \<and> ht_bucket_num t \<le> m \<and> m \<le> 2 ^ 29 \<and> 0 < ht_first t \<and>
     ht_attached t \<and> payloads_ok t \<and>
     (\<forall>i < ht_bucket_num t. linked t i (ch i) \<and> closes t i (ch i) \<and> set (ch i) \<subseteq> {ht_bucket_num t..<m} \<and>
        distinct (ch i) \<and> sigs_distinct t (chain_of ch i)) \<and>
     (\<forall>i < ht_bucket_num t. \<forall>j < ht_bucket_num t. i \<noteq> j \<longrightarrow> set (ch i) \<inter> set (ch j) = {})"

definition ht_lookup :: "'p hash_table \<Rightarrow> (nat \<Rightarrow> nat list) \<Rightarrow> bytes \<Rightarrow> int option" where
  "ht_lookup t ch k = map_option (\<lambda>j. hb_value (bucket_of t j)) (find (hit t k) (chain_of ch (ht_raw t k)))"

definition same_key :: "'p hash_table \<Rightarrow> bytes \<Rightarrow> bytes \<Rightarrow> bool" where
  "same_key t k k' \<longleftrightarrow> ht_raw t k = ht_raw t k' \<and> key_sig_of k = key_sig_of k'"

lemma ht_raw_less: "0 < ht_bucket_num t \<Longrightarrow> ht_bucket_num t \<le> 2 ^ 29 \<Longrightarrow> ht_raw t k < ht_bucket_num t"
proof -
  assume bn: "0 < ht_bucket_num t" "ht_bucket_num t \<le> 2 ^ 29"
  let ?n = "of_nat (ht_bucket_num t) :: u32"
  have n: "unat ?n = ht_bucket_num t"
    using bn(2) by (simp add: unat_of_nat take_bit_nat_eq_self)
  then have "?n \<noteq> 0" using bn(1) by (metis unsigned_0 less_irrefl)
  then have "unat (?n - 1) = ht_bucket_num t - 1" using n by (simp add: unat_minus_one)
  moreover have "ht_raw t k \<le> unat (?n - 1)"
    unfolding ht_raw_def by (metis word_and_le1 word_le_nat_alt)
  ultimately show ?thesis using bn(1) by simp
qed

lemma bucket_at_pos: "0 < ht_first t \<Longrightarrow> bucket_at t i \<noteq> 0"
  by (simp add: bucket_at_def)

lemma ht_wf_slot:
  assumes "ht_wf t ch m"
  shows "ht_raw t k < ht_bucket_num t" "linked t (ht_raw t k) (ch (ht_raw t k))"
    "payloads_ok t" "bucket_at t i \<noteq> 0"
proof -
  show r: "ht_raw t k < ht_bucket_num t"
    using assms by (intro ht_raw_less) (auto simp: ht_wf_def)
  show "linked t (ht_raw t k) (ch (ht_raw t k))" "payloads_ok t" "bucket_at t i \<noteq> 0"
    using assms r bucket_at_pos [of t i] by (simp_all add: ht_wf_def)
qed

lemma ht_Search_lookup:
  assumes "ht_wf t ch m" "kv_key kv = Some k" "k \<noteq> []"
  shows "ht_Search alloc t kv = Some (case ht_lookup t ch k of
      None \<Rightarrow> (False, kv\<lparr>kv_value := -1\<rparr>) | Some v \<Rightarrow> (True, kv\<lparr>kv_value := v\<rparr>))"
proof -
  note W = ht_wf_slot [OF assms(1)]
  note G = GetBucketByKey_chain [OF W(3,2) assms(3), of alloc False, folded chain_of_def]
  show ?thesis
  proof (cases "find (hit t k) (chain_of ch (ht_raw t k))")
    case None
    then show ?thesis using G assms(2) by (simp add: ht_Search_def ht_lookup_def)
  next
    case (Some j)
    then show ?thesis
      using G assms(2) W(4) [of j] by (auto simp: ht_Search_def ht_lookup_def bucket_of_def)
  qed
qed

lemma linked_cong:
  assumes "ht_bucket_num t' = ht_bucket_num t" "\<And>x. x \<in> set (i # js) \<Longrightarrow> hb_next (bucket_of t' x) = hb_next (bucket_of t x)"
  shows "linked t' i js = linked t i js"
  using assms by (induction js arbitrary: i) auto

lemma bucket_links_cong:
  assumes "ht_bucket_num t' = ht_bucket_num t" "\<And>x. x \<in> set (i # js) \<Longrightarrow> hb_next (bucket_of t' x) = hb_next (bucket_of t x)"
  shows "(linked t' i js \<and> closes t' i js) = (linked t i js \<and> closes t i js)"
  using linked_cong [of t' t i js] closes_cong [of js t' t i] assms by simp

lemma linked_snoc:
  assumes "linked t i js" "hb_next (bucket_of t' (last (i # js))) = j" "ht_bucket_num t' \<le> j"
    and "hb_next (bucket_of t' j) < ht_bucket_num t'" "ht_bucket_num t' = ht_bucket_num t"
    and "\<And>x. x \<in> set (i # js) \<Longrightarrow> x \<noteq> last (i # js) \<Longrightarrow> hb_next (bucket_of t' x) = hb_next (bucket_of t x)"
    and "distinct (i # js)"
  shows "linked t' i (js @ [j])"
  using assms
proof (induction js arbitrary: i)
  case Nil
  then show ?case by simp
next
  case (Cons a js)
  have "last (i # a # js) \<noteq> i" using Cons.prems(7) by (metis distinct.simps(2) last.simps last_in_set list.distinct(1))
  then have "hb_next (bucket_of t' i) = a" using Cons.prems(1,6) by auto
  moreover have "linked t' a (js @ [j])"
    using Cons.prems by (intro Cons.IH) auto
  ultimately show ?case using Cons.prems(1,5) by simp
qed

lemma linked_retail:
  assumes "linked t i js" "hb_next (bucket_of t' (last (i # js))) < ht_bucket_num t'" "ht_bucket_num t' = ht_bucket_num t"
    and "\<And>x. x \<in> set (i # js) \<Longrightarrow> x \<noteq> last (i # js) \<Longrightarrow> hb_next (bucket_of t' x) = hb_next (bucket_of t x)"
    and "distinct (i # js)"
  shows "linked t' i js"
  using assms
proof (induction js arbitrary: i)
  case Nil
  then show ?case by simp
next
  case (Cons a js)
  have "last (i # a # js) \<noteq> i" using Cons.prems(5) by (metis distinct.simps(2) last.simps last_in_set list.distinct(1))
  then have "hb_next (bucket_of t' i) = a" using Cons.prems(1,4) by auto
  moreover have "linked t' a js"
    using Cons.prems by (intro Cons.IH) auto
  ultimately show ?case using Cons.prems(1,3) by simp
qed

lemma chain_of_index:
  assumes "ht_wf t ch m" "i < ht_bucket_num t" "i' < ht_bucket_num t" "x \<in> set (chain_of ch i)" "x \<in> set (chain_of ch i')"
  shows "i = i'"
proof (rule ccontr)
  assume "i \<noteq> i'"
  then have d: "set (ch i) \<inter> set (ch i') = {}" and
    "set (ch i) \<subseteq> {ht_bucket_num t..<m}" "set (ch i') \<subseteq> {ht_bucket_num t..<m}"
    using assms(1-3) by (auto simp: ht_wf_def)
  then have "x = i \<or> ht_bucket_num t \<le> x" "x = i' \<or> ht_bucket_num t \<le> x"
    using assms(4,5) by (auto simp: chain_of_def)
  then show False using assms(2-5) d \<open>i \<noteq> i'\<close> by (auto simp: chain_of_def)
qed

lemma hit_unique:
  assumes "ht_wf t ch m" "i < ht_bucket_num t" "x \<in> set (chain_of ch i)" "y \<in> set (chain_of ch i)"
    "hit t k x" "hit t k y"
  shows "x = y"
proof -
  have "sigs_distinct t (chain_of ch i)" using assms(1,2) by (simp add: ht_wf_def)
  then show ?thesis using assms(3-6) unfolding sigs_distinct_def hit_def by metis
qed

lemma ht_lookup_iff:
  assumes "ht_wf t ch m"
  shows "ht_lookup t ch k = Some v \<longleftrightarrow>
    (\<exists>x \<in> set (chain_of ch (ht_raw t k)). hit t k x \<and> hb_value (bucket_of t x) = v)"
proof -
  note r = ht_wf_slot(1) [OF assms, of k]
  have "find (hit t k) (chain_of ch (ht_raw t k)) = Some x \<longleftrightarrow> x \<in> set (chain_of ch (ht_raw t k)) \<and> hit t k x" for x
  proof
    assume "find (hit t k) (chain_of ch (ht_raw t k)) = Some x"
    then show "x \<in> set (chain_of ch (ht_raw t k)) \<and> hit t k x"
      by (metis find_Some_iff nth_mem)
  next
    assume x: "x \<in> set (chain_of ch (ht_raw t k)) \<and> hit t k x"
    then obtain y where y: "find (hit t k) (chain_of ch (ht_raw t k)) = Some y"
      by (metis find_None_iff not_None_eq)
    then have "y \<in> set (chain_of ch (ht_raw t k)) \<and> hit t k y" by (metis find_Some_iff nth_mem)
    then show "find (hit t k) (chain_of ch (ht_raw t k)) = Some x"
      using hit_unique [OF assms r] x y by blast
  qed
  then show ?thesis by (auto simp: ht_lookup_def)
qed

text \<open>A chain with one more signature, the key's, that no other of its buckets has.\<close>

lemma insert_sigs:
  assumes "sigs_distinct t xs" and old: "\<And>y. y \<in> set xs' \<Longrightarrow> y \<noteq> j \<Longrightarrow> y \<in> set xs"
    and others: "\<And>x. x \<noteq> j \<Longrightarrow> BucketOccupied (bucket_of t' x) = BucketOccupied (bucket_of t x) \<and>
      bucket_sig (bucket_of t' x) = bucket_sig (bucket_of t x)"
    and entry: "bucket_sig (bucket_of t' j) = Some (key_sig_of k)"
    and only: "\<And>x. x \<in> set xs \<Longrightarrow> x \<noteq> j \<Longrightarrow> \<not> hit t k x"
  shows "sigs_distinct t' xs'"
  unfolding sigs_distinct_def
proof (intro ballI impI)
  fix y z
  assume yz: "y \<in> set xs'" "z \<in> set xs'" "y \<noteq> z" "BucketOccupied (bucket_of t' y)" "BucketOccupied (bucket_of t' z)"
  have no: "bucket_sig (bucket_of t' w) \<noteq> Some (key_sig_of k)"
    if "w \<in> set xs'" "w \<noteq> j" "BucketOccupied (bucket_of t' w)" for w
    using only [OF old [OF that(1,2)] that(2)] others [OF that(2)] that(3) by (simp add: hit_def)
  consider "y = j" | "z = j" | "y \<noteq> j" "z \<noteq> j" by blast
  then show "bucket_sig (bucket_of t' y) \<noteq> bucket_sig (bucket_of t' z)"
  proof cases
    case 1
    then show ?thesis using no [of z] yz entry by auto
  next
    case 2
    then show ?thesis using no [of y] yz entry by auto
  next
    case 3
    then show ?thesis using assms(1) old yz others unfolding sigs_distinct_def by metis
  qed
qed

lemma insert_wf:
  assumes "ht_wf t ch m" "i < ht_bucket_num t" "m \<le> m'" "m' \<le> 2 ^ 29"
    and same: "ht_bucket_num t' = ht_bucket_num t" "ht_first t' = ht_first t" "ht_attached t'" "payloads_ok t'"
    and links: "\<And>x. x < ht_bucket_num t \<Longrightarrow> linked t' x (ch' x) \<and> closes t' x (ch' x)" "\<And>x. x \<noteq> i \<Longrightarrow> ch' x = ch x"
    and ch: "set (ch' i) \<subseteq> insert j (set (ch i))" "distinct (ch' i)" "j = i \<or> j \<in> set (ch i) \<or> m \<le> j \<and> j < m'" "i \<notin> set (ch' i)"
    and others: "\<And>x. x \<noteq> j \<Longrightarrow> BucketOccupied (bucket_of t' x) = BucketOccupied (bucket_of t x) \<and>
      bucket_sig (bucket_of t' x) = bucket_sig (bucket_of t x)"
    and entry: "bucket_sig (bucket_of t' j) = Some (key_sig_of k)"
    and only: "\<And>x. x \<in> set (chain_of ch i) \<Longrightarrow> x \<noteq> j \<Longrightarrow> \<not> hit t k x"
  shows "ht_wf t' ch' m'"
proof -
  have wf: "0 < ht_bucket_num t" "ht_bucket_num t \<le> m" "0 < ht_first t"
    using assms(1) by (simp_all add: ht_wf_def)
  have slot: "set (ch x) \<subseteq> {ht_bucket_num t..<m}" "distinct (ch x)" "sigs_distinct t (chain_of ch x)"
    if "x < ht_bucket_num t" for x using assms(1) that by (simp_all add: ht_wf_def)
  have disj: "set (ch x) \<inter> set (ch y) = {}" if "x < ht_bucket_num t" "y < ht_bucket_num t" "x \<noteq> y" for x y
    using assms(1) that by (simp add: ht_wf_def)
  have sub: "set (ch' x) \<subseteq> {ht_bucket_num t..<m'}" if "x < ht_bucket_num t" for x
  proof (cases "x = i")
    case True
    have "y \<in> {ht_bucket_num t..<m'}" if "y \<in> set (ch' i)" for y
      using that ch(1,3,4) slot(1) [OF assms(2)] wf(2) assms(3) by fastforce
    then show ?thesis by (auto simp: True)
  next
    case False
    then show ?thesis using links(2) slot(1) [OF that] assms(3) by fastforce
  qed
  have "sigs_distinct t' (chain_of ch' x)" if x: "x < ht_bucket_num t" for x
  proof (cases "x = i")
    case False
    then have "j \<notin> set (chain_of ch x)"
      using ch(3) slot(1) [OF x] disj [OF x assms(2)] x wf(2) assms(2) slot(1) [OF assms(2)] by (auto simp: chain_of_def)
    then show ?thesis
      using False links(2) slot(3) [OF x] others unfolding sigs_distinct_def chain_of_def by metis
  next
    case True
    show ?thesis
      unfolding True
      by (rule insert_sigs [OF slot(3) [OF assms(2)] _ others entry only]) (use ch(1) in \<open>auto simp: chain_of_def\<close>)
  qed
  moreover have "distinct (ch' x)" if "x < ht_bucket_num t" for x
    using links(2) ch(2) slot(2) [OF that] by (cases "x = i") auto
  moreover have "set (ch' x) \<inter> set (ch' y) = {}" if "x < ht_bucket_num t" "y < ht_bucket_num t" "x \<noteq> y" for x y
  proof -
    have j: "j \<notin> set (ch z)" if "z < ht_bucket_num t" "z \<noteq> i" for z
      using ch(3) disj [OF that(1) assms(2) that(2)] slot(1) [OF that(1)] assms(2) by auto
    show ?thesis
      using disj [OF that] links(2) [of x] links(2) [of y] ch(1) j that by (cases "x = i"; cases "y = i") auto
  qed
  ultimately show ?thesis
    using wf same assms(3,4) links(1) sub by (simp add: ht_wf_def)
qed

lemma insert_lookup:
  assumes "ht_wf t ch m" "ht_wf t' ch' m'" "ht_bucket_num t' = ht_bucket_num t"
    and ch: "set (chain_of ch' (ht_raw t k)) = insert j (set (chain_of ch (ht_raw t k)))"
      "\<And>x. x \<noteq> ht_raw t k \<Longrightarrow> ch' x = ch x"
    and others: "\<And>x. x \<noteq> j \<Longrightarrow> BucketOccupied (bucket_of t' x) = BucketOccupied (bucket_of t x) \<and>
      bucket_sig (bucket_of t' x) = bucket_sig (bucket_of t x) \<and> hb_value (bucket_of t' x) = hb_value (bucket_of t x)"
    and entry: "hit t' k j" "hb_value (bucket_of t' j) = w"
    and old: "j \<in> set (chain_of ch (ht_raw t k)) \<Longrightarrow> BucketOccupied (bucket_of t j) \<Longrightarrow>
      bucket_sig (bucket_of t j) = Some (key_sig_of k)"
  shows "ht_lookup t' ch' k' = (if same_key t k k' then Some w else ht_lookup t ch k')"
proof -
  have raw: "ht_raw t' x = ht_raw t x" for x using assms(3) by (simp add: ht_raw_def)
  note L = ht_lookup_iff [OF assms(2), of k', unfolded raw] and L0 = ht_lookup_iff [OF assms(1), of k']
  show ?thesis
  proof (cases "same_key t k k'")
    case True
    then have "hit t' k' j" using entry(1) by (simp add: same_key_def hit_def)
    then show ?thesis using L ch(1) True entry(2) by (auto simp: same_key_def)
  next
    case False
    have "j \<notin> set (chain_of ch' (ht_raw t k')) \<or> \<not> hit t' k' j"
    proof (cases "ht_raw t k' = ht_raw t k")
      case True
      then show ?thesis using False entry(1) by (auto simp: same_key_def hit_def)
    next
      case other: False
      then show ?thesis
        using chain_of_index [OF assms(2), of "ht_raw t k" "ht_raw t k'" j] ch(1) assms(3)
          ht_wf_slot(1) [OF assms(1)] by auto
    qed
    moreover have "j \<notin> set (chain_of ch (ht_raw t k')) \<or> \<not> hit t k' j"
    proof (cases "ht_raw t k' = ht_raw t k")
      case True
      then show ?thesis using False old by (auto simp: same_key_def hit_def)
    next
      case other: False
      then have "chain_of ch' (ht_raw t k') = chain_of ch (ht_raw t k')"
        using ch(2) by (simp add: chain_of_def)
      then show ?thesis
        using chain_of_index [OF assms(2), of "ht_raw t k" "ht_raw t k'" j] ch(1) assms(3) other
          ht_wf_slot(1) [OF assms(1)] by auto
    qed
    moreover have "x \<in> set (chain_of ch' (ht_raw t k')) \<longleftrightarrow> x \<in> set (chain_of ch (ht_raw t k'))" if "x \<noteq> j" for x
      using ch that by (cases "ht_raw t k' = ht_raw t k") (auto simp: chain_of_def)
    moreover have "hit t' k' x \<longleftrightarrow> hit t k' x" if "x \<noteq> j" for x
      using others [OF that] by (simp add: hit_def)
    ultimately have "ht_lookup t' ch' k' = Some v \<longleftrightarrow> ht_lookup t ch k' = Some v" for v
      unfolding L L0 using others by metis
    then show ?thesis using False by (metis not_None_eq)
  qed
qed

lemma set_key_facts:
  assumes "length (hb_payload b) = 2" "length k < 256"
  shows "bucket_sig (set_key k b) = Some (key_sig_of k)" "length (hb_payload (set_key k b)) = 2"
    "BucketOccupied (set_key k b) = BucketOccupied b" "hb_next (set_key k b) = hb_next b"
  using SetKeyInPayload_sig [OF assms(1), of k] SetLong_sig [OF assms(1) _ assms(2)] assms(2)
  by (cases "length k \<le> 2"; simp add: set_key_def key_sig_of_def)+

lemma set_field_simps [bucket_simps, simp]:
  "hb_value (SetValue b v) = signed_take_bit 47 v" "hb_next (SetValue b v) = hb_next b"
  "BucketOccupied (SetValue b v) = BucketOccupied b" "bucket_sig (SetValue b v) = bucket_sig b"
  "hb_payload (SetValue b v) = hb_payload b"
  "hb_value (SetNextBucket b n) = hb_value b" "hb_next (SetNextBucket b n) = n mod 2 ^ 29"
  "BucketOccupied (SetNextBucket b n) = BucketOccupied b" "bucket_sig (SetNextBucket b n) = bucket_sig b"
  "hb_payload (SetNextBucket b n) = hb_payload b"
  by (simp_all add: SetValue_def SetNextBucket_def)

definition store_value :: "nat \<Rightarrow> int \<Rightarrow> 'p hash_table \<Rightarrow> 'p hash_table" where
  "store_value bucket v t =
     ht_upd bucket MarkBucketOccupied
       (ht_upd bucket (\<lambda>b. SetValue b v)
         (if \<not> BucketOccupied (ht_buckets t bucket) then ht_add_used 1 t else t))"

lemma store_value_simps [simp]:
  "ht_bucket_num (store_value a v t) = ht_bucket_num t" "ht_first (store_value a v t) = ht_first t"
  "ht_attached (store_value a v t) = ht_attached t" "ht_pool (store_value a v t) = ht_pool t"
  "bucket_at (store_value a v t) i = bucket_at t i"
  "bucket_of (store_value (bucket_at t j) v t) i =
    (if i = j then MarkBucketOccupied (SetValue (bucket_of t j) v) else bucket_of t i)"
  by (simp_all add: store_value_def bucket_of_def)

text \<open>The number of entries that the header counts, in 32 bits.\<close>

definition ht_used :: "'p hash_table \<Rightarrow> nat" where
  "ht_used t = hh_used_size (ht_headers t (ht_header t))"

lemma ht_used_upd [simp]: "ht_used (ht_upd a f t) = ht_used t" "ht_used (t\<lparr>ht_pool := q\<rparr>) = ht_used t"
  by (simp_all add: ht_used_def ht_upd_def)

lemma ht_used_add [simp]: "ht_used (ht_add_used 1 t) = Suc (ht_used t) mod 2 ^ 32"
  by (simp add: ht_used_def ht_add_used_def Let_def nat_mod_distrib nat_add_distrib)

lemma ht_used_sub: "0 < ht_used t \<Longrightarrow> ht_used t < 2 ^ 32 \<Longrightarrow> ht_used (ht_add_used (-1) t) = ht_used t - 1"
  by (simp add: ht_used_def ht_add_used_def Let_def)

lemma ht_used_store [simp]:
  "ht_used (store_value a v t) = (if BucketOccupied (ht_buckets t a) then ht_used t else Suc (ht_used t) mod 2 ^ 32)"
  by (simp add: store_value_def)

lemma payloads_ok_upd: "payloads_ok t \<Longrightarrow> (\<And>b. length (hb_payload b) = 2 \<Longrightarrow> length (hb_payload (f b)) = 2) \<Longrightarrow>
   payloads_ok (ht_upd a f t)"
  by (simp add: payloads_ok_def)

lemma payloads_ok_store: "payloads_ok t \<Longrightarrow> payloads_ok (store_value a v t)"
  by (simp add: payloads_ok_def store_value_def)

lemma ht_Insert_bucket:
  assumes "kv_payload kv = []" "GetBucketByKey alloc t (kv_key kv) True = Some (bucket, pre, t1)" "bucket \<noteq> 0"
  shows "ht_Insert alloc t kv = Some (True, store_value bucket (kv_value kv) t1)"
  using assms by (simp add: ht_Insert_def store_value_def Let_def)

lemma ht_wf_chain:
  assumes "ht_wf t ch m" "x < ht_bucket_num t"
  shows "linked t x (ch x)" "distinct (ch x)" "set (ch x) \<subseteq> {ht_bucket_num t..<m}" "x \<notin> set (ch x)"
    "closes t x (ch x)"
proof -
  show s: "linked t x (ch x)" "distinct (ch x)" "set (ch x) \<subseteq> {ht_bucket_num t..<m}" and "closes t x (ch x)"
    using assms by (simp_all add: ht_wf_def)
  show "x \<notin> set (ch x)" using s(3) assms(2) by auto
qed

lemma ht_Insert_existing:
  assumes wf: "ht_wf t ch m" and kv: "kv_key kv = Some k" "k \<noteq> []" "length k < 256" "kv_payload kv = []"
    and found: "find (hit t k) (chain_of ch (ht_raw t k)) = Some j"
  defines "t' \<equiv> store_value (bucket_at t j) (kv_value kv) t"
  shows "ht_Insert alloc t kv = Some (True, t') \<and> ht_wf t' ch m \<and>
    (\<forall>k'. ht_lookup t' ch k' = (if same_key t k k' then Some (signed_take_bit 47 (kv_value kv)) else ht_lookup t ch k'))"
proof -
  let ?i = "ht_raw t k"
  note W = ht_wf_slot [OF wf]
  from found have j: "j \<in> set (chain_of ch ?i)" "hit t k j" by (metis find_Some_iff nth_mem)+
  obtain pre where "GetBucketByKey alloc t (Some k) True = Some (bucket_at t j, pre, t)"
    using GetBucketByKey_chain [OF W(3,2) kv(2), of alloc True] found by (auto simp: chain_of_def)
  then have ins: "ht_Insert alloc t kv = Some (True, t')"
    using ht_Insert_bucket [of kv alloc t "bucket_at t j" pre t] kv(1,4) W(4) by (simp add: t'_def)
  have b: "bucket_of t' x = (if x = j then MarkBucketOccupied (SetValue (bucket_of t j) (kv_value kv)) else bucket_of t x)" for x
    by (simp add: t'_def)
  note slots = ht_wf_chain [OF wf]
  have wf': "ht_wf t' ch m"
  proof (rule insert_wf [OF wf W(1) [of k] order_refl, where j = j and k = k])
    show "linked t' x (ch x) \<and> closes t' x (ch x)" if "x < ht_bucket_num t" for x
      using slots(1,5) [OF that] bucket_links_cong [of t' t x "ch x"] by (auto simp: b t'_def)
    show "\<not> hit t k x" if "x \<in> set (chain_of ch ?i)" "x \<noteq> j" for x
      using hit_unique [OF wf W(1) that(1) j(1)] j(2) that(2) by blast
  qed (use wf W(1) [of k] slots j in \<open>auto simp: b ht_wf_def payloads_ok_store t'_def hit_def chain_of_def\<close>)
  have "ht_lookup t' ch k' = (if same_key t k k' then Some (signed_take_bit 47 (kv_value kv)) else ht_lookup t ch k')" for k'
    by (rule insert_lookup [OF wf wf', where j = j])
      (use j in \<open>auto simp: b t'_def hit_def\<close>)
  then show ?thesis using ins wf' by blast
qed

lemma ht_Insert_first:
  assumes wf: "ht_wf t ch m" and kv: "kv_key kv = Some k" "k \<noteq> []" "length k < 256" "kv_payload kv = []"
    and missing: "find (hit t k) (chain_of ch (ht_raw t k)) = None"
    and free: "\<not> BucketOccupied (bucket_of t (ht_raw t k))"
  defines "t' \<equiv> store_value (bucket_at t (ht_raw t k)) (kv_value kv) (ht_upd (bucket_at t (ht_raw t k)) (set_key k) t)"
  shows "ht_Insert alloc t kv = Some (True, t') \<and> ht_wf t' ch m \<and>
    (\<forall>k'. ht_lookup t' ch k' = (if same_key t k k' then Some (signed_take_bit 47 (kv_value kv)) else ht_lookup t ch k'))"
proof -
  let ?i = "ht_raw t k" and ?t1 = "ht_upd (bucket_at t (ht_raw t k)) (set_key k) t"
  note W = ht_wf_slot [OF wf]
  have "GetBucketByKey alloc t (Some k) True = Some (bucket_at t ?i, 0, ?t1)"
    using GetBucketByKey_chain [OF W(3,2) kv(2), of alloc True, folded chain_of_def] missing free by simp
  then have ins: "ht_Insert alloc t kv = Some (True, t')"
    using ht_Insert_bucket [of kv alloc t "bucket_at t ?i" 0 ?t1] kv(1,4) W(4) by (simp add: t'_def)
  note sk = set_key_facts [OF payloads_okD [OF W(3)] kv(3)]
  have t'_alt: "t' = store_value (bucket_at ?t1 ?i) (kv_value kv) ?t1" by (simp add: t'_def)
  have b: "bucket_of t' x = (if x = ?i then MarkBucketOccupied (SetValue (set_key k (bucket_of t ?i)) (kv_value kv)) else bucket_of t x)" for x
    unfolding t'_alt by (simp del: ht_upd_simps(8))
  have bn: "ht_bucket_num t' = ht_bucket_num t" "ht_first t' = ht_first t" "ht_attached t' = ht_attached t"
    by (simp_all add: t'_def)
  have none: "\<not> hit t k x" if "x \<in> set (chain_of ch ?i)" for x
    using missing that by (simp add: find_None_iff)
  note slots = ht_wf_chain [OF wf]
  have wf': "ht_wf t' ch m"
  proof (rule insert_wf [OF wf W(1) [of k] order_refl, where j = ?i and k = k])
    show "linked t' x (ch x) \<and> closes t' x (ch x)" if "x < ht_bucket_num t" for x
      using slots(1,5) [OF that] bucket_links_cong [of t' t x "ch x"] sk(4) by (auto simp: b bn)
    show "payloads_ok t'"
      unfolding t'_def by (intro payloads_ok_store payloads_ok_upd W(3) set_key_facts(2) kv(3))
  qed (use wf W(1) [of k] slots none sk in \<open>auto simp: b ht_wf_def bn chain_of_def\<close>)
  have "ht_lookup t' ch k' = (if same_key t k k' then Some (signed_take_bit 47 (kv_value kv)) else ht_lookup t ch k')" for k'
    by (rule insert_lookup [OF wf wf', where j = ?i])
      (use free sk in \<open>auto simp: b bn hit_def chain_of_def\<close>)
  then show ?thesis using ins wf' by blast
qed

lemma ht_append_full:
  assumes "ht_attached t" "alloc (ht_pool t) HashBucket_size = Some (bucket_at t j, q)" "bucket_at t j \<noteq> 0"
    and "j < 2 ^ 29" "i < 2 ^ 29"
  shows "ht_append alloc sk t (bucket_at t i) (bucket_at t l) =
    Some (bucket_at t j, bucket_at t l,
      ht_upd (bucket_at t j) (\<lambda>b. SetNextBucket b i)
        (ht_upd (bucket_at t l) (\<lambda>b. SetNextBucket b j) (ht_upd (bucket_at t j) sk (t\<lparr>ht_pool := q\<rparr>))))"
  using assms by (simp add: ht_append_def Let_def nat_mod_distrib)

lemma appended_links:
  assumes wf: "ht_wf t ch m" and i: "i < ht_bucket_num t" and j: "m \<le> j" and same: "ht_bucket_num t' = ht_bucket_num t"
    and tail: "hb_next (bucket_of t' (last (chain_of ch i))) = j" and first: "hb_next (bucket_of t' j) = i"
    and others: "\<And>x. x \<noteq> j \<Longrightarrow> x \<noteq> last (chain_of ch i) \<Longrightarrow> hb_next (bucket_of t' x) = hb_next (bucket_of t x)"
    and x: "x < ht_bucket_num t"
  shows "linked t' x ((ch(i := ch i @ [j])) x) \<and> closes t' x ((ch(i := ch i @ [j])) x)"
proof (cases "x = i")
  case True
  note slots = ht_wf_chain [OF wf i]
  have small: "ht_bucket_num t \<le> m" using wf by (simp add: ht_wf_def)
  then have inchain: "y < j" if "y \<in> set (i # ch i)" for y
    using that slots(3) i j by fastforce
  have "linked t' i (ch i @ [j])"
  proof (rule linked_snoc [OF slots(1)])
    show "hb_next (bucket_of t' (last (i # ch i))) = j" using tail by (simp add: chain_of_def)
    show "hb_next (bucket_of t' j) < ht_bucket_num t'" using first i by (simp add: same)
    show "hb_next (bucket_of t' y) = hb_next (bucket_of t y)" if "y \<in> set (i # ch i)" "y \<noteq> last (i # ch i)" for y
      using that inchain [of y] others [of y] by (simp add: chain_of_def)
  qed (use slots(2,4) small j in \<open>simp_all add: same\<close>)
  then show ?thesis using first by (simp add: True)
next
  case False
  have "y \<noteq> j \<and> y \<noteq> last (chain_of ch i)" if y: "y \<in> set (chain_of ch x)" for y
  proof -
    have "ht_bucket_num t \<le> m" using wf by (simp add: ht_wf_def)
    then have "y < m" using y x ht_wf_chain(3) [OF wf x] by (auto simp: chain_of_def)
    moreover have "last (chain_of ch i) \<in> set (chain_of ch i)" by (simp add: chain_of_def)
    ultimately show ?thesis using chain_of_index [OF wf x i y] False j by auto
  qed
  then show ?thesis
    using False ht_wf_chain(1,5) [OF wf x] others bucket_links_cong [OF same, of x "ch x"] by (simp add: chain_of_def)
qed

lemma ht_Insert_append:
  assumes wf: "ht_wf t ch m" and kv: "kv_key kv = Some k" "k \<noteq> []" "length k < 256" "kv_payload kv = []"
    and missing: "find (hit t k) (chain_of ch (ht_raw t k)) = None"
    and full: "BucketOccupied (bucket_of t (ht_raw t k))"
    and alloc: "alloc (ht_pool t) HashBucket_size = Some (bucket_at t j, q)" "m \<le> j" "j < 2 ^ 29"
  defines "i \<equiv> ht_raw t k"
  defines "ch' \<equiv> ch(i := ch i @ [j])"
  shows "\<exists>t'. ht_Insert alloc t kv = Some (True, t') \<and> ht_wf t' ch' (Suc j) \<and> ht_pool t' = q \<and>
    ht_bucket_num t' = ht_bucket_num t \<and> ht_first t' = ht_first t \<and>
    (\<not> BucketOccupied (bucket_of t j) \<longrightarrow> ht_used t' = Suc (ht_used t) mod 2 ^ 32) \<and>
    (\<forall>x. x \<noteq> j \<longrightarrow> BucketOccupied (bucket_of t' x) = BucketOccupied (bucket_of t x)) \<and>
    (\<forall>k'. ht_lookup t' ch' k' = (if same_key t k k' then Some (signed_take_bit 47 (kv_value kv)) else ht_lookup t ch k'))"
proof -
  note W = ht_wf_slot [OF wf] and slots = ht_wf_chain [OF wf]
  have i: "i < ht_bucket_num t" using W(1) by (simp add: i_def)
  let ?l = "last (chain_of ch i)"
  let ?t0 = "ht_upd (bucket_at t j) (set_key k) (t\<lparr>ht_pool := q\<rparr>)"
  let ?t1 = "ht_upd (bucket_at t j) (\<lambda>b. SetNextBucket b i) (ht_upd (bucket_at t ?l) (\<lambda>b. SetNextBucket b j) ?t0)"
  define t' where "t' = store_value (bucket_at ?t1 j) (kv_value kv) ?t1"
  have small: "ht_bucket_num t \<le> m" "m \<le> 2 ^ 29" and at: "ht_attached t"
    using wf by (simp_all add: ht_wf_def)
  have l: "?l \<in> set (chain_of ch i)" by (simp add: chain_of_def)
  have inchain: "x < j" if "x \<in> set (chain_of ch i)" for x
    using that slots(3) [OF i] i small alloc(2) by (auto simp: chain_of_def)
  have lj: "?l \<noteq> j" using inchain [OF l] by simp
  have "i < 2 ^ 29" using i small by simp
  then have "GetBucketByKey alloc t (Some k) True = Some (bucket_at t j, bucket_at t ?l, ?t1)"
    using GetBucketByKey_chain [OF W(3,2) kv(2), of alloc True, folded chain_of_def i_def] missing full
      ht_append_full [where t = t and alloc = alloc and j = j and q = q and i = i and sk = "set_key k" and l = ?l]
      at alloc(1,3) W(4)
    by (simp add: i_def)
  then have ins: "ht_Insert alloc t kv = Some (True, t')"
    using ht_Insert_bucket [of kv alloc t "bucket_at t j" "bucket_at t ?l" ?t1] kv(1,4) W(4) by (simp add: t'_def)
  note sk = set_key_facts [OF payloads_okD [OF W(3)] kv(3)]
  have b: "bucket_of t' x =
      (if x = j then MarkBucketOccupied (SetValue (SetNextBucket (set_key k (bucket_of t j)) i) (kv_value kv))
       else if x = ?l then SetNextBucket (bucket_of t ?l) j else bucket_of t x)" for x
    using lj unfolding t'_def store_value_simps(6) by (simp add: bucket_of_def)
  have bn: "ht_bucket_num t' = ht_bucket_num t" "ht_first t' = ht_first t" "ht_attached t'" "ht_pool t' = q"
    using at by (simp_all add: t'_def)
  have none: "\<not> hit t k x" if "x \<in> set (chain_of ch i)" for x
    using missing that by (simp add: find_None_iff i_def)
  have links: "linked t' x (ch' x) \<and> closes t' x (ch' x)" if x: "x < ht_bucket_num t" for x
    unfolding ch'_def
    by (rule appended_links [OF wf i alloc(2) bn(1) _ _ _ x]) (use lj alloc(3) i small in \<open>simp_all add: b\<close>)
  have wf': "ht_wf t' ch' (Suc j)"
  proof (rule insert_wf [OF wf i, where j = j and k = k])
    show "payloads_ok t'"
      using W(3) unfolding t'_def
      by (intro payloads_ok_store payloads_ok_upd set_key_facts(2) kv(3)) (simp_all add: payloads_ok_def)
    show "distinct (ch' i)" "i \<notin> set (ch' i)"
      using slots(2,4) [OF i] inchain [of j] i small alloc(2) by (auto simp: ch'_def chain_of_def)
  qed (use links none alloc small sk bn in \<open>auto simp: b ch'_def\<close>)
  have "ht_lookup t' ch' k' = (if same_key t k k' then Some (signed_take_bit 47 (kv_value kv)) else ht_lookup t ch k')" for k'
  proof (rule insert_lookup [OF wf wf' bn(1), where j = j])
    show "j \<in> set (chain_of ch (ht_raw t k)) \<Longrightarrow> BucketOccupied (bucket_of t j) \<Longrightarrow>
      bucket_sig (bucket_of t j) = Some (key_sig_of k)"
      using inchain [of j] by (simp add: i_def)
  qed (use sk in \<open>auto simp: b hit_def chain_of_def ch'_def i_def\<close>)
  moreover have "ht_used t' = Suc (ht_used t) mod 2 ^ 32" if "\<not> BucketOccupied (bucket_of t j)"
    using that sk(3) lj by (simp add: t'_def bucket_of_def)
  moreover have "BucketOccupied (bucket_of t' x) = BucketOccupied (bucket_of t x)" if "x \<noteq> j" for x
    using that by (simp add: b)
  ultimately show ?thesis using ins wf' bn by blast
qed

section \<open>Deletion\<close>

lemma ht_lookup_None_iff:
  "ht_lookup t ch k = None \<longleftrightarrow> (\<forall>x \<in> set (chain_of ch (ht_raw t k)). \<not> hit t k x)"
  by (auto simp: ht_lookup_def find_None_iff)

text \<open>What is left when the entry of a key goes and the others stay, each in its chain.\<close>

lemma delete_lookup:
  assumes wf: "ht_wf t ch m" "ht_wf t' ch' m'" "ht_bucket_num t' = ht_bucket_num t"
    and gone: "\<And>x. x \<in> set (chain_of ch' (ht_raw t k)) \<Longrightarrow> \<not> hit t' k x"
    and stay: "\<And>i s v. i < ht_bucket_num t \<Longrightarrow> i \<noteq> ht_raw t k \<or> s \<noteq> key_sig_of k \<Longrightarrow>
      (\<exists>x \<in> set (chain_of ch' i). BucketOccupied (bucket_of t' x) \<and> bucket_sig (bucket_of t' x) = Some s \<and> hb_value (bucket_of t' x) = v)
      \<longleftrightarrow> (\<exists>x \<in> set (chain_of ch i). BucketOccupied (bucket_of t x) \<and> bucket_sig (bucket_of t x) = Some s \<and> hb_value (bucket_of t x) = v)"
  shows "ht_lookup t' ch' k' = (if same_key t k k' then None else ht_lookup t ch k')"
proof -
  have raw: "ht_raw t' x = ht_raw t x" for x using wf(3) by (simp add: ht_raw_def)
  show ?thesis
  proof (cases "same_key t k k'")
    case True
    then show ?thesis
      using gone by (simp add: ht_lookup_None_iff raw same_key_def hit_def)
  next
    case False
    have "ht_lookup t' ch' k' = Some v \<longleftrightarrow> ht_lookup t ch k' = Some v" for v
      using stay [of "ht_raw t k'" "key_sig_of k'" v] ht_wf_slot(1) [OF wf(1)] False
      unfolding ht_lookup_iff [OF wf(1)] ht_lookup_iff [OF wf(2)] raw hit_def same_key_def by auto
    then show ?thesis using False by (metis not_None_eq)
  qed
qed

lemma delete_one:
  assumes wf: "ht_wf t ch m" "ht_wf t' ch m'" "ht_bucket_num t' = ht_bucket_num t"
    and j: "j \<in> set (chain_of ch (ht_raw t k))" "hit t k j"
    and b: "\<not> BucketOccupied (bucket_of t' j)" "\<And>x. x \<noteq> j \<Longrightarrow> bucket_of t' x = bucket_of t x"
  shows "ht_lookup t' ch k' = (if same_key t k k' then None else ht_lookup t ch k')"
proof (rule delete_lookup [OF wf])
  show "\<not> hit t' k x" if "x \<in> set (chain_of ch (ht_raw t k))" for x
  proof
    assume h: "hit t' k x"
    then have "x \<noteq> j" using b(1) by (auto simp: hit_def)
    then have "hit t k x" using h b(2) by (simp add: hit_def)
    then show False using hit_unique [OF wf(1) ht_wf_slot(1) [OF wf(1)] that j(1) _ j(2)] \<open>x \<noteq> j\<close> by blast
  qed
  fix i s v
  assume i: "i < ht_bucket_num t" "i \<noteq> ht_raw t k \<or> s \<noteq> key_sig_of k"
  have "(BucketOccupied (bucket_of t' x) \<and> bucket_sig (bucket_of t' x) = Some s \<and> hb_value (bucket_of t' x) = v) =
      (BucketOccupied (bucket_of t x) \<and> bucket_sig (bucket_of t x) = Some s \<and> hb_value (bucket_of t x) = v)"
    if "x \<in> set (chain_of ch i)" for x
  proof (cases "x = j")
    case True
    then have "i = ht_raw t k" using chain_of_index [OF wf(1) i(1) ht_wf_slot(1) [OF wf(1)] that] j(1) by simp
    then show ?thesis using True i(2) j(2) b(1) by (auto simp: hit_def)
  qed (simp add: b(2))
  then show "(\<exists>x \<in> set (chain_of ch i). BucketOccupied (bucket_of t' x) \<and> bucket_sig (bucket_of t' x) = Some s \<and> hb_value (bucket_of t' x) = v)
    \<longleftrightarrow> (\<exists>x \<in> set (chain_of ch i). BucketOccupied (bucket_of t x) \<and> bucket_sig (bucket_of t x) = Some s \<and> hb_value (bucket_of t x) = v)"
    by (rule bex_cong [OF refl])
qed

lemma GetBucketByKey_found:
  assumes "ht_wf t ch m" "k \<noteq> []" "find (hit t k) (chain_of ch (ht_raw t k)) = Some j"
  shows "\<exists>pre. GetBucketByKey alloc t (Some k) c = Some (bucket_at t j, pre, t) \<and> (j = ht_raw t k \<longrightarrow> pre = 0)"
  using GetBucketByKey_chain [OF ht_wf_slot(3) [OF assms(1)] ht_wf_slot(2) [OF assms(1)] assms(2), of alloc c,
      folded chain_of_def] assms(3)
  by simp

lemma wf_same_shape:
  assumes "ht_wf t ch m" "ht_bucket_num t' = ht_bucket_num t" "ht_first t' = ht_first t" "ht_attached t'" "payloads_ok t'"
    and "\<And>x. hb_next (bucket_of t' x) = hb_next (bucket_of t x)"
    and "\<And>x. BucketOccupied (bucket_of t' x) \<Longrightarrow> BucketOccupied (bucket_of t x) \<and>
      bucket_sig (bucket_of t' x) = bucket_sig (bucket_of t x)"
  shows "ht_wf t' ch m"
proof -
  have "linked t' x (ch x) = linked t x (ch x)" "closes t' x (ch x) = closes t x (ch x)" for x
    using assms(2,6) by (intro linked_cong closes_cong; simp)+
  moreover have "sigs_distinct t js \<Longrightarrow> sigs_distinct t' js" for js
    using assms(7) unfolding sigs_distinct_def by metis
  ultimately show ?thesis using assms(1-5) by (simp add: ht_wf_def)
qed

lemma Delete_overflow:
  assumes wf: "ht_wf t ch m" and kv: "kv_key kv = Some k" "k \<noteq> []"
    and found: "find (hit t k) (chain_of ch (ht_raw t k)) = Some j" "j \<noteq> ht_raw t k"
  defines "t' \<equiv> ht_add_used (-1) (ht_upd (bucket_at t j) ClearBucketOccupied t)"
  shows "ht_Delete alloc free t kv = Some (True, t') \<and> ht_wf t' ch m \<and>
    (\<forall>k'. ht_lookup t' ch k' = (if same_key t k k' then None else ht_lookup t ch k'))"
proof -
  let ?i = "ht_raw t k"
  note W = ht_wf_slot [OF wf]
  have j: "j \<in> set (chain_of ch ?i)" "hit t k j" using found(1) by (metis find_Some_iff nth_mem)+
  then have jb: "ht_bucket_num t \<le> j"
    using found(2) ht_wf_chain(3) [OF wf W(1) [of k]] by (auto simp: chain_of_def)
  have bn: "ht_bucket_num t' = ht_bucket_num t" "ht_first t' = ht_first t" "ht_attached t' = ht_attached t"
    by (simp_all add: t'_def)
  have b: "bucket_of t' x = (if x = j then ClearBucketOccupied (bucket_of t j) else bucket_of t x)" for x
    by (simp add: t'_def)
  obtain pre where "GetBucketByKey alloc t (Some k) False = Some (bucket_at t j, pre, t)"
    using GetBucketByKey_found [OF wf kv(2) found(1)] by blast
  then have del: "ht_Delete alloc free t kv = Some (True, t')"
    using kv(1) W(4) [of j] jb by (simp add: ht_Delete_def t'_def)
  have wf': "ht_wf t' ch m"
  proof (rule wf_same_shape [OF wf])
    show "payloads_ok t'" using W(3) by (simp add: payloads_ok_def t'_def)
  qed (use wf in \<open>auto simp: b bn ht_wf_def split: if_splits\<close>)
  have "ht_lookup t' ch k' = (if same_key t k k' then None else ht_lookup t ch k')" for k'
    by (rule delete_one [OF wf wf' bn(1) j]) (simp_all add: b)
  then show ?thesis using del wf' by blast
qed

lemma HashBucket_new_simps [bucket_simps, simp]:
  "\<not> BucketOccupied HashBucket_new" "hb_next HashBucket_new = 0" "length (hb_payload HashBucket_new) = 2"
  by (simp_all add: HashBucket_new_def BucketOccupied_def HASH_BUCKET_PAYLOAD_SIZE_def)

lemma Delete_alone:
  assumes wf: "ht_wf t ch m" and kv: "kv_key kv = Some k" "k \<noteq> []"
    and found: "find (hit t k) (chain_of ch (ht_raw t k)) = Some (ht_raw t k)" and alone: "ch (ht_raw t k) = []"
  shows "\<exists>t'. ht_Delete alloc free t kv = Some (fst (free (ht_pool t) (bucket_at t (ht_raw t k)) HashBucket_size), t') \<and>
    ht_pool t' = snd (free (ht_pool t) (bucket_at t (ht_raw t k)) HashBucket_size) \<and>
    ht_bucket_num t' = ht_bucket_num t \<and> ht_first t' = ht_first t \<and> ht_used t' = ht_used (ht_add_used (-1) t) \<and>
    bucket_of t' (ht_raw t k) = HashBucket_new \<and>
    (\<forall>x. x \<noteq> ht_raw t k \<longrightarrow> bucket_of t' x = bucket_of t x) \<and> ht_wf t' ch m \<and>
    (\<forall>k'. ht_lookup t' ch k' = (if same_key t k k' then None else ht_lookup t ch k'))"
proof -
  let ?i = "ht_raw t k"
  note W = ht_wf_slot [OF wf]
  have at: "ht_attached t" using wf by (simp add: ht_wf_def)
  have next_i: "hb_next (bucket_of t ?i) < ht_bucket_num t" using W(2) [of k] alone by simp
  define t' where "t' = (ht_upd (bucket_at t ?i) hb_Clear (ht_add_used (-1) (ht_upd (bucket_at t ?i) ClearBucketOccupied t)))
    \<lparr>ht_pool := snd (free (ht_pool t) (bucket_at t ?i) HashBucket_size)\<rparr>"
  have bn: "ht_bucket_num t' = ht_bucket_num t" "ht_first t' = ht_first t" "ht_attached t' = ht_attached t"
    "ht_pool t' = snd (free (ht_pool t) (bucket_at t ?i) HashBucket_size)"
    by (simp_all add: t'_def)
  have used: "ht_used t' = ht_used (ht_add_used (-1) t)"
    by (simp add: t'_def ht_used_def ht_add_used_def ht_upd_def Let_def)
  have b: "bucket_of t' x = (if x = ?i then HashBucket_new else bucket_of t x)" for x
    by (simp add: t'_def bucket_of_def hb_Clear_def)
  have "GetBucketByKey alloc t (Some k) False = Some (bucket_at t ?i, 0, t)"
    using GetBucketByKey_found [OF wf kv(2) found] by auto
  then have del: "ht_Delete alloc free t kv = Some (fst (free (ht_pool t) (bucket_at t ?i) HashBucket_size), t')"
    using kv(1) W(1) [of k] W(4) [of ?i] next_i at
    by (simp add: ht_Delete_def Let_def case_prod_unfold t'_def bucket_of_def)
  have links: "linked t' x (ch x) \<and> closes t' x (ch x)" if "x < ht_bucket_num t" for x
  proof (cases "x = ?i")
    case True
    then show ?thesis using alone W(1) [of k] by (simp add: b bn)
  next
    case False
    have "?i \<notin> set (x # ch x)"
      using chain_of_index [OF wf that W(1) [of k], of ?i] False by (auto simp: chain_of_def)
    then have "hb_next (bucket_of t' y) = hb_next (bucket_of t y)" if "y \<in> set (x # ch x)" for y
      using that by (auto simp: b)
    then show ?thesis
      using ht_wf_chain(1,5) [OF wf that] bucket_links_cong [OF bn(1), of x "ch x"] by blast
  qed
  have wf': "ht_wf t' ch m"
  proof -
    have "sigs_distinct t' js" if "sigs_distinct t js" for js
      using that by (auto simp: sigs_distinct_def b)
    moreover have "payloads_ok t'"
      using W(3) by (simp add: payloads_ok_def t'_def hb_Clear_def)
    ultimately show ?thesis using wf links by (simp add: ht_wf_def bn)
  qed
  have j: "hit t k ?i" using found by (metis find_Some_iff nth_mem)
  have "?i \<in> set (chain_of ch ?i)" by (simp add: chain_of_def)
  then have "ht_lookup t' ch k' = (if same_key t k k' then None else ht_lookup t ch k')" for k'
    by (rule delete_one [OF wf wf' bn(1) _ j]) (simp_all add: b)
  then show ?thesis using del bn b wf' used by (intro exI [of _ t']) simp
qed

text \<open>Delete of a key in its first bucket moves the next bucket of the chain there.\<close>

definition takes_next :: "'p hash_table \<Rightarrow> 'p hash_table \<Rightarrow> nat \<Rightarrow> nat \<Rightarrow> bool" where
  "takes_next t t' i s \<longleftrightarrow>
     ht_bucket_num t' = ht_bucket_num t \<and> ht_first t' = ht_first t \<and> ht_attached t' = ht_attached t \<and>
     (payloads_ok t \<longrightarrow> payloads_ok t') \<and>
     (\<forall>x. bucket_of t' x = (if x = s then HashBucket_new else if x = i then bucket_of t s else bucket_of t x))"

lemma takes_nextD:
  assumes "takes_next t t' i s"
  shows "ht_bucket_num t' = ht_bucket_num t" "ht_first t' = ht_first t" "ht_attached t' = ht_attached t"
    "payloads_ok t \<Longrightarrow> payloads_ok t'"
    "bucket_of t' x = (if x = s then HashBucket_new else if x = i then bucket_of t s else bucket_of t x)"
  using assms by (simp_all add: takes_next_def)

lemma chained_bucket:
  assumes "ht_wf t ch m" "i < ht_bucket_num t" "ch i = s # rest"
  shows "hb_next (bucket_of t i) = s" "ht_bucket_num t \<le> s" "linked t s rest" "s \<noteq> i" "s \<notin> set rest" "i \<notin> set rest"
    "\<And>x. x < ht_bucket_num t \<Longrightarrow> x \<noteq> i \<Longrightarrow> s \<notin> set (chain_of ch x) \<and> i \<notin> set (chain_of ch x)"
proof -
  note H = ht_wf_chain [OF assms(1,2)]
  show "hb_next (bucket_of t i) = s" "ht_bucket_num t \<le> s" "linked t s rest" using H(1,3) by (auto simp: assms(3))
  show "s \<noteq> i" "s \<notin> set rest" "i \<notin> set rest" using H(2,4) by (auto simp: assms(3))
  show "s \<notin> set (chain_of ch x) \<and> i \<notin> set (chain_of ch x)" if "x < ht_bucket_num t" "x \<noteq> i" for x
    using chain_of_index [OF assms(1) that(1) assms(2)] that(2) assms(3) by (auto simp: chain_of_def)
qed

lemma takes_next_links:
  assumes wf: "ht_wf t ch m" and i: "i < ht_bucket_num t" "ch i = s # rest" and T: "takes_next t t' i s" and x: "x < ht_bucket_num t"
  shows "linked t' x ((ch(i := rest)) x) \<and> closes t' x ((ch(i := rest)) x)"
proof (cases "x = i")
  case True
  note C = chained_bucket [OF wf i] and N = takes_nextD [OF T]
  have "closes t i (s # rest)" using ht_wf_chain(5) [OF wf i(1)] i(2) by simp
  then have "closes t' i rest"
    using C(5,6) closes_cong [of rest t' t i] by (cases "rest = []") (auto simp: closes_def N(5))
  moreover have "linked t' i rest"
  proof (cases rest)
    case Nil
    then show ?thesis using C(3,4) by (simp add: N(1,5))
  next
    case (Cons r rs)
    have "linked t' r rs = linked t r rs"
      using C(5,6) Cons by (intro linked_cong N(1)) (auto simp: N(5))
    then show ?thesis using C(3-6) Cons by (simp add: N(1,5))
  qed
  ultimately show ?thesis by (simp add: True)
next
  case False
  note C = chained_bucket(7) [OF wf i x False] and N = takes_nextD [OF T]
  have "hb_next (bucket_of t' y) = hb_next (bucket_of t y)" if "y \<in> set (x # ch x)" for y
    using that C by (auto simp: N(5) chain_of_def)
  then show ?thesis using False ht_wf_chain(1,5) [OF wf x] bucket_links_cong [OF N(1), of x "ch x"] by auto
qed

lemma takes_next_sigs:
  assumes wf: "ht_wf t ch m" and i: "i < ht_bucket_num t" "ch i = s # rest" and T: "takes_next t t' i s" and x: "x < ht_bucket_num t"
  shows "sigs_distinct t' (chain_of (ch(i := rest)) x)"
proof (cases "x = i")
  case False
  have "sigs_distinct t (chain_of ch x)" using wf x by (simp add: ht_wf_def)
  then show ?thesis
    using False chained_bucket(7) [OF wf i x False] unfolding sigs_distinct_def chain_of_def takes_nextD(5) [OF T] by auto
next
  case True
  note C = chained_bucket [OF wf i] and N = takes_nextD [OF T]
  have "sigs_distinct t (chain_of ch i)" using wf i(1) by (simp add: ht_wf_def)
  then have D: "sigs_distinct t (i # s # rest)" by (simp add: chain_of_def i)
  show ?thesis
    unfolding sigs_distinct_def
  proof (intro ballI impI)
    fix y z
    assume yz: "y \<in> set (chain_of (ch(i := rest)) x)" "z \<in> set (chain_of (ch(i := rest)) x)" "y \<noteq> z"
      "BucketOccupied (bucket_of t' y)" "BucketOccupied (bucket_of t' z)"
    define g where "g u = (if u = i then s else u)" for u
    have g: "g u \<in> set (i # s # rest) \<and> bucket_of t' u = bucket_of t (g u)" if "u \<in> set (chain_of (ch(i := rest)) x)" for u
      using that True C(4-6) by (auto simp: g_def N(5) chain_of_def)
    have "g y \<noteq> g z" using yz(1-3) True C(4-6) by (auto simp: g_def chain_of_def)
    then show "bucket_sig (bucket_of t' y) \<noteq> bucket_sig (bucket_of t' z)"
      using D g [OF yz(1)] g [OF yz(2)] yz(4,5) unfolding sigs_distinct_def by metis
  qed
qed

lemma takes_next_wf:
  assumes wf: "ht_wf t ch m" and i: "i < ht_bucket_num t" "ch i = s # rest" and T: "takes_next t t' i s"
  shows "ht_wf t' (ch(i := rest)) m"
proof -
  let ?ch = "ch(i := rest)"
  note N = takes_nextD [OF T]
  have sub: "set (?ch x) \<subseteq> set (ch x)" for x by (auto simp: i)
  have "distinct (?ch x)" "set (?ch x) \<subseteq> {ht_bucket_num t..<m}" if "x < ht_bucket_num t" for x
    using ht_wf_chain(2,3) [OF wf that] sub [of x] i by (cases "x = i"; auto)+
  moreover have "set (?ch x) \<inter> set (?ch y) = {}" if "x < ht_bucket_num t" "y < ht_bucket_num t" "x \<noteq> y" for x y
  proof -
    have "set (ch x) \<inter> set (ch y) = {}" using wf that by (simp add: ht_wf_def)
    then show ?thesis using sub [of x] sub [of y] by blast
  qed
  moreover have "0 < ht_bucket_num t" "ht_bucket_num t \<le> m" "m \<le> 2 ^ 29" "0 < ht_first t" "ht_attached t" "payloads_ok t'"
    using wf N(4) by (simp_all add: ht_wf_def)
  ultimately show ?thesis
    using takes_next_links [OF wf i T] takes_next_sigs [OF wf i T] unfolding ht_wf_def N(1-3) by blast
qed

lemma takes_next_lookup:
  assumes wf: "ht_wf t ch m" and i: "i < ht_bucket_num t" "ch i = s # rest" and T: "takes_next t t' i s"
    and k: "i = ht_raw t k" "hit t k i"
  shows "ht_lookup t' (ch(i := rest)) k' = (if same_key t k k' then None else ht_lookup t ch k')"
  unfolding k(1)
proof (rule delete_lookup [OF wf takes_next_wf [OF wf i T, unfolded k(1)] takes_nextD(1) [OF T]])
  note C = chained_bucket [OF wf i] and N = takes_nextD(5) [OF T]
  fix x
  assume x: "x \<in> set (chain_of (ch(ht_raw t k := rest)) (ht_raw t k))"
  define y where "y = (if x = i then s else x)"
  have "y \<in> set (chain_of ch i)" "y \<noteq> i" "bucket_of t' x = bucket_of t y"
    using x C(4-6) by (auto simp: y_def N chain_of_def i simp flip: k(1))
  then show "\<not> hit t' k x"
    using hit_unique [OF wf i(1), of y i k] k(2) by (auto simp: hit_def chain_of_def)
next
  note C = chained_bucket [OF wf i] and N = takes_nextD(5) [OF T]
  fix j u v
  assume j: "j < ht_bucket_num t" "j \<noteq> ht_raw t k \<or> u \<noteq> key_sig_of k"
  show "(\<exists>x \<in> set (chain_of (ch(ht_raw t k := rest)) j). BucketOccupied (bucket_of t' x) \<and> bucket_sig (bucket_of t' x) = Some u \<and> hb_value (bucket_of t' x) = v)
    \<longleftrightarrow> (\<exists>x \<in> set (chain_of ch j). BucketOccupied (bucket_of t x) \<and> bucket_sig (bucket_of t x) = Some u \<and> hb_value (bucket_of t x) = v)"
  proof (cases "j = i")
    case False
    then have "bucket_of t' x = bucket_of t x" if "x \<in> set (chain_of ch j)" for x
      using C(7) [OF j(1) False] that by (auto simp: N)
    moreover have "chain_of (ch(i := rest)) j = chain_of ch j" using False by (simp add: chain_of_def)
    ultimately show ?thesis by (simp cong: bex_cong flip: k(1))
  next
    case True
    then have "bucket_sig (bucket_of t i) \<noteq> Some u" using j(2) k by (auto simp: hit_def)
    moreover have "bucket_of t' i = bucket_of t s" "bucket_of t' x = bucket_of t x" if "x \<in> set rest" for x
      using C(4-6) that by (auto simp: N)
    moreover have "bucket_of t' i = bucket_of t s" using C(4) by (simp add: N)
    ultimately show ?thesis using True by (simp add: chain_of_def i cong: bex_cong flip: k(1))
  qed
qed

lemma Delete_chained:
  assumes wf: "ht_wf t ch m" and kv: "kv_key kv = Some k" "k \<noteq> []"
    and found: "find (hit t k) (chain_of ch (ht_raw t k)) = Some (ht_raw t k)" and chain: "ch (ht_raw t k) = s # rest"
  shows "\<exists>t' ok. ht_Delete alloc free t kv = Some (ok, t') \<and> ht_wf t' (ch(ht_raw t k := rest)) m \<and>
    free (ht_pool t) (bucket_at t s) HashBucket_size = (ok, ht_pool t') \<and>
    ht_bucket_num t' = ht_bucket_num t \<and> ht_first t' = ht_first t \<and> ht_used t' = ht_used (ht_add_used (-1) t) \<and>
    (\<forall>x. x \<noteq> s \<longrightarrow> x \<noteq> ht_raw t k \<longrightarrow> bucket_of t' x = bucket_of t x) \<and>
    (\<forall>k'. ht_lookup t' (ch(ht_raw t k := rest)) k' = (if same_key t k k' then None else ht_lookup t ch k'))"
proof -
  let ?i = "ht_raw t k"
  note W = ht_wf_slot [OF wf]
  have i: "?i < ht_bucket_num t" by (rule W(1))
  note C = chained_bucket [OF wf i chain]
  have at: "ht_attached t" using wf by (simp add: ht_wf_def)
  let ?t1 = "ht_add_used (-1) (ht_upd (bucket_at t ?i) ClearBucketOccupied t)"
  let ?t2 = "ht_upd (bucket_at t s) hb_Clear (ht_upd (bucket_at t ?i) (\<lambda>_. bucket_of t s) ?t1)"
  let ?fr = "free (ht_pool t) (bucket_at t s) HashBucket_size"
  define t' where "t' = ?t2\<lparr>ht_pool := snd ?fr\<rparr>"
  have "GetBucketByKey alloc t (Some k) False = Some (bucket_at t ?i, 0, t)"
    using GetBucketByKey_found [OF wf kv(2) found] by auto
  then have del: "ht_Delete alloc free t kv = Some (fst ?fr, t')"
    using kv(1) i W(4) [of ?i] C(1,2,4) at
    by (simp add: ht_Delete_def Let_def case_prod_unfold t'_def bucket_of_def)
  have "payloads_ok t \<Longrightarrow> payloads_ok t'"
    by (simp add: payloads_ok_def bucket_of_def t'_def hb_Clear_def)
  then have T: "takes_next t t' ?i s"
    using C(4) by (simp add: takes_next_def t'_def bucket_of_def hb_Clear_def)
  have hi: "hit t k ?i" using found by (metis find_Some_iff nth_mem)
  have "free (ht_pool t) (bucket_at t s) HashBucket_size = (fst ?fr, ht_pool t')" by (simp add: t'_def)
  moreover have "ht_used t' = ht_used (ht_add_used (-1) t)"
    by (simp add: t'_def ht_used_def ht_add_used_def ht_upd_def Let_def)
  moreover have "bucket_of t' x = bucket_of t x" if "x \<noteq> s" "x \<noteq> ?i" for x
    using that takes_nextD(5) [OF T] by simp
  ultimately show ?thesis
    using del takes_next_wf [OF wf i chain T] takes_next_lookup [OF wf i chain T refl hi] takes_nextD(1,2) [OF T] by blast
qed

end
