(* ===== verification/Hash_Index.thy ===== *)
theory Hash_Index
  imports Hash_Table Upward_Pools Table_Session
begin

text \<open>
  What a client of \<open>MurMurHashTable\<close> sees: \<open>Search\<close> after \<open>Insert\<close> and \<open>Delete\<close>, the
  number of buckets, and the life of a table in a pool, from \<open>Init\<close> through a batch of insertions.
  The pool enters through the interface \<open>bump_pool\<close>: space is handed out upwards without gaps.
\<close>

section \<open>Keys\<close>

lemma key_sig_of_cases:
  "length k \<le> 2 \<Longrightarrow> key_sig_of k = Short k"
  "\<not> length k \<le> 2 \<Longrightarrow> key_sig_of k = Long (length k) (key_hash k kCheckKeyHashSeed)
     (le_bytes 2 (unat (key_hash k kCheckPayloadHashSeed)))"
  unfolding key_sig_of_def by (simp_all only: if_True if_False simp_thms)

lemma key_sig_of_short_inj:
  assumes "key_sig_of k = key_sig_of k'" "length k \<le> 4"
  shows "k = k'"
proof (cases "length k \<le> 2"; cases "length k' \<le> 2")
  assume n: "\<not> length k \<le> 2" "\<not> length k' \<le> 2"
  have eq: "length k = length k'" "key_hash k kCheckKeyHashSeed = key_hash k' kCheckKeyHashSeed"
    using assms(1) unfolding key_sig_of_cases(2) [OF n(1)] key_sig_of_cases(2) [OF n(2)] by (simp_all only: key_sig.inject)
  then show ?thesis
    using murmur_short_inj [OF refl eq(1) [symmetric] assms(2), of kCheckKeyHashSeed] unfolding key_hash_def by simp
qed (use assms(1) in \<open>simp_all only: key_sig_of_cases key_sig.inject key_sig.distinct not_False_eq_True\<close>)

lemma same_key_short:
  assumes "length k \<le> 4"
  shows "same_key t k k' \<longleftrightarrow> k = k'"
proof
  assume "same_key t k k'"
  then have sig: "key_sig_of k = key_sig_of k'" by (simp add: same_key_def)
  show "k = k'"
    using assms key_sig_of_short_inj [OF sig] by simp
qed (simp add: same_key_def)

lemma raw_cong: "ht_bucket_num t' = ht_bucket_num t \<Longrightarrow> same_key t' = same_key t"
  by (intro ext) (simp add: same_key_def ht_raw_def)

lemma Delete_missing:
  assumes "ht_wf t ch m" "kv_key kv = Some k" "k \<noteq> []" "ht_lookup t ch k = None"
  shows "ht_Delete alloc free t kv = Some (True, t)"
proof -
  have "find (hit t k) (chain_of ch (ht_raw t k)) = None" using assms(4) by (simp add: ht_lookup_def)
  then have "GetBucketByKey alloc t (Some k) False = Some (0, 0, t)"
    using GetBucketByKey_chain [OF ht_wf_slot(3) [OF assms(1)] ht_wf_slot(2) [OF assms(1)] assms(3), of alloc False]
    by (simp add: chain_of_def)
  then show ?thesis using assms(2) by (simp add: ht_Delete_def)
qed

lemma Search_from_lookup:
  assumes "ht_wf t ch m" "ht_wf t' ch' m'" "\<And>k'. ht_lookup t' ch' k' = (if P k' then r else ht_lookup t ch k')"
    and "kv_key kv = Some k" "k \<noteq> []"
  shows "ht_Search alloc t' kv =
    (if P k then Some (case r of None \<Rightarrow> (False, kv\<lparr>kv_value := -1\<rparr>) | Some v \<Rightarrow> (True, kv\<lparr>kv_value := v\<rparr>))
     else ht_Search alloc t kv)"
  using ht_Search_lookup [OF assms(2,4,5)] ht_Search_lookup [OF assms(1,4,5)] assms(3) by simp

section \<open>Insert, Delete, Search\<close>

lemma chain_below:
  assumes "ht_wf t ch m" "i < ht_bucket_num t" "x \<in> set (chain_of ch i)"
  shows "x < m"
proof -
  have "ht_bucket_num t \<le> m" using assms(1) by (simp add: ht_wf_def)
  then show ?thesis using ht_wf_chain(3) [OF assms(1,2)] assms(2,3) by (auto simp: chain_of_def)
qed

lemma Insert_step:
  assumes wf: "ht_wf t ch m" and kv: "kv_key kv = Some k" "k \<noteq> []" "length k < 256" "kv_payload kv = []"
    and alloc: "alloc (ht_pool t) HashBucket_size = Some (bucket_at t j, q)" "m \<le> j" "j < 2 ^ 29"
  shows "\<exists>t' ch' m'. ht_Insert alloc t kv = Some (True, t') \<and> ht_wf t' ch' m' \<and>
    (m' = m \<and> ht_pool t' = ht_pool t \<or> m' = Suc j \<and> ht_pool t' = q) \<and>
    ht_bucket_num t' = ht_bucket_num t \<and> ht_first t' = ht_first t \<and>
    (\<not> BucketOccupied (bucket_of t j) \<longrightarrow>
      ht_used t' = (if ht_lookup t ch k = None then Suc (ht_used t) mod 2 ^ 32 else ht_used t)) \<and>
    (\<forall>x \<ge> m'. BucketOccupied (bucket_of t' x) = BucketOccupied (bucket_of t x)) \<and>
    (\<forall>k'. ht_lookup t' ch' k' = (if same_key t k k' then Some (signed_take_bit 47 (kv_value kv)) else ht_lookup t ch k'))"
proof (cases "find (hit t k) (chain_of ch (ht_raw t k))")
  case (Some j')
  then have "j' \<in> set (chain_of ch (ht_raw t k)) \<and> hit t k j'" by (metis find_Some_iff nth_mem)
  then have "j' < m" "BucketOccupied (bucket_of t j')"
    using chain_below [OF wf ht_wf_slot(1) [OF wf]] by (auto simp: hit_def)
  then have "ht_used (store_value (bucket_at t j') (kv_value kv) t) = ht_used t"
    "\<And>x. m \<le> x \<Longrightarrow> bucket_of (store_value (bucket_at t j') (kv_value kv) t) x = bucket_of t x"
    by (simp_all add: bucket_of_def [symmetric])
  moreover have "ht_lookup t ch k \<noteq> None" using Some by (simp add: ht_lookup_def)
  ultimately show ?thesis
    using ht_Insert_existing [OF wf kv Some, of alloc]
    by (intro exI [of _ "store_value (bucket_at t j') (kv_value kv) t"] exI [of _ ch] exI [of _ m]) auto
next
  case None
  then have missing: "ht_lookup t ch k = None" by (simp add: ht_lookup_def)
  show ?thesis
  proof (cases "BucketOccupied (bucket_of t (ht_raw t k))")
    case True
    from ht_Insert_append [where alloc = alloc and j = j and q = q, OF wf kv None True alloc]
    obtain t' where "ht_Insert alloc t kv = Some (True, t')"
      "ht_wf t' (ch(ht_raw t k := ch (ht_raw t k) @ [j])) (Suc j)" "ht_pool t' = q"
      "ht_bucket_num t' = ht_bucket_num t" "ht_first t' = ht_first t"
      "\<not> BucketOccupied (bucket_of t j) \<longrightarrow> ht_used t' = Suc (ht_used t) mod 2 ^ 32"
      "\<forall>x. x \<noteq> j \<longrightarrow> BucketOccupied (bucket_of t' x) = BucketOccupied (bucket_of t x)"
      "\<forall>k'. ht_lookup t' (ch(ht_raw t k := ch (ht_raw t k) @ [j])) k' =
        (if same_key t k k' then Some (signed_take_bit 47 (kv_value kv)) else ht_lookup t ch k')"
      by (elim exE conjE)
    then show ?thesis
      by (intro exI [of _ t'] exI [of _ "ch(ht_raw t k := ch (ht_raw t k) @ [j])"] exI [of _ "Suc j"])
        (simp add: missing)
  next
    case False
    let ?t1 = "ht_upd (bucket_at t (ht_raw t k)) (set_key k) t"
    let ?t' = "store_value (bucket_at t (ht_raw t k)) (kv_value kv) ?t1"
    note sk = set_key_facts(3) [OF payloads_okD [OF ht_wf_slot(3) [OF wf]] kv(3)]
    have r: "ht_raw t k < m" using chain_below [OF wf ht_wf_slot(1) [OF wf], of "ht_raw t k" k] by (simp add: chain_of_def)
    have "ht_used ?t' = Suc (ht_used t) mod 2 ^ 32"
      using False sk by (simp add: bucket_of_def)
    moreover have "bucket_of ?t' x = bucket_of t x" if "m \<le> x" for x
      using that r by (simp add: store_value_def bucket_of_def)
    ultimately show ?thesis
      using ht_Insert_first [OF wf kv None False, of alloc] missing
      by (intro exI [of _ ?t'] exI [of _ ch] exI [of _ m]) simp
  qed
qed

text \<open>
  C12: in a well-formed table, with a pool that hands out the bucket of an index not in use, \<open>Insert\<close>
  of a key of 1 to 255 bytes succeeds and keeps the table well-formed; \<open>Search\<close> then gives
  the value (cut to 48 bits) for the key and what it gave before for every key with another
  signature.
\<close>

theorem ht_Insert_Search:
  assumes "ht_wf t ch m" "kv_key kv = Some k" "k \<noteq> []" "length k < 256" "kv_payload kv = []"
    and "alloc (ht_pool t) HashBucket_size = Some (bucket_at t j, q)" "m \<le> j" "j < 2 ^ 29"
  shows "\<exists>t' ch' m'. ht_Insert alloc t kv = Some (True, t') \<and> ht_wf t' ch' m' \<and>
    (\<forall>kv' k'. kv_key kv' = Some k' \<longrightarrow> k' \<noteq> [] \<longrightarrow> ht_Search alloc t' kv' =
      (if same_key t k k' then Some (True, kv'\<lparr>kv_value := signed_take_bit 47 (kv_value kv)\<rparr>)
       else ht_Search alloc t kv'))"
proof -
  from Insert_step [OF assms(1-5), of alloc j q] assms(6-8) obtain t' ch' m' where
    T: "ht_Insert alloc t kv = Some (True, t')" "ht_wf t' ch' m'"
    "\<And>k'. ht_lookup t' ch' k' = (if same_key t k k' then Some (signed_take_bit 47 (kv_value kv)) else ht_lookup t ch k')"
    by blast
  have "ht_Search alloc t' kv' =
      (if same_key t k k' then Some (True, kv'\<lparr>kv_value := signed_take_bit 47 (kv_value kv)\<rparr>)
       else ht_Search alloc t kv')" if "kv_key kv' = Some k'" "k' \<noteq> []" for kv' k'
    using Search_from_lookup [OF assms(1) T(2,3) that, of alloc] by simp
  then show ?thesis using T(1,2) by blast
qed

text \<open>A table of two empty buckets, and a pool that hands out the addresses of a list.\<close>

definition list_alloc :: "nat list \<Rightarrow> nat \<Rightarrow> (nat \<times> nat list) option" where
  "list_alloc p n = (case p of [] \<Rightarrow> None | a # q \<Rightarrow> Some (a, q))"

definition list_free :: "nat list \<Rightarrow> nat \<Rightarrow> nat \<Rightarrow> bool \<times> nat list" where
  "list_free p a n = (True, a # p)"

definition demo_table :: "nat list hash_table" where
  "demo_table = (HashTable_new [134, 151] (\<lambda>_. header_Init 2) (\<lambda>_. HashBucket_new))
     \<lparr>ht_attached := True, ht_bucket_num := 2, ht_header := 36, ht_first := 100\<rparr>"

lemma demo_table_wf: "ht_wf demo_table (\<lambda>_. []) 2"
  by (simp add: ht_wf_def demo_table_def HashTable_new_def payloads_ok_def bucket_of_def sigs_distinct_def chain_of_def)

theorem ht_Insert_Search_witness:
  "\<exists>t'. ht_Insert list_alloc demo_table \<lparr>kv_key = Some [1, 2, 3], kv_value = 42, kv_payload = []\<rparr> = Some (True, t') \<and>
     ht_Search list_alloc t' \<lparr>kv_key = Some [1, 2, 3], kv_value = 0, kv_payload = []\<rparr> =
       Some (True, \<lparr>kv_key = Some [1, 2, 3], kv_value = 42, kv_payload = []\<rparr>)"
proof -
  obtain t' where "ht_Insert list_alloc demo_table \<lparr>kv_key = Some [1, 2, 3], kv_value = 42, kv_payload = []\<rparr> = Some (True, t')"
    "\<forall>kv' k'. kv_key kv' = Some k' \<longrightarrow> k' \<noteq> [] \<longrightarrow> ht_Search list_alloc t' kv' =
      (if same_key demo_table [1, 2, 3] k' then Some (True, kv'\<lparr>kv_value := signed_take_bit 47 42\<rparr>)
       else ht_Search list_alloc demo_table kv')"
    using ht_Insert_Search [OF demo_table_wf, of "\<lparr>kv_key = Some [1, 2, 3], kv_value = 42, kv_payload = []\<rparr>" "[1, 2, 3]" list_alloc 2 "[151]"]
    by (auto simp: demo_table_def HashTable_new_def list_alloc_def bucket_at_def HashBucket_size_def)
  moreover have "same_key demo_table [1, 2, 3] [1, 2, 3]" by (simp add: same_key_def)
  ultimately show ?thesis by simp
qed

lemma Delete_step:
  assumes wf: "ht_wf t ch m" and kv: "kv_key kv = Some k" "k \<noteq> []" and there: "ht_lookup t ch k \<noteq> None"
  shows "\<exists>ok t' ch'. ht_Delete alloc free t kv = Some (ok, t') \<and> ht_wf t' ch' m \<and>
    (ok \<and> ht_pool t' = ht_pool t \<or> (\<exists>a. free (ht_pool t) a HashBucket_size = (ok, ht_pool t'))) \<and>
    ht_bucket_num t' = ht_bucket_num t \<and> ht_first t' = ht_first t \<and> ht_used t' = ht_used (ht_add_used (-1) t) \<and>
    (\<forall>x \<ge> m. BucketOccupied (bucket_of t' x) = BucketOccupied (bucket_of t x)) \<and>
    (\<forall>k'. ht_lookup t' ch' k' = (if same_key t k k' then None else ht_lookup t ch k'))"
proof -
  obtain j where j: "find (hit t k) (chain_of ch (ht_raw t k)) = Some j"
    using there by (auto simp: ht_lookup_def)
  then have "j \<in> set (chain_of ch (ht_raw t k))" by (metis find_Some_iff nth_mem)
  note below = chain_below [OF wf ht_wf_slot(1) [OF wf]] and jm = chain_below [OF wf ht_wf_slot(1) [OF wf] this]
  have i: "ht_raw t k < m" by (rule below [of _ k]) (simp add: chain_of_def)
  show ?thesis
  proof (cases "j = ht_raw t k")
    case False
    let ?t' = "ht_add_used (-1) (ht_upd (bucket_at t j) ClearBucketOccupied t)"
    have "ht_used ?t' = ht_used (ht_add_used (-1) t)"
      by (simp add: ht_used_def ht_add_used_def ht_upd_def Let_def)
    then show ?thesis using Delete_overflow [OF wf kv j False, of alloc free] jm
      by (intro exI [of _ True] exI [of _ ?t'] exI [of _ ch]) simp
  next
    case True
    show ?thesis
    proof (cases "ch (ht_raw t k)")
      case Nil
      then show ?thesis using Delete_alone [OF wf kv, of alloc free] j True i by (metis leD prod.collapse)
    next
      case (Cons s rest)
      then have "s < m" by (intro below [of _ k]) (simp add: chain_of_def)
      then show ?thesis using Delete_chained [OF wf kv, of s rest alloc free] j True Cons i by (metis leD)
    qed
  qed
qed

text \<open>
  C13: \<open>Delete\<close> of a key that is in the table returns and keeps the table well-formed; the key
  is then not found, and every key with another signature is found as before.
\<close>

theorem ht_Delete_Search:
  assumes "ht_wf t ch m" "kv_key kv = Some k" "k \<noteq> []" "ht_lookup t ch k \<noteq> None"
  shows "\<exists>ok t' ch'. ht_Delete alloc free t kv = Some (ok, t') \<and> ht_wf t' ch' m \<and>
    (\<forall>kv' k'. kv_key kv' = Some k' \<longrightarrow> k' \<noteq> [] \<longrightarrow> ht_Search alloc t' kv' =
      (if same_key t k k' then Some (False, kv'\<lparr>kv_value := -1\<rparr>) else ht_Search alloc t kv'))"
proof -
  from Delete_step [OF assms, of alloc free] obtain ok t' ch' where
    T: "ht_Delete alloc free t kv = Some (ok, t')" "ht_wf t' ch' m"
    "\<And>k'. ht_lookup t' ch' k' = (if same_key t k k' then None else ht_lookup t ch k')"
    by blast
  have "ht_Search alloc t' kv' =
      (if same_key t k k' then Some (False, kv'\<lparr>kv_value := -1\<rparr>) else ht_Search alloc t kv')"
    if "kv_key kv' = Some k'" "k' \<noteq> []" for kv' k'
    using Search_from_lookup [OF assms(1) T(2,3) that, of alloc] by simp
  then show ?thesis using T(1,2) by blast
qed

text \<open>A table with one key, in the first bucket of its chain.\<close>

definition demo_table1 :: "bytes \<Rightarrow> nat list hash_table" where
  "demo_table1 k = ht_upd (bucket_at demo_table (ht_raw demo_table k))
     (\<lambda>b. MarkBucketOccupied (SetValue (set_key k b) 7)) demo_table"

lemma demo_table_simps [simp]:
  "ht_bucket_num demo_table = 2" "ht_first demo_table = 100" "ht_attached demo_table"
  "bucket_of demo_table x = HashBucket_new" "ht_buckets demo_table a = HashBucket_new"
  by (simp_all add: demo_table_def HashTable_new_def bucket_of_def)

lemma demo_table1_facts:
  assumes "length k < 256"
  shows "ht_wf (demo_table1 k) (\<lambda>_. []) 2 \<and> hit (demo_table1 k) k (ht_raw demo_table k) \<and>
    ht_raw (demo_table1 k) = ht_raw demo_table"
proof -
  have 2: "length (hb_payload HashBucket_new) = 2" by simp
  note sk = set_key_facts [OF 2 assms]
  have raw: "ht_raw (demo_table1 k) = ht_raw demo_table"
    by (intro ext) (simp add: demo_table1_def ht_raw_def)
  have r: "ht_raw demo_table k < 2"
    using ht_wf_slot(1) [OF demo_table_wf, of k] by simp
  have "ht_wf (demo_table1 k) (\<lambda>_. []) 2"
  proof (rule insert_wf [OF demo_table_wf, where i = "ht_raw demo_table k" and j = "ht_raw demo_table k" and k = k])
    show "payloads_ok (demo_table1 k)"
      using sk(2) by (simp add: demo_table1_def payloads_ok_def)
    show "linked (demo_table1 k) x [] \<and> closes (demo_table1 k) x []" if "x < ht_bucket_num demo_table" for x
      using sk(4) that by (simp add: demo_table1_def)
  qed (use sk r in \<open>auto simp: demo_table1_def chain_of_def hit_def\<close>)
  moreover have "hit (demo_table1 k) k (ht_raw demo_table k)"
    using sk(1) by (simp add: hit_def demo_table1_def)
  ultimately show ?thesis using raw by simp
qed

theorem ht_Delete_Search_witness:
  "\<exists>ok t'. ht_Delete list_alloc list_free (demo_table1 [1]) \<lparr>kv_key = Some [1], kv_value = 0, kv_payload = []\<rparr> = Some (ok, t') \<and>
     ht_Search list_alloc t' \<lparr>kv_key = Some [1], kv_value = 0, kv_payload = []\<rparr> =
       Some (False, \<lparr>kv_key = Some [1], kv_value = -1, kv_payload = []\<rparr>)"
proof -
  have "ht_lookup (demo_table1 [1]) (\<lambda>_. []) [1] \<noteq> None"
    using demo_table1_facts [of "[1]"] by (simp add: ht_lookup_def chain_of_def)
  then obtain ok t' where "ht_Delete list_alloc list_free (demo_table1 [1])
      \<lparr>kv_key = Some [1], kv_value = 0, kv_payload = []\<rparr> = Some (ok, t')"
    "\<forall>kv' k'. kv_key kv' = Some k' \<longrightarrow> k' \<noteq> [] \<longrightarrow> ht_Search list_alloc t' kv' =
      (if same_key (demo_table1 [1]) [1] k' then Some (False, kv'\<lparr>kv_value := -1\<rparr>)
       else ht_Search list_alloc (demo_table1 [1]) kv')"
    using ht_Delete_Search [of "demo_table1 [1]" "\<lambda>_. []" 2 "\<lparr>kv_key = Some [1], kv_value = 0, kv_payload = []\<rparr>" "[1]" list_alloc list_free]
      demo_table1_facts [of "[1]"] by auto
  then show ?thesis by (simp add: same_key_def)
qed

section \<open>A table in a pool that grows upwards\<close>

definition put_kv :: "'p hash_table \<Rightarrow> kv_pair \<Rightarrow> (bytes \<Rightarrow> int option) \<Rightarrow> bytes \<Rightarrow> int option" where
  "put_kv t kv f k = (if same_key t (key_bytes kv) k then Some (signed_take_bit 47 (kv_value kv)) else f k)"

lemma put_kv_cong: "ht_bucket_num t' = ht_bucket_num t \<Longrightarrow> put_kv t' = put_kv t"
  by (drule raw_cong) (intro ext, simp add: put_kv_def)

lemma fold_clear:
  "fold (\<lambda>i t. ht_upd (bucket_at t i) hb_Clear t) is t =
    t\<lparr>ht_buckets := \<lambda>a. if a \<in> bucket_at t ` set is then HashBucket_new else ht_buckets t a\<rparr>"
proof (induction "is" arbitrary: t)
  case Nil
  then show ?case by simp
next
  case (Cons i js)
  have at: "bucket_at (ht_upd (bucket_at t i) hb_Clear t) = bucket_at t" by (intro ext) simp
  have "fold (\<lambda>i t. ht_upd (bucket_at t i) hb_Clear t) (i # js) t =
      fold (\<lambda>i t. ht_upd (bucket_at t i) hb_Clear t) js (ht_upd (bucket_at t i) hb_Clear t)" by simp
  also have "\<dots> = t\<lparr>ht_buckets := \<lambda>a. if a \<in> bucket_at t ` set (i # js) then HashBucket_new else ht_buckets t a\<rparr>"
    unfolding Cons.IH at by (auto simp: ht_upd_def hb_Clear_def fun_eq_iff)
  finally show ?case .
qed

lemma empty_wf:
  assumes "\<And>i. i < ht_bucket_num t \<Longrightarrow> bucket_of t i = HashBucket_new" "payloads_ok t" "ht_attached t" "0 < ht_first t"
    and "0 < ht_bucket_num t" "ht_bucket_num t \<le> 2 ^ 29"
  shows "ht_wf t (\<lambda>_. []) (ht_bucket_num t) \<and> (\<forall>k. ht_lookup t (\<lambda>_. []) k = None)"
proof -
  have "ht_lookup t (\<lambda>_. []) k = None" for k
    using assms(1) [of "ht_raw t k"] ht_raw_less [OF assms(5,6), of k] by (simp add: ht_lookup_def chain_of_def hit_def)
  then show ?thesis using assms by (simp add: ht_wf_def sigs_distinct_def chain_of_def)
qed

text \<open>The header of a table that can be found again: where its buckets begin and how many there are.\<close>

definition ht_stored :: "'p hash_table \<Rightarrow> bool" where
  "ht_stored t \<longleftrightarrow> ht_header t \<noteq> 0 \<and> table_CheckMagic (ht_headers t (ht_header t)) \<and>
     hh_bucket_num (ht_headers t (ht_header t)) = ht_bucket_num t \<and> ht_first t = ht_header t + TableHeader_size"

context bump_pool begin

lemma Insert_batch:
  assumes "ht_wf t ch m" "ok (ht_pool t)" "top (ht_pool t) = bucket_at t m" "\<forall>kv \<in> set kvs. plain_kv kv"
    and "HashBucket_size * length kvs \<le> room (ht_pool t)" "m + length kvs \<le> 2 ^ 29"
  shows "\<exists>t' ch' m'. idx_BatchInsert (ht_Insert alloc) t kvs True = Some (True, t') \<and> ht_wf t' ch' m' \<and>
    ht_bucket_num t' = ht_bucket_num t \<and> ht_lookup t' ch' = fold (put_kv t) kvs (ht_lookup t ch)"
  using assms
proof (induction kvs arbitrary: t ch m)
  case Nil
  then show ?case by auto
next
  case (Cons kv kvs)
  have kv: "plain_kv kv" using Cons.prems(4) by simp
  note K = plain_kvD [OF kv]
  obtain q where q: "alloc (ht_pool t) HashBucket_size = Some (bucket_at t m, q)" "ok q"
      "top q = bucket_at t m + HashBucket_size" "room q = room (ht_pool t) - HashBucket_size"
    using bump [OF Cons.prems(2), of HashBucket_size] Cons.prems(3,5) by (auto simp: HashBucket_size_def)
  obtain t1 ch1 m1 where T: "ht_Insert alloc t kv = Some (True, t1)" "ht_wf t1 ch1 m1"
      "m1 = m \<and> ht_pool t1 = ht_pool t \<or> m1 = Suc m \<and> ht_pool t1 = q"
      "ht_bucket_num t1 = ht_bucket_num t" "ht_first t1 = ht_first t"
      "\<forall>k'. ht_lookup t1 ch1 k' = (if same_key t (key_bytes kv) k' then Some (signed_take_bit 47 (kv_value kv)) else ht_lookup t ch k')"
    using Insert_step [OF Cons.prems(1), of kv "key_bytes kv" alloc m q] K q(1) Cons.prems(6) by auto
  have "\<exists>t' ch' m'. idx_BatchInsert (ht_Insert alloc) t1 kvs True = Some (True, t') \<and> ht_wf t' ch' m' \<and>
      ht_bucket_num t' = ht_bucket_num t1 \<and> ht_lookup t' ch' = fold (put_kv t1) kvs (ht_lookup t1 ch1)"
    using T(3,5) q Cons.prems(2-6)
    by (intro Cons.IH [OF T(2)]) (auto simp: bucket_at_def HashBucket_size_def)
  moreover have "ht_lookup t1 ch1 = put_kv t kv (ht_lookup t ch)"
    using T(6) by (intro ext) (simp add: put_kv_def)
  ultimately show ?case using T(1,4) put_kv_cong [OF T(4)] by auto
qed

lemma InitEmpty_fresh:
  assumes "ok (ht_pool t)" "ht_attached t" "payloads_ok t" "bn = ht_bucket_num t" "0 < bn" "bn \<le> 2 ^ 29"
    and "TableHeader_size + HashBucket_size * bn \<le> room (ht_pool t)"
  shows "\<exists>t'. ht_InitEmpty alloc t bn = Some (True, t') \<and> ht_wf t' (\<lambda>_. []) bn \<and> (\<forall>k. ht_lookup t' (\<lambda>_. []) k = None) \<and>
    ok (ht_pool t') \<and> top (ht_pool t') = bucket_at t' bn \<and> ht_bucket_num t' = bn \<and> ht_stored t' \<and> ht_used t' = 0 \<and>
    ht_header t' = top (ht_pool t) \<and>
    (\<forall>x \<ge> bn. top (ht_pool t) \<le> bucket_at t' x \<and> bucket_of t' x = ht_buckets t (bucket_at t' x)) \<and>
    room (ht_pool t') = room (ht_pool t) - (TableHeader_size + HashBucket_size * bn)"
proof -
  let ?a = "top (ht_pool t)"
  obtain q where q: "alloc (ht_pool t) (TableHeader_size + HashBucket_size * bn) = Some (?a, q)" "ok q"
      "top q = ?a + (TableHeader_size + HashBucket_size * bn)"
      "room q = room (ht_pool t) - (TableHeader_size + HashBucket_size * bn)"
    using bump [OF assms(1) _ assms(7)] by (auto simp: TableHeader_size_def)
  define t2 where "t2 = t\<lparr>ht_pool := q, ht_header := ?a, ht_headers := (ht_headers t)(?a := header_Init bn),
     ht_first := ?a + TableHeader_size\<rparr>"
  define t' where "t' = fold (\<lambda>i t. ht_upd (bucket_at t i) hb_Clear t) [0..<bn] t2"
  have F: "ht_bucket_num t' = bn" "ht_attached t'" "ht_pool t' = q" "ht_first t' = ?a + TableHeader_size"
    using assms by (simp_all add: t'_def fold_clear t2_def)
  have at: "bucket_at t' = bucket_at t2"
    unfolding t'_def fold_clear by (intro ext) (simp add: bucket_at_def)
  have "payloads_ok t'" using assms(3) by (simp add: payloads_ok_def t'_def fold_clear t2_def)
  moreover have "bucket_of t' i = HashBucket_new" if "i < ht_bucket_num t'" for i
    using that F(1) by (simp add: bucket_of_def at) (simp add: t'_def fold_clear)
  ultimately have "ht_wf t' (\<lambda>_. []) bn \<and> (\<forall>k. ht_lookup t' (\<lambda>_. []) k = None)"
    using empty_wf [of t'] F assms(5,6) by (simp add: TableHeader_size_def)
  moreover have "ht_InitEmpty alloc t bn = Some (True, t')"
    using q(1) assms(2) top_pos [OF assms(1)] by (simp add: ht_InitEmpty_def Let_def t'_def t2_def)
  moreover have "ht_stored t'" "ht_used t' = 0" "ht_header t' = ?a"
    using F(1,4) top_pos [OF assms(1)]
    by (simp_all add: ht_stored_def ht_used_def t'_def fold_clear t2_def header_Init_def table_CheckMagic_def)
  moreover have "bucket_of t' x = ht_buckets t (bucket_at t' x)" if "bn \<le> x" for x
  proof -
    have "bucket_at t2 x \<notin> bucket_at t2 ` {0..<bn}" using that by auto
    then show ?thesis by (simp add: bucket_of_def at) (simp add: t'_def fold_clear t2_def)
  qed
  ultimately show ?thesis using F q by (simp add: bucket_at_def)
qed

end

lemma fold_put_kv:
  assumes "\<forall>kv \<in> set kvs. length (key_bytes kv) \<le> 4"
  shows "fold (put_kv t) kvs f k =
    (case map_of (rev (map (\<lambda>kv. (key_bytes kv, signed_take_bit 47 (kv_value kv))) kvs)) k of None \<Rightarrow> f k | Some v \<Rightarrow> Some v)"
  using assms
proof (induction kvs arbitrary: f)
  case Nil
  then show ?case by simp
next
  case (Cons kv kvs)
  have "put_kv t kv f k = (if key_bytes kv = k then Some (signed_take_bit 47 (kv_value kv)) else f k)"
    using same_key_short [of "key_bytes kv" t k] Cons.prems by (simp add: put_kv_def)
  then show ?case using Cons.IH [of "put_kv t kv f"] Cons.prems
    by (simp add: map_add_def split: option.splits)
qed

text \<open>
  C11: \<open>Init\<close> of a new table in a mapped pool with no free blocks and room in its mapping, then \<open>BatchInsert\<close> of records with
  keys of 1 to 4 bytes: both succeed, and \<open>Search\<close> answers as the map of the records does, the
  last record of a key winning and its value cut to 48 bits.  The bounds are the room in the mapping, without
  which the table would be written outside it (\<open>mps_touch\<close>), the width of \<open>off_t\<close> for the pool and the 29 bits
  of a bucket's link.
\<close>

theorem mapped_table_batch:
  assumes "mps_good s" "p_free_list (snd s) = []" "payloads_ok t"
    and "0 < ht_bucket_num t" "ht_bucket_num t + length kvs \<le> 2 ^ 29"
    and "mps_used s + mp_min_expand (snd s) + 64 + 17 * (ht_bucket_num t + length kvs) \<le> 2 ^ 63"
    and "mps_top s + 64 + 17 * (ht_bucket_num t + length kvs) \<le> mps_end s"
    and "\<forall>kv \<in> set kvs. plain_kv kv \<and> length (key_bytes kv) \<le> 4"
  shows "\<exists>t1 t2. ht_Init mps_touch t (Some s) begin_addr True = Some (True, t1) \<and>
    idx_BatchInsert (ht_Insert mps_touch) t1 kvs True = Some (True, t2) \<and>
    (\<forall>kv k. kv_key kv = Some k \<longrightarrow> k \<noteq> [] \<longrightarrow> ht_Search mps_touch t2 kv = Some
      (case map_of (rev (map (\<lambda>kv. (key_bytes kv, signed_take_bit 47 (kv_value kv))) kvs)) k of
         None \<Rightarrow> (False, kv\<lparr>kv_value := -1\<rparr>) | Some v \<Rightarrow> (True, kv\<lparr>kv_value := v\<rparr>)))"
proof -
  let ?t = "t\<lparr>ht_attached := True, ht_pool := s\<rparr>" and ?bn = "ht_bucket_num t"
  have room: "TableHeader_size + HashBucket_size * ?bn \<le> mps_space s"
      "HashBucket_size * length kvs \<le> mps_space s - (TableHeader_size + HashBucket_size * ?bn)"
    unfolding mps_space_def mps_room_def TableHeader_size_def HashBucket_size_def min_def using assms(6,7) by auto
  have ok: "mps_inside s" using assms(1,2,7) by (simp add: mps_inside_def mps_fresh_def)
  obtain t1 where T1: "ht_InitEmpty mps_touch ?t ?bn = Some (True, t1)" "ht_wf t1 (\<lambda>_. []) ?bn"
      "\<forall>k. ht_lookup t1 (\<lambda>_. []) k = None" "mps_inside (ht_pool t1)" "mps_top (ht_pool t1) = bucket_at t1 ?bn"
      "mps_space (ht_pool t1) = mps_space s - (TableHeader_size + HashBucket_size * ?bn)"
    using touched_bump.InitEmpty_fresh [of ?t ?bn] ok assms(3-5) room(1) by (auto simp: payloads_ok_def)
  obtain t2 ch2 m2 where T2: "idx_BatchInsert (ht_Insert mps_touch) t1 kvs True = Some (True, t2)" "ht_wf t2 ch2 m2"
      "ht_lookup t2 ch2 = fold (put_kv t1) kvs (ht_lookup t1 (\<lambda>_. []))"
    using touched_bump.Insert_batch [OF T1(2,4,5), of kvs] assms(5,8) room(2) T1(6) by auto
  have L: "ht_lookup t2 ch2 k = map_of (rev (map (\<lambda>kv. (key_bytes kv, signed_take_bit 47 (kv_value kv))) kvs)) k" for k
    using T1(3) fold_put_kv [of kvs t1 "ht_lookup t1 (\<lambda>_. [])" k] assms(8) T2(3) by (simp split: option.splits)
  have "ht_Init mps_touch t (Some s) begin_addr True = Some (True, t1)" using T1(1) by (simp add: ht_Init_def)
  then show ?thesis using T2(1) ht_Search_lookup [OF T2(2), of _ _ mps_touch] L by auto
qed

theorem mapped_table_batch_witness:
  "\<exists>t1 t2. ht_Init mps_touch (HashTable_new demo_table_pool (\<lambda>_. header_Init 2) (\<lambda>_. HashBucket_new))
      (Some demo_table_pool) 0 True = Some (True, t1) \<and>
    idx_BatchInsert (ht_Insert mps_touch) t1
      [\<lparr>kv_key = Some [1], kv_value = 5, kv_payload = []\<rparr>, \<lparr>kv_key = Some [2, 3, 4], kv_value = 6, kv_payload = []\<rparr>,
       \<lparr>kv_key = Some [1], kv_value = 7, kv_payload = []\<rparr>] True = Some (True, t2) \<and>
    ht_Search mps_touch t2 \<lparr>kv_key = Some [1], kv_value = 0, kv_payload = []\<rparr> =
      Some (True, \<lparr>kv_key = Some [1], kv_value = 7, kv_payload = []\<rparr>)"
proof -
  let ?t = "HashTable_new demo_table_pool (\<lambda>_. header_Init 2) (\<lambda>_. HashBucket_new)"
  let ?kvs = "[\<lparr>kv_key = Some [1], kv_value = 5, kv_payload = []\<rparr>, \<lparr>kv_key = Some [2, 3, 4], kv_value = 6, kv_payload = []\<rparr>,
       \<lparr>kv_key = Some [1], kv_value = 7, kv_payload = []\<rparr>]"
  have pool: "mps_good demo_table_pool" "p_free_list (snd demo_table_pool) = []"
    using demo_table_pool_facts(1) by (simp_all add: mps_patient_def mps_fresh_def)
  have bn: "ht_bucket_num ?t = 2 ^ 18" "payloads_ok ?t"
    by (simp_all add: HashTable_new_def kDefaultBucketNum_def payloads_ok_def)
  obtain t1 t2 where T: "ht_Init mps_touch ?t (Some demo_table_pool) 0 True = Some (True, t1)"
    "idx_BatchInsert (ht_Insert mps_touch) t1 ?kvs True = Some (True, t2)"
    "\<forall>kv k. kv_key kv = Some k \<longrightarrow> k \<noteq> [] \<longrightarrow> ht_Search mps_touch t2 kv = Some
      (case map_of (rev (map (\<lambda>kv. (key_bytes kv, signed_take_bit 47 (kv_value kv))) ?kvs)) k of
         None \<Rightarrow> (False, kv\<lparr>kv_value := -1\<rparr>) | Some v \<Rightarrow> (True, kv\<lparr>kv_value := v\<rparr>))"
    using mapped_table_batch [of demo_table_pool ?t ?kvs 0] pool demo_table_pool_facts(3,4,6,7) bn
    by (auto simp: plain_kv_def key_bytes_def)
  have "signed_take_bit 47 7 = (7 :: int)" by (simp add: signed_take_bit_int_eq_self)
  then show ?thesis using T by (intro exI [of _ t1] exI [of _ t2]) (simp add: key_bytes_def)
qed

section \<open>The number of buckets, and keys that do not fit\<close>

lemma round_bucket_num_spec:
  assumes "1 \<le> i" "i \<le> 32" "tmp < n" "tmp = 2 ^ (i - 1)" "n \<le> 2 ^ 31"
  shows "\<exists>e. 1 \<le> e \<and> e \<le> 31 \<and> round_bucket_num i tmp n = 2 ^ e \<and> n \<le> 2 ^ e \<and> 2 ^ (e - 1) < n"
  using assms
proof (induction i tmp n rule: round_bucket_num.induct)
  case (1 i tmp n)
  have i: "i < 32"
  proof (rule ccontr)
    assume "\<not> i < 32"
    then have "i = 32" using "1.prems"(2) by simp
    then show False using "1.prems"(3-5) by simp
  qed
  show ?case
  proof (cases "n \<le> 2 ^ i")
    case True
    have "round_bucket_num i tmp n = 2 ^ i" using i True by (simp add: round_bucket_num.simps [of i])
    then show ?thesis using i True "1.prems"(1,3,4) by (intro exI [of _ i]) simp
  next
    case False
    have "round_bucket_num i tmp n = round_bucket_num (i + 1) (2 ^ i) n"
      using i False by (simp add: round_bucket_num.simps [of i])
    moreover have "\<exists>e. 1 \<le> e \<and> e \<le> 31 \<and> round_bucket_num (i + 1) (2 ^ i) n = 2 ^ e \<and> n \<le> 2 ^ e \<and> 2 ^ (e - 1) < n"
      using i False "1.prems"(5) by (intro "1.IH" [OF i False]) simp_all
    ultimately show ?thesis by simp
  qed
qed

text \<open>
  \<open>SetBucketNum\<close> of a number up to \<open>2 ^ 31\<close> chooses the least power of two that is at least the
  number and at least 2, and a key's first bucket is then its hash modulo that power.
\<close>

theorem ht_SetBucketNum_least:
  assumes "n \<le> 2 ^ 31"
  shows "\<exists>e. 1 \<le> e \<and> e \<le> 31 \<and> ht_bucket_num (ht_SetBucketNum t n) = 2 ^ e \<and> n \<le> 2 ^ e \<and>
    2 ^ (e - 1) < max n 2 \<and>
    (\<forall>k. ht_raw (ht_SetBucketNum t n) k = unat (key_hash k kRawKeyHashSeed) mod 2 ^ e)"
proof -
  have num: "ht_bucket_num (ht_SetBucketNum t n) = round_bucket_num 1 1 (max n 2)"
    by (simp add: ht_SetBucketNum_def max_def)
  have "\<exists>e. 1 \<le> e \<and> e \<le> 31 \<and> round_bucket_num 1 1 (max n 2) = 2 ^ e \<and> max n 2 \<le> 2 ^ e \<and> 2 ^ (e - 1) < max n 2"
    using assms by (intro round_bucket_num_spec) simp_all
  then obtain e where e: "1 \<le> e" "e \<le> 31" "ht_bucket_num (ht_SetBucketNum t n) = 2 ^ e" "max n 2 \<le> 2 ^ e" "2 ^ (e - 1) < max n 2"
    unfolding num by blast
  have "ht_raw (ht_SetBucketNum t n) k = unat (key_hash k kRawKeyHashSeed) mod 2 ^ e" for k
  proof -
    have "(of_nat (2 ^ e) :: u32) - 1 = mask e" by (simp add: mask_eq_decr_exp)
    then have "ht_raw (ht_SetBucketNum t n) k = unat (take_bit e (key_hash k kRawKeyHashSeed))"
      by (simp add: ht_raw_def e(3) take_bit_eq_mask)
    then show ?thesis unfolding unsigned_take_bit_eq by (simp only: take_bit_eq_mod)
  qed
  then show ?thesis using e by auto
qed

theorem ht_SetBucketNum_least_witness:
  "\<exists>e. ht_bucket_num (ht_SetBucketNum demo_table 5) = 2 ^ e \<and> 5 \<le> (2 :: nat) ^ e \<and> (2 :: nat) ^ (e - 1) < 5"
  using ht_SetBucketNum_least [of 5 demo_table] by auto

text \<open>
  C30: a bucket keeps 8 bits of a key's length: in a well-formed table a key of 256 bytes or more is
  never found, whatever was inserted.
\<close>

theorem ht_long_key_lost:
  assumes "ht_wf t ch m" "kv_key kv = Some k" "256 \<le> length k"
  shows "ht_Search alloc t kv = Some (False, kv\<lparr>kv_value := -1\<rparr>)"
proof -
  have "\<not> hit t k j" for j
  proof -
    have "unat (hb_key_size (bucket_of t j)) < 256"
      using unsigned_less [of "hb_key_size (bucket_of t j)", where 'a = nat] by simp
    moreover have "key_sig_of k = Long (length k) (key_hash k kCheckKeyHashSeed)
        (le_bytes 2 (unat (key_hash k kCheckPayloadHashSeed)))"
      using assms(3) by (intro key_sig_of_cases(2)) simp
    ultimately show ?thesis using assms(3) by (auto simp: hit_def bucket_sig_def Let_def split: if_splits)
  qed
  then have "ht_lookup t ch k = None" by (simp add: ht_lookup_def find_None_iff)
  moreover have "k \<noteq> []" using assms(3) by auto
  ultimately show ?thesis using ht_Search_lookup [OF assms(1,2), of alloc] by simp
qed

theorem ht_long_key_lost_witness:
  "ht_Search list_alloc (demo_table1 [1]) \<lparr>kv_key = Some (replicate 256 1), kv_value = 0, kv_payload = []\<rparr> =
     Some (False, \<lparr>kv_key = Some (replicate 256 1), kv_value = -1, kv_payload = []\<rparr>)"
  using ht_long_key_lost [of "demo_table1 [1]" "\<lambda>_. []" 2
      "\<lparr>kv_key = Some (replicate 256 1), kv_value = 0, kv_payload = []\<rparr>" "replicate 256 1" list_alloc]
    demo_table1_facts [of "[1]"] by simp

end
