(* ===== verification/Hash_Iterator.thy ===== *)
theory Hash_Iterator
  imports Hash_Index
begin

text \<open>
  The iterator of the hash table (\<open>Index::Iterator\<close> of \<open>index.h\<close> with \<open>Begin\<close>, \<open>GetNextElement\<close> and
  \<open>ConvertElementToDocId\<close> of \<open>murmurhash_table.cc\<close>), and the client's loop over a table.
  \<open>entries_from\<close> is the order in which the iterator sees the occupied buckets: chain after chain,
  the first bucket before the overflow buckets behind it.  The lemmas take the inner loops one by
  one: along a chain, back to its first bucket, and on to the next chain.
\<close>

section \<open>The iterator\<close>

text \<open>
  An iterator is a table and an element; the table is fixed here.  \<open>end_element\<close> is what \<open>End\<close> and
  the default constructor give.  Both increments advance and return the iterator itself.
\<close>

definition end_element :: "nat \<times> nat" where
  "end_element = (0, 0)"

definition iter_deref :: "'p hash_table \<Rightarrow> nat \<times> nat \<Rightarrow> int" where
  "iter_deref t it = ht_ConvertElementToDocId t it"

definition iter_inc :: "'p hash_table \<Rightarrow> nat \<times> nat \<Rightarrow> (nat \<times> nat) option" where
  "iter_inc t it = ht_GetNextElement t it 1"

definition iter_plus :: "'p hash_table \<Rightarrow> nat \<times> nat \<Rightarrow> int \<Rightarrow> (nat \<times> nat) option" where
  "iter_plus t it n = ht_GetNextElement t it n"

definition iter_eq :: "nat \<times> nat \<Rightarrow> nat \<times> nat \<Rightarrow> bool" where
  "iter_eq it it' \<longleftrightarrow> fst it = fst it' \<and> snd it = snd it'"

text \<open>The values a client reads that increments the iterator until it is \<open>End\<close>.\<close>

partial_function (option) iter_values :: "'p hash_table \<Rightarrow> nat \<times> nat \<Rightarrow> int list option" where
  "iter_values t it =
     (if iter_eq it end_element then Some []
      else Option.bind (iter_inc t it) (\<lambda>it'.
        Option.bind (iter_values t it') (\<lambda>vs. Some (iter_deref t it # vs))))"

section \<open>The order of a table\<close>

definition occupied :: "'p hash_table \<Rightarrow> nat list \<Rightarrow> nat list" where
  "occupied t js = filter (\<lambda>j. BucketOccupied (bucket_of t j)) js"

definition rows_from :: "'p hash_table \<Rightarrow> (nat \<Rightarrow> nat list) \<Rightarrow> nat \<Rightarrow> nat list" where
  "rows_from t ch i = concat (map (chain_of ch) [i..<ht_bucket_num t])"

definition ht_entries :: "'p hash_table \<Rightarrow> (nat \<Rightarrow> nat list) \<Rightarrow> nat list" where
  "ht_entries t ch = occupied t (rows_from t ch 0)"

text \<open>The bucket the loop answers with, the \<open>n\<close>-th from the front, or \<open>nullptr\<close>.\<close>

definition nth_entry :: "'p hash_table \<Rightarrow> nat list \<Rightarrow> int \<Rightarrow> nat" where
  "nth_entry t js n = (if nat n \<le> length js then bucket_at t (js ! (nat n - 1)) else 0)"

lemma occupied_simps [simp]:
  "occupied t [] = []"
  "occupied t (j # js) = (if BucketOccupied (bucket_of t j) then j # occupied t js else occupied t js)"
  "occupied t (js @ ks) = occupied t js @ occupied t ks"
  by (simp_all add: occupied_def)

lemma nth_entry_Cons: "1 \<le> n \<Longrightarrow> nth_entry t (j # js) n = (if n = 1 then bucket_at t j else nth_entry t js (n - 1))"
  by (auto simp: nth_entry_def nth_Cons' nat_diff_distrib Suc_le_eq)

lemma nth_entry_append: "1 \<le> n \<Longrightarrow> nth_entry t (js @ ks) n =
    (if nat n \<le> length js then nth_entry t js n else nth_entry t ks (n - int (length js)))"
  by (auto simp: nth_entry_def nth_append nat_diff_distrib)

lemma rows_from_step: "i < ht_bucket_num t \<Longrightarrow> rows_from t ch i = chain_of ch i @ rows_from t ch (Suc i)"
  by (simp add: rows_from_def upt_rec)

section \<open>The loops of \<open>GetNextElement\<close>\<close>

lemma next_in_chain:
  assumes "linked t j js" "1 \<le> n"
  shows "ht_next_in_chain t (bucket_at t j) n =
    Some (if nat n \<le> length (occupied t js) then Inl (nth_entry t (occupied t js) n)
          else Inr (bucket_at t (last (j # js)), n - int (length (occupied t js))))"
  using assms
proof (induction js arbitrary: j n)
  case Nil
  then show ?case by (subst ht_next_in_chain.simps) (simp add: bucket_of_def)
next
  case (Cons k js)
  have k: "hb_next (ht_buckets t (bucket_at t j)) = k" "ht_bucket_num t \<le> k" "linked t k js"
    using Cons.prems(1) by (simp_all add: bucket_of_def)
  show ?case
  proof (cases "BucketOccupied (bucket_of t k) \<and> n \<noteq> 1")
    case True
    then show ?thesis
      using k Cons.IH [OF k(3), of "n - 1"] Cons.prems(2)
      by (subst ht_next_in_chain.simps) (auto simp: bucket_of_def nth_entry_Cons)
  next
    case False
    then show ?thesis
      using k Cons.IH [OF k(3) Cons.prems(2)] Cons.prems(2)
      by (subst ht_next_in_chain.simps) (auto simp: bucket_of_def nth_entry_Cons)
  qed
qed

lemma bucket_at_less [simp]: "bucket_at t i < bucket_at t j \<longleftrightarrow> i < j" "bucket_at t i \<le> bucket_at t j \<longleftrightarrow> i \<le> j"
  by (auto simp: bucket_at_def HashBucket_size_def)

lemma bucket_at_Suc: "bucket_at t i + HashBucket_size = bucket_at t (Suc i)"
  by (simp add: bucket_at_def)

lemma back_to_first:
  assumes "ht_wf t ch m" "i < ht_bucket_num t"
  shows "ht_back t (bucket_at t (last (chain_of ch i))) = Some (bucket_at t i)"
proof -
  have first: "ht_back t (bucket_at t i) = Some (bucket_at t i)"
    using assms(2) by (subst ht_back.simps) simp
  note H = ht_wf_chain [OF assms]
  show ?thesis
  proof (cases "ch i = []")
    case True
    then show ?thesis using first by (simp add: chain_of_def)
  next
    case False
    have "ht_bucket_num t \<le> last (ch i)" using H(3) last_in_set [OF False] by auto
    moreover have "hb_next (bucket_of t (last (ch i))) = i" using H(5) False by (simp add: closes_def)
    ultimately show ?thesis
      using first False by (subst ht_back.simps) (simp add: chain_of_def bucket_of_def)
  qed
qed

lemma linked_suffix: "\<exists>is. i # is = pre @ j # js \<and> linked t i is \<Longrightarrow> linked t j js"
proof (induction pre arbitrary: i)
  case Nil
  then show ?case by auto
next
  case (Cons a pre)
  then obtain k ks where "pre @ j # js = k # ks" "linked t k ks"
    by (cases pre) auto
  then show ?case using Cons.IH [of k] by metis
qed

lemma next_loop:
  assumes wf: "ht_wf t ch m" and "i < ht_bucket_num t" "chain_of ch i = pre @ j # js" "1 \<le> n"
  shows "ht_next_loop t (bucket_at t j) n = Some (nth_entry t (occupied t (j # js @ rows_from t ch (Suc i))) n)"
  using assms(2-)
proof (induction "ht_bucket_num t - i" arbitrary: i pre j js n rule: less_induct)
  case less
  note H = ht_wf_chain [OF wf less.prems(1)]
  let ?o = "BucketOccupied (bucket_of t j)"
  have linked: "linked t j js"
    using H(1) less.prems(2) by (intro linked_suffix [of i pre j js t]) (auto simp: chain_of_def)
  have lst: "last (j # js) = last (chain_of ch i)" using less.prems(2) by simp
  show ?case
  proof (cases "?o \<and> n = 1")
    case True
    then show ?thesis
      by (subst ht_next_loop.simps) (simp add: bucket_of_def nth_entry_Cons)
  next
    case False
    define n' where "n' = (if ?o then n - 1 else n)"
    have n': "1 \<le> n'" using False less.prems(3) by (auto simp: n'_def)
    let ?L = "occupied t js" and ?R = "occupied t (rows_from t ch (Suc i))"
    have spec: "nth_entry t (occupied t (j # js @ rows_from t ch (Suc i))) n = nth_entry t (?L @ ?R) n'"
      using False less.prems(3) by (auto simp: n'_def nth_entry_Cons)
    note step = ht_next_loop.simps [of t "bucket_at t j" n, folded bucket_of_def, folded n'_def]
    have test: "\<not> (?o \<and> n - 1 \<le> 0)" using False less.prems(3) by auto
    show ?thesis
    proof (cases "nat n' \<le> length ?L")
      case True
      then show ?thesis
        unfolding spec step if_not_P [OF test] using next_in_chain [OF linked n'] True
        by (simp add: nth_entry_append n')
    next
      case far: False
      let ?n = "n' - int (length ?L)"
      have tail: "ht_next_in_chain t (bucket_at t j) n' = Some (Inr (bucket_at t (last (chain_of ch i)), ?n))"
        using next_in_chain [OF linked n'] far lst by simp
      have rest: "nth_entry t (?L @ ?R) n' = nth_entry t ?R ?n"
        using far n' by (simp add: nth_entry_append)
      have "1 \<le> ?n" using far n' by auto
      show ?thesis
      proof (cases "Suc i < ht_bucket_num t")
        case True
        have "ht_next_loop t (bucket_at t (Suc i)) ?n = Some (nth_entry t ?R ?n)"
          using less.hyps [of "Suc i" "[]" "Suc i" "ch (Suc i)" ?n] True less.prems(1) \<open>1 \<le> ?n\<close>
            rows_from_step [OF True, of ch] by (simp add: chain_of_def)
        then show ?thesis
          unfolding spec rest step if_not_P [OF test] using tail back_to_first [OF wf less.prems(1)] True
          by (simp add: bucket_at_Suc)
      next
        case end_of_table: False
        then have "?R = []" by (simp add: rows_from_def)
        then show ?thesis
          unfolding spec rest step if_not_P [OF test] using tail back_to_first [OF wf less.prems(1)] end_of_table \<open>1 \<le> ?n\<close>
          by (simp add: bucket_at_Suc nth_entry_def)
      qed
    qed
  qed
qed


section \<open>Elements\<close>

lemma filter_split:
  assumes "p < length (filter P xs)"
  shows "\<exists>us vs. xs = us @ filter P xs ! p # vs \<and> P (filter P xs ! p) \<and> drop (Suc p) (filter P xs) = filter P vs"
  using assms
proof (induction xs arbitrary: p)
  case Nil
  then show ?case by simp
next
  case (Cons x xs)
  show ?case
  proof (cases "P x \<and> p = 0")
    case True
    then show ?thesis by (intro exI [of _ "[]"] exI [of _ xs]) simp
  next
    case False
    define q where "q = (if P x then p - 1 else p)"
    have q: "q < length (filter P xs)" "filter P (x # xs) ! p = filter P xs ! q"
      "drop (Suc p) (filter P (x # xs)) = drop (Suc q) (filter P xs)"
      using Cons.prems False by (cases p; auto simp: q_def)+
    from Cons.IH [OF q(1)] obtain us vs where "xs = us @ filter P xs ! q # vs" "P (filter P xs ! q)"
      "drop (Suc q) (filter P xs) = filter P vs" by blast
    then show ?thesis unfolding q(2,3) by (intro exI [of _ "x # us"] exI [of _ vs]) simp
  qed
qed

lemma entry_split:
  assumes "p < length (occupied t (rows_from t ch i))" "i \<le> ht_bucket_num t"
  shows "\<exists>i' pre j js. i' < ht_bucket_num t \<and> chain_of ch i' = pre @ j # js \<and> BucketOccupied (bucket_of t j) \<and>
    occupied t (rows_from t ch i) ! p = j \<and>
    drop (Suc p) (occupied t (rows_from t ch i)) = occupied t (js @ rows_from t ch (Suc i'))"
  using assms
proof (induction "ht_bucket_num t - i" arbitrary: i p rule: less_induct)
  case less
  then have i: "i < ht_bucket_num t" by (cases "i = ht_bucket_num t") (auto simp: rows_from_def)
  note rows = rows_from_step [OF i, of ch]
  let ?C = "occupied t (chain_of ch i)"
  show ?case
  proof (cases "p < length ?C")
    case True
    from filter_split [OF True [unfolded occupied_def], folded occupied_def] obtain us vs where
      "chain_of ch i = us @ ?C ! p # vs" "BucketOccupied (bucket_of t (?C ! p))" "drop (Suc p) ?C = occupied t vs"
      by blast
    then show ?thesis
      using i True rows by (intro exI [of _ i] exI [of _ us] exI [of _ "?C ! p"] exI [of _ vs]) (simp add: nth_append Suc_le_eq)
  next
    case False
    have "p - length ?C < length (occupied t (rows_from t ch (Suc i)))" "Suc i \<le> ht_bucket_num t"
      using less.prems False rows i by auto
    from less.hyps [OF _ this] i show ?thesis
      using False rows by (simp add: nth_append Suc_diff_le)
  qed
qed

definition entry_element :: "'p hash_table \<Rightarrow> (nat \<Rightarrow> nat list) \<Rightarrow> nat \<Rightarrow> nat \<Rightarrow> nat \<times> nat" where
  "entry_element t ch meta p =
     (if p < length (ht_entries t ch) then (meta, bucket_at t (ht_entries t ch ! p)) else end_element)"

lemma iter_plus_entry:
  assumes wf: "ht_wf t ch m" and p: "p < length (ht_entries t ch)"
  shows "iter_plus t (entry_element t ch meta p) (int n) = Some (entry_element t ch meta (p + n))"
proof -
  let ?E = "ht_entries t ch"
  obtain i pre j js where j: "i < ht_bucket_num t" "chain_of ch i = pre @ j # js" "BucketOccupied (bucket_of t j)" "?E ! p = j"
    "drop (Suc p) ?E = occupied t (js @ rows_from t ch (Suc i))"
    using entry_split [OF p [unfolded ht_entries_def]] by (auto simp: ht_entries_def)
  have E: "occupied t (j # js @ rows_from t ch (Suc i)) = drop p ?E"
    using j(3-5) Cons_nth_drop_Suc [OF p] by simp
  have pos: "(bucket_at t x = 0) = False" for x using ht_wf_slot(4) [OF wf] by simp
  have "ht_next_loop t (bucket_at t j) (int n + 1) = Some (nth_entry t (drop p ?E) (int n + 1))"
    using next_loop [OF wf j(1,2), of "int n + 1"] unfolding E by simp
  moreover have "nth_entry t (drop p ?E) (int n + 1) = (if p + n < length ?E then bucket_at t (?E ! (p + n)) else 0)"
    using p by (auto simp: nth_entry_def nat_add_distrib)
  moreover have "ht_first t \<le> bucket_at t j" by (simp add: bucket_at_def)
  ultimately show ?thesis
    using p j(3,4) by (simp add: pos iter_plus_def entry_element_def ht_GetNextElement_def bucket_of_def end_element_def)
qed

lemma iter_inc_entry:
  assumes "ht_wf t ch m" "p < length (ht_entries t ch)"
  shows "iter_inc t (entry_element t ch meta p) = Some (entry_element t ch meta (Suc p))"
  using iter_plus_entry [OF assms, of meta 1] by (simp add: iter_plus_def iter_inc_def)

lemma Begin_entry:
  assumes wf: "ht_wf t ch m" and used: "ht_GetSize t \<noteq> 0"
  shows "ht_Begin data_addr t (-1) = Some (entry_element t ch (ht_header t) 0)"
proof -
  have n: "0 < ht_bucket_num t" using wf by (simp add: ht_wf_def)
  have h: "ht_header t \<noteq> 0" "hh_used_size (ht_headers t (ht_header t)) \<noteq> 0"
    using used by (auto simp: ht_GetSize_def split: if_splits)
  have first: "ht_first t = bucket_at t 0" by (simp add: bucket_at_def)
  have E: "ht_entries t ch = occupied t (0 # ch 0 @ rows_from t ch (Suc 0))"
    using rows_from_step [OF n, of ch] by (simp add: ht_entries_def chain_of_def)
  have pos: "(bucket_at t x = 0) = False" for x using ht_wf_slot(4) [OF wf] by simp
  show ?thesis
  proof (cases "BucketOccupied (bucket_of t 0)")
    case True
    then show ?thesis
      using h E by (simp add: ht_Begin_def entry_element_def first bucket_of_def)
  next
    case False
    have "ht_next_loop t (bucket_at t 0) 1 = Some (nth_entry t (ht_entries t ch) 1)"
      using next_loop [OF wf n, of "[]" 0 "ch 0" 1] E by (simp add: chain_of_def)
    then show ?thesis
      using h False
      by (auto simp: pos ht_Begin_def ht_GetNextElement_def entry_element_def first bucket_of_def nth_entry_def end_element_def Suc_le_eq)
  qed
qed

lemma iter_values_entry:
  assumes wf: "ht_wf t ch m" and "p \<le> length (ht_entries t ch)"
  shows "iter_values t (entry_element t ch meta p) =
    Some (map (\<lambda>j. hb_value (bucket_of t j)) (drop p (ht_entries t ch)))"
  using assms(2)
proof (induction "length (ht_entries t ch) - p" arbitrary: p)
  case 0
  then show ?case by (subst iter_values.simps) (simp add: entry_element_def iter_eq_def)
next
  case (Suc d)
  then have p: "p < length (ht_entries t ch)" by simp
  have pos: "(bucket_at t x = 0) = False" for x using ht_wf_slot(4) [OF wf] by simp
  have "iter_values t (entry_element t ch meta (Suc p)) =
      Some (map (\<lambda>j. hb_value (bucket_of t j)) (drop (Suc p) (ht_entries t ch)))"
    using Suc.hyps(2) by (intro Suc.hyps(1)) (use p in auto)
  moreover have "\<not> iter_eq (entry_element t ch meta p) end_element"
    "iter_deref t (entry_element t ch meta p) = hb_value (bucket_of t (ht_entries t ch ! p))"
    using p by (simp_all add: pos iter_eq_def end_element_def entry_element_def iter_deref_def
        ht_ConvertElementToDocId_def bucket_of_def)
  moreover have "map f (drop p (ht_entries t ch)) = f (ht_entries t ch ! p) # map f (drop (Suc p) (ht_entries t ch))" for f :: "nat \<Rightarrow> int"
    using Cons_nth_drop_Suc [OF p] by (metis list.map(2))
  ultimately show ?case
    using iter_inc_entry [OF wf p, of meta] by (subst iter_values.simps) simp
qed


lemma entries_set: "set (ht_entries t ch) = {j. BucketOccupied (bucket_of t j) \<and> (\<exists>i < ht_bucket_num t. j \<in> set (chain_of ch i))}"
  by (auto simp: ht_entries_def occupied_def rows_from_def)

lemma entries_distinct:
  assumes "ht_wf t ch m"
  shows "distinct (ht_entries t ch)"
proof -
  have "distinct (rows_from t ch i)" for i
  proof (induction "ht_bucket_num t - i" arbitrary: i)
    case 0
    then show ?case by (simp add: rows_from_def)
  next
    case (Suc d)
    then have i: "i < ht_bucket_num t" by simp
    have "x \<notin> set (rows_from t ch (Suc i))" if "x \<in> set (chain_of ch i)" for x
      using chain_of_index [OF assms i _ that] by (auto simp: rows_from_def)
    moreover have "distinct (chain_of ch i)"
      using ht_wf_chain(2,4) [OF assms i] by (simp add: chain_of_def)
    moreover have "distinct (rows_from t ch (Suc i))" using Suc by simp
    ultimately show ?case using rows_from_step [OF i, of ch] by auto
  qed
  then show ?thesis by (simp add: ht_entries_def occupied_def)
qed

lemma found_is_entry:
  assumes wf: "ht_wf t ch m" and "kv_key kv = Some k" "k \<noteq> []" "ht_Search alloc t kv = Some (True, kv')"
  shows "\<exists>j \<in> set (ht_entries t ch). hit t k j \<and> hb_value (bucket_of t j) = kv_value kv'"
proof -
  have "ht_lookup t ch k = Some (kv_value kv')"
    using ht_Search_lookup [OF wf assms(2,3), of alloc] assms(4) by (auto split: option.splits)
  then show ?thesis
    using ht_lookup_iff [OF wf, of k] ht_wf_slot(1) [OF wf, of k] by (auto simp: entries_set hit_def)
qed

text \<open>
  C14: A client that takes \<open>Begin\<close> of a well-formed table that counts an entry and increments
  the iterator until it is \<open>End\<close> gets there, and has then read the value of each occupied bucket
  of the table exactly once; every key that \<open>Search\<close> finds is one of these buckets.
\<close>

theorem ht_iteration:
  assumes "ht_wf t ch m" "ht_GetSize t \<noteq> 0"
  shows "\<exists>it es. ht_Begin data_addr t (-1) = Some it \<and>
    iter_values t it = Some (map (\<lambda>j. hb_value (bucket_of t j)) es) \<and> distinct es \<and>
    set es = {j. BucketOccupied (bucket_of t j) \<and> (\<exists>i < ht_bucket_num t. j \<in> set (chain_of ch i))} \<and>
    (\<forall>kv k kv'. kv_key kv = Some k \<longrightarrow> k \<noteq> [] \<longrightarrow> ht_Search alloc t kv = Some (True, kv') \<longrightarrow>
       (\<exists>j \<in> set es. hit t k j \<and> hb_value (bucket_of t j) = kv_value kv'))"
  using Begin_entry [OF assms, of data_addr] iter_values_entry [OF assms(1), of 0 "ht_header t"]
    entries_distinct [OF assms(1)] found_is_entry [OF assms(1), of _ _ alloc]
  by (intro exI [of _ "entry_element t ch (ht_header t) 0"] exI [of _ "ht_entries t ch"]) (simp add: entries_set)

lemma distinct_single: "distinct es \<Longrightarrow> set es = {x} \<Longrightarrow> es = [x]"
  by (cases es rule: remdups_adj.cases) auto

definition demo_table2 :: "nat list hash_table" where
  "demo_table2 = ht_add_used 1 (demo_table1 [1])"

lemma demo_table2_simps:
  "ht_bucket_num demo_table2 = 2" "ht_first demo_table2 = ht_first (demo_table1 [1])"
  "ht_attached demo_table2 = ht_attached (demo_table1 [1])" "ht_buckets demo_table2 = ht_buckets (demo_table1 [1])"
  "bucket_of demo_table2 x = bucket_of (demo_table1 [1]) x" "ht_GetSize demo_table2 = 1"
  by (simp_all add: demo_table2_def demo_table1_def)
    (simp add: ht_GetSize_def ht_add_used_def ht_upd_def demo_table_def HashTable_new_def header_Init_def Let_def)

lemma demo_table1_simps: "ht_bucket_num (demo_table1 k) = 2"
  "bucket_of (demo_table1 k) x = (if x = ht_raw demo_table k
     then MarkBucketOccupied (SetValue (set_key k HashBucket_new) 7) else HashBucket_new)"
  by (simp_all add: demo_table1_def)

lemma demo_table2_wf: "ht_wf demo_table2 (\<lambda>_. []) 2"
proof (rule wf_same_shape)
  show wf: "ht_wf (demo_table1 [1]) (\<lambda>_. []) 2" using demo_table1_facts [of "[1]"] by simp
  then show "ht_attached demo_table2" "payloads_ok demo_table2"
    by (simp_all add: ht_wf_def payloads_ok_def demo_table2_simps)
qed (simp_all add: demo_table2_simps demo_table1_simps)

theorem ht_iteration_witness:
  "\<exists>it. ht_Begin (\<lambda>_ _. 0) demo_table2 (-1) = Some it \<and> iter_values demo_table2 it = Some [7]"
proof -
  have "ht_GetSize demo_table2 \<noteq> 0" by (simp add: demo_table2_simps)
  then obtain it es where I: "ht_Begin (\<lambda>_ _. 0) demo_table2 (-1) = Some it"
    "iter_values demo_table2 it = Some (map (\<lambda>j. hb_value (bucket_of demo_table2 j)) es)" "distinct es"
    "set es = {j. BucketOccupied (bucket_of demo_table2 j) \<and> (\<exists>i < ht_bucket_num demo_table2. j \<in> set (chain_of (\<lambda>_. []) i))}"
    using ht_iteration [OF demo_table2_wf, of "\<lambda>_ _. 0" list_alloc] by blast
  have r: "ht_raw demo_table [1] < 2" using ht_wf_slot(1) [OF demo_table_wf, of "[1]"] by simp
  have "set es = {ht_raw demo_table [1]}"
    unfolding I(4) demo_table2_simps demo_table1_simps using r by (auto simp: chain_of_def split: if_splits)
  then have "es = [ht_raw demo_table [1]]"
    by (rule distinct_single [OF I(3)])
  then show ?thesis using I(1,2) by (simp add: demo_table2_simps demo_table1_simps)
qed

lemma iter_inc_any:
  assumes "ht_wf t ch m"
  shows "iter_inc t (entry_element t ch meta p) = Some (entry_element t ch meta (Suc p))"
proof (cases "p < length (ht_entries t ch)")
  case False
  have "0 < ht_first t" using assms by (simp add: ht_wf_def)
  then show ?thesis
    using False by (simp add: entry_element_def end_element_def iter_inc_def ht_GetNextElement_def)
qed (rule iter_inc_entry [OF assms])

text \<open>
  Adding a number to an iterator at an entry, or to \<open>End\<close>, is incrementing it that often.
\<close>

theorem iter_plus_incs:
  assumes wf: "ht_wf t ch m"
  shows "iter_plus t (entry_element t ch meta p) (int n) =
    ((\<lambda>r. Option.bind r (iter_inc t)) ^^ n) (Some (entry_element t ch meta p))"
proof -
  have "((\<lambda>r. Option.bind r (iter_inc t)) ^^ n) (Some (entry_element t ch meta p)) = Some (entry_element t ch meta (p + n))"
    by (induction n) (simp_all add: iter_inc_any [OF wf])
  moreover have "iter_plus t (entry_element t ch meta p) (int n) = Some (entry_element t ch meta (p + n))"
  proof (cases "p < length (ht_entries t ch)")
    case False
    have "0 < ht_first t" using wf by (simp add: ht_wf_def)
    then show ?thesis
      using False by (simp add: entry_element_def end_element_def iter_plus_def ht_GetNextElement_def)
  qed (rule iter_plus_entry [OF wf])
  ultimately show ?thesis by simp
qed

end
