(* ===== verification/Hash_Session.thy ===== *)
theory Hash_Session
  imports Hash_Iterator
begin

text \<open>
  Sessions with a hash table: any sequence of \<open>Insert\<close>, \<open>Delete\<close>, \<open>Search\<close> and \<open>GetSize\<close>.  While the
  pool reuses no block, a session answers as a map from keys to values does (\<open>hash_map_session\<close>); the
  interface is \<open>table_pool\<close>, and the mapped pool provides it as long as the delayed frees wait.  A
  table is found again after a restart, at another address, from the offset of its header.  When the
  pool does reuse a block that \<open>Delete\<close> gave back, the table can lose an entry.
\<close>

section \<open>What the operations leave alone\<close>

definition ht_kept :: "'p hash_table \<Rightarrow> 'p hash_table \<Rightarrow> bool" where
  "ht_kept t t' \<longleftrightarrow> ht_bucket_num t' = ht_bucket_num t \<and> ht_first t' = ht_first t \<and>
     ht_attached t' = ht_attached t \<and> ht_header t' = ht_header t \<and>
     (\<forall>a. hh_bucket_num (ht_headers t' a) = hh_bucket_num (ht_headers t a) \<and>
          hh_magic (ht_headers t' a) = hh_magic (ht_headers t a))"

lemma ht_kept_refl [simp]: "ht_kept t t"
  by (simp add: ht_kept_def)

lemma ht_kept_trans [trans]: "ht_kept t u \<Longrightarrow> ht_kept u v \<Longrightarrow> ht_kept t v"
  by (simp add: ht_kept_def)

lemma ht_kept_upd [simp]:
  "ht_kept t (ht_upd a f u) = ht_kept t u" "ht_kept t (u\<lparr>ht_pool := q\<rparr>) = ht_kept t u"
  "ht_kept t (ht_add_used d u) = ht_kept t u"
proof -
  show "ht_kept t (ht_upd a f u) = ht_kept t u" "ht_kept t (u\<lparr>ht_pool := q\<rparr>) = ht_kept t u"
    by (simp_all add: ht_kept_def ht_upd_def)
  have "hh_bucket_num (ht_headers (ht_add_used d u) a) = hh_bucket_num (ht_headers u a)"
    "hh_magic (ht_headers (ht_add_used d u) a) = hh_magic (ht_headers u a)"
    "ht_header (ht_add_used d u) = ht_header u" for a
    by (simp_all add: ht_add_used_def Let_def)
  then show "ht_kept t (ht_add_used d u) = ht_kept t u" by (simp add: ht_kept_def)
qed

lemma append_kept: "ht_append alloc sk t i l = Some (b, p, t1) \<Longrightarrow> ht_kept t t1"
  by (auto simp: ht_append_def Let_def split: option.splits if_splits)

lemma GetBucketByKey_kept: "GetBucketByKey alloc t key c = Some (b, p, t1) \<Longrightarrow> ht_kept t t1"
  by (auto simp: GetBucketByKey_def GetBucketByKeyLePayloadSize_def GetBucketByKeyGtPayloadSize_def Let_def
      intro: append_kept split: option.splits if_splits sum.splits)

lemma Insert_kept: "ht_Insert alloc t kv = Some (r, t') \<Longrightarrow> ht_kept t t'"
  using GetBucketByKey_kept [of alloc t "kv_key kv" True]
  by (cases "GetBucketByKey alloc t (kv_key kv) True") (auto simp: ht_Insert_def Let_def split: if_splits)

lemma Delete_kept: "ht_Delete alloc free t kv = Some (r, t') \<Longrightarrow> ht_kept t t'"
  by (auto simp: ht_Delete_def Let_def split: option.splits if_splits prod.splits)


section \<open>Sessions\<close>

fun ht_step ::
  "('p \<Rightarrow> nat \<Rightarrow> (nat \<times> 'p) option) \<Rightarrow> ('p \<Rightarrow> nat \<Rightarrow> nat \<Rightarrow> bool \<times> 'p) \<Rightarrow> table_op \<Rightarrow> 'p hash_table \<Rightarrow>
   (table_ans \<times> 'p hash_table) option" where
  "ht_step alloc free (OpInsert kv) t = map_option (map_prod Answer id) (ht_Insert alloc t kv)"
| "ht_step alloc free (OpDelete kv) t = map_option (map_prod Answer id) (ht_Delete alloc free t kv)"
| "ht_step alloc free (OpSearch kv) t = map_option (\<lambda>(ok, kv'). (Found ok kv', t)) (ht_Search alloc t kv)"
| "ht_step alloc free OpSize t = Some (Entries (ht_GetSize t), t)"

text \<open>Keys of up to 4 bytes are told apart by their signatures, and a bucket keeps 48 bits of a value.\<close>

fun plain_op :: "table_op \<Rightarrow> bool" where
  "plain_op (OpInsert kv) = (plain_kv kv \<and> length (key_bytes kv) \<le> 4)"
| "plain_op (OpDelete kv) = (kv_key kv = Some (key_bytes kv) \<and> key_bytes kv \<noteq> [] \<and> length (key_bytes kv) \<le> 4)"
| "plain_op (OpSearch kv) = (kv_key kv = Some (key_bytes kv) \<and> key_bytes kv \<noteq> [])"
| "plain_op OpSize = True"

abbreviation hash_map_step :: "table_op \<Rightarrow> (bytes \<Rightarrow> int option) \<Rightarrow> table_ans \<times> (bytes \<Rightarrow> int option)" where
  "hash_map_step \<equiv> map_step key_bytes (signed_take_bit 47)"

abbreviation hash_map_session :: "table_op list \<Rightarrow> (bytes \<Rightarrow> int option) \<Rightarrow> table_ans list \<times> (bytes \<Rightarrow> int option)" where
  "hash_map_session \<equiv> map_session key_bytes (signed_take_bit 47)"

text \<open>A table that stands for a map: every bucket from \<open>m\<close> on is free, and the header counts the keys.\<close>

definition stands_for :: "'p hash_table \<Rightarrow> (nat \<Rightarrow> nat list) \<Rightarrow> nat \<Rightarrow> (bytes \<Rightarrow> int option) \<Rightarrow> bool" where
  "stands_for t ch m f \<longleftrightarrow> ht_wf t ch m \<and> ht_lookup t ch = f \<and> finite (dom f) \<and> ht_header t \<noteq> 0 \<and>
     ht_used t = card (dom f) \<and> (\<forall>x \<ge> m. \<not> BucketOccupied (bucket_of t x))"

text \<open>
  The relation with the map while there is a budget of \<open>n\<close> operations: the pool has a bucket for
  each, and the links and the counter do not reach their widths.  \<open>h\<close> is where the header is.
\<close>

definition hash_rel ::
  "('p \<Rightarrow> bool) \<Rightarrow> ('p \<Rightarrow> nat) \<Rightarrow> ('p \<Rightarrow> nat) \<Rightarrow> nat \<Rightarrow> nat \<Rightarrow> 'p hash_table \<Rightarrow> (bytes \<Rightarrow> int option) \<Rightarrow> bool" where
  "hash_rel ok tp rm h n t f \<longleftrightarrow> ht_stored t \<and> ht_header t = h \<and> ok (ht_pool t) \<and>
     HashBucket_size * n \<le> rm (ht_pool t) \<and> card (dom f) + n < 2 ^ 32 \<and>
     (\<exists>ch m. stands_for t ch m f \<and> tp (ht_pool t) = bucket_at t m \<and> m + n \<le> 2 ^ 29)"

lemma ht_stored_kept: "ht_stored t \<Longrightarrow> ht_kept t t' \<Longrightarrow> ht_stored t'"
  by (simp add: ht_stored_def ht_kept_def table_CheckMagic_def)

context table_pool begin

lemma Insert_stands:
  assumes "stands_for t ch m f" "ok (ht_pool t)" "top (ht_pool t) = bucket_at t m" "plain_op (OpInsert kv)"
    and "HashBucket_size \<le> room (ht_pool t)" "m < 2 ^ 29" "Suc (card (dom f)) < 2 ^ 32"
  shows "\<exists>t' ch' m'. ht_Insert alloc t kv = Some (True, t') \<and>
    stands_for t' ch' m' (f(key_bytes kv \<mapsto> signed_take_bit 47 (kv_value kv))) \<and> ok (ht_pool t') \<and>
    top (ht_pool t') = bucket_at t' m' \<and> m' \<le> Suc m \<and> room (ht_pool t) \<le> room (ht_pool t') + HashBucket_size"
proof -
  have S: "ht_wf t ch m" "ht_lookup t ch = f" "finite (dom f)" "ht_header t \<noteq> 0" "ht_used t = card (dom f)"
    "\<And>x. m \<le> x \<Longrightarrow> \<not> BucketOccupied (bucket_of t x)"
    using assms(1) by (simp_all add: stands_for_def)
  have kv: "plain_kv kv" and short: "length (key_bytes kv) \<le> 4" using assms(4) by simp_all
  note K = plain_kvD [OF kv]
  obtain q where q: "alloc (ht_pool t) HashBucket_size = Some (bucket_at t m, q)" "ok q"
      "top q = bucket_at t m + HashBucket_size" "room q = room (ht_pool t) - HashBucket_size"
    using bump [OF assms(2), of HashBucket_size] assms(3,5) by (auto simp: HashBucket_size_def)
  obtain t' ch' m' where T: "ht_Insert alloc t kv = Some (True, t')" "ht_wf t' ch' m'"
      "m' = m \<and> ht_pool t' = ht_pool t \<or> m' = Suc m \<and> ht_pool t' = q"
      "ht_bucket_num t' = ht_bucket_num t" "ht_first t' = ht_first t"
      "ht_used t' = (if ht_lookup t ch (key_bytes kv) = None then Suc (ht_used t) mod 2 ^ 32 else ht_used t)"
      "\<And>x. m' \<le> x \<Longrightarrow> BucketOccupied (bucket_of t' x) = BucketOccupied (bucket_of t x)"
      "\<And>k'. ht_lookup t' ch' k' = (if same_key t (key_bytes kv) k' then Some (signed_take_bit 47 (kv_value kv)) else ht_lookup t ch k')"
    using Insert_step [OF S(1), of kv "key_bytes kv" alloc m q] K q(1) assms(6) S(6) by auto
  let ?f = "f(key_bytes kv \<mapsto> signed_take_bit 47 (kv_value kv))"
  have "ht_lookup t' ch' = ?f"
    using T(8) same_key_short [OF short] by (auto simp: fun_eq_iff S(2))
  moreover have "ht_used t' = card (dom ?f)"
    using T(6) S(3,5) assms(7) by (auto simp: S(2) insert_absorb domIff)
  moreover have "ht_header t' \<noteq> 0" using Insert_kept [OF T(1)] S(4) by (simp add: ht_kept_def)
  moreover have "m \<le> m'" using T(3) by auto
  ultimately have "stands_for t' ch' m' ?f"
    using T(2,7) S(3,6) by (simp add: stands_for_def)
  then show ?thesis
    using T(1,3,5) q assms(2,3) by (intro exI [of _ t'] exI [of _ ch'] exI [of _ m']) (auto simp: bucket_at_def)
qed

lemma Delete_stands:
  assumes "stands_for t ch m f" "ok (ht_pool t)" "top (ht_pool t) = bucket_at t m" "plain_op (OpDelete kv)"
    and "card (dom f) < 2 ^ 32"
  shows "\<exists>t' ch'. ht_Delete alloc free t kv = Some (True, t') \<and> stands_for t' ch' m (f(key_bytes kv := None)) \<and>
    ok (ht_pool t') \<and> top (ht_pool t') = bucket_at t' m \<and> room (ht_pool t') = room (ht_pool t)"
proof -
  have S: "ht_wf t ch m" "ht_lookup t ch = f" "finite (dom f)" "ht_header t \<noteq> 0" "ht_used t = card (dom f)"
    "\<And>x. m \<le> x \<Longrightarrow> \<not> BucketOccupied (bucket_of t x)"
    using assms(1) by (simp_all add: stands_for_def)
  let ?k = "key_bytes kv"
  have K: "kv_key kv = Some ?k" "?k \<noteq> []" "length ?k \<le> 4" using assms(4) by simp_all
  show ?thesis
  proof (cases "f ?k")
    case None
    then have "f(?k := None) = f" by auto
    moreover have "ht_Delete alloc free t kv = Some (True, t)"
      by (rule Delete_missing [OF S(1) K(1,2)]) (simp add: S(2) None)
    ultimately show ?thesis using assms(1-3) by auto
  next
    case (Some v)
    then have "ht_lookup t ch ?k \<noteq> None" by (simp add: S(2))
    from Delete_step [OF S(1) K(1,2) this, of alloc free] obtain b t' ch' where
      T: "ht_Delete alloc free t kv = Some (b, t')" "ht_wf t' ch' m"
        "b \<and> ht_pool t' = ht_pool t \<or> (\<exists>a. free (ht_pool t) a HashBucket_size = (b, ht_pool t'))"
        "ht_first t' = ht_first t" "ht_used t' = ht_used (ht_add_used (-1) t)"
        "\<And>x. m \<le> x \<Longrightarrow> BucketOccupied (bucket_of t' x) = BucketOccupied (bucket_of t x)"
        "\<And>k'. ht_lookup t' ch' k' = (if same_key t ?k k' then None else ht_lookup t ch k')"
      by blast
    have P: "b \<and> ok (ht_pool t') \<and> top (ht_pool t') = top (ht_pool t) \<and> room (ht_pool t') = room (ht_pool t)"
      using T(3) assms(2) free_keeps [OF assms(2)] by (metis prod.inject)
    have "ht_lookup t' ch' = f(?k := None)"
      using T(7) same_key_short [OF K(3)] by (auto simp: fun_eq_iff S(2))
    moreover have "0 < card (dom f)" using Some S(3) by (metis card_gt_0_iff domI empty_iff)
    then have "ht_used t' = card (dom (f(?k := None)))"
      using Some S(3,5) assms(5) by (simp add: T(5) ht_used_sub card_Diff_singleton domIff)
    moreover have "ht_header t' \<noteq> 0" using Delete_kept [OF T(1)] S(4) by (simp add: ht_kept_def)
    ultimately have "stands_for t' ch' m (f(?k := None))"
      using T(2,6) S(3,6) by (simp add: stands_for_def)
    then show ?thesis
      using T(1,4) P assms(3) by (intro exI [of _ t'] exI [of _ ch']) (simp add: bucket_at_def)
  qed
qed

lemma Search_stands:
  assumes "stands_for t ch m f" "plain_op (OpSearch kv)"
  shows "ht_step alloc free (OpSearch kv) t = Some (fst (hash_map_step (OpSearch kv) f), t)"
  using assms ht_Search_lookup [of t ch m kv "key_bytes kv" alloc]
  by (simp add: stands_for_def split: option.splits)

lemma step_stands:
  assumes "stands_for t ch m f" "ok (ht_pool t)" "top (ht_pool t) = bucket_at t m" "plain_op op"
    and "HashBucket_size \<le> room (ht_pool t)" "m < 2 ^ 29" "Suc (card (dom f)) < 2 ^ 32" "hash_map_step op f = (a, g)"
  shows "\<exists>t' ch' m'. ht_step alloc free op t = Some (a, t') \<and> stands_for t' ch' m' g \<and> ok (ht_pool t') \<and>
    top (ht_pool t') = bucket_at t' m' \<and> m' \<le> Suc m \<and> room (ht_pool t) \<le> room (ht_pool t') + HashBucket_size \<and>
    card (dom g) \<le> Suc (card (dom f)) \<and> ht_kept t t'"
proof (cases op)
  case (OpInsert kv)
  have "card (dom (f(k \<mapsto> v))) \<le> Suc (card (dom f))" for k v
    using assms(1) by (simp add: stands_for_def card_insert_le_m1 card_insert_if)
  then show ?thesis
    using Insert_stands [OF assms(1-3) _ assms(5-7), of kv] assms(4,8) Insert_kept [of alloc t kv]
    by (fastforce simp: OpInsert)
next
  case (OpDelete kv)
  have "card (dom (f(k := None))) \<le> Suc (card (dom f))" for k
    using assms(1) card_mono [of "dom f" "dom f - {k}"] by (simp add: stands_for_def le_SucI)
  then show ?thesis
    using Delete_stands [OF assms(1-3), of kv] assms(4,7,8) Delete_kept [of alloc free t kv]
    by (fastforce simp: OpDelete)
next
  case (OpSearch kv)
  have g: "g = f" "a = fst (hash_map_step (OpSearch kv) f)" using assms(8) by (auto simp: OpSearch)
  have "ht_step alloc free op t = Some (a, t)"
    using Search_stands [OF assms(1), of kv] assms(4) unfolding OpSearch g(2) by blast
  then show ?thesis using assms(1-3) g(1) by (intro exI [of _ t] exI [of _ ch] exI [of _ m]) simp
next
  case OpSize
  then show ?thesis
    using assms(1-3,8) by (intro exI [of _ t] exI [of _ ch] exI [of _ m])
      (auto simp: stands_for_def ht_GetSize_def ht_used_def)
qed

lemma step_hash_rel:
  assumes "hash_rel ok top room h (Suc n) t f" "plain_op op" "hash_map_step op f = (a, g)"
  shows "\<exists>t'. ht_step alloc free op t = Some (a, t') \<and> hash_rel ok top room h n t' g"
proof -
  obtain ch m where R: "stands_for t ch m f" "top (ht_pool t) = bucket_at t m" "m + Suc n \<le> 2 ^ 29"
    "ok (ht_pool t)" "HashBucket_size * Suc n \<le> room (ht_pool t)" "card (dom f) + Suc n < 2 ^ 32" "ht_stored t" "ht_header t = h"
    using assms(1) by (auto simp: hash_rel_def)
  obtain t' ch' m' where T: "ht_step alloc free op t = Some (a, t')" "stands_for t' ch' m' g" "ok (ht_pool t')"
      "top (ht_pool t') = bucket_at t' m'" "m' \<le> Suc m" "room (ht_pool t) \<le> room (ht_pool t') + HashBucket_size"
      "card (dom g) \<le> Suc (card (dom f))" "ht_kept t t'"
    using step_stands [OF R(1,4,2) assms(2) _ _ _ assms(3)] R(3,5,6) by auto
  moreover have "ht_header t' = h" using T(8) R(8) by (simp add: ht_kept_def)
  ultimately have "hash_rel ok top room h n t' g"
    unfolding hash_rel_def using R(3,5,6) ht_stored_kept [OF R(7)] by (auto simp: HashBucket_size_def)
  then show ?thesis using T(1) by blast
qed

end

section \<open>The mapped pool\<close>

interpretation mapped_hash: map_table "ht_step mps_touch mps_Free" key_bytes "signed_take_bit 47" plain_op
  "hash_rel (mps_mapped b) mps_top mps_space h" for b h
  by unfold_locales (rule touched_table.step_hash_rel)

text \<open>
  What a session with a new table needs: room in the mapping for the table and an overflow bucket for each operation,
  clear memory, a delay before blocks are reused.
\<close>

definition new_table_ok :: "mmap_pool_state \<Rightarrow> mmap_pool_state hash_table \<Rightarrow> nat \<Rightarrow> bool" where
  "new_table_ok s t n \<longleftrightarrow> mps_patient s \<and> payloads_ok t \<and> (\<forall>a \<ge> mps_top s. \<not> BucketOccupied (ht_buckets t a)) \<and>
     0 < ht_bucket_num t \<and> ht_bucket_num t + n \<le> 2 ^ 29 \<and>
     mps_top s + (64 + 17 * (ht_bucket_num t + n)) \<le> mps_end s \<and>
     mps_used s + mp_min_expand (snd s) + 64 + 17 * (ht_bucket_num t + n) \<le> 2 ^ 63"

lemma new_table_rel:
  assumes "new_table_ok s t n"
  shows "\<exists>t1. ht_Init mps_touch t (Some s) begin_addr True = Some (True, t1) \<and>
    hash_rel (mps_mapped (mps_bot s)) mps_top mps_space (mps_top s) n t1 Map.empty"
proof -
  let ?t = "t\<lparr>ht_attached := True, ht_pool := s\<rparr>" and ?bn = "ht_bucket_num t"
  have A: "mps_patient s" "payloads_ok ?t" "\<And>a. mps_top s \<le> a \<Longrightarrow> \<not> BucketOccupied (ht_buckets t a)"
    "0 < ?bn" "?bn + n \<le> 2 ^ 29" "mps_top s + (64 + 17 * (?bn + n)) \<le> mps_end s"
    "mps_used s + mp_min_expand (snd s) + 64 + 17 * (?bn + n) \<le> 2 ^ 63"
    using assms(1) by (simp_all add: new_table_ok_def payloads_ok_def)
  have ok: "mps_mapped (mps_bot s) s" using A(1,6) by (simp add: mps_mapped_def mps_inside_def mps_patient_def)
  have room: "TableHeader_size + HashBucket_size * ?bn \<le> mps_space s"
      "HashBucket_size * n \<le> mps_space s - (TableHeader_size + HashBucket_size * ?bn)"
    using A(6,7) by (auto simp: mps_space_def mps_room_def TableHeader_size_def HashBucket_size_def)
  obtain t1 where T1: "ht_InitEmpty mps_touch ?t ?bn = Some (True, t1)" "ht_wf t1 (\<lambda>_. []) ?bn"
      "\<forall>k. ht_lookup t1 (\<lambda>_. []) k = None" "mps_mapped (mps_bot s) (ht_pool t1)" "mps_top (ht_pool t1) = bucket_at t1 ?bn"
      "ht_bucket_num t1 = ?bn" "ht_stored t1" "ht_used t1 = 0"
      "ht_header t1 = mps_top s"
      "\<forall>x \<ge> ?bn. mps_top s \<le> bucket_at t1 x \<and> bucket_of t1 x = ht_buckets t (bucket_at t1 x)"
      "mps_space (ht_pool t1) = mps_space s - (TableHeader_size + HashBucket_size * ?bn)"
    using touched_table.InitEmpty_fresh [of "mps_bot s" ?t ?bn] A ok room(1) by auto
  have "stands_for t1 (\<lambda>_. []) ?bn Map.empty"
    using T1(2,3,7,8,10) A(3) by (auto simp: stands_for_def ht_stored_def fun_eq_iff)
  then have "hash_rel (mps_mapped (mps_bot s)) mps_top mps_space (mps_top s) n t1 Map.empty"
    using T1(4,5,7,9,11) A(5) room(2) by (auto simp: hash_rel_def)
  then show ?thesis using T1(1) by (auto simp: ht_Init_def)
qed

text \<open>The blocks of the table lie between its header and the end of the used space.\<close>

lemma hash_rel_place:
  assumes "hash_rel (mps_mapped b) mps_top mps_space h n t f" "b \<le> h"
  shows "h \<le> mps_top (ht_pool t)" "mps_accessible (ht_pool t) (ht_header t) (mps_top (ht_pool t) - ht_header t)"
proof -
  have R: "mps_inside (ht_pool t)" "mps_bot (ht_pool t) = b" "ht_header t = h" "ht_stored t"
      "\<exists>m. mps_top (ht_pool t) = bucket_at t m"
    using assms(1) by (auto simp: hash_rel_def mps_mapped_def)
  then show le: "h \<le> mps_top (ht_pool t)" by (auto simp: ht_stored_def bucket_at_def)
  show "mps_accessible (ht_pool t) (ht_header t) (mps_top (ht_pool t) - ht_header t)"
    using R(2,3) assms(2) le by (intro mps_inside_accessible [OF R(1)]) simp_all
qed

lemma new_table_session:
  assumes "new_table_ok s t (length ops)" "\<forall>op \<in> set ops. plain_op op"
  shows "\<exists>t1 t2. ht_Init mps_touch t (Some s) begin_addr True = Some (True, t1) \<and>
    table_session (ht_step mps_touch mps_Free) ops t1 = Some (fst (hash_map_session ops Map.empty), t2) \<and>
    hash_rel (mps_mapped (mps_bot s)) mps_top mps_space (mps_top s) 0 t2 (snd (hash_map_session ops Map.empty))"
  using new_table_rel [OF assms(1), of begin_addr] mapped_hash.session_rel [of "mps_bot s" "mps_top s" ops 0, OF _ assms(2)] by auto

lemma new_table_bot: "new_table_ok s t n \<Longrightarrow> mps_bot s \<le> mps_top s"
  by (intro mps_inside_bot) (simp add: new_table_ok_def mps_inside_def mps_patient_def)

text \<open>
  C7: A session with a new table in a mapped pool whose mapping has room for it: \<open>Init\<close> succeeds, and any
  sequence of \<open>Insert\<close> and \<open>Delete\<close> of keys of 1 to 4 bytes, \<open>Search\<close> and \<open>GetSize\<close> returns and answers as a
  map does that keeps 48 bits of each value; \<open>GetSize\<close> is the number of its keys.  No block the table takes is
  outside the mapping (\<open>mps_touch\<close>), and in the end all memory from its header on is inside.  The blocks that
  \<open>Delete\<close> gives back wait for the whole session.
\<close>

theorem mapped_table_session:
  assumes "new_table_ok s t (length ops)" "\<forall>op \<in> set ops. plain_op op"
  shows "\<exists>t1 t2. ht_Init mps_touch t (Some s) begin_addr True = Some (True, t1) \<and>
    table_session (ht_step mps_touch mps_Free) ops t1 = Some (fst (hash_map_session ops Map.empty), t2) \<and>
    mps_accessible (ht_pool t2) (ht_header t2) (mps_top (ht_pool t2) - ht_header t2)"
  using new_table_session [OF assms, of begin_addr] hash_rel_place(2) [OF _ new_table_bot [OF assms(1)]] by blast

lemma demo_table_session:
  "new_table_ok demo_table_pool (HashTable_new demo_table_pool (\<lambda>_. header_Init 2) (\<lambda>_. HashBucket_new)) 10"
proof -
  let ?t = "HashTable_new demo_table_pool (\<lambda>_. header_Init 2) (\<lambda>_. HashBucket_new)"
  have "ht_bucket_num ?t = 2 ^ 18" "payloads_ok ?t" "\<not> BucketOccupied (ht_buckets ?t a)" for a
    by (simp_all add: HashTable_new_def kDefaultBucketNum_def payloads_ok_def)
  then show ?thesis
    using demo_table_pool_facts by (simp add: new_table_ok_def)
qed

lemma demo_ops_plain: "(\<forall>op \<in> set demo_ops. plain_op op) \<and> length demo_ops = 10"
  by (auto simp: demo_ops_def demo_kv_def plain_kv_def key_bytes_def)

lemma demo_ops_map: "hash_map_session demo_ops Map.empty =
  ([Answer True, Answer True, Answer True, Entries 2, Answer True, Found False (demo_kv [2, 3, 4] (-1)),
    Found True (demo_kv [1] 7), Answer True, Entries 2, Answer True], [[1] \<mapsto> 7, [9] \<mapsto> 8])"
proof -
  have "signed_take_bit 47 v = v" if "v \<in> {5, 6, 7, 8}" for v :: int
    using that by (auto simp: signed_take_bit_int_eq_self)
  then show ?thesis
    by (simp add: demo_ops_def demo_kv_def key_bytes_def fun_upd_twist [of "[1] :: bytes" "[2, 3, 4]"] card_insert_if)
qed

theorem mapped_table_session_witness:
  "\<exists>t1 t2. ht_Init mps_touch (HashTable_new demo_table_pool (\<lambda>_. header_Init 2) (\<lambda>_. HashBucket_new))
      (Some demo_table_pool) 0 True = Some (True, t1) \<and>
    table_session (ht_step mps_touch mps_Free) demo_ops t1 =
      Some ([Answer True, Answer True, Answer True, Entries 2, Answer True, Found False (demo_kv [2, 3, 4] (-1)),
        Found True (demo_kv [1] 7), Answer True, Entries 2, Answer True], t2)"
  using mapped_table_session [of demo_table_pool "HashTable_new demo_table_pool (\<lambda>_. header_Init 2) (\<lambda>_. HashBucket_new)"
      demo_ops 0] demo_table_session demo_ops_plain
  by (auto simp: demo_ops_map)

section \<open>Reopening\<close>

text \<open>What a client keeps to find a table again: the distance of its header from the pool's data.\<close>

definition ht_GetTableEntryOffset :: "'p hash_table \<Rightarrow> nat \<Rightarrow> int" where
  "ht_GetTableEntryOffset t data_begin = int (ht_header t) - int data_begin"

text \<open>The memory of \<open>t\<close> from \<open>a\<close> on, seen by \<open>u\<close> from \<open>b\<close> on.\<close>

definition mapped_at :: "'p hash_table \<Rightarrow> nat \<Rightarrow> 'q hash_table \<Rightarrow> nat \<Rightarrow> bool" where
  "mapped_at t a u b \<longleftrightarrow> (\<forall>x. ht_headers u (b + x) = ht_headers t (a + x) \<and> ht_buckets u (b + x) = ht_buckets t (a + x))"

lemma reopen_moved:
  assumes wf: "ht_wf t ch m" and st: "ht_stored t" and m: "mapped_at t a u b" "a \<le> ht_header t" "0 < b" "payloads_ok u"
  defines "h \<equiv> b + (ht_header t - a)"
  shows "\<exists>u'. ht_Init alloc u (Some pl) h False = Some (True, u') \<and> ht_wf u' ch m \<and> ht_lookup u' ch = ht_lookup t ch \<and>
    ht_GetSize u' = ht_GetSize t \<and> ht_header u' = h"
proof -
  have H: "ht_headers u h = ht_headers t (ht_header t)"
    using m(1,2) by (metis mapped_at_def h_def le_add_diff_inverse)
  have S: "table_CheckMagic (ht_headers t (ht_header t))" "hh_bucket_num (ht_headers t (ht_header t)) = ht_bucket_num t"
    "ht_first t = ht_header t + TableHeader_size" "ht_header t \<noteq> 0"
    using st by (simp_all add: ht_stored_def)
  define u' where "u' = u\<lparr>ht_attached := True, ht_pool := pl, ht_header := h, ht_bucket_num := ht_bucket_num t,
     ht_first := h + TableHeader_size\<rparr>"
  have init: "ht_Init alloc u (Some pl) h False = Some (True, u')"
    using H S m(3) by (simp add: ht_Init_def ht_Load_def Let_def u'_def h_def)
  have b: "bucket_of u' x = bucket_of t x" for x
  proof -
    have "bucket_at u' x = b + (bucket_at t x - a)" "a \<le> bucket_at t x"
      using m(2) S(3) by (simp_all add: bucket_at_def u'_def h_def)
    moreover have "ht_buckets u' = ht_buckets u" by (simp add: u'_def)
    moreover have "ht_buckets u (b + (bucket_at t x - a)) = ht_buckets t (a + (bucket_at t x - a))"
      using m(1) unfolding mapped_at_def by blast
    ultimately show ?thesis by (simp add: bucket_of_def)
  qed
  have n: "ht_bucket_num u' = ht_bucket_num t" by (simp add: u'_def)
  have "linked u' i js = linked t i js" "closes u' i js = closes t i js" for i js
    by (induction js arbitrary: i) (simp_all add: b n closes_def)
  then have "ht_wf u' ch m"
    using wf m(4) by (simp add: ht_wf_def n b sigs_distinct_def payloads_ok_def) (simp add: u'_def TableHeader_size_def)
  moreover have "hit u' k = hit t k" for k by (rule ext) (simp add: hit_def b)
  then have "ht_lookup u' ch = ht_lookup t ch"
    by (intro ext) (simp add: ht_lookup_def b ht_raw_def n)
  moreover have "ht_GetSize u' = ht_GetSize t"
    using H S(4) m(3) by (simp add: ht_GetSize_def u'_def) (simp add: h_def)
  moreover have "ht_header u' = h" by (simp add: u'_def)
  ultimately show ?thesis using init by blast
qed

text \<open>A new object of the class over the bytes of \<open>t\<close> from \<open>a\<close> on, which are now mapped at \<open>b\<close>.\<close>

definition remapped :: "'p \<Rightarrow> 'p hash_table \<Rightarrow> nat \<Rightarrow> nat \<Rightarrow> 'p hash_table" where
  "remapped pl t a b = HashTable_new pl
     (\<lambda>x. if b \<le> x then ht_headers t (a + (x - b)) else header_Init 0)
     (\<lambda>x. if b \<le> x then ht_buckets t (a + (x - b)) else HashBucket_new)"

lemma remapped_at: "mapped_at t a (remapped pl t a b) b" "payloads_ok t \<Longrightarrow> payloads_ok (remapped pl t a b)"
  by (simp_all add: mapped_at_def remapped_def HashTable_new_def payloads_ok_def)

lemma reopened_answers:
  assumes rel: "hash_rel (mps_mapped b) mps_top mps_space h n t f" "b \<le> h" and r: "same_bytes (ht_pool t) r"
    and b: "old = mp_GetMMapDataBegin (snd (ht_pool t))" "new = mp_GetMMapDataBegin (snd r)"
  shows "\<exists>u. ht_Init mps_touch (remapped r t old new) (Some r) (nat (int new + ht_GetTableEntryOffset t old)) False = Some (True, u) \<and>
    mps_accessible r (ht_header u) (mps_top (ht_pool t) - ht_header t) \<and>
    ht_step mps_touch mps_Free OpSize u = Some (fst (hash_map_step OpSize f), u) \<and>
    (\<forall>kv. plain_op (OpSearch kv) \<longrightarrow>
      ht_step mps_touch mps_Free (OpSearch kv) u = Some (fst (hash_map_step (OpSearch kv) f), u))"
proof -
  obtain ch m where R: "stands_for t ch m f" "ht_stored t" "ht_header t = h" "mps_inside (ht_pool t)" "mps_bot (ht_pool t) = b"
    using rel(1) by (auto simp: hash_rel_def mps_mapped_def)
  obtain st g c st' g' c' where L: "mps_layout (ht_pool t) st g c" "mps_layout r st' g' c'" using r by (auto simp: same_bytes_def)
  have begins: "old = b" "new = mps_bot r" "0 < new"
    using mps_data_begin [OF L(1)] mps_data_begin [OF L(2)] mps_layout_top(1) [OF L(2)] R(5) b by simp_all
  have F: "ht_wf t ch m" "ht_lookup t ch = f" "ht_GetSize t = card (dom f)" "payloads_ok t"
    using R(1) by (simp_all add: stands_for_def ht_GetSize_def ht_used_def ht_wf_def)
  have at: "nat (int new + ht_GetTableEntryOffset t old) = new + (ht_header t - old)"
    using rel(2) R(3) begins(1) by (simp add: ht_GetTableEntryOffset_def nat_add_distrib flip: of_nat_diff)
  obtain u where U: "ht_Init mps_touch (remapped r t old new) (Some r) (new + (ht_header t - old)) False = Some (True, u)"
      "ht_wf u ch m" "ht_lookup u ch = f" "ht_GetSize u = card (dom f)" "ht_header u = new + (ht_header t - old)"
    using reopen_moved [OF F(1) R(2) remapped_at(1), of old new r mps_touch r] remapped_at(2) [OF F(4)]
      rel(2) R(3) begins F(2,3) by auto
  have "mps_accessible r (ht_header u) (mps_top (ht_pool t) - ht_header t)"
    unfolding U(5) begins(1,2) R(3) R(5) [symmetric]
    using rel hash_rel_place(1) [OF rel] R(5) by (intro same_bytes_accessible [OF r R(4)]) simp_all
  moreover have "ht_step mps_touch mps_Free (OpSearch kv) u = Some (fst (hash_map_step (OpSearch kv) f), u)"
    if "plain_op (OpSearch kv)" for kv
    using that ht_Search_lookup [OF U(2), of kv "key_bytes kv" mps_touch] by (simp add: U(3) split: option.splits)
  ultimately show ?thesis using U(1,4) unfolding at by (intro exI [of _ u]) simp
qed

text \<open>
  C9: A table survives a restart: after a session with a new table, let a pool map the same bytes, anywhere and at
  least as far as before.  Then a new object of the class finds the table there from the offset of its header
  (\<open>GetTableEntryOffset\<close>); the memory of the table is inside the new mapping, and \<open>Search\<close> and \<open>GetSize\<close> answer as the
  session's map does.
\<close>

theorem mapped_table_reopen:
  assumes "new_table_ok s t (length ops)" "\<forall>op \<in> set ops. plain_op op"
  shows "\<exists>t1 ans t2. ht_Init mps_touch t (Some s) begin_addr True = Some (True, t1) \<and>
    table_session (ht_step mps_touch mps_Free) ops t1 = Some (ans, t2) \<and>
    (\<forall>r. same_bytes (ht_pool t2) r \<longrightarrow>
      (let old_begin = mp_GetMMapDataBegin (snd (ht_pool t2)); new_begin = mp_GetMMapDataBegin (snd r);
           f = snd (hash_map_session ops Map.empty)
       in \<exists>u. ht_Init mps_touch (remapped r t2 old_begin new_begin) (Some r)
            (nat (int new_begin + ht_GetTableEntryOffset t2 old_begin)) False = Some (True, u) \<and>
          mps_accessible r (ht_header u) (mps_top (ht_pool t2) - ht_header t2) \<and>
          ht_step mps_touch mps_Free OpSize u = Some (fst (hash_map_step OpSize f), u) \<and>
          (\<forall>kv. plain_op (OpSearch kv) \<longrightarrow>
            ht_step mps_touch mps_Free (OpSearch kv) u = Some (fst (hash_map_step (OpSearch kv) f), u))))"
proof -
  let ?f = "snd (hash_map_session ops Map.empty)"
  obtain t1 t2 where T: "ht_Init mps_touch t (Some s) begin_addr True = Some (True, t1)"
    "table_session (ht_step mps_touch mps_Free) ops t1 = Some (fst (hash_map_session ops Map.empty), t2)"
    "hash_rel (mps_mapped (mps_bot s)) mps_top mps_space (mps_top s) 0 t2 ?f"
    using new_table_session [OF assms, of begin_addr] by blast
  have "\<exists>u. ht_Init mps_touch (remapped r t2 old new) (Some r) (nat (int new + ht_GetTableEntryOffset t2 old)) False = Some (True, u) \<and>
      mps_accessible r (ht_header u) (mps_top (ht_pool t2) - ht_header t2) \<and>
      ht_step mps_touch mps_Free OpSize u = Some (fst (hash_map_step OpSize ?f), u) \<and>
      (\<forall>kv. plain_op (OpSearch kv) \<longrightarrow>
        ht_step mps_touch mps_Free (OpSearch kv) u = Some (fst (hash_map_step (OpSearch kv) ?f), u))"
    if r: "same_bytes (ht_pool t2) r" and b: "old = mp_GetMMapDataBegin (snd (ht_pool t2))" "new = mp_GetMMapDataBegin (snd r)"
    for r old new
    by (rule reopened_answers [OF T(3) new_table_bot [OF assms(1)] r b])
  then show ?thesis using T(1,2) unfolding Let_def by blast
qed

theorem mapped_table_reopen_witness:
  "\<exists>t1 ans t2 u. ht_Init mps_touch (HashTable_new demo_table_pool (\<lambda>_. header_Init 2) (\<lambda>_. HashBucket_new))
      (Some demo_table_pool) 0 True = Some (True, t1) \<and>
    table_session (ht_step mps_touch mps_Free) demo_ops t1 = Some (ans, t2) \<and>
    (let r = moved_pool (ht_pool t2) 8192; old_begin = mp_GetMMapDataBegin (snd (ht_pool t2)) in
      ht_Init mps_touch (remapped r t2 old_begin (mp_GetMMapDataBegin (snd r))) (Some r)
        (nat (int (mp_GetMMapDataBegin (snd r)) + ht_GetTableEntryOffset t2 old_begin)) False = Some (True, u)) \<and>
    ht_step mps_touch mps_Free (OpSearch (demo_kv [1] 0)) u = Some (Found True (demo_kv [1] 7), u)"
proof -
  let ?t = "HashTable_new demo_table_pool (\<lambda>_. header_Init 2) (\<lambda>_. HashBucket_new)"
  have "new_table_ok demo_table_pool ?t (length demo_ops)" "\<forall>op \<in> set demo_ops. plain_op op"
    using demo_table_session demo_ops_plain by simp_all
  note new_table_session [OF this, of 0] mapped_table_reopen [OF this, of 0]
  then obtain t1 t2 where T: "ht_Init mps_touch ?t (Some demo_table_pool) 0 True = Some (True, t1)"
      "table_session (ht_step mps_touch mps_Free) demo_ops t1 = Some (fst (hash_map_session demo_ops Map.empty), t2)"
      "mps_good (ht_pool t2)"
      "same_bytes (ht_pool t2) (moved_pool (ht_pool t2) 8192) \<Longrightarrow>
       (let old_begin = mp_GetMMapDataBegin (snd (ht_pool t2)); new_begin = mp_GetMMapDataBegin (snd (moved_pool (ht_pool t2) 8192))
        in \<exists>u. ht_Init mps_touch (remapped (moved_pool (ht_pool t2) 8192) t2 old_begin new_begin) (Some (moved_pool (ht_pool t2) 8192))
            (nat (int new_begin + ht_GetTableEntryOffset t2 old_begin)) False = Some (True, u) \<and>
          (\<forall>kv. plain_op (OpSearch kv) \<longrightarrow> ht_step mps_touch mps_Free (OpSearch kv) u =
            Some (fst (hash_map_step (OpSearch kv) (snd (hash_map_session demo_ops Map.empty))), u)))"
    unfolding Let_def by (fastforce simp: hash_rel_def mps_mapped_def mps_inside_def mps_fresh_def)
  have "same_bytes (ht_pool t2) (moved_pool (ht_pool t2) 8192)" by (rule moved_same_bytes [OF T(3)]) simp_all
  from T(4) [OF this] obtain u where U: "let r = moved_pool (ht_pool t2) 8192; old_begin = mp_GetMMapDataBegin (snd (ht_pool t2)) in
      ht_Init mps_touch (remapped r t2 old_begin (mp_GetMMapDataBegin (snd r))) (Some r)
        (nat (int (mp_GetMMapDataBegin (snd r)) + ht_GetTableEntryOffset t2 old_begin)) False = Some (True, u)"
      "\<forall>kv. plain_op (OpSearch kv) \<longrightarrow> ht_step mps_touch mps_Free (OpSearch kv) u =
        Some (fst (hash_map_step (OpSearch kv) (snd (hash_map_session demo_ops Map.empty))), u)"
    unfolding Let_def by blast
  have "plain_op (OpSearch (demo_kv [1] 0))" by (simp add: demo_kv_def key_bytes_def)
  then have "ht_step mps_touch mps_Free (OpSearch (demo_kv [1] 0)) u = Some (Found True (demo_kv [1] 7), u)"
    using U(2) by (simp add: demo_ops_map demo_kv_def key_bytes_def del: ht_step.simps)
  then show ?thesis using T(1,2) U(1) by blast
qed

section \<open>A first bucket that the pool hands out again\<close>

text \<open>
  \<open>Delete\<close> gives the first bucket of a chain back to the pool when it has no successor, and the bucket stays part of
  the table.  An overflow bucket at that place has an index below the number of buckets, which
  ends a chain: the link to it is not followed.
\<close>

lemma Insert_below_lost:
  assumes wf: "ht_wf t ch m" and kv: "kv_key kv = Some k" "k \<noteq> []" "length k < 256" "kv_payload kv = []"
    and missing: "ht_lookup t ch k = None" and full: "BucketOccupied (bucket_of t (ht_raw t k))"
    and alloc: "alloc (ht_pool t) HashBucket_size = Some (bucket_at t j, q)" "j < ht_bucket_num t" "j \<noteq> ht_raw t k"
  shows "\<exists>t'. ht_Insert alloc t kv = Some (True, t') \<and> ht_Search alloc t' kv = Some (False, kv\<lparr>kv_value := -1\<rparr>)"
proof -
  note W = ht_wf_slot [OF wf] and slots = ht_wf_chain [OF wf W(1) [of k]]
  let ?i = "ht_raw t k" and ?l = "last (chain_of ch (ht_raw t k))"
  let ?t0 = "ht_upd (bucket_at t j) (set_key k) (t\<lparr>ht_pool := q\<rparr>)"
  let ?t1 = "ht_upd (bucket_at t j) (\<lambda>b. SetNextBucket b ?i) (ht_upd (bucket_at t ?l) (\<lambda>b. SetNextBucket b j) ?t0)"
  define t' where "t' = store_value (bucket_at ?t1 j) (kv_value kv) ?t1"
  have none: "find (hit t k) (chain_of ch ?i) = None" "\<And>x. x \<in> set (chain_of ch ?i) \<Longrightarrow> \<not> hit t k x"
    using missing by (auto simp: ht_lookup_def find_None_iff)
  have wfs: "ht_bucket_num t \<le> 2 ^ 29" "ht_attached t" using wf by (simp_all add: ht_wf_def)
  have apart: "x \<noteq> j" if "x \<in> set (chain_of ch ?i)" for x
    using that slots(3) alloc(2,3) by (auto simp: chain_of_def)
  have l: "?l \<in> set (chain_of ch ?i)" by (simp add: chain_of_def)
  have "GetBucketByKey alloc t (Some k) True = Some (bucket_at t j, bucket_at t ?l, ?t1)"
    using GetBucketByKey_chain [OF W(3,2) kv(2), of alloc True, folded chain_of_def] none(1) full
      ht_append_full [where t = t and alloc = alloc and j = j and q = q and i = ?i and sk = "set_key k" and l = ?l]
      wfs alloc(1,2) W(1) [of k] W(4) [of j] by simp
  then have ins: "ht_Insert alloc t kv = Some (True, t')"
    using ht_Insert_bucket [of kv alloc t "bucket_at t j" "bucket_at t ?l" ?t1] kv(1,4) W(4) by (simp add: t'_def)
  have b: "bucket_of t' x = (if x = ?l then SetNextBucket (bucket_of t x) j else bucket_of t x)" if "x \<noteq> j" for x
    using that unfolding t'_def store_value_simps(6) by (simp add: bucket_of_def)
  have bn: "ht_bucket_num t' = ht_bucket_num t" by (simp add: t'_def)
  then have raw: "ht_raw t' k = ?i" by (simp add: ht_raw_def)
  have "linked t' ?i (ch ?i)"
  proof (rule linked_retail [OF slots(1)])
    show "hb_next (bucket_of t' (last (?i # ch ?i))) < ht_bucket_num t'"
      using b [OF apart [OF l]] alloc(2) wfs(1) by (simp add: chain_of_def bn)
    show "hb_next (bucket_of t' x) = hb_next (bucket_of t x)" if "x \<in> set (?i # ch ?i)" "x \<noteq> last (?i # ch ?i)" for x
      using that b apart [of x] by (simp add: chain_of_def)
  qed (use slots(2,4) bn in auto)
  moreover have "payloads_ok t'"
    using W(3) unfolding t'_def
    by (intro payloads_ok_store payloads_ok_upd set_key_facts(2) kv(3)) (simp_all add: payloads_ok_def)
  moreover have "find (hit t' k) (chain_of ch ?i) = None"
    using none(2) apart by (auto simp: find_None_iff hit_def b)
  ultimately have "GetBucketByKey alloc t' (Some k) False = Some (0, 0, t')"
    using GetBucketByKey_chain [of t' k "ch ?i" alloc False] kv(2) by (simp add: raw chain_of_def)
  then show ?thesis using ins kv(1) by (simp add: ht_Search_def)
qed

text \<open>
  C31: A key is lost: \<open>Delete\<close> of a key that is alone in its chain gives the chain's first bucket to the pool;
  when the pool hands that block out for the next key that needs an overflow bucket, \<open>Insert\<close> of that key
  reports success and \<open>Search\<close> does not find it.
\<close>

theorem ht_freed_bucket_loses_key:
  assumes wf: "ht_wf t ch m" and old: "kv_key kv0 = Some k0" "k0 \<noteq> []" "hit t k0 (ht_raw t k0)" "ch (ht_raw t k0) = []"
    and kv: "kv_key kv = Some k" "k \<noteq> []" "length k < 256" "kv_payload kv = []"
    and missing: "ht_lookup t ch k = None" and full: "BucketOccupied (bucket_of t (ht_raw t k))" "ht_raw t k \<noteq> ht_raw t k0"
    and pl: "free (ht_pool t) (bucket_at t (ht_raw t k0)) HashBucket_size = (True, q)"
      "alloc q HashBucket_size = Some (bucket_at t (ht_raw t k0), q')"
  shows "\<exists>t1 t2. ht_Delete alloc free t kv0 = Some (True, t1) \<and> ht_Insert alloc t1 kv = Some (True, t2) \<and>
    ht_Search alloc t2 kv = Some (False, kv\<lparr>kv_value := -1\<rparr>)"
proof -
  have found: "find (hit t k0) (chain_of ch (ht_raw t k0)) = Some (ht_raw t k0)"
    using old(3) by (simp add: chain_of_def)
  obtain t1 where D: "ht_Delete alloc free t kv0 = Some (True, t1)" "ht_pool t1 = q" "ht_bucket_num t1 = ht_bucket_num t"
      "ht_first t1 = ht_first t" "\<forall>x. x \<noteq> ht_raw t k0 \<longrightarrow> bucket_of t1 x = bucket_of t x" "ht_wf t1 ch m"
      "\<forall>k'. ht_lookup t1 ch k' = (if same_key t k0 k' then None else ht_lookup t ch k')"
    using Delete_alone [OF wf old(1,2) found old(4), of alloc free] pl(1) by auto
  have raw: "ht_raw t1 = ht_raw t" and at: "bucket_at t1 = bucket_at t"
    using D(3,4) by (simp_all add: fun_eq_iff ht_raw_def bucket_at_def)
  have "ht_lookup t1 ch k = None" "BucketOccupied (bucket_of t1 (ht_raw t1 k))"
    using D(5,7) missing full by (simp_all add: raw)
  then show ?thesis
    using Insert_below_lost [OF D(6) kv, of alloc "ht_raw t k0" q'] D(1-3) pl(2) full(2) ht_wf_slot(1) [OF wf, of k0]
    by (auto simp: raw at)
qed

definition demo_entry :: "bytes \<Rightarrow> int \<Rightarrow> hash_bucket" where
  "demo_entry k v = MarkBucketOccupied (SetValue (set_key k HashBucket_new) v)"

definition demo_table3 :: "nat list hash_table" where
  "demo_table3 = ht_upd (bucket_at demo_table 1) (\<lambda>_. demo_entry [0] 7) (ht_upd (bucket_at demo_table 0) (\<lambda>_. demo_entry [1] 8) demo_table)"

lemma demo_rows:
  "unat (key_hash [0] kRawKeyHashSeed AND 1) = 1" "unat (key_hash [1] kRawKeyHashSeed AND 1) = 0"
  "unat (key_hash [2] kRawKeyHashSeed AND 1) = 0"
  by code_simp+

lemma demo_table3_simps:
  "ht_bucket_num demo_table3 = 2" "ht_first demo_table3 = 100" "ht_attached demo_table3" "ht_pool demo_table3 = [134, 151]"
  "bucket_of demo_table3 x = (if x = 1 then demo_entry [0] 7 else if x = 0 then demo_entry [1] 8 else HashBucket_new)"
proof -
  show "ht_pool demo_table3 = [134, 151]" by (simp add: demo_table3_def) (simp add: demo_table_def HashTable_new_def)
  show "bucket_of demo_table3 x = (if x = 1 then demo_entry [0] 7 else if x = 0 then demo_entry [1] 8 else HashBucket_new)"
    by (simp add: demo_table3_def)
qed (simp_all add: demo_table3_def)

lemma demo_entry_facts:
  assumes "length k < 256"
  shows "BucketOccupied (demo_entry k v)" "bucket_sig (demo_entry k v) = Some (key_sig_of k)"
    "length (hb_payload (demo_entry k v)) = 2" "hb_next (demo_entry k v) = 0"
  using set_key_facts [of HashBucket_new k] assms by (simp_all add: demo_entry_def)

lemma demo_table3_wf: "ht_wf demo_table3 (\<lambda>_. []) 2"
proof -
  have "payloads_ok demo_table3"
    using demo_entry_facts(3) [of "[0]" 7] demo_entry_facts(3) [of "[1]" 8] by (simp add: payloads_ok_def demo_table3_def)
  then show ?thesis
    by (simp add: ht_wf_def demo_table3_simps demo_entry_facts sigs_distinct_def chain_of_def)
qed

theorem ht_freed_bucket_loses_key_witness:
  "\<exists>t1 t2. ht_Delete list_alloc list_free demo_table3 (demo_kv [0] 0) = Some (True, t1) \<and>
    ht_Insert list_alloc t1 (demo_kv [2] 9) = Some (True, t2) \<and>
    ht_Search list_alloc t2 (demo_kv [2] 9) = Some (False, demo_kv [2] (-1))"
proof -
  have raw: "ht_raw demo_table3 [0] = 1" "ht_raw demo_table3 [1] = 0" "ht_raw demo_table3 [2] = 0"
    using demo_rows by (simp_all add: ht_raw_def demo_table3_simps)
  have hits: "hit demo_table3 [0] 1" "\<not> hit demo_table3 [2] 0" "BucketOccupied (bucket_of demo_table3 0)"
    by (simp_all add: hit_def demo_table3_simps demo_entry_facts key_sig_of_def)
  then have missing: "ht_lookup demo_table3 (\<lambda>_. []) [2] = None"
    by (simp add: ht_lookup_def raw chain_of_def)
  show ?thesis
    using ht_freed_bucket_loses_key [OF demo_table3_wf, of "demo_kv [0] 0" "[0]" "demo_kv [2] 9" "[2]" list_free
        "[bucket_at demo_table3 1, 134, 151]" list_alloc "[134, 151]"] hits missing
    by (simp add: raw demo_kv_def list_free_def list_alloc_def demo_table3_simps(4))
qed

end
