(* ===== verification/Sort_Search.thy ===== *)
theory Sort_Search
  imports Prelude
begin

text \<open>
  \<open>SortTable::SimdBinarySearch\<close> (kernel/index/sort_table/sort_table.cc): a search that compares the
  key with several records at once and keeps one of the sections between them, over the keys of
  a table given by index.  The interface \<open>key_search\<close> is the contract that the comment in
  sort_table.h gives for both searchers of the class.
\<close>

unbundle bit_operations_syntax

section \<open>The search\<close>

definition kMaxBinarySearchLevel :: int where
  "kMaxBinarySearchLevel = 2"

definition kDefaultBinarySearchMidCount :: int where
  "kDefaultBinarySearchMidCount = 3"

text \<open>\<open>mid\<close> is a vector of \<open>int32_t\<close>.\<close>

definition simd_mid :: "int \<Rightarrow> int \<Rightarrow> int \<Rightarrow> int \<Rightarrow> int" where
  "simd_mid left base rem i =
     signed_take_bit 31 (left + base * i + (if i > rem then rem else i) + base div 2)"

text \<open>The loop fills \<open>mid\<close> and \<open>cmp_buffer\<close> up to the first index past the right end.\<close>

fun simd_fill :: "(int \<Rightarrow> int) \<Rightarrow> int \<Rightarrow> int \<Rightarrow> int \<Rightarrow> int \<Rightarrow> int \<Rightarrow> nat \<Rightarrow> int list \<times> int list" where
  "simd_fill key left right base rem i 0 = ([], [])"
| "simd_fill key left right base rem i (Suc n) =
     (let m = simd_mid left base rem i in
      if m > right then ([m], [])
      else case simd_fill key left right base rem (i + 1) n of (mid, buf) \<Rightarrow> (m # mid, key m # buf))"

text \<open>The number of lanes before the first that is greater than the key.\<close>

definition simd_first_gt :: "int \<Rightarrow> int list \<Rightarrow> nat" where
  "simd_first_gt nkey buf = length (takeWhile (\<lambda>k. \<not> nkey < k) buf)"

partial_function (option) simd_loop ::
  "(int \<Rightarrow> int) \<Rightarrow> nat \<Rightarrow> int \<Rightarrow> int \<Rightarrow> int \<Rightarrow> int \<Rightarrow> int \<Rightarrow> (int + int) option" where
  "simd_loop key bs_level bs_mid_count nkey sz left right =
     (if left \<le> right then
        let base = sz div 2 ^ bs_level; rem = sz AND bs_mid_count;
            mid = fst (simd_fill key left right base rem 0 (nat bs_mid_count));
            buf = snd (simd_fill key left right base rem 0 (nat bs_mid_count));
            i = simd_first_gt nkey buf
        in
        if 0 < i \<and> key (mid ! (i - 1)) = nkey then Some (Inl (mid ! (i - 1)))
        else
          let left' = (if int i \<ge> bs_mid_count then mid ! nat (bs_mid_count - 1) + 1
                       else if i = 0 then left else mid ! (i - 1) + 1);
              right' = (if int i \<ge> bs_mid_count then right else mid ! i - 1)
          in simd_loop key bs_level bs_mid_count nkey (right' - left' + 1) left' right'
      else Some (Inr right))"

text \<open>A found index, or the index of the nearest smaller key.\<close>

definition simd_search :: "nat \<Rightarrow> int \<Rightarrow> (int \<Rightarrow> int) \<Rightarrow> int \<Rightarrow> int \<Rightarrow> (int + int) option" where
  "simd_search bs_level bs_mid_count key used nkey =
     (if used \<le> 0 then Some (Inr (-1))
      else if key 0 = nkey then Some (Inl 0)
      else if key (used - 1) = nkey then Some (Inl (used - 1))
      else simd_loop key bs_level bs_mid_count nkey used 0 (used - 1))"

section \<open>The contract of a searcher\<close>

definition ascending :: "(int \<Rightarrow> int) \<Rightarrow> int \<Rightarrow> bool" where
  "ascending key n \<longleftrightarrow> (\<forall>i j. 0 \<le> i \<longrightarrow> i < j \<longrightarrow> j < n \<longrightarrow> key i < key j)"

fun search_answer :: "(int \<Rightarrow> int) \<Rightarrow> int \<Rightarrow> int \<Rightarrow> int + int \<Rightarrow> bool" where
  "search_answer key n x (Inl i) \<longleftrightarrow> 0 \<le> i \<and> i < n \<and> key i = x"
| "search_answer key n x (Inr p) \<longleftrightarrow> -1 \<le> p \<and> p < n \<and>
     (\<forall>j. 0 \<le> j \<longrightarrow> j \<le> p \<longrightarrow> key j < x) \<and> (\<forall>j. p < j \<longrightarrow> j < n \<longrightarrow> x < key j)"

locale key_search =
  fixes search :: "(int \<Rightarrow> int) \<Rightarrow> int \<Rightarrow> int \<Rightarrow> (int + int) option"
  assumes search_returns: "ascending key n \<Longrightarrow> 0 \<le> n \<Longrightarrow> n < 2 ^ 31 \<Longrightarrow>
    \<exists>r. search key n x = Some r \<and> search_answer key n x r"

lemma search_answer_unique:
  assumes "ascending key n" "search_answer key n x r" "search_answer key n x r'"
  shows "r = r'"
proof -
  have ne: "i \<noteq> j \<Longrightarrow> 0 \<le> i \<Longrightarrow> 0 \<le> j \<Longrightarrow> i < n \<Longrightarrow> j < n \<Longrightarrow> key i \<noteq> key j" for i j
    using assms(1) unfolding ascending_def by (metis less_irrefl linorder_neqE)
  have between: False if "-1 \<le> p" "\<forall>j. 0 \<le> j \<longrightarrow> j \<le> p \<longrightarrow> key j < x" "\<forall>j. p < j \<longrightarrow> j < n \<longrightarrow> x < key j"
      "0 \<le> i" "i < n" "key i = x" for p i
  proof (cases "i \<le> p")
    case True
    then have "key i < x" using that(2,4) by blast
    then show False using that(6) by simp
  next
    case False
    then have "x < key i" using that(3,5) by simp
    then show False using that(6) by simp
  qed
  have order: "\<not> p < q" if "\<forall>j. p < j \<longrightarrow> j < n \<longrightarrow> x < key j" "\<forall>j. 0 \<le> j \<longrightarrow> j \<le> q \<longrightarrow> key j < x" "-1 \<le> p" "q < n" for p q
  proof
    assume "p < q"
    then have "x < key q" "key q < x" using that by auto
    then show False by simp
  qed
  show ?thesis
  proof (cases r)
    case (Inl i)
    then show ?thesis
    proof (cases r')
      case (Inl j)
      then show ?thesis using \<open>r = Inl i\<close> assms(2,3) ne [of i j] by (cases "i = j") simp_all
    next
      case (Inr p)
      then show ?thesis using Inl assms(2,3) between [of p i] by simp
    qed
  next
    case (Inr p)
    then show ?thesis
    proof (cases r')
      case (Inl i)
      then show ?thesis using Inr assms(2,3) between [of p i] by simp
    next
      case (Inr q)
      then show ?thesis using \<open>r = Inr p\<close> assms(2,3) order [of p q] order [of q p] by simp
    qed
  qed
qed

section \<open>One step of the loop\<close>

lemma simd_mid_fits: "0 \<le> m \<Longrightarrow> m < 2 ^ 31 \<Longrightarrow> signed_take_bit 31 m = (m :: int)"
  by (rule signed_take_bit_int_eq_self) simp_all

lemma and_three: "(x :: int) AND 3 = x mod 4"
proof -
  have "(3 :: int) = mask 2" by (simp add: mask_eq_exp_minus_1)
  then show ?thesis by (simp only: take_bit_eq_mask [symmetric] take_bit_eq_mod) simp
qed

text \<open>Three indices that split the section in increasing order, the first of them inside it.\<close>

lemma simd_mids:
  fixes left right :: int
  assumes "0 \<le> left" "left \<le> right" "right < 2 ^ 31 - 1" "sz = right - left + 1"
  shows "\<exists>a b c. simd_mid left (sz div 4) (sz mod 4) 0 = a \<and> simd_mid left (sz div 4) (sz mod 4) 1 = b \<and>
    simd_mid left (sz div 4) (sz mod 4) 2 = c \<and>
    left \<le> a \<and> a \<le> right \<and> a < b \<and> b \<le> c \<and> c \<le> right + 1 \<and> (b \<le> right \<longrightarrow> b < c)"
proof -
  define q r where "q = sz div 4" and "r = sz mod 4"
  have sz: "sz = 4 * q + r" "0 \<le> r" "r < 4" "0 \<le> q" "0 < sz"
    using assms by (auto simp: q_def r_def)
  define h where "h = q div 2"
  have h: "0 \<le> h" "h \<le> q" "2 * h \<le> q" using sz by (auto simp: h_def)
  let ?a = "left + h" and ?b = "left + q + min 1 r + h" and ?c = "left + q * 2 + min 2 r + h"
  have m: "(if i > r then r else i) = min i r" for i by simp
  have ord: "left \<le> ?a" "?a \<le> right" "?a < ?b" "?b \<le> ?c" "?c \<le> right + 1" "?b \<le> right \<longrightarrow> ?b < ?c"
    using sz h assms(2,4) by linarith+
  have "simd_mid left q r 0 = ?a" "simd_mid left q r 1 = ?b" "simd_mid left q r 2 = ?c"
    unfolding simd_mid_def m h_def [symmetric]
    using ord sz assms(1,3) simd_mid_fits [of ?a] simd_mid_fits [of ?b] simd_mid_fits [of ?c]
    by (simp_all add: mult.commute)
  then show ?thesis using ord unfolding q_def [symmetric] r_def [symmetric] by (intro exI conjI)
qed

text \<open>
  The invariant of the loop: everything left of the section is smaller than the key, everything
  right of it is greater.
\<close>

definition section_ok :: "(int \<Rightarrow> int) \<Rightarrow> int \<Rightarrow> int \<Rightarrow> int \<Rightarrow> int \<Rightarrow> bool" where
  "section_ok key n x left right \<longleftrightarrow> 0 \<le> left \<and> right < n \<and> left \<le> right + 1 \<and>
     (\<forall>j. 0 \<le> j \<longrightarrow> j < left \<longrightarrow> key j < x) \<and> (\<forall>j. right < j \<longrightarrow> j < n \<longrightarrow> x < key j)"

lemma simd_fill_3:
  assumes "simd_mid left base rem 0 = a" "simd_mid left base rem 1 = b" "simd_mid left base rem 2 = c" "a \<le> right"
  shows "simd_fill key left right base rem 0 3 =
    (if b > right then ([a, b], [key a])
     else if c > right then ([a, b, c], [key a, key b]) else ([a, b, c], [key a, key b, key c]))"
  using assms by (simp add: numeral_3_eq_3 Let_def one_add_one)

lemma section_left:
  assumes "section_ok key n x left right" "ascending key n" "left \<le> m" "m \<le> right" "key m < x"
  shows "section_ok key n x (m + 1) right"
proof -
  have "key j < x" if "0 \<le> j" "j < m + 1" for j
  proof (cases "j = m")
    case False
    then have "key j < key m" using assms that unfolding ascending_def section_ok_def by simp
    then show ?thesis using assms(5) by simp
  qed (use assms(5) in simp)
  then show ?thesis using assms unfolding section_ok_def by simp
qed

lemma section_right:
  assumes "section_ok key n x left right" "ascending key n" "left \<le> m" "m \<le> right" "x < key m"
  shows "section_ok key n x left (m - 1)"
proof -
  have "x < key j" if "m - 1 < j" "j < n" for j
  proof (cases "j = m")
    case False
    then have "key m < key j" using assms that unfolding ascending_def section_ok_def by simp
    then show ?thesis using assms(5) by simp
  qed (use assms(5) in simp)
  then show ?thesis using assms unfolding section_ok_def by simp
qed

lemma simd_loop_step:
  assumes "left \<le> right" "simd_fill key left right (sz div 4) (sz mod 4) 0 3 = (m, buf)" "simd_first_gt x buf = i"
  shows "simd_loop key 2 3 x sz left right =
    (if 0 < i \<and> key (m ! (i - 1)) = x then Some (Inl (m ! (i - 1)))
     else if i \<ge> 3 then simd_loop key 2 3 x (right - (m ! 2 + 1) + 1) (m ! 2 + 1) right
     else if i = 0 then simd_loop key 2 3 x (m ! 0 - 1 - left + 1) left (m ! 0 - 1)
     else simd_loop key 2 3 x (m ! i - 1 - (m ! (i - 1) + 1) + 1) (m ! (i - 1) + 1) (m ! i - 1))"
proof -
  have n: "nat 3 = (3 :: nat)" "nat (3 - 1) = (2 :: nat)" "(2 :: int) ^ 2 = 4" "int i \<ge> 3 \<longleftrightarrow> i \<ge> 3" by simp_all
  show ?thesis
    unfolding simd_loop.simps [of key 2 3 x sz left right] and_three Let_def n assms(2) fst_conv snd_conv assms(3)
      if_P [OF assms(1)]
    by (simp only: if_True if_False split: if_split) simp
qed


text \<open>What the number of lanes says of the keys around it.\<close>

lemma simd_lanes:
  assumes "simd_fill key left right q r 0 3 = (m, buf)"
    and "simd_mid left q r 0 = a" "simd_mid left q r 1 = b" "simd_mid left q r 2 = c"
    and "left \<le> a" "a \<le> right" "a < b" "b \<le> c" "c \<le> right + 1" "b \<le> right \<longrightarrow> b < c"
    and i_def: "i = simd_first_gt x buf"
  shows "i \<le> 3 \<and> (i = 0 \<longrightarrow> m ! 0 = a \<and> x < key a) \<and>
    (0 < i \<longrightarrow> left \<le> m ! (i - 1) \<and> m ! (i - 1) \<le> right \<and> key (m ! (i - 1)) \<le> x) \<and>
    (0 < i \<longrightarrow> i < 3 \<longrightarrow> m ! (i - 1) < m ! i \<and> (m ! i = right + 1 \<or> m ! i \<le> right \<and> x < key (m ! i)))"
proof -
  note F = simd_fill_3 [OF assms(2-4) assms(6), of key, unfolded assms(1)]
  consider (one) "m = [a, b]" "buf = [key a]" "b = right + 1"
    | (two) "m = [a, b, c]" "buf = [key a, key b]" "b \<le> right" "c = right + 1"
    | (three) "m = [a, b, c]" "buf = [key a, key b, key c]" "b \<le> right" "c \<le> right"
    using F assms(5-10) by (cases "b > right"; cases "c > right") auto
  then show ?thesis
  proof cases
    case one
    then show ?thesis using assms(5-10) by (cases "x < key a") (simp_all add: i_def simd_first_gt_def)
  next
    case two
    then show ?thesis using assms(5-10)
      by (cases "x < key a"; cases "x < key b") (simp_all add: i_def simd_first_gt_def)
  next
    case three
    then show ?thesis using assms(5-10)
      by (cases "x < key a"; cases "x < key b"; cases "x < key c") (simp_all add: i_def simd_first_gt_def)
  qed
qed

text \<open>One round on a section that is not empty, when the search is right on every smaller section.\<close>

lemma simd_round_correct:
  assumes S: "section_ok key n x left right" and A: "ascending key n" and "n < 2 ^ 31" "sz = right - left + 1"
    and le: "left \<le> right"
    and rec: "\<And>l' r'. section_ok key n x l' r' \<Longrightarrow> left \<le> l' \<Longrightarrow> r' \<le> right \<Longrightarrow> left < l' \<or> r' < right \<Longrightarrow>
      \<exists>r. simd_loop key 2 3 x (r' - l' + 1) l' r' = Some r \<and> search_answer key n x r"
  shows "\<exists>r. simd_loop key 2 3 x sz left right = Some r \<and> search_answer key n x r"
proof -
  obtain a b c where M: "simd_mid left (sz div 4) (sz mod 4) 0 = a" "simd_mid left (sz div 4) (sz mod 4) 1 = b"
    "simd_mid left (sz div 4) (sz mod 4) 2 = c" "left \<le> a" "a \<le> right" "a < b" "b \<le> c" "c \<le> right + 1" "b \<le> right \<longrightarrow> b < c"
    using simd_mids [of left right sz] assms by (auto simp: section_ok_def)
  obtain m buf where fill: "simd_fill key left right (sz div 4) (sz mod 4) 0 3 = (m, buf)" by fastforce
  define i where "i = simd_first_gt x buf"
  note N = simd_lanes [OF fill M i_def]
  note step = simd_loop_step [OF le fill i_def [symmetric]]
  show ?thesis
  proof (cases "i = 0")
    case zero: True
    then have "m ! 0 = a" "x < key a" using N by simp_all
    then show ?thesis unfolding step using zero rec [of left "a - 1"] section_right [OF S A M(4,5)] M(5) by simp
  next
    case pos: False
    define p where "p = m ! (i - 1)"
    have P: "left \<le> p" "p \<le> right" "key p \<le> x" using N pos by (simp_all add: p_def)
    consider (found) "key p = x" | (last_lane) "key p \<noteq> x" "i = 3" | (between) "key p \<noteq> x" "i \<noteq> 3" by blast
    then show ?thesis
    proof cases
      case found
      then have "0 < i \<and> key (m ! (i - 1)) = x" using pos by (simp add: p_def)
      moreover have "search_answer key n x (Inl p)" using found P S by (simp add: section_ok_def)
      ultimately show ?thesis unfolding step p_def by simp
    next
      case last_lane
      then have "section_ok key n x (p + 1) right" using section_left [OF S A P(1,2)] P(3) by simp
      then show ?thesis unfolding step using last_lane rec [of "p + 1" right] P by (simp add: p_def)
    next
      case between
      then have L: "section_ok key n x (p + 1) right" using section_left [OF S A P(1,2)] P(3) by simp
      have Q: "p < m ! i" "m ! i = right + 1 \<or> m ! i \<le> right \<and> x < key (m ! i)"
        using N pos between by (simp_all add: p_def)
      then have "section_ok key n x (p + 1) (m ! i - 1)" using L section_right [OF L A, of "m ! i"] by auto
      moreover have "simd_loop key 2 3 x sz left right =
          simd_loop key 2 3 x (m ! i - 1 - (p + 1) + 1) (p + 1) (m ! i - 1)"
        unfolding step p_def [symmetric] using pos between N by simp
      moreover have "left \<le> p + 1" "m ! i - 1 \<le> right" "left < p + 1 \<or> m ! i - 1 < right" using P Q by auto
      ultimately show ?thesis using rec [of "p + 1" "m ! i - 1"] by (simp only:)
    qed
  qed
qed

lemma simd_loop_correct:
  assumes "section_ok key n x left right" "ascending key n" "n < 2 ^ 31" "sz = right - left + 1"
  shows "\<exists>r. simd_loop key 2 3 x sz left right = Some r \<and> search_answer key n x r"
  using assms
proof (induction "nat (right - left + 1)" arbitrary: sz left right rule: less_induct)
  case less
  note S = less.prems(1) and A = less.prems(2)
  show ?case
  proof (cases "left \<le> right")
    case False
    then have "left = right + 1" using S by (simp add: section_ok_def)
    then have "search_answer key n x (Inr right)" using S by (simp add: section_ok_def)
    then show ?thesis using False by (intro exI [of _ "Inr right"]) (simp add: simd_loop.simps [of key 2 3 x sz left right])
  next
    case True
    from less.prems True show ?thesis
    proof (rule simd_round_correct)
      fix l' r' assume S': "section_ok key n x l' r'" and le: "left \<le> l'" "r' \<le> right" "left < l' \<or> r' < right"
      have "nat (r' - l' + 1) < nat (right - left + 1)" using le True by linarith
      then show "\<exists>r. simd_loop key 2 3 x (r' - l' + 1) l' r' = Some r \<and> search_answer key n x r"
        using less.hyps [OF _ S' A less.prems(3) refl] by simp
    qed
  qed
qed

lemma simd_search_correct:
  assumes "ascending key n" "0 \<le> n" "n < 2 ^ 31"
  shows "\<exists>r. simd_search 2 3 key n x = Some r \<and> search_answer key n x r"
proof (cases "n \<le> 0 \<or> key 0 = x \<or> key (n - 1) = x")
  case True
  then show ?thesis using assms(2) by (cases "n \<le> 0"; cases "key 0 = x") (auto simp: simd_search_def)
next
  case False
  then have "section_ok key n x 0 (n - 1)" by (simp add: section_ok_def)
  then show ?thesis using simd_loop_correct [OF _ assms(1,3), of x 0 "n - 1" n] False by (simp add: simd_search_def)
qed

interpretation simd: key_search "simd_search 2 3"
  by unfold_locales (rule simd_search_correct)

end
