(* ===== verification/Sort_Table.thy ===== *)
theory Sort_Table
  imports Kv_Index Murmur Sort_Search
begin

text \<open>
  \<open>SortTable\<close> (kernel/index/sort_table/sort_table.h, sort_table.cc): an index that keeps 16-byte
  records in the order of their keys in the memory of a pool.  The memory is seen as headers and
  records at addresses; the pool's \<open>Alloc\<close> and \<open>Free\<close> are arguments, and so is
  \<open>NormalBinarySearch\<close>, which the class declares and calls but never defines.
  The records are a function of the address and do not know how far the memory reaches: that a block lies outside the
  mapping is a fault of the argument \<open>alloc\<close> (\<open>mps_touch\<close> of \<open>Upward_Pools\<close>), at the latest where the
  code would fault.
  Sizes are not bounded by 63 bits.  None is a call that faults or does not return.
\<close>

section \<open>The table\<close>

record rec_cell =
  rec_key :: int
  rec_value :: int

record sort_header =
  sh_used_size :: int
  sh_total_size :: int

datatype sort_table_type = EXCLUSIVE | SHARED

record 'p sort_table =
  st_attached :: bool               \<comment> \<open>\<open>mmap_pool_\<close> is not null\<close>
  st_type :: sort_table_type
  st_init_record_num :: int
  st_bs_level :: int
  st_bs_mid_count :: int
  st_header :: nat
  st_first :: nat
  st_pool :: 'p
  st_headers :: "nat \<Rightarrow> sort_header"
  st_records :: "nat \<Rightarrow> rec_cell"

type_synonym searcher = "(int \<Rightarrow> int) \<Rightarrow> int \<Rightarrow> int \<Rightarrow> (int + int) option"

definition rec_Clear :: "rec_cell \<Rightarrow> rec_cell" where
  "rec_Clear r = \<lparr>rec_key = 0, rec_value = 0\<rparr>"

definition rec_SetKey :: "int \<Rightarrow> rec_cell \<Rightarrow> rec_cell" where
  "rec_SetKey k r = r\<lparr>rec_key := k\<rparr>"

definition rec_SetValue :: "int \<Rightarrow> rec_cell \<Rightarrow> rec_cell" where
  "rec_SetValue v r = r\<lparr>rec_value := v\<rparr>"

definition sh_Init :: "int \<Rightarrow> sort_header" where
  "sh_Init init_record_num = \<lparr>sh_used_size = 0, sh_total_size = init_record_num\<rparr>"

definition SortHeader_size :: int where "SortHeader_size = 16"
definition Record_size :: int where "Record_size = 16"
definition kDefaultInitRecordNum :: int where "kDefaultInitRecordNum = 7"
definition kHighHashSeed :: u32 where "kHighHashSeed = 0x89741511"
definition kLowHashSeed :: u32 where "kLowHashSeed = 0x15118974"

definition SortTable_new :: "'p \<Rightarrow> (nat \<Rightarrow> sort_header) \<Rightarrow> (nat \<Rightarrow> rec_cell) \<Rightarrow> 'p sort_table" where
  "SortTable_new pl headers records =
     \<lparr>st_attached = False, st_type = SHARED, st_init_record_num = kDefaultInitRecordNum,
      st_bs_level = kMaxBinarySearchLevel, st_bs_mid_count = kDefaultBinarySearchMidCount,
      st_header = 0, st_first = 0, st_pool = pl, st_headers = headers, st_records = records\<rparr>"

definition st_SetBinarySearchLevel :: "'p sort_table \<Rightarrow> nat \<Rightarrow> 'p sort_table" where
  "st_SetBinarySearchLevel t level =
     (let l = (if int level > kMaxBinarySearchLevel then kMaxBinarySearchLevel else int level) in
      t\<lparr>st_bs_level := l, st_bs_mid_count := 2 ^ nat l - 1\<rparr>)"

definition st_used :: "'p sort_table \<Rightarrow> int" where
  "st_used t = sh_used_size (st_headers t (st_header t))"

definition st_total :: "'p sort_table \<Rightarrow> int" where
  "st_total t = sh_total_size (st_headers t (st_header t))"

definition st_GetUsedSize :: "'p sort_table \<Rightarrow> int" where
  "st_GetUsedSize t = (if st_header t = 0 then 0 else st_used t)"

definition st_GetTotalSize :: "'p sort_table \<Rightarrow> int" where
  "st_GetTotalSize t = (if st_header t = 0 then 0 else st_total t)"

text \<open>The used and the total size of the list of a term, which starts at an offset of the pool's data.\<close>

definition st_UsedSize_at :: "('p \<Rightarrow> nat) \<Rightarrow> 'p sort_table \<Rightarrow> nat \<Rightarrow> int" where
  "st_UsedSize_at data_begin t offset =
     (let h = data_begin (st_pool t) + offset in if h = 0 then 0 else sh_used_size (st_headers t h))"

definition st_TotalSize_at :: "('p \<Rightarrow> nat) \<Rightarrow> 'p sort_table \<Rightarrow> nat \<Rightarrow> int" where
  "st_TotalSize_at data_begin t offset =
     (let h = data_begin (st_pool t) + offset in if h = 0 then 0 else sh_total_size (st_headers t h))"

definition rec_addr :: "'p sort_table \<Rightarrow> int \<Rightarrow> nat" where
  "rec_addr t i = nat (int (st_first t) + Record_size * i)"

definition st_rec :: "'p sort_table \<Rightarrow> int \<Rightarrow> rec_cell" where
  "st_rec t i = st_records t (rec_addr t i)"

definition st_write :: "nat \<Rightarrow> (rec_cell \<Rightarrow> rec_cell) \<Rightarrow> 'p sort_table \<Rightarrow> 'p sort_table" where
  "st_write a f t = t\<lparr>st_records := (st_records t)(a := f (st_records t a))\<rparr>"

definition st_upd_header :: "nat \<Rightarrow> (sort_header \<Rightarrow> sort_header) \<Rightarrow> 'p sort_table \<Rightarrow> 'p sort_table" where
  "st_upd_header a f t = t\<lparr>st_headers := (st_headers t)(a := f (st_headers t a))\<rparr>"

definition st_add_used :: "int \<Rightarrow> 'p sort_table \<Rightarrow> 'p sort_table" where
  "st_add_used d t = st_upd_header (st_header t) (\<lambda>h. h\<lparr>sh_used_size := sh_used_size h + d\<rparr>) t"

section \<open>Start\<close>

definition st_InitEmpty ::
  "('p \<Rightarrow> nat \<Rightarrow> (nat \<times> 'p) option) \<Rightarrow> 'p sort_table \<Rightarrow> int \<Rightarrow> (bool \<times> 'p sort_table) option" where
  "st_InitEmpty alloc t init_record_num =
     (if \<not> st_attached t then Some (False, t)
      else case alloc (st_pool t) (nat (SortHeader_size + Record_size * init_record_num)) of
             None \<Rightarrow> None
           | Some (addr, pl) \<Rightarrow>
               let t1 = t\<lparr>st_pool := pl, st_header := addr\<rparr> in
               if addr = 0 then Some (False, t1)
               else
                 let t2 = (st_upd_header addr (\<lambda>_. sh_Init init_record_num) t1)
                            \<lparr>st_first := addr + nat SortHeader_size\<rparr>
                 in Some (True, fold (\<lambda>i t. st_write (rec_addr t i) rec_Clear t) [0..init_record_num - 1] t2))"

definition st_Load :: "'p sort_table \<Rightarrow> nat \<Rightarrow> bool \<times> 'p sort_table" where
  "st_Load t begin_addr =
     (let t1 = t\<lparr>st_header := begin_addr\<rparr> in
      if begin_addr = 0 then (False, t1) else (True, t1\<lparr>st_first := begin_addr + nat SortHeader_size\<rparr>))"

definition st_Init ::
  "('p \<Rightarrow> nat \<Rightarrow> (nat \<times> 'p) option) \<Rightarrow> 'p sort_table \<Rightarrow> 'p option \<Rightarrow> nat \<Rightarrow> bool \<Rightarrow>
   (bool \<times> 'p sort_table) option" where
  "st_Init alloc t mmap_pool begin_addr create =
     (case mmap_pool of
        None \<Rightarrow> Some (False, t)
      | Some pl \<Rightarrow>
          let t1 = t\<lparr>st_attached := True, st_pool := pl\<rparr> in
          if \<not> create then Some (st_Load t1 begin_addr)
          else st_InitEmpty alloc t1 (st_init_record_num t1))"

section \<open>Finding a record\<close>

text \<open>
  Keys of up to 8 bytes are their own number, as a little-endian \<open>int64_t\<close>; longer ones are
  replaced by two hashes.
\<close>

definition GetHashKey :: "bytes \<Rightarrow> int" where
  "GetHashKey k =
     (if length k \<le> 8 then signed_take_bit 63 (int (le_val k))
      else signed_take_bit 63
        (push_bit 32 (uint (MurmurHash2 k (int (length k)) kHighHashSeed)) OR
         uint (MurmurHash2 k (int (length k)) kLowHashSeed)))"

definition SimdBinarySearch :: "'p sort_table \<Rightarrow> int \<Rightarrow> (int + int) option" where
  "SimdBinarySearch t nkey =
     simd_search (nat (st_bs_level t)) (st_bs_mid_count t) (\<lambda>i. rec_key (st_rec t i)) (st_used t) nkey"

text \<open>The moves go from the last record down; the new record keeps the old value of its cell.\<close>

definition DirectlyAdd :: "'p sort_table \<Rightarrow> int \<Rightarrow> int \<Rightarrow> nat \<times> 'p sort_table" where
  "DirectlyAdd t pos nkey =
     (let t1 = fold (\<lambda>i t. st_write (rec_addr t (i + 1)) (\<lambda>_. st_rec t i) t) (rev [pos + 1..st_used t - 1]) t;
          t2 = st_write (rec_addr t1 (pos + 1)) (rec_SetKey nkey) t1
      in (rec_addr t2 (pos + 1), st_add_used 1 t2))"

definition AllocAdd ::
  "('p \<Rightarrow> nat \<Rightarrow> (nat \<times> 'p) option) \<Rightarrow> ('p \<Rightarrow> nat \<Rightarrow> nat \<Rightarrow> bool \<times> 'p) \<Rightarrow>
   'p sort_table \<Rightarrow> int \<Rightarrow> int \<Rightarrow> (nat \<times> 'p sort_table) option" where
  "AllocAdd alloc free t pos nkey =
     (let old_size = st_total t * Record_size + SortHeader_size; new_size = old_size * 2;
          old_header = st_header t; old_first = st_first t
      in
      if \<not> st_attached t then Some (0, t)
      else case alloc (st_pool t) (nat new_size) of
             None \<Rightarrow> None
           | Some (new_header, pl) \<Rightarrow>
               if new_header = 0 then Some (0, t\<lparr>st_pool := pl\<rparr>)
               else
                 let t1 = st_upd_header new_header (\<lambda>_. \<lparr>sh_used_size = st_used t + 1,
                            sh_total_size = (new_size - SortHeader_size) div Record_size\<rparr>) (t\<lparr>st_pool := pl\<rparr>);
                     old = (\<lambda>i. nat (int old_first + Record_size * i));
                     new = (\<lambda>i. nat (int (new_header + nat SortHeader_size) + Record_size * i));
                     t2 = fold (\<lambda>i t. st_write (new i) (\<lambda>_. st_records t (old i)) t) [0..pos] t1;
                     t3 = st_write (new (pos + 1)) (rec_SetKey nkey) t2;
                     t4 = fold (\<lambda>i t. st_write (new i) (\<lambda>_. st_records t (old (i - 1))) t)
                            [pos + 2..st_used t] t3;
                     t5 = t4\<lparr>st_first := new_header + nat SortHeader_size, st_header := new_header\<rparr>;
                     t6 = st_upd_header old_header
                            (\<lambda>h. h\<lparr>sh_total_size := signed_take_bit 63 (sh_total_size h OR 2 ^ 63)\<rparr>) t5
                 in (case free (st_pool t6) old_header (nat old_size) of
                       (ok, pl') \<Rightarrow>
                         let t7 = t6\<lparr>st_pool := pl'\<rparr>
                         in if \<not> ok then Some (0, t7) else Some (rec_addr t7 (pos + 1), t7)))"

definition ExpandAdd ::
  "('p \<Rightarrow> nat \<Rightarrow> (nat \<times> 'p) option) \<Rightarrow> 'p sort_table \<Rightarrow> int \<Rightarrow> int \<Rightarrow> (nat \<times> 'p sort_table) option" where
  "ExpandAdd alloc t pos nkey =
     (let expand_size = st_total t * Record_size in
      if \<not> st_attached t then Some (0, t)
      else case alloc (st_pool t) (nat expand_size) of
             None \<Rightarrow> None
           | Some (_, pl) \<Rightarrow>
               Some (DirectlyAdd
                 (st_upd_header (st_header t) (\<lambda>h. h\<lparr>sh_total_size := sh_total_size h * 2\<rparr>) (t\<lparr>st_pool := pl\<rparr>))
                 pos nkey))"

text \<open>The record of a key (0 for \<open>nullptr\<close>) and the position that a missing key belongs after.\<close>

definition GetRecordByKey ::
  "searcher \<Rightarrow> ('p \<Rightarrow> nat \<Rightarrow> (nat \<times> 'p) option) \<Rightarrow> ('p \<Rightarrow> nat \<Rightarrow> nat \<Rightarrow> bool \<times> 'p) \<Rightarrow>
   'p sort_table \<Rightarrow> bytes option \<Rightarrow> bool \<Rightarrow> (nat \<times> int \<times> 'p sort_table) option" where
  "GetRecordByKey normal alloc free t key allow_create =
     (case key of
        None \<Rightarrow> Some (0, -1, t)
      | Some k \<Rightarrow>
          let local_key = GetHashKey k in
          (case (if st_header t = 0 then None
                 else if st_bs_level t < kMaxBinarySearchLevel
                 then normal (\<lambda>i. rec_key (st_rec t i)) (st_used t) local_key
                 else SimdBinarySearch t local_key) of
             None \<Rightarrow> None
           | Some (Inl i) \<Rightarrow> Some (rec_addr t i, -1, t)
           | Some (Inr pos) \<Rightarrow>
               if \<not> allow_create then Some (0, pos, t)
               else map_option (\<lambda>(r, t'). (r, pos, t'))
                 (if st_total t > st_used t then Some (DirectlyAdd t pos local_key)
                  else if st_type t = EXCLUSIVE then ExpandAdd alloc t pos local_key
                  else AllocAdd alloc free t pos local_key)))"

section \<open>The operations\<close>

definition st_Insert ::
  "searcher \<Rightarrow> ('p \<Rightarrow> nat \<Rightarrow> (nat \<times> 'p) option) \<Rightarrow> ('p \<Rightarrow> nat \<Rightarrow> nat \<Rightarrow> bool \<times> 'p) \<Rightarrow>
   'p sort_table \<Rightarrow> kv_pair \<Rightarrow> (bool \<times> 'p sort_table) option" where
  "st_Insert normal alloc free t kv =
     (if kv_payload kv \<noteq> [] then Some (False, t)
      else case GetRecordByKey normal alloc free t (kv_key kv) True of
             None \<Rightarrow> None
           | Some (r, _, t') \<Rightarrow>
               if r = 0 then Some (False, t') else Some (True, st_write r (rec_SetValue (kv_value kv)) t'))"

text \<open>
  The record that is deleted is the null one: a missing key makes the loop move records from
  address 0, a key in the table is left there.
\<close>

definition st_Delete ::
  "searcher \<Rightarrow> ('p \<Rightarrow> nat \<Rightarrow> (nat \<times> 'p) option) \<Rightarrow> ('p \<Rightarrow> nat \<Rightarrow> nat \<Rightarrow> bool \<times> 'p) \<Rightarrow>
   'p sort_table \<Rightarrow> kv_pair \<Rightarrow> (bool \<times> 'p sort_table) option" where
  "st_Delete normal alloc free t kv =
     (case GetRecordByKey normal alloc free t (kv_key kv) False of
        None \<Rightarrow> None
      | Some (r, _, t') \<Rightarrow>
          if r = 0 then (if 0 < int (st_first t') + Record_size * (st_used t' - 1) then None
                         else Some (True, st_add_used (-1) t'))
          else Some (False, t'))"

definition st_Search ::
  "searcher \<Rightarrow> ('p \<Rightarrow> nat \<Rightarrow> (nat \<times> 'p) option) \<Rightarrow> ('p \<Rightarrow> nat \<Rightarrow> nat \<Rightarrow> bool \<times> 'p) \<Rightarrow>
   'p sort_table \<Rightarrow> kv_pair \<Rightarrow> (bool \<times> kv_pair) option" where
  "st_Search normal alloc free t kv =
     (case GetRecordByKey normal alloc free t (kv_key kv) False of
        None \<Rightarrow> None
      | Some (r, _, _) \<Rightarrow>
          if r = 0 then Some (False, kv\<lparr>kv_value := -1\<rparr>)
          else Some (True, kv\<lparr>kv_value := rec_value (st_records t r)\<rparr>))"

section \<open>The batch operations\<close>

definition kv_hash :: "kv_pair \<Rightarrow> int" where
  "kv_hash kv = GetHashKey (key_bytes kv)"

text \<open>The records whose key is not in the table, with the position they belong after.\<close>

fun batch_missing ::
  "('p sort_table \<Rightarrow> bytes option \<Rightarrow> (nat \<times> int \<times> 'p sort_table) option) \<Rightarrow> 'p sort_table \<Rightarrow> kv_pair list \<Rightarrow>
   (kv_pair \<times> int) list option" where
  "batch_missing get t [] = Some []"
| "batch_missing get t (kv # kvs) =
     (case get t (kv_key kv) of
        None \<Rightarrow> None
      | Some (r, pos, _) \<Rightarrow>
          map_option (\<lambda>ps. if r = 0 then (kv, pos) # ps else ps) (batch_missing get t kvs))"

text \<open>The merge from the right end: \<open>r\<close> reads, \<open>w\<close> writes; the list is the records in reverse.\<close>

function batch_merge :: "int \<Rightarrow> int \<Rightarrow> (kv_pair \<times> int) list \<Rightarrow> 'p sort_table \<Rightarrow> 'p sort_table" where
  "batch_merge r w ps t =
     (case ps of
        [] \<Rightarrow> t
      | (kv, pos) # ps' \<Rightarrow>
          if r \<ge> 0 \<and> r > pos
          then batch_merge (r - 1) (w - 1) ps (st_write (rec_addr t w) (\<lambda>_. st_rec t r) t)
          else batch_merge r (w - 1) ps'
                 (st_write (rec_addr t w) (\<lambda>_. \<lparr>rec_key = kv_hash kv, rec_value = kv_value kv\<rparr>) t))"
  by pat_completeness auto
termination by (relation "measure (\<lambda>(r, _, ps, _). length ps + nat (r + 1))") auto

declare batch_merge.simps [simp del]

text \<open>
  \<open>sorter\<close> is the sort of the standard library, whose order of equal keys is not determined.  A
  full exclusive table reports success and is left as it was.
\<close>

definition st_BatchInsert ::
  "(kv_pair list \<Rightarrow> kv_pair list) \<Rightarrow> searcher \<Rightarrow> ('p \<Rightarrow> nat \<Rightarrow> (nat \<times> 'p) option) \<Rightarrow>
   ('p \<Rightarrow> nat \<Rightarrow> nat \<Rightarrow> bool \<times> 'p) \<Rightarrow> 'p sort_table \<Rightarrow> kv_pair list \<Rightarrow> bool \<Rightarrow>
   (bool \<times> 'p sort_table) option" where
  "st_BatchInsert sorter normal alloc free t kvs already_sorted =
     (let local_kvs = (if \<not> already_sorted then sorter kvs else kvs) in
      case batch_missing (\<lambda>t k. GetRecordByKey normal alloc free t k False) t local_kvs of
        None \<Rightarrow> None
      | Some missing \<Rightarrow>
          let insert_count = signed_take_bit 31 (int (length missing)) in
          if st_header t = 0 then None
          else if st_total t \<ge> st_used t + insert_count then
            Some (True, st_add_used insert_count
              (batch_merge (st_used t - 1) (st_used t + insert_count - 1) (rev missing) t))
          else if st_type t = EXCLUSIVE then Some (True, t)
          else Some (False, t))"

text \<open>The compaction: \<open>d\<close> counts the records left out.\<close>

function batch_delete_loop :: "int \<Rightarrow> int \<Rightarrow> int \<Rightarrow> kv_pair list \<Rightarrow> int \<Rightarrow> 'p sort_table \<Rightarrow> int \<times> 'p sort_table" where
  "batch_delete_loop n read write_pos kvs d t =
     (if read < n then
        (case kvs of
           kv # kvs' \<Rightarrow>
             if rec_key (st_rec t read) = kv_hash kv then batch_delete_loop n (read + 1) write_pos kvs' (d + 1) t
             else if rec_key (st_rec t read) < kv_hash kv then
               batch_delete_loop n (read + 1) (write_pos + 1) kvs d
                 (if write_pos \<noteq> read then st_write (rec_addr t write_pos) (\<lambda>_. st_rec t read) t else t)
             else batch_delete_loop n read write_pos kvs' d t
         | [] \<Rightarrow>
             batch_delete_loop n (read + 1) (write_pos + 1) [] d
               (if write_pos \<noteq> read then st_write (rec_addr t write_pos) (\<lambda>_. st_rec t read) t else t))
      else (d, t))"
  by pat_completeness auto
termination by (relation "measure (\<lambda>(n, read, _, kvs, _, _). length kvs + nat (n - read))") auto

declare batch_delete_loop.simps [simp del]

definition st_BatchDelete ::
  "(kv_pair list \<Rightarrow> kv_pair list) \<Rightarrow> 'p sort_table \<Rightarrow> kv_pair list \<Rightarrow> bool \<Rightarrow> (bool \<times> 'p sort_table) option" where
  "st_BatchDelete sorter t kvs already_sorted =
     (let local_kvs = (if \<not> already_sorted then sorter kvs else kvs) in
      if st_header t = 0 then None
      else case batch_delete_loop (st_used t) 0 0 local_kvs 0 t of
             (d, t') \<Rightarrow> Some (True, st_add_used (- d) t'))"

end
