(* ===== verification/Sort_Index.thy ===== *)
theory Sort_Index
  imports Sort_Table
begin

text \<open>
  What a client of \<open>SortTable\<close> sees: the table as a map from hashed keys to values, kept by
  \<open>Insert\<close>, \<open>BatchInsert\<close> and \<open>BatchDelete\<close> and read by \<open>Search\<close>.  The client's lemmas rest on the
  contract \<open>key_search\<close> of the searchers.
\<close>

section \<open>Records by index\<close>

lemma rec_addr_inj: "0 \<le> i \<Longrightarrow> 0 \<le> j \<Longrightarrow> rec_addr t i = rec_addr t j \<longleftrightarrow> i = j"
  by (auto simp: rec_addr_def Record_size_def nat_eq_iff2 dest!: arg_cong [where f = int])

lemma rec_addr_first: "st_first t' = st_first t \<Longrightarrow> rec_addr t' = rec_addr t"
  by (intro ext) (simp add: rec_addr_def)

lemma st_write_simps [simp]:
  "st_first (st_write a f t) = st_first t" "st_header (st_write a f t) = st_header t"
  "st_attached (st_write a f t) = st_attached t" "st_type (st_write a f t) = st_type t"
  "st_bs_level (st_write a f t) = st_bs_level t" "st_bs_mid_count (st_write a f t) = st_bs_mid_count t"
  "st_pool (st_write a f t) = st_pool t" "st_headers (st_write a f t) = st_headers t"
  "st_records (st_write a f t) b = (if b = a then f (st_records t a) else st_records t b)"
  "rec_addr (st_write a f t) i = rec_addr t i" "st_used (st_write a f t) = st_used t"
  "st_total (st_write a f t) = st_total t"
  by (simp_all add: st_write_def rec_addr_def st_used_def st_total_def)

lemma st_upd_header_simps [simp]:
  "st_first (st_upd_header a f t) = st_first t" "st_header (st_upd_header a f t) = st_header t"
  "st_attached (st_upd_header a f t) = st_attached t" "st_type (st_upd_header a f t) = st_type t"
  "st_bs_level (st_upd_header a f t) = st_bs_level t" "st_bs_mid_count (st_upd_header a f t) = st_bs_mid_count t"
  "st_pool (st_upd_header a f t) = st_pool t" "st_records (st_upd_header a f t) = st_records t"
  "st_headers (st_upd_header a f t) b = (if b = a then f (st_headers t a) else st_headers t b)"
  "rec_addr (st_upd_header a f t) i = rec_addr t i" "st_rec (st_upd_header a f t) i = st_rec t i"
  by (simp_all add: st_upd_header_def rec_addr_def st_rec_def)

lemma st_add_used_simps [simp]:
  "st_first (st_add_used d t) = st_first t" "st_header (st_add_used d t) = st_header t"
  "st_attached (st_add_used d t) = st_attached t" "st_type (st_add_used d t) = st_type t"
  "st_bs_level (st_add_used d t) = st_bs_level t" "st_bs_mid_count (st_add_used d t) = st_bs_mid_count t"
  "st_pool (st_add_used d t) = st_pool t" "st_records (st_add_used d t) = st_records t"
  "rec_addr (st_add_used d t) i = rec_addr t i" "st_rec (st_add_used d t) i = st_rec t i"
  "st_used (st_add_used d t) = st_used t + d" "st_total (st_add_used d t) = st_total t"
  by (simp_all add: st_add_used_def st_used_def st_total_def)

lemma st_rec_write:
  assumes "0 \<le> i" "0 \<le> j"
  shows "st_rec (st_write (rec_addr t i) f t) j = (if j = i then f (st_rec t i) else st_rec t j)"
  using assms by (simp add: st_rec_def rec_addr_inj)

text \<open>Two tables that differ in their records only.\<close>

definition same_table :: "'p sort_table \<Rightarrow> 'p sort_table \<Rightarrow> bool" where
  "same_table t t' \<longleftrightarrow> t' = t\<lparr>st_records := st_records t'\<rparr>"

lemma same_table_refl [simp]: "same_table t t"
  by (simp add: same_table_def)

lemma same_table_write [simp]: "same_table t (st_write a f t)"
  by (simp add: same_table_def st_write_def)

lemma same_table_trans [trans]: "same_table t t' \<Longrightarrow> same_table t' t'' \<Longrightarrow> same_table t t''"
  by (cases t; cases t'; cases t'') (simp add: same_table_def)

lemma same_tableD:
  assumes "same_table t t'"
  shows "st_first t' = st_first t" "st_header t' = st_header t" "st_attached t' = st_attached t"
    "st_type t' = st_type t" "st_bs_level t' = st_bs_level t" "st_bs_mid_count t' = st_bs_mid_count t"
    "st_pool t' = st_pool t" "st_headers t' = st_headers t" "rec_addr t' = rec_addr t"
    "st_used t' = st_used t" "st_total t' = st_total t"
proof -
  have t': "t' = t\<lparr>st_records := st_records t'\<rparr>" using assms by (simp add: same_table_def)
  show "st_first t' = st_first t" "st_header t' = st_header t" "st_attached t' = st_attached t"
    "st_type t' = st_type t" "st_bs_level t' = st_bs_level t" "st_bs_mid_count t' = st_bs_mid_count t"
    "st_pool t' = st_pool t" "st_headers t' = st_headers t"
    by (subst t', simp)+
  then show "rec_addr t' = rec_addr t" "st_used t' = st_used t" "st_total t' = st_total t"
    by (simp_all add: rec_addr_def fun_eq_iff st_used_def st_total_def)
qed

section \<open>The table as a map\<close>

definition st_view :: "'p sort_table \<Rightarrow> (int \<times> int) list" where
  "st_view t = map (\<lambda>i. (rec_key (st_rec t i), rec_value (st_rec t i))) [0..st_used t - 1]"

definition st_lookup :: "'p sort_table \<Rightarrow> int \<Rightarrow> int option" where
  "st_lookup t = map_of (st_view t)"

abbreviation st_key :: "'p sort_table \<Rightarrow> int \<Rightarrow> int" where
  "st_key t i \<equiv> rec_key (st_rec t i)"

definition st_wf :: "'p sort_table \<Rightarrow> bool" where
  "st_wf t \<longleftrightarrow> 0 < st_header t \<and> st_first t = st_header t + 16 \<and> 0 \<le> st_used t \<and> st_used t \<le> st_total t \<and>
     st_used t < 2 ^ 31 \<and> ascending (st_key t) (st_used t) \<and>
     (st_bs_level t < 2 \<or> st_bs_level t = 2 \<and> st_bs_mid_count t = 3)"

lemma ascending_inj:
  assumes "ascending key n" "0 \<le> i" "i < n" "0 \<le> j" "j < n" "key i = key j"
  shows "i = j"
  using assms unfolding ascending_def by (metis less_irrefl linorder_neqE)

lemma st_lookup_iff:
  assumes "ascending (st_key t) (st_used t)"
  shows "st_lookup t k = Some v \<longleftrightarrow>
    (\<exists>i. 0 \<le> i \<and> i < st_used t \<and> st_rec t i = \<lparr>rec_key = k, rec_value = v\<rparr>)"
proof -
  have "inj_on (st_key t) (set [0..st_used t - 1])"
    using ascending_inj [OF assms] by (intro inj_onI) auto
  then have "distinct (map fst (st_view t))" by (simp add: st_view_def distinct_map comp_def)
  then have "st_lookup t k = Some v \<longleftrightarrow> (k, v) \<in> set (st_view t)"
    by (simp add: st_lookup_def map_of_eq_Some_iff)
  also have "\<dots> \<longleftrightarrow> (\<exists>i. 0 \<le> i \<and> i < st_used t \<and> st_rec t i = \<lparr>rec_key = k, rec_value = v\<rparr>)"
    by (force simp: st_view_def image_iff intro: rec_cell.equality)
  finally show ?thesis .
qed

lemma st_lookup_image:
  assumes "ascending (st_key t) (st_used t)"
  shows "st_lookup t k = Some v \<longleftrightarrow> \<lparr>rec_key = k, rec_value = v\<rparr> \<in> st_rec t ` {0..<st_used t}"
  unfolding st_lookup_iff [OF assms] image_iff by (metis atLeastLessThan_iff)

lemma st_lookup_cong:
  assumes "ascending (st_key t) (st_used t)" "ascending (st_key t') (st_used t')"
    and "\<And>k v. (\<exists>i. 0 \<le> i \<and> i < st_used t' \<and> st_rec t' i = \<lparr>rec_key = k, rec_value = v\<rparr>) \<longleftrightarrow> f k = Some v"
  shows "st_lookup t' = f"
proof
  show "st_lookup t' k = f k" for k
    using st_lookup_iff [OF assms(2), of k] assms(3) [of k] by (metis option.exhaust not_None_eq)
qed

section \<open>A record added after a position\<close>

lemma insert_at_ascending:
  assumes "ascending (st_key t) (st_used t)" "search_answer (st_key t) (st_used t) k (Inr p)"
    and "st_used t' = st_used t + 1"
    and "\<And>i. 0 \<le> i \<Longrightarrow> i \<le> st_used t \<Longrightarrow> st_rec t' i =
      (if i \<le> p then st_rec t i else if i = p + 1 then \<lparr>rec_key = k, rec_value = v\<rparr> else st_rec t (i - 1))"
  shows "ascending (st_key t') (st_used t')"
proof -
  let ?n = "st_used t"
  have p: "-1 \<le> p" "p < ?n" "\<And>j. 0 \<le> j \<Longrightarrow> j \<le> p \<Longrightarrow> st_key t j < k" "\<And>j. p < j \<Longrightarrow> j < ?n \<Longrightarrow> k < st_key t j"
    using assms(2) by simp_all
  have A: "\<And>i j. 0 \<le> i \<Longrightarrow> i < j \<Longrightarrow> j < ?n \<Longrightarrow> st_key t i < st_key t j"
    using assms(1) by (simp add: ascending_def)
  show ?thesis
    unfolding ascending_def
  proof (intro allI impI)
    fix i j assume ij: "0 \<le> i" "i < j" "j < st_used t'"
    have i: "st_rec t' i = (if i \<le> p then st_rec t i else if i = p + 1 then \<lparr>rec_key = k, rec_value = v\<rparr> else st_rec t (i - 1))"
      using assms(3,4) ij by simp
    have j: "st_rec t' j = (if j \<le> p then st_rec t j else if j = p + 1 then \<lparr>rec_key = k, rec_value = v\<rparr> else st_rec t (j - 1))"
      using assms(3,4) ij by simp
    consider "j \<le> p" | "i \<le> p" "j = p + 1" | "i \<le> p" "p + 1 < j" | "i = p + 1" "p + 1 < j" | "p + 1 < i" "p + 1 < j"
      using ij by linarith
    then show "st_key t' i < st_key t' j"
    proof cases
      case 1
      then show ?thesis unfolding i j using A [of i j] ij p(2) by simp
    next
      case 2
      then show ?thesis unfolding i j using p(3) ij by simp
    next
      case 3
      then show ?thesis unfolding i j using A [of i "j - 1"] ij assms(3) by simp
    next
      case 4
      then show ?thesis unfolding i j using p(4) [of "j - 1"] ij assms(3) by simp
    next
      case 5
      then show ?thesis unfolding i j using A [of "i - 1" "j - 1"] ij assms(3) p(1) by simp
    qed
  qed
qed

lemma insert_at_lookup:
  assumes "ascending (st_key t) (st_used t)" "search_answer (st_key t) (st_used t) k (Inr p)"
    and "st_used t' = st_used t + 1"
    and "\<And>i. 0 \<le> i \<Longrightarrow> i \<le> st_used t \<Longrightarrow> st_rec t' i =
      (if i \<le> p then st_rec t i else if i = p + 1 then \<lparr>rec_key = k, rec_value = v\<rparr> else st_rec t (i - 1))"
  shows "st_lookup t' = (st_lookup t)(k \<mapsto> v)"
proof (rule st_lookup_cong [OF assms(1) insert_at_ascending [OF assms]])
  let ?n = "st_used t"
  have p: "-1 \<le> p" "p < ?n" "\<And>j. 0 \<le> j \<Longrightarrow> j \<le> p \<Longrightarrow> st_key t j < k" "\<And>j. p < j \<Longrightarrow> j < ?n \<Longrightarrow> k < st_key t j"
    using assms(2) by simp_all
  fix k' v'
  let ?r = "\<lparr>rec_key = k', rec_value = v'\<rparr>"
  have "(\<exists>i. 0 \<le> i \<and> i < st_used t' \<and> st_rec t' i = ?r) \<longleftrightarrow>
    k' = k \<and> v' = v \<or> (\<exists>i. 0 \<le> i \<and> i < ?n \<and> st_rec t i = ?r)" (is "?L = ?R")
  proof
    assume ?L
    then obtain i where i: "0 \<le> i" "i \<le> ?n" "st_rec t' i = ?r" using assms(3) by auto
    consider "i \<le> p" | "i = p + 1" | "p + 1 < i" by linarith
    then show ?R
    proof cases
      case 1
      then show ?thesis using i assms(4) [of i] p(2) by (intro disjI2 exI [of _ i]) simp
    next
      case 2
      then show ?thesis using i assms(4) [of i] by simp
    next
      case 3
      then show ?thesis using i assms(4) [of i] p(1) by (intro disjI2 exI [of _ "i - 1"]) simp
    qed
  next
    assume ?R
    then show ?L
    proof
      assume "k' = k \<and> v' = v"
      then show ?L using assms(3) assms(4) [of "p + 1"] p(1,2) by (intro exI [of _ "p + 1"]) simp
    next
      assume "\<exists>i. 0 \<le> i \<and> i < ?n \<and> st_rec t i = ?r"
      then obtain i where i: "0 \<le> i" "i < ?n" "st_rec t i = ?r" by blast
      show ?L
      proof (cases "i \<le> p")
        case True
        then show ?thesis using i assms(3) assms(4) [of i] by (intro exI [of _ i]) simp
      next
        case False
        then show ?thesis using i assms(3) assms(4) [of "i + 1"] by (intro exI [of _ "i + 1"]) simp
      qed
    qed
  qed
  moreover have "(\<exists>i. 0 \<le> i \<and> i < ?n \<and> st_rec t i = \<lparr>rec_key = k, rec_value = v'\<rparr>) \<longleftrightarrow> False"
    using p by (metis le_less_linear less_irrefl rec_cell.select_convs(1))
  ultimately show "?L \<longleftrightarrow> ((st_lookup t)(k \<mapsto> v)) k' = Some v'"
    using st_lookup_iff [OF assms(1), of k' v'] by auto
qed

lemma store_at:
  assumes "ascending (st_key t) (st_used t)" "0 \<le> j" "j < st_used t" "st_key t j = k" "st_used t' = st_used t"
    and "\<And>i. 0 \<le> i \<Longrightarrow> i < st_used t \<Longrightarrow> st_rec t' i = (if i = j then (st_rec t i)\<lparr>rec_value := v\<rparr> else st_rec t i)"
  shows "ascending (st_key t') (st_used t')" "st_lookup t' = (st_lookup t)(k \<mapsto> v)"
proof -
  have key: "st_key t' i = st_key t i" if "0 \<le> i" "i < st_used t" for i using assms(6) that by simp
  show asc: "ascending (st_key t') (st_used t')"
    using assms(1,5) key unfolding ascending_def by simp
  show "st_lookup t' = (st_lookup t)(k \<mapsto> v)"
  proof (rule st_lookup_cong [OF assms(1) asc])
    fix k' v'
    have "st_rec t j = \<lparr>rec_key = k, rec_value = rec_value (st_rec t j)\<rparr>" using assms(4) by simp
    moreover have "i = j" if "0 \<le> i" "i < st_used t" "st_key t i = k" for i
      using ascending_inj [OF assms(1)] that assms(2-4) by blast
    ultimately have "(\<exists>i. 0 \<le> i \<and> i < st_used t' \<and> st_rec t' i = \<lparr>rec_key = k', rec_value = v'\<rparr>) \<longleftrightarrow>
      k' = k \<and> v' = v \<or> k' \<noteq> k \<and> (\<exists>i. 0 \<le> i \<and> i < st_used t \<and> st_rec t i = \<lparr>rec_key = k', rec_value = v'\<rparr>)"
      using assms(2,3,4,5,6) by (smt (verit) rec_cell.select_convs rec_cell.surjective rec_cell.update_convs(2) old.unit.exhaust)
    then show "(\<exists>i. 0 \<le> i \<and> i < st_used t' \<and> st_rec t' i = \<lparr>rec_key = k', rec_value = v'\<rparr>) \<longleftrightarrow>
      ((st_lookup t)(k \<mapsto> v)) k' = Some v'"
      using st_lookup_iff [OF assms(1), of k' v'] by auto
  qed
qed

section \<open>The three ways to add a record\<close>

abbreviation moves :: "int \<Rightarrow> int \<Rightarrow> 'p sort_table \<Rightarrow> 'p sort_table" where
  "moves a n t \<equiv> fold (\<lambda>i t. st_write (rec_addr t (i + 1)) (\<lambda>_. st_rec t i) t) (rev [a..n - 1]) t"

lemma move_up:
  assumes "0 \<le> a"
  shows "same_table t (moves a n t) \<and> (\<forall>j \<ge> 0. st_rec (moves a n t) j = (if a < j \<and> j \<le> n then st_rec t (j - 1) else st_rec t j))"
  using assms
proof (induction "nat (n - a)" arbitrary: n t)
  case 0
  then show ?case by simp
next
  case (Suc m)
  then have n: "[a..n - 1] = [a..n - 1 - 1] @ [n - 1]" by (subst upto_rec2) simp_all
  let ?t1 = "st_write (rec_addr t n) (\<lambda>_. st_rec t (n - 1)) t"
  have rec: "st_rec ?t1 j = (if j = n then st_rec t (n - 1) else st_rec t j)" if "0 \<le> j" for j
    using st_rec_write [of n j t] that Suc.hyps(2) assms by simp
  have IH: "same_table ?t1 (moves a (n - 1) ?t1) \<and>
      (\<forall>j \<ge> 0. st_rec (moves a (n - 1) ?t1) j =
        (if a < j \<and> j \<le> n - 1 then st_rec ?t1 (j - 1) else st_rec ?t1 j))"
    using Suc.hyps(2) assms by (intro Suc.hyps(1)) auto
  have fold: "moves a n t =
      moves a (n - 1) ?t1"
    unfolding n by simp
  show ?case
    unfolding fold
  proof (intro conjI allI impI)
    show "same_table t (moves a (n - 1) ?t1)"
      using IH same_table_trans [OF same_table_write] by blast
    fix j :: int assume "0 \<le> j"
    then show "st_rec (moves a (n - 1) ?t1) j =
        (if a < j \<and> j \<le> n then st_rec t (j - 1) else st_rec t j)"
      using IH rec [of j] rec [of "j - 1"] Suc.hyps(2) assms by auto
  qed
qed

text \<open>What a way to add a record leaves: room for the key after its position, everything else moved up.\<close>

definition added :: "'p sort_table \<Rightarrow> int \<Rightarrow> int \<Rightarrow> nat \<Rightarrow> 'p sort_table \<Rightarrow> bool" where
  "added t pos k r t' \<longleftrightarrow> r = rec_addr t' (pos + 1) \<and> 0 < st_header t' \<and> st_first t' = st_header t' + 16 \<and>
     st_used t' = st_used t + 1 \<and> st_used t' \<le> st_total t' \<and> st_attached t' = st_attached t \<and> st_type t' = st_type t \<and>
     st_bs_level t' = st_bs_level t \<and> st_bs_mid_count t' = st_bs_mid_count t \<and>
     (\<forall>i. 0 \<le> i \<longrightarrow> i \<le> st_used t \<longrightarrow> i \<noteq> pos + 1 \<longrightarrow> st_rec t' i = (if i \<le> pos then st_rec t i else st_rec t (i - 1))) \<and>
     st_key t' (pos + 1) = k"

lemma DirectlyAdd_added:
  assumes "-1 \<le> pos" "pos < st_used t" "0 < st_header t" "st_first t = st_header t + 16" "st_used t < st_total t"
  shows "case DirectlyAdd t pos k of (r, t') \<Rightarrow> added t pos k r t' \<and> st_pool t' = st_pool t \<and> st_total t' = st_total t \<and>
    st_header t' = st_header t"
proof -
  let ?t1 = "moves (pos + 1) (st_used t) t"
  have M: "same_table t ?t1"
    "\<And>j. 0 \<le> j \<Longrightarrow> st_rec ?t1 j = (if pos + 1 < j \<and> j \<le> st_used t then st_rec t (j - 1) else st_rec t j)"
    using move_up [of "pos + 1" t "st_used t"] assms(1) by simp_all
  note S = same_tableD [OF M(1)]
  let ?t2 = "st_write (rec_addr ?t1 (pos + 1)) (rec_SetKey k) ?t1"
  have D: "DirectlyAdd t pos k = (rec_addr ?t2 (pos + 1), st_add_used 1 ?t2)"
    by (simp add: DirectlyAdd_def Let_def)
  have "st_rec ?t2 j = (if j = pos + 1 then rec_SetKey k (st_rec ?t1 j) else st_rec ?t1 j)" if "0 \<le> j" for j
    using st_rec_write [of "pos + 1" j ?t1] that assms(1) by simp
  then show ?thesis
    using assms M(2) unfolding D by (simp add: added_def S rec_SetKey_def)
qed

lemma copy_records:
  assumes "inj_on dst (set xs)" "distinct xs" "\<And>i j. i \<in> set xs \<Longrightarrow> j \<in> set xs \<Longrightarrow> dst i \<noteq> src j"
  defines "cp \<equiv> \<lambda>i t. st_write (dst i) (\<lambda>_. st_records t (src i)) t"
  shows "same_table t (fold cp xs t) \<and> (\<forall>i \<in> set xs. st_records (fold cp xs t) (dst i) = st_records t (src i)) \<and>
    (\<forall>b. b \<notin> dst ` set xs \<longrightarrow> st_records (fold cp xs t) b = st_records t b)"
  using assms(1-3)
proof (induction xs arbitrary: t)
  case Nil
  then show ?case by simp
next
  case (Cons x xs)
  have IH: "same_table (cp x t) (fold cp xs (cp x t)) \<and>
      (\<forall>i \<in> set xs. st_records (fold cp xs (cp x t)) (dst i) = st_records (cp x t) (src i)) \<and>
      (\<forall>b. b \<notin> dst ` set xs \<longrightarrow> st_records (fold cp xs (cp x t)) b = st_records (cp x t) b)"
    using Cons.prems by (intro Cons.IH) (auto simp: inj_on_def)
  have "same_table t (fold cp xs (cp x t))"
    using IH same_table_trans [OF same_table_write] unfolding cp_def by blast
  moreover have "st_records (cp x t) (src i) = st_records t (src i)" if "i \<in> set xs" for i
    using Cons.prems(3) [of x i] that by (auto simp: cp_def)
  moreover have "dst x \<notin> dst ` set xs" using Cons.prems(1,2) by (auto simp: inj_on_def)
  ultimately show ?case using IH by (auto simp: cp_def)
qed

definition fresh_block :: "'p sort_table \<Rightarrow> nat \<Rightarrow> bool" where
  "fresh_block t a \<longleftrightarrow> 0 < a \<and>
     (int a + 2 * (Record_size * st_total t + SortHeader_size) \<le> int (st_header t) \<or>
      int (st_first t) + Record_size * st_total t \<le> int a)"

abbreviation copies :: "(int \<Rightarrow> nat) \<Rightarrow> (int \<Rightarrow> nat) \<Rightarrow> int list \<Rightarrow> 'p sort_table \<Rightarrow> 'p sort_table" where
  "copies dst src xs t \<equiv> fold (\<lambda>i t. st_write (dst i) (\<lambda>_. st_records t (src i)) t) xs t"

text \<open>The records before the new one, and the new one.\<close>

lemma copy_front:
  fixes t1 :: "'p sort_table" and k pos n :: int and new old :: "int \<Rightarrow> nat"
  assumes "-1 \<le> pos" "pos < n"
    and inj': "\<forall>i j. 0 \<le> i \<longrightarrow> 0 \<le> j \<longrightarrow> new i = new j \<longrightarrow> i = (j :: int)"
    and apart': "\<forall>i l. 0 \<le> i \<longrightarrow> i \<le> n \<longrightarrow> 0 \<le> l \<longrightarrow> l < n \<longrightarrow> new i \<noteq> old l"
  defines "t2 \<equiv> st_write (new (pos + 1)) (rec_SetKey k) (copies new old [0..pos] t1)"
  shows "same_table t1 t2" "0 \<le> i \<Longrightarrow> i \<le> pos \<Longrightarrow> st_records t2 (new i) = st_records t1 (old i)"
    "st_records t2 (new (pos + 1)) = rec_SetKey k (st_records t1 (new (pos + 1)))"
    "0 \<le> l \<Longrightarrow> l < n \<Longrightarrow> st_records t2 (old l) = st_records t1 (old l)"
proof -
  note inj = inj' [rule_format] and apart = apart' [rule_format]
  have "inj_on new (set [0..pos])" using inj by (auto intro!: inj_onI)
  from copy_records [OF this, of old t1]
  have A: "same_table t1 (copies new old [0..pos] t1) \<and>
      (\<forall>i \<in> set [0..pos]. st_records (copies new old [0..pos] t1) (new i) = st_records t1 (old i)) \<and>
      (\<forall>b. b \<notin> new ` set [0..pos] \<longrightarrow> st_records (copies new old [0..pos] t1) b = st_records t1 b)"
    using assms(1,2) apart by auto
  show "same_table t1 t2" using A same_table_trans [OF _ same_table_write] unfolding t2_def by blast
  show "st_records t2 (new i) = st_records t1 (old i)" if "0 \<le> i" "i \<le> pos" for i
    using A that inj [of i "pos + 1"] assms(1) by (auto simp: t2_def)
  have "new (pos + 1) \<notin> new ` set [0..pos]" using inj [of "pos + 1"] assms(1) by fastforce
  then show "st_records t2 (new (pos + 1)) = rec_SetKey k (st_records t1 (new (pos + 1)))" using A by (simp add: t2_def)
  show "st_records t2 (old l) = st_records t1 (old l)" if "0 \<le> l" "l < n" for l
  proof -
    have "old l \<notin> new ` set [0..pos]" using apart [OF _ _ that] assms(2) by fastforce
    moreover have "old l \<noteq> new (pos + 1)" using apart [OF _ _ that, of "pos + 1"] assms(1,2) by force
    ultimately show ?thesis using A by (simp add: t2_def)
  qed
qed

lemma copy_around:
  fixes t1 :: "'p sort_table" and k pos n :: int and new old :: "int \<Rightarrow> nat"
  assumes "-1 \<le> pos" "pos < n"
    and inj: "\<And>i j. 0 \<le> i \<Longrightarrow> 0 \<le> j \<Longrightarrow> new i = new j \<Longrightarrow> i = (j :: int)"
    and apart: "\<And>i l. 0 \<le> i \<Longrightarrow> i \<le> n \<Longrightarrow> 0 \<le> l \<Longrightarrow> l < n \<Longrightarrow> new i \<noteq> old l"
  defines "t2 \<equiv> st_write (new (pos + 1)) (rec_SetKey k) (copies new old [0..pos] t1)"
  defines "t3 \<equiv> copies new (\<lambda>i. old (i - 1)) [pos + 2..n] t2"
  shows "same_table t1 t3 \<and> (\<forall>i. 0 \<le> i \<longrightarrow> i \<le> n \<longrightarrow> st_records t3 (new i) =
    (if i \<le> pos then st_records t1 (old i)
     else if i = pos + 1 then rec_SetKey k (st_records t1 (new i)) else st_records t1 (old (i - 1))))"
proof -
  have "\<forall>i j. 0 \<le> i \<longrightarrow> 0 \<le> j \<longrightarrow> new i = new j \<longrightarrow> i = j"
    "\<forall>i l. 0 \<le> i \<longrightarrow> i \<le> n \<longrightarrow> 0 \<le> l \<longrightarrow> l < n \<longrightarrow> new i \<noteq> old l"
    using inj apart by blast+
  note F = copy_front [where k = k and ?t1.0 = t1, OF assms(1,2) this, folded t2_def]
  have "inj_on new (set [pos + 2..n])" using inj assms(1) by (auto intro!: inj_onI)
  from copy_records [OF this, of "\<lambda>i. old (i - 1)" t2, folded t3_def]
  have B: "same_table t2 t3 \<and> (\<forall>i \<in> set [pos + 2..n]. st_records t3 (new i) = st_records t2 (old (i - 1))) \<and>
      (\<forall>b. b \<notin> new ` set [pos + 2..n] \<longrightarrow> st_records t3 b = st_records t2 b)"
    using assms(1,2) apart by auto
  have "st_records t3 (new i) = (if i \<le> pos then st_records t1 (old i)
     else if i = pos + 1 then rec_SetKey k (st_records t1 (new i)) else st_records t1 (old (i - 1)))"
    if i: "0 \<le> i" "i \<le> n" for i
  proof (cases "pos + 2 \<le> i")
    case True
    then have "st_records t3 (new i) = st_records t2 (old (i - 1))" using B i by simp
    moreover have "st_records t2 (old (i - 1)) = st_records t1 (old (i - 1))" using True i assms(1) by (intro F(4)) auto
    ultimately show ?thesis using True by simp
  next
    case False
    then have "new i \<noteq> new l" if "l \<in> set [pos + 2..n]" for l using inj [of i l] that i assms(1) by auto
    then have "new i \<notin> new ` set [pos + 2..n]" by blast
    then have "st_records t3 (new i) = st_records t2 (new i)" using B by blast
    then show ?thesis using F(2) [of i] F(3) False i by (cases "i = pos + 1") auto
  qed
  moreover have "same_table t1 t3" using same_table_trans [OF F(1)] B by blast
  ultimately show ?thesis by blast
qed

lemma AllocAdd_added:
  assumes p: "-1 \<le> pos" "pos < st_used t" and t: "0 < st_header t" "st_first t = st_header t + 16" "st_used t \<le> st_total t"
    and alloc: "st_attached t" "alloc (st_pool t) (nat (2 * (16 * st_total t + 16))) = Some (a, q)" "fresh_block t a"
    and free: "free q (st_header t) (nat (16 * st_total t + 16)) = (True, q')"
  shows "\<exists>r t'. AllocAdd alloc free t pos k = Some (r, t') \<and> added t pos k r t' \<and> st_pool t' = q' \<and>
    st_total t' = 2 * st_total t + 1 \<and> st_header t' = a"
proof -
  let ?n = "st_used t" and ?T = "st_total t" and ?h = "st_header t"
  define old where "old = (\<lambda>i. nat (int (st_first t) + 16 * i))"
  define new where "new = (\<lambda>i. nat (int (a + 16) + 16 * i))"
  define t1 where "t1 = st_upd_header a (\<lambda>_. \<lparr>sh_used_size = ?n + 1, sh_total_size = 2 * ?T + 1\<rparr>) (t\<lparr>st_pool := q\<rparr>)"
  define t4 where "t4 = copies new (\<lambda>i. old (i - 1)) [pos + 2..?n]
    (st_write (new (pos + 1)) (rec_SetKey k) (copies new old [0..pos] t1))"
  have inj: "i = j" if "0 \<le> i" "0 \<le> j" "new i = new j" for i j
    using that by (auto simp: new_def nat_eq_iff2)
  have apart: "new i \<noteq> old l" if "0 \<le> i" "i \<le> ?n" "0 \<le> l" "l < ?n" for i l
    using that alloc(3) t by (auto simp: new_def old_def fresh_block_def Record_size_def SortHeader_size_def nat_eq_iff2)
  have C: "same_table t1 t4 \<and> (\<forall>i. 0 \<le> i \<longrightarrow> i \<le> ?n \<longrightarrow> st_records t4 (new i) =
      (if i \<le> pos then st_records t1 (old i)
       else if i = pos + 1 then rec_SetKey k (st_records t1 (new i)) else st_records t1 (old (i - 1))))"
    unfolding t4_def by (rule copy_around [OF p inj apart])
  then have same: "same_table t1 t4" by blast
  note S = same_tableD [OF same]
  have ah: "a \<noteq> ?h" using alloc(3) t p by (auto simp: fresh_block_def Record_size_def SortHeader_size_def)
  define t7 where "t7 = (st_upd_header ?h (\<lambda>h. h\<lparr>sh_total_size := signed_take_bit 63 (sh_total_size h OR 2 ^ 63)\<rparr>)
    (t4\<lparr>st_first := a + 16, st_header := a\<rparr>))\<lparr>st_pool := q'\<rparr>"
  have new_size: "(2 * (16 * ?T + 16) - 16) div 16 = 2 * ?T + 1" by simp
  have a0: "0 < a" using alloc(3) by (simp add: fresh_block_def)
  have "AllocAdd alloc free t pos k = Some (rec_addr t7 (pos + 1), t7)"
    using alloc(1,2) free a0 new_size S(7)
    by (simp add: AllocAdd_def Let_def Record_size_def SortHeader_size_def t7_def t4_def t1_def new_def old_def
        add.commute mult.commute rec_addr_def)
  moreover have "added t pos k (rec_addr t7 (pos + 1)) t7 \<and> st_pool t7 = q' \<and> st_total t7 = 2 * ?T + 1 \<and> st_header t7 = a"
  proof -
    have heads: "st_headers t4 a = \<lparr>sh_used_size = ?n + 1, sh_total_size = 2 * ?T + 1\<rparr>"
      using S(8) by (simp add: t1_def)
    have rec: "st_rec t7 i = st_records t4 (new i)" for i
      by (simp add: st_rec_def t7_def rec_addr_def new_def Record_size_def)
    have src: "st_records t1 (old i) = st_rec t i" for i
      by (simp add: t1_def st_rec_def rec_addr_def old_def Record_size_def)
    show ?thesis
      using a0 ah heads rec src C p t(3) S
      by (simp add: added_def) (simp add: t7_def t1_def st_used_def st_total_def rec_SetKey_def)
  qed
  ultimately show ?thesis by blast
qed

lemma ExpandAdd_added:
  assumes "-1 \<le> pos" "pos < st_used t" "0 < st_header t" "st_first t = st_header t + 16" "st_used t = st_total t" "0 < st_used t"
    and "st_attached t" "alloc (st_pool t) (nat (16 * st_total t)) = Some (a, q)"
  shows "\<exists>r t'. ExpandAdd alloc t pos k = Some (r, t') \<and> added t pos k r t' \<and> st_pool t' = q \<and>
    st_total t' = 2 * st_total t \<and> st_header t' = st_header t"
proof -
  let ?t1 = "st_upd_header (st_header t) (\<lambda>h. h\<lparr>sh_total_size := sh_total_size h * 2\<rparr>) (t\<lparr>st_pool := q\<rparr>)"
  have u: "st_used ?t1 = st_used t" "st_total ?t1 = 2 * st_total t" by (simp_all add: st_used_def st_total_def)
  obtain r t' where D: "DirectlyAdd ?t1 pos k = (r, t')" by fastforce
  have "added ?t1 pos k r t' \<and> st_pool t' = st_pool ?t1 \<and> st_total t' = st_total ?t1 \<and> st_header t' = st_header ?t1"
    using DirectlyAdd_added [of pos ?t1 k] assms(1-6) u D by auto
  moreover have "st_rec ?t1 = st_rec t" by (intro ext) (simp add: st_rec_def rec_addr_def)
  ultimately have "added t pos k r t' \<and> st_pool t' = q \<and> st_total t' = 2 * st_total t \<and> st_header t' = st_header t"
    using u by (simp add: added_def)
  then show ?thesis using assms(7,8) D by (simp add: ExpandAdd_def Record_size_def mult.commute)
qed

section \<open>Search and Insert against the map\<close>

lemma lookup_answer:
  assumes "ascending (st_key t) (st_used t)" "search_answer (st_key t) (st_used t) x r"
  shows "st_lookup t x = (case r of Inl i \<Rightarrow> Some (rec_value (st_rec t i)) | Inr p \<Rightarrow> None)"
proof (cases r)
  case (Inl i)
  then show ?thesis using assms(2) st_lookup_iff [OF assms(1), of x "rec_value (st_rec t i)"]
    by (auto intro!: exI [of _ i])
next
  case (Inr p)
  have "st_lookup t x \<noteq> Some v" for v
  proof
    assume "st_lookup t x = Some v"
    then obtain i where i: "0 \<le> i" "i < st_used t" "st_key t i = x"
      using st_lookup_iff [OF assms(1), of x v] by auto
    then have "search_answer (st_key t) (st_used t) x (Inl i)" by simp
    then show False using search_answer_unique [OF assms(1) assms(2)] Inr by blast
  qed
  then show ?thesis using Inr by (cases "st_lookup t x") auto
qed

text \<open>Room for one more record: a free cell, or a pool that gives the larger block.\<close>

definition can_add :: "('p \<Rightarrow> nat \<Rightarrow> (nat \<times> 'p) option) \<Rightarrow> ('p \<Rightarrow> nat \<Rightarrow> nat \<Rightarrow> bool \<times> 'p) \<Rightarrow> 'p sort_table \<Rightarrow> bool" where
  "can_add alloc free t \<longleftrightarrow> st_used t < 2 ^ 31 - 1 \<and> (st_used t < st_total t \<or>
     st_attached t \<and> (case st_type t of
       EXCLUSIVE \<Rightarrow> 0 < st_total t \<and> alloc (st_pool t) (nat (16 * st_total t)) \<noteq> None
     | SHARED \<Rightarrow> (\<exists>a q. alloc (st_pool t) (nat (2 * (16 * st_total t + 16))) = Some (a, q) \<and> fresh_block t a \<and>
         fst (free q (st_header t) (nat (16 * st_total t + 16))))))"

text \<open>
  Where a table is after a record was added: in place, shared in a larger block from the pool, or exclusive with the
  capacity doubled, after a block was taken from the pool and its address ignored.
\<close>

definition grew ::
  "('p \<Rightarrow> nat \<Rightarrow> (nat \<times> 'p) option) \<Rightarrow> ('p \<Rightarrow> nat \<Rightarrow> nat \<Rightarrow> bool \<times> 'p) \<Rightarrow> 'p sort_table \<Rightarrow> 'p sort_table \<Rightarrow> bool" where
  "grew alloc free t t' \<longleftrightarrow> st_used t' = st_used t + 1 \<and>
    (st_used t < st_total t \<and> st_pool t' = st_pool t \<and> st_total t' = st_total t \<and> st_header t' = st_header t \<or>
     st_type t = EXCLUSIVE \<and> st_used t = st_total t \<and> st_total t' = 2 * st_total t \<and> st_header t' = st_header t \<and>
     (\<exists>a. alloc (st_pool t) (nat (16 * st_total t)) = Some (a, st_pool t')) \<or>
     st_type t = SHARED \<and> st_used t = st_total t \<and> st_total t' = 2 * st_total t + 1 \<and>
     (\<exists>q. alloc (st_pool t) (nat (2 * (16 * st_total t + 16))) = Some (st_header t', q) \<and>
        free q (st_header t) (nat (16 * st_total t + 16)) = (True, st_pool t')))"

lemma added_store:
  fixes v :: int
  assumes wf: "st_wf t" and pos: "search_answer (st_key t) (st_used t) k (Inr pos)"
    and A: "added t pos k r t'" and "st_used t < 2 ^ 31 - 1"
  defines "t'' \<equiv> st_write r (rec_SetValue v) t'"
  shows "r \<noteq> 0 \<and> st_wf t'' \<and> st_lookup t'' = (st_lookup t)(k \<mapsto> v)"
proof -
  have asc: "ascending (st_key t) (st_used t)" using wf by (simp add: st_wf_def)
  have p: "-1 \<le> pos" "pos < st_used t" using pos by simp_all
  have r: "r = rec_addr t' (pos + 1)" and used: "st_used t' = st_used t + 1" using A by (simp_all add: added_def)
  have rec: "st_rec t'' i = (if i \<le> pos then st_rec t i else if i = pos + 1 then \<lparr>rec_key = k, rec_value = v\<rparr> else st_rec t (i - 1))"
    if i: "0 \<le> i" "i \<le> st_used t" for i
  proof (cases "i = pos + 1")
    case True
    then show ?thesis
      using A p st_rec_write [of i i t' "rec_SetValue v"] unfolding t''_def r
      by (auto simp: added_def rec_SetValue_def intro!: rec_cell.equality)
  next
    case False
    then show ?thesis
      using A i p st_rec_write [of "pos + 1" i t' "rec_SetValue v"] unfolding t''_def r by (simp add: added_def)
  qed
  have used'': "st_used t'' = st_used t + 1" using used by (simp add: t''_def)
  have "r \<noteq> 0" using A p by (simp add: added_def rec_addr_def Record_size_def)
  moreover have "st_wf t''"
    using A wf assms(4) insert_at_ascending [OF asc pos used'' rec] used'' by (auto simp: st_wf_def added_def t''_def)
  ultimately show ?thesis using insert_at_lookup [OF asc pos used'' rec] by simp
qed

lemma add_record:
  assumes wf: "st_wf t" and pos: "search_answer (st_key t) (st_used t) k (Inr pos)" and room: "can_add alloc free t"
  shows "\<exists>r t'. (if st_total t > st_used t then Some (DirectlyAdd t pos k)
      else if st_type t = EXCLUSIVE then ExpandAdd alloc t pos k else AllocAdd alloc free t pos k) = Some (r, t') \<and>
    added t pos k r t' \<and> grew alloc free t t'"
proof -
  note W = wf [unfolded st_wf_def]
  have p: "-1 \<le> pos" "pos < st_used t" using pos by simp_all
  show ?thesis
  proof (cases "st_used t < st_total t")
    case True
    then show ?thesis using DirectlyAdd_added [OF p, of k] W
      by (cases "DirectlyAdd t pos k") (auto simp: grew_def added_def)
  next
    case False
    then have full: "st_used t = st_total t" using W by simp
    show ?thesis
    proof (cases "st_type t")
      case EXCLUSIVE
      then obtain a q where "alloc (st_pool t) (nat (16 * st_total t)) = Some (a, q)" "st_attached t" "0 < st_total t"
        using room False by (auto simp: can_add_def)
      then show ?thesis using ExpandAdd_added [OF p _ _ full, of alloc a q k] W full False EXCLUSIVE
        by (auto simp: grew_def added_def)
    next
      case SHARED
      then obtain a q q' where Q: "alloc (st_pool t) (nat (2 * (16 * st_total t + 16))) = Some (a, q)" "fresh_block t a"
        "free q (st_header t) (nat (16 * st_total t + 16)) = (True, q')" "st_attached t"
        using room False by (auto simp: can_add_def prod_eq_iff)
      then show ?thesis using AllocAdd_added [where alloc = alloc and free = free and a = a and q = q, OF p _ _ _ Q(4,1,2,3), of k] W full False SHARED Q(1,3)
        by (fastforce simp: grew_def added_def)
    qed
  qed
qed

context key_search begin

lemma find_record:
  assumes "st_wf t"
  shows "\<exists>r. (if st_header t = 0 then None
      else if st_bs_level t < kMaxBinarySearchLevel then search (st_key t) (st_used t) x
      else SimdBinarySearch t x) = Some r \<and> search_answer (st_key t) (st_used t) x r"
  using assms search_returns [of "st_key t" "st_used t" x] simd.search_returns [of "st_key t" "st_used t" x]
  by (auto simp: st_wf_def kMaxBinarySearchLevel_def SimdBinarySearch_def)

lemma Search_lookup:
  assumes "st_wf t" "kv_key kv = Some k"
  shows "st_Search search alloc free t kv = Some (case st_lookup t (GetHashKey k) of
      None \<Rightarrow> (False, kv\<lparr>kv_value := -1\<rparr>) | Some v \<Rightarrow> (True, kv\<lparr>kv_value := v\<rparr>))"
proof -
  obtain r where r: "(if st_header t = 0 then None
      else if st_bs_level t < kMaxBinarySearchLevel then search (st_key t) (st_used t) (GetHashKey k)
      else SimdBinarySearch t (GetHashKey k)) = Some r" "search_answer (st_key t) (st_used t) (GetHashKey k) r"
    using find_record [OF assms(1)] by blast
  have asc: "ascending (st_key t) (st_used t)" using assms(1) by (simp add: st_wf_def)
  show ?thesis
  proof (cases r)
    case (Inl i)
    then have "rec_addr t i \<noteq> 0" using r(2) assms(1) by (simp add: st_wf_def rec_addr_def Record_size_def)
    then show ?thesis using r lookup_answer [OF asc r(2)] Inl assms(2)
      by (simp add: st_Search_def GetRecordByKey_def st_rec_def Let_def)
  next
    case (Inr p)
    then show ?thesis using r lookup_answer [OF asc r(2)] assms(2)
      by (simp add: st_Search_def GetRecordByKey_def Let_def)
  qed
qed

lemma Insert_lookup:
  assumes "st_wf t" "kv_key kv = Some k" "kv_payload kv = []" "can_add alloc free t"
  shows "\<exists>t'. st_Insert search alloc free t kv = Some (True, t') \<and> st_wf t' \<and>
    st_lookup t' = (st_lookup t)(GetHashKey k \<mapsto> kv_value kv) \<and> st_attached t' = st_attached t \<and> st_type t' = st_type t \<and>
    (st_used t' = st_used t \<and> st_total t' = st_total t \<and> st_header t' = st_header t \<and> st_pool t' = st_pool t \<or>
     grew alloc free t t')"
proof -
  let ?x = "GetHashKey k"
  obtain r where r: "(if st_header t = 0 then None
      else if st_bs_level t < kMaxBinarySearchLevel then search (st_key t) (st_used t) ?x
      else SimdBinarySearch t ?x) = Some r" "search_answer (st_key t) (st_used t) ?x r"
    using find_record [OF assms(1)] by blast
  have asc: "ascending (st_key t) (st_used t)" using assms(1) by (simp add: st_wf_def)
  show ?thesis
  proof (cases r)
    case (Inl i)
    let ?t' = "st_write (rec_addr t i) (rec_SetValue (kv_value kv)) t"
    have i: "0 \<le> i" "i < st_used t" "st_key t i = ?x" using r(2) Inl by simp_all
    have nz: "rec_addr t i \<noteq> 0" using i assms(1) by (simp add: st_wf_def rec_addr_def Record_size_def)
    have "st_rec ?t' j = (if j = i then (st_rec t j)\<lparr>rec_value := kv_value kv\<rparr> else st_rec t j)" if "0 \<le> j" "j < st_used t" for j
      unfolding st_rec_write [OF i(1) that(1), of t "rec_SetValue (kv_value kv)"] by (simp add: rec_SetValue_def)
    note S = store_at [OF asc i _ this, simplified]
    have "st_Insert search alloc free t kv = Some (True, ?t')"
      using r Inl nz assms(2,3) by (simp add: st_Insert_def GetRecordByKey_def Let_def)
    then show ?thesis using S assms(1) by (auto simp: st_wf_def)
  next
    case (Inr pos)
    then obtain a t' where A: "(if st_total t > st_used t then Some (DirectlyAdd t pos ?x)
      else if st_type t = EXCLUSIVE then ExpandAdd alloc t pos ?x else AllocAdd alloc free t pos ?x) = Some (a, t')"
      "added t pos ?x a t'" "grew alloc free t t'"
      using add_record [OF assms(1) _ assms(4), of ?x pos] r(2) by blast
    have S: "a \<noteq> 0 \<and> st_wf (st_write a (rec_SetValue (kv_value kv)) t') \<and>
      st_lookup (st_write a (rec_SetValue (kv_value kv)) t') = (st_lookup t)(?x \<mapsto> kv_value kv)"
      using added_store [OF assms(1) _ A(2)] r(2) Inr assms(4) by (simp add: can_add_def)
    have "GetRecordByKey search alloc free t (kv_key kv) True = Some (a, pos, t')"
      unfolding GetRecordByKey_def assms(2) option.case Let_def r(1) Inr sum.case A(1) by simp
    moreover have "grew alloc free t (st_write a (rec_SetValue (kv_value kv)) t')" using A(3) by (simp add: grew_def)
    ultimately show ?thesis using S assms(3) A(2) by (simp add: st_Insert_def added_def)
  qed
qed

end

section \<open>BatchDelete\<close>

lemma upto_Cons: "i < n \<Longrightarrow> [i..n - 1] = i # [i + 1..n - (1 :: int)]"
  by (subst upto_rec1) simp_all

text \<open>
  The loop's records from \<open>i\<close> on, without those whose key is among the targets, end up from
  \<open>w\<close> on.
\<close>

definition kept :: "'p sort_table \<Rightarrow> int \<Rightarrow> int \<Rightarrow> kv_pair list \<Rightarrow> rec_cell list" where
  "kept t i n kvs = filter (\<lambda>r. rec_key r \<notin> kv_hash ` set kvs) (map (st_rec t) [i..n - 1])"

lemma kept_cong: "(\<And>j. i \<le> j \<Longrightarrow> j < n \<Longrightarrow> st_rec t' j = st_rec t j) \<Longrightarrow> kept t' i n kvs = kept t i n kvs"
  unfolding kept_def by (intro arg_cong [of _ _ "filter _"] map_cong) auto

lemma kept_skip:
  assumes "\<And>j. i \<le> j \<Longrightarrow> j < n \<Longrightarrow> st_key t j \<noteq> kv_hash kv"
  shows "kept t i n (kv # kvs) = kept t i n kvs"
  unfolding kept_def using assms by (intro filter_cong) auto

definition deletes :: "int \<Rightarrow> int \<Rightarrow> int \<Rightarrow> kv_pair list \<Rightarrow> int \<Rightarrow> 'p sort_table \<Rightarrow> int \<times> 'p sort_table \<Rightarrow> bool" where
  "deletes n i w kvs d t res \<longleftrightarrow> (case res of (d', t') \<Rightarrow>
     same_table t t' \<and> d' = d + (n - i) - int (length (kept t i n kvs)) \<and>
     (\<forall>j. 0 \<le> j \<longrightarrow> j < w \<longrightarrow> st_rec t' j = st_rec t j) \<and>
     map (st_rec t') [w..w + int (length (kept t i n kvs)) - 1] = kept t i n kvs)"

lemma deletes_keep:
  assumes "deletes n (i + 1) (w + 1) kvs d (if w \<noteq> i then st_write (rec_addr t w) (\<lambda>_. st_rec t i) t else t) res"
    and "0 \<le> w" "w \<le> i" "i < n" "st_key t i \<notin> kv_hash ` set kvs"
  shows "deletes n i w kvs d t res"
proof -
  let ?t1 = "if w \<noteq> i then st_write (rec_addr t w) (\<lambda>_. st_rec t i) t else t"
  have rec: "st_rec ?t1 j = (if j = w then st_rec t i else st_rec t j)" if "0 \<le> j" for j
    using st_rec_write [of w j t] that assms(2,3) by auto
  have K: "kept ?t1 (i + 1) n kvs = kept t (i + 1) n kvs"
    using rec assms(2,3) by (intro kept_cong) auto
  have Ki: "kept t i n kvs = st_rec t i # kept t (i + 1) n kvs"
    using assms(4,5) by (simp add: kept_def upto_Cons)
  obtain d' t' where res: "res = (d', t')" by fastforce
  have same1: "same_table t ?t1" by simp
  have D: "same_table ?t1 t'" "d' = d + (n - (i + 1)) - int (length (kept t (i + 1) n kvs))"
    "\<forall>j. 0 \<le> j \<longrightarrow> j < w + 1 \<longrightarrow> st_rec t' j = st_rec ?t1 j"
    "map (st_rec t') [w + 1..w + 1 + int (length (kept t (i + 1) n kvs)) - 1] = kept t (i + 1) n kvs"
    using assms(1) unfolding deletes_def res K by simp_all
  have "[w..w + int (length (kept t i n kvs)) - 1] = w # [w + 1..w + 1 + int (length (kept t (i + 1) n kvs)) - 1]"
    unfolding Ki by (subst upto_rec1) (simp_all add: algebra_simps)
  then have "map (st_rec t') [w..w + int (length (kept t i n kvs)) - 1] = kept t i n kvs"
    using D(3,4) rec [of w] assms(2) unfolding Ki by simp
  moreover have "\<forall>j. 0 \<le> j \<longrightarrow> j < w \<longrightarrow> st_rec t' j = st_rec t j" using D(3) rec by simp
  ultimately show ?thesis
    using same_table_trans [OF same1 D(1)] D(2) Ki unfolding deletes_def res by simp
qed

lemma deletes_drop:
  assumes "deletes n (i + 1) w kvs (d + 1) t res" "i < n" "st_key t i = kv_hash kv"
    and "\<And>j. i < j \<Longrightarrow> j < n \<Longrightarrow> st_key t j \<noteq> kv_hash kv"
  shows "deletes n i w (kv # kvs) d t res"
proof -
  have "kept t i n (kv # kvs) = kept t (i + 1) n (kv # kvs)" using assms(2,3) by (simp add: kept_def upto_Cons)
  also have "\<dots> = kept t (i + 1) n kvs" using assms(4) by (intro kept_skip) simp
  finally show ?thesis using assms(1) by (auto simp: deletes_def)
qed

lemma batch_delete_loop_spec:
  assumes "sorted (map kv_hash kvs)" "0 \<le> w" "w \<le> i" "i \<le> n"
    and "\<And>j l. i \<le> j \<Longrightarrow> j < l \<Longrightarrow> l < n \<Longrightarrow> st_key t j < st_key t l"
  shows "deletes n i w kvs d t (batch_delete_loop n i w kvs d t)"
  using assms
proof (induction "length kvs + nat (n - i)" arbitrary: i w kvs d t rule: less_induct)
  case less
  note IH = less.hyps and A = less.prems(5)
  show ?case
  proof (cases "i < n")
    case False
    then show ?thesis using less.prems(4) by (subst batch_delete_loop.simps) (simp add: deletes_def kept_def)
  next
    case i: True
    let ?t1 = "if w \<noteq> i then st_write (rec_addr t w) (\<lambda>_. st_rec t i) t else t"
    have rec1: "st_rec ?t1 j = st_rec t j" if "i < j" for j
      using st_rec_write [of w j t] that less.prems(2,3) by auto
    have keep: "deletes n i w kvs d t (batch_delete_loop n (i + 1) (w + 1) kvs d ?t1)" if "st_key t i \<notin> kv_hash ` set kvs"
    proof (rule deletes_keep [OF IH less.prems(2,3) i that])
      show "st_key ?t1 j < st_key ?t1 l" if "i + 1 \<le> j" "j < l" "l < n" for j l
        using A [of j l] rec1 [of j] rec1 [of l] that by simp
    qed (use less.prems i in auto)
    show ?thesis
    proof (cases kvs)
      case Nil
      then show ?thesis using keep i by (subst batch_delete_loop.simps) simp
    next
      case (Cons kv kvs')
      have S: "\<And>h. h \<in> kv_hash ` set kvs' \<Longrightarrow> kv_hash kv \<le> h" "sorted (map kv_hash kvs')"
        using less.prems(1) Cons by auto
      consider (eq) "st_key t i = kv_hash kv" | (lt) "st_key t i < kv_hash kv" | (gt) "kv_hash kv < st_key t i" by linarith
      then show ?thesis
      proof cases
        case eq
        have "deletes n (i + 1) w kvs' (d + 1) t (batch_delete_loop n (i + 1) w kvs' (d + 1) t)"
          using less.prems i Cons S(2) by (intro IH) auto
        then have "deletes n i w kvs d t (batch_delete_loop n (i + 1) w kvs' (d + 1) t)"
          unfolding Cons using i eq
        proof (rule deletes_drop)
          show "st_key t j \<noteq> kv_hash kv" if "i < j" "j < n" for j using A [of i j] eq that by simp
        qed
        then show ?thesis using i eq Cons by (subst batch_delete_loop.simps) simp
      next
        case lt
        then have "st_key t i \<notin> kv_hash ` set kvs" using S(1) Cons by fastforce
        then show ?thesis using keep i lt Cons by (subst batch_delete_loop.simps) simp
      next
        case gt
        have "deletes n i w kvs' d t (batch_delete_loop n i w kvs' d t)"
          using less.prems Cons S(2) by (intro IH) auto
        moreover have "kept t i n kvs = kept t i n kvs'"
        proof -
          have "st_key t j \<noteq> kv_hash kv" if "i \<le> j" "j < n" for j
            using A [of i j] gt that by (cases "i = j") auto
          then show ?thesis unfolding Cons by (rule kept_skip)
        qed
        ultimately have "deletes n i w kvs d t (batch_delete_loop n i w kvs' d t)" by (simp add: deletes_def)
        then show ?thesis using i gt Cons by (subst batch_delete_loop.simps) simp
      qed
    qed
  qed
qed

lemma same_table_wf:
  assumes "st_wf t" "same_table t t'" "ascending (st_key t') m" "0 \<le> m" "m \<le> st_total t" "m < 2 ^ 31" "d = m - st_used t"
  shows "st_wf (st_add_used d t')" "st_used (st_add_used d t') = m"
  using assms same_tableD [OF assms(2)] by (simp_all add: st_wf_def)

lemma ascending_nth:
  assumes "\<And>j. 0 \<le> j \<Longrightarrow> j < int (length ks) \<Longrightarrow> key j = ks ! nat j" "sorted_wrt (<) ks"
  shows "ascending key (int (length ks))"
  unfolding ascending_def
proof (intro allI impI)
  fix i j :: int assume "0 \<le> i" "i < j" "j < int (length ks)"
  then show "key i < key j"
    using assms(1) [of i] assms(1) [of j] sorted_wrt_nth_less [OF assms(2), of "nat i" "nat j"] by simp
qed

lemma ascending_list: "ascending key n \<Longrightarrow> sorted_wrt (<) (map key [0..n - 1])"
  by (auto simp: sorted_wrt_iff_nth_less ascending_def)

lemma BatchDelete_lookup:
  assumes "st_wf t" "sorted (map kv_hash kvs)"
  defines "res \<equiv> batch_delete_loop (st_used t) 0 0 kvs 0 t"
  shows "st_wf (st_add_used (- fst res) (snd res)) \<and> same_table t (snd res) \<and>
    st_lookup (st_add_used (- fst res) (snd res)) k = (if k \<in> kv_hash ` set kvs then None else st_lookup t k)"
proof -
  let ?n = "st_used t" and ?keep = "kept t 0 (st_used t) kvs"
  let ?t' = "st_add_used (- fst res) (snd res)"
  have asc: "ascending (st_key t) ?n" and n: "0 \<le> ?n" using assms(1) by (simp_all add: st_wf_def)
  have "deletes ?n 0 0 kvs 0 t res"
    unfolding res_def using assms(2) n asc by (intro batch_delete_loop_spec) (auto simp: ascending_def)
  then have D: "same_table t (snd res)" "fst res = ?n - int (length ?keep)"
    "map (st_rec (snd res)) [0..int (length ?keep) - 1] = ?keep"
    by (auto simp: deletes_def split: prod.splits)
  have keys: "map rec_key ?keep = filter (\<lambda>k. k \<notin> kv_hash ` set kvs) (map (st_key t) [0..?n - 1])"
    by (simp add: kept_def filter_map comp_def)
  have len: "length ?keep \<le> nat ?n" unfolding kept_def by (rule le_trans [OF length_filter_le]) simp
  have "st_rec (snd res) j = ?keep ! nat j" if "0 \<le> j" "j < int (length ?keep)" for j
    using arg_cong [OF D(3), of "\<lambda>xs. xs ! nat j"] that by simp
  moreover have "sorted_wrt (<) (map rec_key ?keep)"
    unfolding keys by (rule sorted_wrt_filter [OF ascending_list [OF asc]])
  ultimately have "ascending (st_key (snd res)) (int (length (map rec_key ?keep)))"
    by (intro ascending_nth) simp_all
  then have asc': "ascending (st_key (snd res)) (int (length ?keep))" by simp
  have "int (length ?keep) \<le> st_total t" "int (length ?keep) < 2 ^ 31" "- fst res = int (length ?keep) - ?n"
    using len n assms(1) D(2) by (auto simp: st_wf_def)
  note T = same_table_wf [OF assms(1) D(1) asc' of_nat_0_le_iff this]
  note wf = T(1) and used = T(2)
  have "st_view ?t' = map (\<lambda>r. (rec_key r, rec_value r)) ?keep"
    unfolding st_view_def used by (subst D(3) [symmetric]) simp
  also have "\<dots> = filter (\<lambda>(k, v). k \<notin> kv_hash ` set kvs) (st_view t)"
    by (simp add: st_view_def kept_def filter_map comp_def)
  finally have view: "st_view ?t' = filter (\<lambda>(k, v). k \<notin> kv_hash ` set kvs) (st_view t)" .
  have "map_of (filter (\<lambda>(k, v). k \<notin> A) xs) k = (if k \<in> A then None else map_of xs k)" for A and xs :: "(int \<times> int) list"
    by (induction xs) auto
  then show ?thesis using wf D(1) by (simp add: st_lookup_def view)
qed

section \<open>BatchInsert\<close>

definition kv_cell :: "kv_pair \<Rightarrow> rec_cell" where
  "kv_cell kv = \<lparr>rec_key = kv_hash kv, rec_value = kv_value kv\<rparr>"

lemma ascending_snoc:
  assumes "ascending key n" "\<And>j. 0 \<le> j \<Longrightarrow> j < n \<Longrightarrow> key j < key n"
  shows "ascending key (n + 1)"
  unfolding ascending_def
proof (intro allI impI)
  fix i j :: int assume "0 \<le> i" "i < j" "j < n + 1"
  then show "key i < key j" using assms by (cases "j = n") (simp_all add: ascending_def)
qed

lemma atLeastLessThan_snoc: "0 \<le> n \<Longrightarrow> {0..<n + 1} = insert n {0..<(n :: int)}"
  by auto

text \<open>
  What the merge needs of its records, and what it leaves: the old and the new records together,
  in order.
\<close>

definition mergeable :: "int \<Rightarrow> (kv_pair \<times> int) list \<Rightarrow> 'p sort_table \<Rightarrow> bool" where
  "mergeable r ps t \<longleftrightarrow> -1 \<le> r \<and> ascending (st_key t) (r + 1) \<and> sorted_wrt (\<lambda>a b. kv_hash b < kv_hash a) (map fst ps) \<and>
     (\<forall>(kv, pos) \<in> set ps. \<forall>j. 0 \<le> j \<longrightarrow> j \<le> r \<longrightarrow> (if j \<le> pos then st_key t j < kv_hash kv else kv_hash kv < st_key t j))"

definition merged :: "int \<Rightarrow> (kv_pair \<times> int) list \<Rightarrow> 'p sort_table \<Rightarrow> 'p sort_table \<Rightarrow> bool" where
  "merged r ps t t' \<longleftrightarrow> (let n = r + 1 + int (length ps) in
     same_table t t' \<and> ascending (st_key t') n \<and>
     st_rec t' ` {0..<n} = st_rec t ` {0..<r + 1} \<union> (kv_cell \<circ> fst) ` set ps \<and>
     (\<forall>j. n \<le> j \<longrightarrow> st_rec t' j = st_rec t j))"

lemma merged_step:
  fixes w :: int
  assumes "merged r ps (st_write (rec_addr t w) (\<lambda>_. c) t) t'" "w = r + 1 + int (length ps)" "-1 \<le> r"
    and "\<And>x. x \<in> st_rec t ` {0..<r + 1} \<union> (kv_cell \<circ> fst) ` set ps \<Longrightarrow> rec_key x < rec_key c"
  shows "same_table t t' \<and> ascending (st_key t') (w + 1) \<and>
    st_rec t' ` {0..<w + 1} = insert c (st_rec t ` {0..<r + 1} \<union> (kv_cell \<circ> fst) ` set ps) \<and>
    (\<forall>j. w + 1 \<le> j \<longrightarrow> st_rec t' j = st_rec t j)"
proof -
  let ?t1 = "st_write (rec_addr t w) (\<lambda>_. c) t"
  have w: "0 \<le> w" using assms(2,3) by simp
  have rec: "st_rec ?t1 j = (if j = w then c else st_rec t j)" if "0 \<le> j" for j
    using st_rec_write [OF w that, of t "\<lambda>_. c"] by simp
  have old: "st_rec ?t1 ` {0..<r + 1} = st_rec t ` {0..<r + 1}"
    using rec assms(2) by (intro image_cong) auto
  have M: "same_table ?t1 t'" "ascending (st_key t') w"
    "st_rec t' ` {0..<w} = st_rec t ` {0..<r + 1} \<union> (kv_cell \<circ> fst) ` set ps"
    "\<And>j. w \<le> j \<Longrightarrow> st_rec t' j = st_rec ?t1 j"
    using assms(1) unfolding merged_def Let_def assms(2) [symmetric] old by auto
  have top: "st_rec t' w = c" using M(4) [of w] rec [OF w] by simp
  have "ascending (st_key t') (w + 1)"
  proof (rule ascending_snoc [OF M(2)])
    fix j :: int assume "0 \<le> j" "j < w"
    then have "st_rec t' j \<in> st_rec t' ` {0..<w}" by auto
    then show "st_key t' j < st_key t' w" using assms(4) M(3) top by simp
  qed
  moreover have "st_rec t' j = st_rec t j" if "w + 1 \<le> j" for j using M(4) [of j] rec [of j] that w by simp
  moreover have "same_table t t'" using same_table_trans [OF same_table_write M(1)] .
  ultimately show ?thesis using M(3) top atLeastLessThan_snoc [OF w] by simp
qed

lemma mergeableD:
  assumes "mergeable r ((kv, pos) # ps) t"
  shows "-1 \<le> r" "ascending (st_key t) (r + 1)" "(kv', q) \<in> set ps \<Longrightarrow> kv_hash kv' < kv_hash kv"
    "0 \<le> j \<Longrightarrow> j \<le> r \<Longrightarrow> if j \<le> pos then st_key t j < kv_hash kv else kv_hash kv < st_key t j"
  using assms by (force simp: mergeable_def)+

lemma st_rec_put: "0 \<le> w \<Longrightarrow> 0 \<le> j \<Longrightarrow> j \<noteq> w \<Longrightarrow> st_rec (st_write (rec_addr t w) (\<lambda>_. c) t) j = st_rec t j"
  using st_rec_write [of w j t "\<lambda>_. c"] by simp

text \<open>One round moves the last old record up, or puts a new record in.\<close>

lemma merge_old:
  fixes t :: "'p sort_table" and w :: int
  defines "t1 \<equiv> \<lambda>r w (t :: 'p sort_table). st_write (rec_addr t w) (\<lambda>_. st_rec t r) t"
  assumes M: "mergeable r ((kv, pos) # ps) t" and w: "w = r + 1 + int (length ps)" and r: "0 \<le> r" "pos < r"
    and IH: "mergeable (r - 1) ((kv, pos) # ps) (t1 r w t) \<Longrightarrow> merged (r - 1) ((kv, pos) # ps) (t1 r w t) t'"
  shows "merged r ((kv, pos) # ps) t t'"
proof -
  let ?ps = "(kv, pos) # ps"
  note D = mergeableD [OF M]
  have below: "st_rec (t1 r w t) j = st_rec t j" if "0 \<le> j" "j \<le> r - 1" for j
    using st_rec_put [of w j t] that w r(1) by (simp add: t1_def)
  have "mergeable (r - 1) ?ps (t1 r w t)"
    unfolding mergeable_def
  proof (intro conjI ballI, goal_cases)
    case 4
    then show ?case using M below by (fastforce simp: mergeable_def)
  qed (use M r below in \<open>auto simp: ascending_def mergeable_def\<close>)
  then have step: "merged (r - 1) ?ps (t1 r w t) t'" by (rule IH)
  have greater: "rec_key x < st_key t r" if "x \<in> st_rec t ` {0..<r - 1 + 1} \<union> (kv_cell \<circ> fst) ` set ?ps" for x
  proof -
    have "kv_hash kv < st_key t r" using D(4) [of r] r by simp
    then show ?thesis using that D(2,3) by (fastforce simp: ascending_def kv_cell_def)
  qed
  have "st_rec t ` {0..<r + 1} = insert (st_rec t r) (st_rec t ` {0..<r})"
    using atLeastLessThan_snoc [of r] r by simp
  then show ?thesis
    using merged_step [OF step [unfolded t1_def] _ _ greater] r w unfolding merged_def Let_def by (simp add: add.commute insert_commute)
qed

lemma merge_new:
  fixes t :: "'p sort_table" and w :: int
  defines "t1 \<equiv> \<lambda>kv w (t :: 'p sort_table). st_write (rec_addr t w) (\<lambda>_. kv_cell kv) t"
  assumes M: "mergeable r ((kv, pos) # ps) t" and w: "w = r + 1 + int (length ps)" and r: "r < 0 \<or> r \<le> pos"
    and IH: "mergeable r ps (t1 kv w t) \<Longrightarrow> merged r ps (t1 kv w t) t'"
  shows "merged r ((kv, pos) # ps) t t'"
proof -
  note D = mergeableD [OF M]
  have same: "st_rec (t1 kv w t) j = st_rec t j" if "0 \<le> j" "j \<le> r" for j
    using st_rec_put [of w j t] that w by (simp add: t1_def)
  have "mergeable r ps (t1 kv w t)"
    unfolding mergeable_def
  proof (intro conjI ballI, goal_cases)
    case 4
    then show ?case using M same by (fastforce simp: mergeable_def)
  qed (use M same in \<open>auto simp: ascending_def mergeable_def\<close>)
  then have step: "merged r ps (t1 kv w t) t'" by (rule IH)
  have greater: "rec_key x < rec_key (kv_cell kv)" if "x \<in> st_rec t ` {0..<r + 1} \<union> (kv_cell \<circ> fst) ` set ps" for x
  proof -
    have "st_key t j < kv_hash kv" if "0 \<le> j" "j \<le> r" for j using D(4) [OF that] that r by auto
    then show ?thesis using that D(3) by (auto simp: kv_cell_def)
  qed
  show ?thesis
    using merged_step [OF step [unfolded t1_def] _ _ greater] w D(1) unfolding merged_def Let_def by (simp add: add.commute)
qed

lemma batch_merge_spec:
  assumes "mergeable r ps t" "w = r + int (length ps)"
  shows "merged r ps t (batch_merge r w ps t)"
  using assms
proof (induction "length ps + nat (r + 1)" arbitrary: r w ps t rule: less_induct)
  case less
  have r: "-1 \<le> r" using less.prems(1) by (simp add: mergeable_def)
  show ?case
  proof (cases ps)
    case Nil
    then show ?thesis using less.prems by (subst batch_merge.simps) (simp add: merged_def mergeable_def)
  next
    case (Cons p ps')
    obtain kv pos where p: "p = (kv, pos)" by fastforce
    note M = less.prems(1) [unfolded Cons p]
    have w: "w = r + 1 + int (length ps')" using less.prems(2) Cons by simp
    show ?thesis
    proof (cases "r \<ge> 0 \<and> r > pos")
      case True
      let ?t1 = "st_write (rec_addr t w) (\<lambda>_. st_rec t r) t"
      have "merged (r - 1) ((kv, pos) # ps') ?t1 (batch_merge (r - 1) (w - 1) ((kv, pos) # ps') ?t1)"
        if "mergeable (r - 1) ((kv, pos) # ps') ?t1"
        using that True w Cons by (intro less.hyps) auto
      then show ?thesis
        using merge_old [OF M w] True unfolding Cons p by (subst batch_merge.simps) simp
    next
      case False
      let ?t1 = "st_write (rec_addr t w) (\<lambda>_. kv_cell kv) t"
      have "merged r ps' ?t1 (batch_merge r (w - 1) ps' ?t1)" if "mergeable r ps' ?t1"
        using that w Cons by (intro less.hyps) auto
      then have "merged r ps t (batch_merge r (w - 1) ps' ?t1)"
        using merge_new [OF M w] False unfolding Cons p by auto
      then show ?thesis
        unfolding Cons p batch_merge.simps [of r w "(kv, pos) # ps'" t] kv_cell_def list.case prod.case if_not_P [OF False] .
    qed
  qed
qed

context key_search begin

lemma get_missing:
  assumes "st_wf t" "kv_key kv = Some k"
  shows "\<exists>r pos. GetRecordByKey search alloc free t (kv_key kv) False = Some (r, pos, t) \<and>
    (r = 0 \<longleftrightarrow> st_lookup t (kv_hash kv) = None) \<and>
    (r = 0 \<longrightarrow> search_answer (st_key t) (st_used t) (kv_hash kv) (Inr pos))"
proof -
  have h: "kv_hash kv = GetHashKey k" using assms(2) by (simp add: kv_hash_def key_bytes_def)
  obtain r where r: "(if st_header t = 0 then None
      else if st_bs_level t < kMaxBinarySearchLevel then search (st_key t) (st_used t) (GetHashKey k)
      else SimdBinarySearch t (GetHashKey k)) = Some r" "search_answer (st_key t) (st_used t) (GetHashKey k) r"
    using find_record [OF assms(1)] by blast
  have asc: "ascending (st_key t) (st_used t)" using assms(1) by (simp add: st_wf_def)
  show ?thesis
  proof (cases r)
    case (Inl i)
    then have "rec_addr t i \<noteq> 0" using r(2) assms(1) by (simp add: st_wf_def rec_addr_def Record_size_def)
    then show ?thesis using r lookup_answer [OF asc r(2)] Inl assms(2) h by (simp add: GetRecordByKey_def Let_def)
  next
    case (Inr p)
    then show ?thesis using r lookup_answer [OF asc r(2)] assms(2) h by (simp add: GetRecordByKey_def Let_def)
  qed
qed

lemma batch_missing_spec:
  assumes "st_wf t" "\<forall>kv \<in> set kvs. kv_key kv \<noteq> None"
  shows "\<exists>ms. batch_missing (\<lambda>t k. GetRecordByKey search alloc free t k False) t kvs = Some ms \<and>
    map fst ms = filter (\<lambda>kv. st_lookup t (kv_hash kv) = None) kvs \<and>
    (\<forall>(kv, pos) \<in> set ms. search_answer (st_key t) (st_used t) (kv_hash kv) (Inr pos))"
  using assms(2)
proof (induction kvs)
  case Nil
  then show ?case by simp
next
  case (Cons kv kvs)
  then obtain ms where ms: "batch_missing (\<lambda>t k. GetRecordByKey search alloc free t k False) t kvs = Some ms"
    "map fst ms = filter (\<lambda>kv. st_lookup t (kv_hash kv) = None) kvs"
    "\<forall>(kv, pos) \<in> set ms. search_answer (st_key t) (st_used t) (kv_hash kv) (Inr pos)" by auto
  obtain k where k: "kv_key kv = Some k" using Cons.prems by auto
  from get_missing [OF assms(1) k, of alloc free] obtain r pos where g: "GetRecordByKey search alloc free t (kv_key kv) False = Some (r, pos, t)"
    "r = 0 \<longleftrightarrow> st_lookup t (kv_hash kv) = None"
    "r = 0 \<longrightarrow> search_answer (st_key t) (st_used t) (kv_hash kv) (Inr pos)"
    by (elim exE conjE)
  show ?case
  proof (cases "r = 0")
    case True
    then show ?thesis using ms g by (intro exI [of _ "(kv, pos) # ms"]) auto
  next
    case False
    then show ?thesis using ms g by (intro exI [of _ ms]) auto
  qed
qed

end

lemma merged_lookup:
  assumes wf: "st_wf t" and M: "merged (st_used t - 1) ps t t'" and new: "\<forall>(kv, pos) \<in> set ps. st_lookup t (kv_hash kv) = None"
    and inj: "inj_on kv_hash (fst ` set ps)" and fits: "st_used t + int (length ps) \<le> st_total t" "st_used t + int (length ps) < 2 ^ 31"
  shows "st_wf (st_add_used (int (length ps)) t') \<and>
    st_lookup (st_add_used (int (length ps)) t') k = (case st_lookup t k of Some v \<Rightarrow> Some v
      | None \<Rightarrow> map_of (map (\<lambda>kv. (kv_hash kv, kv_value kv)) (map fst ps)) k)"
proof -
  let ?n = "st_used t + int (length ps)" and ?t' = "st_add_used (int (length ps)) t'"
    and ?new = "map_of (map (\<lambda>kv. (kv_hash kv, kv_value kv)) (map fst ps))"
  have asc: "ascending (st_key t) (st_used t)" and u: "0 \<le> st_used t" using wf by (simp_all add: st_wf_def)
  have F: "same_table t t'" "ascending (st_key t') ?n"
    "st_rec t' ` {0..<?n} = st_rec t ` {0..<st_used t} \<union> (kv_cell \<circ> fst) ` set ps"
    using M by (simp_all add: merged_def Let_def)
  have T: "st_wf ?t'" "st_used ?t' = ?n"
    using same_table_wf [OF wf F(1,2), of "int (length ps)"] fits u by simp_all
  have new_iff: "?new k = Some v \<longleftrightarrow> \<lparr>rec_key = k, rec_value = v\<rparr> \<in> (kv_cell \<circ> fst) ` set ps" for v
  proof
    assume "?new k = Some v"
    then show "\<lparr>rec_key = k, rec_value = v\<rparr> \<in> (kv_cell \<circ> fst) ` set ps"
      by (force simp: kv_cell_def dest: map_of_SomeD)
  next
    assume "\<lparr>rec_key = k, rec_value = v\<rparr> \<in> (kv_cell \<circ> fst) ` set ps"
    then obtain kv where kv: "kv \<in> fst ` set ps" "kv_hash kv = k" "kv_value kv = v" by (auto simp: kv_cell_def)
    then have "(k, v) \<in> set (map (\<lambda>kv. (kv_hash kv, kv_value kv)) (map fst ps))" by auto
    then obtain v' where v': "?new k = Some v'" using weak_map_of_SomeI by metis
    then obtain kv' where "kv' \<in> fst ` set ps" "kv_hash kv' = k" "kv_value kv' = v'"
      using map_of_SomeD [OF v'] by auto
    then show "?new k = Some v" using v' kv inj by (metis inj_onD)
  qed
  have "st_lookup ?t' k = Some v \<longleftrightarrow> st_lookup t k = Some v \<or> ?new k = Some v" for v
  proof -
    have "st_lookup ?t' k = Some v \<longleftrightarrow> \<lparr>rec_key = k, rec_value = v\<rparr> \<in> st_rec t' ` {0..<?n}"
      using st_lookup_image [of ?t' k v] T F(2) by (simp add: image_def)
    also have "\<dots> \<longleftrightarrow> st_lookup t k = Some v \<or> ?new k = Some v"
      unfolding F(3) Un_iff new_iff [symmetric] st_lookup_image [OF asc] ..
    finally show ?thesis .
  qed
  note iff = this
  have absent: "?new k = None" if v: "st_lookup t k = Some v" for v
  proof -
    have "k \<notin> fst ` set (map (\<lambda>kv. (kv_hash kv, kv_value kv)) (map fst ps))" using new v by force
    then show ?thesis unfolding map_of_eq_None_iff .
  qed
  have "st_lookup ?t' k = (case st_lookup t k of Some v \<Rightarrow> Some v | None \<Rightarrow> ?new k)"
  proof (cases "st_lookup t k")
    case None
    then have "st_lookup ?t' k = Some v \<longleftrightarrow> ?new k = Some v" for v using iff by simp
    then show ?thesis unfolding None option.case by (metis option.exhaust)
  next
    case (Some v)
    then show ?thesis using iff [of v] by simp
  qed
  then show ?thesis using T(1) by simp
qed

section \<open>The properties\<close>

text \<open>
  C16: the search over 4 sections at a time returns on every table of fewer than \<open>2 ^ 31\<close> records in
  the order of their keys: with the record of the key, or else with the position of the nearest smaller key, as the header
  asks (-1 when there is none).
\<close>

theorem SimdBinarySearch_contract:
  assumes "ascending (\<lambda>i. rec_key (st_rec t i)) (st_used t)" "0 \<le> st_used t" "st_used t < 2 ^ 31"
    and "st_bs_level t = 2" "st_bs_mid_count t = 3"
  shows "\<exists>r. SimdBinarySearch t x = Some r \<and> (case r of
      Inl i \<Rightarrow> 0 \<le> i \<and> i < st_used t \<and> rec_key (st_rec t i) = x
    | Inr p \<Rightarrow> -1 \<le> p \<and> p < st_used t \<and> (\<forall>j. 0 \<le> j \<longrightarrow> j \<le> p \<longrightarrow> rec_key (st_rec t j) < x) \<and>
        (\<forall>j. p < j \<longrightarrow> j < st_used t \<longrightarrow> x < rec_key (st_rec t j)))"
proof -
  obtain r where "SimdBinarySearch t x = Some r" "search_answer (\<lambda>i. rec_key (st_rec t i)) (st_used t) x r"
    using simd.search_returns [OF assms(1-3), of x] assms(4,5) by (auto simp: SimdBinarySearch_def)
  then show ?thesis by (cases r) auto
qed

definition demo_sort :: "nat list sort_table" where
  "demo_sort = (SortTable_new [200] (\<lambda>a. if a = 64 then \<lparr>sh_used_size = 3, sh_total_size = 7\<rparr> else sh_Init 0)
     (\<lambda>a. if a = 80 then \<lparr>rec_key = 2, rec_value = 20\<rparr> else if a = 96 then \<lparr>rec_key = 5, rec_value = 50\<rparr>
          else \<lparr>rec_key = 9, rec_value = 90\<rparr>))\<lparr>st_attached := True, st_header := 64, st_first := 80\<rparr>"

lemma demo_sort_used: "st_used demo_sort = 3"
  by (simp add: demo_sort_def SortTable_new_def st_used_def)

lemma demo_sort_recs:
  "st_rec demo_sort 0 = \<lparr>rec_key = 2, rec_value = 20\<rparr>" "st_rec demo_sort 1 = \<lparr>rec_key = 5, rec_value = 50\<rparr>"
  "st_rec demo_sort 2 = \<lparr>rec_key = 9, rec_value = 90\<rparr>"
  by (simp_all add: demo_sort_def SortTable_new_def st_rec_def rec_addr_def Record_size_def)

lemma demo_sort_ascending: "ascending (\<lambda>i. rec_key (st_rec demo_sort i)) (st_used demo_sort)"
proof -
  have "ascending (\<lambda>i. rec_key (st_rec demo_sort i)) (int (length [2, 5, 9 :: int]))"
  proof (rule ascending_nth)
    fix j :: int assume "0 \<le> j" "j < int (length [2, 5, 9 :: int])"
    then consider "j = 0" | "j = 1" | "j = 2" by fastforce
    then show "rec_key (st_rec demo_sort j) = [2, 5, 9] ! nat j"
      by cases (simp_all add: demo_sort_recs)
  qed simp
  then show ?thesis by (simp add: demo_sort_used)
qed

lemma demo_sort_wf: "st_wf demo_sort"
  using demo_sort_ascending unfolding st_wf_def demo_sort_used
  by (simp add: st_total_def)
    (simp add: demo_sort_def SortTable_new_def kMaxBinarySearchLevel_def kDefaultBinarySearchMidCount_def)

theorem SimdBinarySearch_contract_witness:
  "\<exists>r. SimdBinarySearch demo_sort 5 = Some r"
  using SimdBinarySearch_contract [OF demo_sort_ascending, of 5] demo_sort_wf demo_sort_used
  by (auto simp: demo_sort_def SortTable_new_def kMaxBinarySearchLevel_def kDefaultBinarySearchMidCount_def)

text \<open>
  C15: on a well-formed table with room for a record (in place, or in a block from the pool
  that does not overlap it), \<open>Insert\<close> of any key succeeds and keeps the table well-formed; \<open>Search\<close> then
  gives the value for every key of the same hashed key and what it gave before for all others.
  \<open>NormalBinarySearch\<close> is any search that keeps the header's promise.
\<close>

theorem st_Insert_Search:
  assumes "key_search normal" "st_wf t" "kv_key kv = Some k" "kv_payload kv = []" "can_add alloc free t"
  shows "\<exists>t'. st_Insert normal alloc free t kv = Some (True, t') \<and> st_wf t' \<and>
    (\<forall>kv' k'. kv_key kv' = Some k' \<longrightarrow> st_Search normal alloc free t' kv' =
      (if GetHashKey k' = GetHashKey k then Some (True, kv'\<lparr>kv_value := kv_value kv\<rparr>)
       else st_Search normal alloc free t kv'))"
proof -
  obtain t' where T: "st_Insert normal alloc free t kv = Some (True, t')" "st_wf t'"
    "st_lookup t' = (st_lookup t)(GetHashKey k \<mapsto> kv_value kv)"
    using key_search.Insert_lookup [OF assms] by blast
  then show ?thesis
    using key_search.Search_lookup [OF assms(1) T(2), where alloc = alloc and free = free]
      key_search.Search_lookup [OF assms(1,2), where alloc = alloc and free = free] by simp
qed

definition list_free2 :: "nat list \<Rightarrow> nat \<Rightarrow> nat \<Rightarrow> bool \<times> nat list" where
  "list_free2 p a n = (True, a # p)"

definition list_alloc2 :: "nat list \<Rightarrow> nat \<Rightarrow> (nat \<times> nat list) option" where
  "list_alloc2 p n = (case p of [] \<Rightarrow> None | a # q \<Rightarrow> Some (a, q))"

lemma demo_sort_room: "can_add list_alloc2 list_free2 demo_sort"
  unfolding can_add_def demo_sort_used by (simp add: st_total_def) (simp add: demo_sort_def SortTable_new_def)

theorem st_Insert_Search_witness:
  "\<exists>t'. st_Insert (simd_search 2 3) list_alloc2 list_free2 demo_sort \<lparr>kv_key = Some [7], kv_value = 70, kv_payload = []\<rparr> =
      Some (True, t') \<and>
    st_Search (simd_search 2 3) list_alloc2 list_free2 t' \<lparr>kv_key = Some [7], kv_value = 0, kv_payload = []\<rparr> =
      Some (True, \<lparr>kv_key = Some [7], kv_value = 70, kv_payload = []\<rparr>)"
proof -
  obtain t' where "st_Insert (simd_search 2 3) list_alloc2 list_free2 demo_sort \<lparr>kv_key = Some [7], kv_value = 70, kv_payload = []\<rparr> =
      Some (True, t')"
    "\<forall>kv' k'. kv_key kv' = Some k' \<longrightarrow> st_Search (simd_search 2 3) list_alloc2 list_free2 t' kv' =
      (if GetHashKey k' = GetHashKey [7] then Some (True, kv'\<lparr>kv_value := 70\<rparr>)
       else st_Search (simd_search 2 3) list_alloc2 list_free2 demo_sort kv')"
    using st_Insert_Search [OF simd.key_search_axioms demo_sort_wf, of "\<lparr>kv_key = Some [7], kv_value = 70, kv_payload = []\<rparr>" "[7]"
        list_alloc2 list_free2] demo_sort_room by auto
  then show ?thesis by simp
qed

text \<open>The contract of the library's sort.\<close>

definition std_sort :: "(kv_pair list \<Rightarrow> kv_pair list) \<Rightarrow> bool" where
  "std_sort sorter \<longleftrightarrow> (\<forall>kvs. mset (sorter kvs) = mset kvs \<and> sorted (map kv_hash (sorter kvs)))"

lemma std_sort_sort_key: "std_sort (List.sort_key kv_hash)"
  by (simp add: std_sort_def)

text \<open>
  C17: \<open>BatchDelete\<close> removes exactly the records of the given keys: it succeeds, keeps the table
  well-formed, and \<open>Search\<close> no longer finds the keys and finds the others as before.  The records need
  not be in the table, and may repeat.
\<close>

theorem st_BatchDelete_Search:
  assumes "key_search normal" "st_wf t" "std_sort sorter" "already_sorted \<longrightarrow> sorted (map kv_hash kvs)"
  shows "\<exists>t'. st_BatchDelete sorter t kvs already_sorted = Some (True, t') \<and> st_wf t' \<and>
    (\<forall>kv k. kv_key kv = Some k \<longrightarrow> st_Search normal alloc free t' kv =
      (if GetHashKey k \<in> kv_hash ` set kvs then Some (False, kv\<lparr>kv_value := -1\<rparr>)
       else st_Search normal alloc free t kv))"
proof -
  define ks where "ks = (if \<not> already_sorted then sorter kvs else kvs)"
  have "mset ks = mset kvs" "sorted (map kv_hash ks)"
    using assms(3,4) by (auto simp: ks_def std_sort_def)
  then have ks: "set ks = set kvs" "sorted (map kv_hash ks)" using mset_eq_setD by blast+
  define res where "res = batch_delete_loop (st_used t) 0 0 ks 0 t"
  note D = BatchDelete_lookup [OF assms(2) ks(2), folded res_def]
  have "st_BatchDelete sorter t kvs already_sorted = Some (True, st_add_used (- fst res) (snd res))"
    using assms(2) by (simp add: st_BatchDelete_def st_wf_def Let_def case_prod_unfold flip: ks_def res_def)
  then show ?thesis
    using key_search.Search_lookup [OF assms(1), where alloc = alloc and free = free] assms(2) D ks(1)
    by (intro exI [of _ "st_add_used (- fst res) (snd res)"]) simp
qed

theorem st_BatchDelete_Search_witness:
  "\<exists>t'. st_BatchDelete (List.sort_key kv_hash) demo_sort
       [\<lparr>kv_key = Some [9], kv_value = 0, kv_payload = []\<rparr>, \<lparr>kv_key = Some [5], kv_value = 0, kv_payload = []\<rparr>] False = Some (True, t') \<and>
    st_Search (simd_search 2 3) list_alloc2 list_free2 t' \<lparr>kv_key = Some [5], kv_value = 0, kv_payload = []\<rparr> =
      Some (False, \<lparr>kv_key = Some [5], kv_value = -1, kv_payload = []\<rparr>)"
proof -
  let ?kvs = "[\<lparr>kv_key = Some [9], kv_value = 0, kv_payload = []\<rparr>, \<lparr>kv_key = Some [5], kv_value = 0, kv_payload = []\<rparr>]"
  obtain t' where "st_BatchDelete (List.sort_key kv_hash) demo_sort ?kvs False = Some (True, t')"
    "\<forall>kv k. kv_key kv = Some k \<longrightarrow> st_Search (simd_search 2 3) list_alloc2 list_free2 t' kv =
      (if GetHashKey k \<in> kv_hash ` set ?kvs then Some (False, kv\<lparr>kv_value := -1\<rparr>)
       else st_Search (simd_search 2 3) list_alloc2 list_free2 demo_sort kv)"
    using st_BatchDelete_Search [OF simd.key_search_axioms demo_sort_wf std_sort_sort_key, of False ?kvs list_alloc2 list_free2]
    by auto
  then show ?thesis by (simp add: kv_hash_def key_bytes_def)
qed

lemma descending_rev:
  assumes "sorted (map f xs)" "distinct (map f xs)"
  shows "sorted_wrt (\<lambda>a b. f b < (f a :: int)) (rev (filter P xs))"
proof -
  have "sorted_wrt (<) (map f xs)" using assms by (simp add: strict_sorted_iff)
  then have "sorted_wrt (\<lambda>a b. f a < f b) xs" by (simp add: sorted_wrt_map)
  then show ?thesis by (simp add: sorted_wrt_rev sorted_wrt_filter)
qed

lemma map_of_filter_same:
  assumes "distinct (map f xs)" "set ys = {x \<in> set xs. P x}" "\<And>x. x \<in> set xs \<Longrightarrow> f x = k \<Longrightarrow> P x"
  shows "map_of (map (\<lambda>x. (f x, g x)) ys) k = map_of (map (\<lambda>x. (f x, g x)) xs) k"
proof -
  have inj: "x = y" if "x \<in> set xs" "y \<in> set xs" "f x = f y" for x y
    using assms(1) that by (auto simp: distinct_map inj_on_def)
  have iff: "map_of (map (\<lambda>x. (f x, g x)) zs) k = Some v \<longleftrightarrow> (\<exists>x \<in> set zs. f x = k \<and> g x = v)"
    if "set zs \<subseteq> set xs" for zs v
  proof
    assume "map_of (map (\<lambda>x. (f x, g x)) zs) k = Some v"
    then show "\<exists>x \<in> set zs. f x = k \<and> g x = v" using map_of_SomeD by fastforce
  next
    assume "\<exists>x \<in> set zs. f x = k \<and> g x = v"
    then obtain x where x: "x \<in> set zs" "f x = k" "g x = v" by blast
    then obtain v' where v': "map_of (map (\<lambda>x. (f x, g x)) zs) k = Some v'"
      using weak_map_of_SomeI [of k v "map (\<lambda>x. (f x, g x)) zs"] by auto
    then obtain y where "y \<in> set zs" "f y = k" "g y = v'" using map_of_SomeD by fastforce
    then show "map_of (map (\<lambda>x. (f x, g x)) zs) k = Some v" using v' x inj that by blast
  qed
  have "map_of (map (\<lambda>x. (f x, g x)) ys) k = Some v \<longleftrightarrow> map_of (map (\<lambda>x. (f x, g x)) xs) k = Some v" for v
    using iff [of ys v] iff [of xs v] assms(2,3) by auto
  then show ?thesis by (metis option.exhaust)
qed

lemma st_BatchInsert_lookup:
  assumes "key_search normal" "st_wf t" "std_sort sorter" "already_sorted \<longrightarrow> sorted (map kv_hash kvs)"
    and "\<forall>kv \<in> set kvs. kv_key kv \<noteq> None" "distinct (map kv_hash kvs)"
    and "st_used t + int (length kvs) \<le> st_total t" "st_used t + int (length kvs) < 2 ^ 31"
  shows "\<exists>t'. st_BatchInsert sorter normal alloc free t kvs already_sorted = Some (True, t') \<and> st_wf t' \<and>
    (\<forall>k. st_lookup t' k = (case st_lookup t k of Some v \<Rightarrow> Some v
      | None \<Rightarrow> map_of (map (\<lambda>kv. (kv_hash kv, kv_value kv)) kvs) k))"
proof -
  define ks where "ks = (if \<not> already_sorted then sorter kvs else kvs)"
  have mset: "mset ks = mset kvs" and sorted: "sorted (map kv_hash ks)"
    using assms(3,4) by (auto simp: ks_def std_sort_def)
  have set: "set ks = set kvs" using mset by (rule mset_eq_setD)
  have "mset (map kv_hash ks) = mset (map kv_hash kvs)" using mset by simp
  then have dist: "distinct (map kv_hash ks)" using assms(6) mset_eq_imp_distinct_iff by blast
  obtain ms where ms: "batch_missing (\<lambda>t k. GetRecordByKey normal alloc free t k False) t ks = Some ms"
    "map fst ms = filter (\<lambda>kv. st_lookup t (kv_hash kv) = None) ks"
    "\<forall>(kv, pos) \<in> set ms. search_answer (\<lambda>i. rec_key (st_rec t i)) (st_used t) (kv_hash kv) (Inr pos)"
    using key_search.batch_missing_spec [OF assms(1,2), of ks alloc free] assms(5) set by blast
  have len: "length ms \<le> length kvs"
    using arg_cong [OF ms(2), of length] length_filter_le [of "\<lambda>kv. st_lookup t (kv_hash kv) = None" ks] mset_eq_length [OF mset] by simp
  have fsts: "fst ` set ms = {kv \<in> set kvs. st_lookup t (kv_hash kv) = None}"
    using arg_cong [OF ms(2), of set] set by simp
  have "mergeable (st_used t - 1) (rev ms) t"
    using assms(2) ms(3) descending_rev [OF sorted dist, of "\<lambda>kv. st_lookup t (kv_hash kv) = None"]
    unfolding mergeable_def rev_map [symmetric] ms(2) by (auto simp: st_wf_def split: if_splits)
  from batch_merge_spec [OF this] have M: "merged (st_used t - 1) (rev ms) t
      (batch_merge (st_used t - 1) (st_used t + int (length ms) - 1) (rev ms) t)" by (simp add: algebra_simps)
  let ?t' = "st_add_used (int (length ms)) (batch_merge (st_used t - 1) (st_used t + int (length ms) - 1) (rev ms) t)"
  have "\<forall>(kv, pos) \<in> set (rev ms). st_lookup t (kv_hash kv) = None" using fsts by force
  moreover have "inj_on kv_hash (fst ` set (rev ms))" using fsts assms(6) by (auto simp: distinct_map inj_on_def)
  ultimately have L: "st_wf ?t'" "st_lookup ?t' k = (case st_lookup t k of Some v \<Rightarrow> Some v
      | None \<Rightarrow> map_of (map (\<lambda>kv. (kv_hash kv, kv_value kv)) (map fst (rev ms))) k)" for k
    using merged_lookup [OF assms(2) M, of k] len assms(7,8) by simp_all
  have new: "map_of (map (\<lambda>kv. (kv_hash kv, kv_value kv)) (map fst (rev ms))) k =
      map_of (map (\<lambda>kv. (kv_hash kv, kv_value kv)) kvs) k" if "st_lookup t k = None" for k
    using that fsts by (intro map_of_filter_same [OF assms(6), where P = "\<lambda>kv. st_lookup t (kv_hash kv) = None"]) auto
  have count: "signed_take_bit 31 (int (length ms)) = int (length ms)"
    using len assms(2,8) by (intro simd_mid_fits) (auto simp: st_wf_def)
  have "st_BatchInsert sorter normal alloc free t kvs already_sorted = Some (True, ?t')"
    using ms(1) assms(2,7) len by (simp add: st_BatchInsert_def Let_def count st_wf_def flip: ks_def)
  then show ?thesis using L new by (intro exI [of _ ?t']) (simp split: option.split)
qed

text \<open>
  C18: \<open>BatchInsert\<close> of records with different hashed keys into a table with room for all of
  them merges in those whose key is not in the table and keeps it well-formed; the value of a key that is in the table
  is not replaced.
\<close>

theorem st_BatchInsert_Search:
  assumes "key_search normal" "st_wf t" "std_sort sorter" "already_sorted \<longrightarrow> sorted (map kv_hash kvs)"
    and "\<forall>kv \<in> set kvs. kv_key kv \<noteq> None" "distinct (map kv_hash kvs)"
    and "st_used t + int (length kvs) \<le> st_total t" "st_used t + int (length kvs) < 2 ^ 31"
  shows "\<exists>t'. st_BatchInsert sorter normal alloc free t kvs already_sorted = Some (True, t') \<and> st_wf t' \<and>
    (\<forall>kv k. kv_key kv = Some k \<longrightarrow> st_Search normal alloc free t' kv =
      (case map_of (map (\<lambda>kv. (kv_hash kv, kv_value kv)) kvs) (GetHashKey k) of
         None \<Rightarrow> st_Search normal alloc free t kv
       | Some v \<Rightarrow> if st_Search normal alloc free t kv = Some (False, kv\<lparr>kv_value := -1\<rparr>)
           then Some (True, kv\<lparr>kv_value := v\<rparr>) else st_Search normal alloc free t kv))"
  using st_BatchInsert_lookup [OF assms, of alloc free] key_search.Search_lookup [OF assms(1), where alloc = alloc and free = free] assms(2)
  by (elim exE) (simp split: option.split)

text \<open>
  C34: \<open>Delete\<close> removes nothing: for a key that is in the table it reports failure and leaves
  the table as it was, and for a key that is not it reads and writes through a null pointer.
\<close>

theorem st_Delete_nothing:
  assumes "key_search normal" "st_wf t" "kv_key kv = Some k"
  shows "st_Delete normal alloc free t kv =
    (if st_Search normal alloc free t kv = Some (False, kv\<lparr>kv_value := -1\<rparr>) then None else Some (False, t))"
proof -
  obtain r pos where g: "GetRecordByKey normal alloc free t (kv_key kv) False = Some (r, pos, t)"
    using key_search.get_missing [OF assms, of alloc free] by blast
  moreover have "0 < int (st_first t) + Record_size * (st_used t - 1)"
    using assms(2) by (simp add: st_wf_def Record_size_def)
  ultimately show ?thesis by (simp add: st_Delete_def st_Search_def)
qed

theorem st_Delete_nothing_witness:
  "st_Delete (simd_search 2 3) list_alloc2 list_free2 demo_sort \<lparr>kv_key = Some [5], kv_value = 0, kv_payload = []\<rparr> =
    (if st_Search (simd_search 2 3) list_alloc2 list_free2 demo_sort \<lparr>kv_key = Some [5], kv_value = 0, kv_payload = []\<rparr> =
        Some (False, \<lparr>kv_key = Some [5], kv_value = -1, kv_payload = []\<rparr>) then None else Some (False, demo_sort))"
  using st_Delete_nothing [OF simd.key_search_axioms demo_sort_wf, of "\<lparr>kv_key = Some [5], kv_value = 0, kv_payload = []\<rparr>" "[5]"
      list_alloc2 list_free2] by simp

text \<open>
  \<open>BatchInsert\<close> into an exclusive table without room for the new records reports success and
  inserts none of them.
\<close>

theorem st_BatchInsert_full:
  assumes "key_search normal" "st_wf t" "std_sort sorter" "st_type t = EXCLUSIVE" "length kvs < 2 ^ 31"
    and "\<forall>kv \<in> set kvs. kv_key kv \<noteq> None \<and> st_lookup t (kv_hash kv) = None"
    and "st_total t < st_used t + int (length kvs)"
  shows "st_BatchInsert sorter normal alloc free t kvs False = Some (True, t)"
proof -
  have mset: "mset (sorter kvs) = mset kvs" using assms(3) by (simp add: std_sort_def)
  then have set: "set (sorter kvs) = set kvs" by (rule mset_eq_setD)
  obtain ms where ms: "batch_missing (\<lambda>t k. GetRecordByKey normal alloc free t k False) t (sorter kvs) = Some ms"
    "map fst ms = filter (\<lambda>kv. st_lookup t (kv_hash kv) = None) (sorter kvs)"
    using key_search.batch_missing_spec [OF assms(1,2), of "sorter kvs" alloc free] assms(6) set by blast
  have "filter (\<lambda>kv. st_lookup t (kv_hash kv) = None) (sorter kvs) = sorter kvs"
    using assms(6) set by (simp add: filter_id_conv)
  then have "length ms = length kvs"
    using arg_cong [OF ms(2), of length] mset_eq_length [OF mset] by simp
  moreover have "signed_take_bit 31 (int (length kvs)) = int (length kvs)"
    using assms(5) by (intro simd_mid_fits) simp_all
  ultimately show ?thesis
    using ms(1) assms(2,4,7) by (simp add: st_BatchInsert_def Let_def st_wf_def)
qed

theorem st_BatchInsert_full_witness:
  "st_BatchInsert (List.sort_key kv_hash) (simd_search 2 3) list_alloc2 list_free2
     (demo_sort\<lparr>st_type := EXCLUSIVE, st_headers := \<lambda>_. \<lparr>sh_used_size = 0, sh_total_size = 0\<rparr>\<rparr>)
     [\<lparr>kv_key = Some [7], kv_value = 70, kv_payload = []\<rparr>] False =
   Some (True, demo_sort\<lparr>st_type := EXCLUSIVE, st_headers := \<lambda>_. \<lparr>sh_used_size = 0, sh_total_size = 0\<rparr>\<rparr>)"
proof (rule st_BatchInsert_full [OF simd.key_search_axioms _ std_sort_sort_key])
  let ?t = "demo_sort\<lparr>st_type := EXCLUSIVE, st_headers := \<lambda>_. \<lparr>sh_used_size = 0, sh_total_size = 0\<rparr>\<rparr>"
  have u: "st_used ?t = 0" "st_total ?t = 0" by (simp_all add: st_used_def st_total_def)
  show "st_wf ?t" unfolding st_wf_def u
    by (simp add: ascending_def demo_sort_def SortTable_new_def kMaxBinarySearchLevel_def kDefaultBinarySearchMidCount_def)
  show "\<forall>kv \<in> set [\<lparr>kv_key = Some [7], kv_value = 70, kv_payload = []\<rparr>]. kv_key kv \<noteq> None \<and> st_lookup ?t (kv_hash kv) = None"
    by (simp add: st_lookup_def st_view_def u)
qed (simp_all add: st_used_def st_total_def)

text \<open>
  Keys of up to 8 bytes have the same hashed key exactly when they are equal up to
  trailing zero bytes.
\<close>

theorem GetHashKey_short:
  assumes "length k \<le> 8" "length k' \<le> 8"
  shows "GetHashKey k = GetHashKey k' \<longleftrightarrow> k @ replicate (8 - length k) 0 = k' @ replicate (8 - length k') 0"
proof -
  have pad: "le_val (ks @ replicate n 0) = le_val ks" for ks :: bytes and n
    by (induction ks) (induction n, simp_all)
  let ?p = "\<lambda>ks :: bytes. ks @ replicate (8 - length ks) 0"
  have val: "le_bytes 8 (le_val (?p ks)) = ?p ks" if "length ks \<le> 8" for ks
    using le_bytes_le_val [of "?p ks"] that by simp
  have bound: "le_val ks < 2 ^ 64" if "length ks \<le> 8" for ks
  proof -
    have "le_val (?p ks) < 256 ^ length (?p ks)" by (rule le_val_bound)
    then show ?thesis using that by (simp add: pad)
  qed
  have "GetHashKey k = GetHashKey k' \<longleftrightarrow> take_bit 64 (int (le_val k)) = take_bit 64 (int (le_val k'))"
    using assms signed_take_bit_eq_iff_take_bit_eq [of 63 "int (le_val k)" "int (le_val k')"] by (simp add: GetHashKey_def)
  also have "\<dots> \<longleftrightarrow> le_val k = le_val k'"
    using bound [OF assms(1)] bound [OF assms(2)] by (simp add: take_bit_int_eq_self)
  also have "\<dots> \<longleftrightarrow> ?p k = ?p k'"
    using val [OF assms(1)] val [OF assms(2)] pad by metis
  finally show ?thesis .
qed

theorem GetHashKey_short_witness: "GetHashKey [1] = GetHashKey [1, 0]"
  using GetHashKey_short [of "[1]" "[1, 0]"] by (simp add: numeral_eq_Suc)

theorem st_BatchInsert_Search_witness:
  "\<exists>t'. st_BatchInsert (List.sort_key kv_hash) (simd_search 2 3) list_alloc2 list_free2 demo_sort
       [\<lparr>kv_key = Some [7], kv_value = 70, kv_payload = []\<rparr>, \<lparr>kv_key = Some [4], kv_value = 40, kv_payload = []\<rparr>] False = Some (True, t') \<and>
     st_wf t'"
proof -
  have "GetHashKey [7] = 7" "GetHashKey [4] = 4"
    by (simp_all add: GetHashKey_def signed_take_bit_int_eq_self)
  moreover have "st_total demo_sort = 7" by (simp add: st_total_def demo_sort_def SortTable_new_def)
  ultimately show ?thesis
    using st_BatchInsert_Search [OF simd.key_search_axioms demo_sort_wf std_sort_sort_key, of False
        "[\<lparr>kv_key = Some [7], kv_value = 70, kv_payload = []\<rparr>, \<lparr>kv_key = Some [4], kv_value = 40, kv_payload = []\<rparr>]" list_alloc2 list_free2]
    by (auto simp: demo_sort_used kv_hash_def key_bytes_def)
qed

end
