(* ===== verification/Sort_Session.thy ===== *)
theory Sort_Session
  imports Sort_Index Upward_Pools Table_Session
begin

text \<open>
  Sessions with a sort table in a pool that grows upwards: \<open>Insert\<close>, which moves a full shared table into a block
  of twice the size and takes the space behind a full exclusive one, \<open>BatchDelete\<close> of one key (\<open>Delete\<close> does not work), \<open>Search\<close> and \<open>GetSize\<close> answer
  as a map from hashed keys to values does (an interpretation of \<open>map_table\<close>).  The budget
  of a session counts the bytes that growing can take: twice the block for each time the table is full.
\<close>

section \<open>Operations\<close>

fun sort_step ::
  "(kv_pair list \<Rightarrow> kv_pair list) \<Rightarrow> searcher \<Rightarrow> ('p \<Rightarrow> nat \<Rightarrow> (nat \<times> 'p) option) \<Rightarrow> ('p \<Rightarrow> nat \<Rightarrow> nat \<Rightarrow> bool \<times> 'p) \<Rightarrow>
   table_op \<Rightarrow> 'p sort_table \<Rightarrow> (table_ans \<times> 'p sort_table) option" where
  "sort_step sorter normal alloc free (OpInsert kv) t = map_option (map_prod Answer id) (st_Insert normal alloc free t kv)"
| "sort_step sorter normal alloc free (OpDelete kv) t = map_option (map_prod Answer id) (st_BatchDelete sorter t [kv] True)"
| "sort_step sorter normal alloc free (OpSearch kv) t =
     map_option (\<lambda>(ok, kv'). (Found ok kv', t)) (st_Search normal alloc free t kv)"
| "sort_step sorter normal alloc free OpSize t = Some (Entries (nat (st_GetUsedSize t)), t)"

fun sort_op :: "table_op \<Rightarrow> bool" where
  "sort_op (OpInsert kv) = (kv_key kv = Some (key_bytes kv) \<and> kv_payload kv = [])"
| "sort_op (OpDelete kv) = True"
| "sort_op (OpSearch kv) = (kv_key kv = Some (key_bytes kv))"
| "sort_op OpSize = True"

section \<open>The number of keys\<close>

lemma card_st_lookup:
  assumes "st_wf t"
  shows "finite (dom (st_lookup t)) \<and> card (dom (st_lookup t)) = nat (st_used t)"
proof -
  have asc: "ascending (st_key t) (st_used t)" using assms by (simp add: st_wf_def)
  have "dom (st_lookup t) = st_key t ` {0..<st_used t}"
    by (force simp: st_lookup_def dom_map_of_conv_image_fst st_view_def)
  moreover have "inj_on (st_key t) {0..<st_used t}"
    using ascending_inj [OF asc] by (auto simp: inj_on_def)
  ultimately show ?thesis by (simp add: card_image)
qed

lemma fold_write_same: "same_table t (fold (\<lambda>i t. st_write (rec_addr t i) g t) is t)"
proof (induction "is" arbitrary: t)
  case Nil
  then show ?case by simp
next
  case (Cons i js)
  then show ?case using same_table_trans [OF same_table_write] by fastforce
qed

section \<open>Sessions in a pool that grows upwards\<close>

text \<open>
  A table at an address from \<open>lo\<close> on with a budget of \<open>n\<close> operations: a block of \<open>16 * (total + 1)\<close> bytes below the top of the pool, which is
  copied to one of twice the size when it is full.  An exclusive table ends at the top, where its new space begins.
\<close>

definition sort_rel ::
  "nat \<Rightarrow> ('p \<Rightarrow> bool) \<Rightarrow> ('p \<Rightarrow> nat) \<Rightarrow> ('p \<Rightarrow> nat) \<Rightarrow> nat \<Rightarrow> 'p sort_table \<Rightarrow> (int \<Rightarrow> int option) \<Rightarrow> bool" where
  "sort_rel lo ok tp rm n t f \<longleftrightarrow> st_wf t \<and> lo \<le> st_header t \<and> st_attached t \<and> st_lookup t = f \<and> ok (st_pool t) \<and>
     int (st_header t) + 16 * (st_total t + 1) \<le> int (tp (st_pool t)) \<and>
     (st_type t = EXCLUSIVE \<longrightarrow> 0 < st_total t \<and> int (st_header t) + 16 * (st_total t + 1) = int (tp (st_pool t))) \<and> st_used t + int n < 2 ^ 31 \<and>
     64 * (st_used t + int n + 1) \<le> int (rm (st_pool t)) + 32 * (st_total t + 1)"

context table_pool begin

lemma sort_grows:
  assumes "sort_rel lo ok top room (Suc n) t f" "st_used t = st_total t"
  shows "\<exists>q q'. alloc (st_pool t) (nat (2 * (16 * st_total t + 16))) = Some (top (st_pool t), q) \<and>
    fresh_block t (top (st_pool t)) \<and> free q (st_header t) (nat (16 * st_total t + 16)) = (True, q') \<and> ok q' \<and>
    int (top q') = int (top (st_pool t)) + 32 * (st_total t + 1) \<and> int (room q') = int (room (st_pool t)) - 32 * (st_total t + 1)"
proof -
  let ?p = "st_pool t" and ?n = "nat (2 * (16 * st_total t + 16))"
  have R: "st_wf t" "ok ?p" "int (st_header t) + 16 * (st_total t + 1) \<le> int (top ?p)"
    "64 * (st_used t + int (Suc n) + 1) \<le> int (room ?p) + 32 * (st_total t + 1)"
    using assms(1) by (simp_all add: sort_rel_def)
  have W: "0 \<le> st_total t" "st_first t = st_header t + 16" using R(1) by (auto simp: st_wf_def)
  then have n: "int ?n = 32 * (st_total t + 1)" "0 < ?n" by simp_all
  then have "int ?n \<le> int (room ?p)" using R(4) assms(2) by (simp add: algebra_simps)
  then have "?n \<le> room ?p" by (simp only: of_nat_le_iff)
  then obtain q where Q: "alloc ?p ?n = Some (top ?p, q)" "ok q" "top q = top ?p + ?n" "room q = room ?p - ?n"
    using bump [OF R(2) n(2)] by blast
  obtain q' where F: "free q (st_header t) (nat (16 * st_total t + 16)) = (True, q')" "ok q'" "top q' = top q" "room q' = room q"
    using free_keeps [OF Q(2)] by blast
  have "fresh_block t (top ?p)"
    using R(3) W top_pos [OF R(2)] by (auto simp: fresh_block_def Record_size_def)
  then show ?thesis
    using Q F n(1) \<open>?n \<le> room ?p\<close> by (intro exI [of _ q] exI [of _ q']) (simp add: of_nat_diff)
qed

lemma sort_expands:
  assumes "sort_rel lo ok top room (Suc n) t f" "st_used t = st_total t" "st_type t = EXCLUSIVE"
  shows "\<exists>a q. alloc (st_pool t) (nat (16 * st_total t)) = Some (a, q) \<and> ok q \<and>
    int (top q) = int (top (st_pool t)) + 16 * st_total t \<and> int (room q) = int (room (st_pool t)) - 16 * st_total t"
proof -
  let ?p = "st_pool t" and ?n = "nat (16 * st_total t)"
  have R: "ok ?p" "0 < st_total t" "64 * (st_used t + int (Suc n) + 1) \<le> int (room ?p) + 32 * (st_total t + 1)"
    using assms(1,3) by (simp_all add: sort_rel_def)
  then have n: "int ?n = 16 * st_total t" "0 < ?n" by simp_all
  then have "int ?n \<le> int (room ?p)" using R(2,3) assms(2) by (simp add: algebra_simps)
  then have le: "?n \<le> room ?p" by (simp only: of_nat_le_iff)
  then obtain q where "alloc ?p ?n = Some (top ?p, q)" "ok q" "top q = top ?p + ?n" "room q = room ?p - ?n"
    using bump [OF R(1) n(2)] by blast
  then show ?thesis using n(1) le by (auto simp: of_nat_diff)
qed

lemma sort_Insert_rel:
  assumes ks: "key_search normal" and rel: "sort_rel lo ok top room (Suc n) t f" and kv: "sort_op (OpInsert kv)"
  shows "\<exists>t'. st_Insert normal alloc free t kv = Some (True, t') \<and> sort_rel lo ok top room n t' (f(kv_hash kv \<mapsto> kv_value kv))"
proof -
  let ?p = "st_pool t"
  have R: "st_wf t" "st_attached t" "st_lookup t = f" "ok ?p" "int (st_header t) + 16 * (st_total t + 1) \<le> int (top ?p)"
    "st_type t = EXCLUSIVE \<longrightarrow> 0 < st_total t \<and> int (st_header t) + 16 * (st_total t + 1) = int (top ?p)"
    "st_used t + int (Suc n) < 2 ^ 31" "64 * (st_used t + int (Suc n) + 1) \<le> int (room ?p) + 32 * (st_total t + 1)"
    and lo: "lo \<le> st_header t"
    using rel by (simp_all add: sort_rel_def)
  have K: "kv_key kv = Some (key_bytes kv)" "kv_payload kv = []" using kv by simp_all
  have le: "st_used t \<le> st_total t" using R(1) by (simp add: st_wf_def)
  have "can_add alloc free t"
    using sort_grows [OF rel] sort_expands [OF rel] R(2,6,7) le
    by (cases "st_used t < st_total t"; cases "st_type t") (auto simp: can_add_def)
  then obtain t' where T: "st_Insert normal alloc free t kv = Some (True, t')" "st_wf t'"
      "st_lookup t' = (st_lookup t)(kv_hash kv \<mapsto> kv_value kv)" "st_attached t'" "st_type t' = st_type t"
      "st_used t' = st_used t \<and> st_total t' = st_total t \<and> st_header t' = st_header t \<and> st_pool t' = ?p \<or> grew alloc free t t'"
    using key_search.Insert_lookup [OF ks R(1) K, of alloc free] R(2) by (auto simp: kv_hash_def)
  have "lo \<le> st_header t' \<and> ok (st_pool t') \<and> int (st_header t') + 16 * (st_total t' + 1) \<le> int (top (st_pool t')) \<and>
      (st_type t = EXCLUSIVE \<longrightarrow> 0 < st_total t' \<and> int (st_header t') + 16 * (st_total t' + 1) = int (top (st_pool t'))) \<and>
      st_used t' + int n < 2 ^ 31 \<and> 64 * (st_used t' + int n + 1) \<le> int (room (st_pool t')) + 32 * (st_total t' + 1)"
  proof (cases "grew alloc free t t' \<and> st_used t = st_total t")
    case True
    show ?thesis
    proof (cases "st_type t")
      case SHARED
      then obtain q where "alloc ?p (nat (2 * (16 * st_total t + 16))) = Some (st_header t', q)"
          "free q (st_header t) (nat (16 * st_total t + 16)) = (True, st_pool t')"
          "st_used t' = st_used t + 1" "st_total t' = 2 * st_total t + 1"
        using True by (auto simp: grew_def)
      then show ?thesis using sort_grows [OF rel] True SHARED R(1,5,7,8) lo by (auto simp: st_wf_def)
    next
      case EXCLUSIVE
      then obtain a where "alloc ?p (nat (16 * st_total t)) = Some (a, st_pool t')"
          "st_used t' = st_used t + 1" "st_total t' = 2 * st_total t" "st_header t' = st_header t"
        using True by (auto simp: grew_def)
      then show ?thesis using sort_expands [OF rel _ EXCLUSIVE] True EXCLUSIVE R(6-8) lo by auto
    qed
  next
    case False
    then show ?thesis using T(6) R(4-8) lo by (auto simp: grew_def)
  qed
  then show ?thesis using T R(3) by (auto simp: sort_rel_def)
qed

lemma sort_Delete_rel:
  assumes rel: "sort_rel lo ok top room (Suc n) t f"
  shows "\<exists>t'. st_BatchDelete sorter t [kv] True = Some (True, t') \<and> sort_rel lo ok top room n t' (f(kv_hash kv := None))"
proof -
  have R: "st_wf t" "st_lookup t = f" using rel by (simp_all add: sort_rel_def)
  define res where "res = batch_delete_loop (st_used t) 0 0 [kv] 0 t"
  let ?t' = "st_add_used (- fst res) (snd res)"
  have D: "st_wf ?t'" "same_table t (snd res)" "\<And>k. st_lookup ?t' k = (if k = kv_hash kv then None else st_lookup t k)"
    using BatchDelete_lookup [OF R(1), of "[kv]", folded res_def] by simp_all
  note S = same_tableD [OF D(2)]
  have f: "st_lookup ?t' = f(kv_hash kv := None)" using D(3) R(2) by auto
  then have "dom (st_lookup ?t') \<subseteq> dom (st_lookup t)" by (auto simp: R(2))
  then have "nat (st_used ?t') \<le> nat (st_used t)"
    using card_st_lookup [OF R(1)] card_st_lookup [OF D(1)] by (metis card_mono)
  moreover have "0 \<le> st_used t" using R(1) by (simp add: st_wf_def)
  ultimately have "st_used ?t' \<le> st_used t" using nat_le_eq_zle [of "st_used ?t'" "st_used t"] by blast
  then have "sort_rel lo ok top room n ?t' (f(kv_hash kv := None))"
    using rel D(1) f S by (simp add: sort_rel_def)
  moreover have "st_BatchDelete sorter t [kv] True = Some (True, ?t')"
    using R(1) by (simp add: st_BatchDelete_def st_wf_def case_prod_unfold flip: res_def)
  ultimately show ?thesis by blast
qed

lemma sort_step_rel:
  assumes ks: "key_search normal" and rel: "sort_rel lo ok top room (Suc n) t f" and op: "sort_op op" "map_step kv_hash id op f = (a, g)"
  shows "\<exists>t'. sort_step sorter normal alloc free op t = Some (a, t') \<and> sort_rel lo ok top room n t' g"
proof (cases op)
  case (OpInsert kv)
  then show ?thesis using sort_Insert_rel [OF ks rel, of kv] op by auto
next
  case (OpDelete kv)
  then show ?thesis using sort_Delete_rel [OF rel, of sorter kv] op by auto
next
  case (OpSearch kv)
  have "sort_rel lo ok top room n t f" using rel by (simp add: sort_rel_def)
  then show ?thesis
    using key_search.Search_lookup [OF ks, of t kv "key_bytes kv" alloc free] op OpSearch
    by (auto simp: sort_rel_def kv_hash_def split: option.splits)
next
  case OpSize
  have "sort_rel lo ok top room n t f" "st_header t \<noteq> 0" using rel by (simp_all add: sort_rel_def st_wf_def)
  moreover have "card (dom f) = nat (st_used t)"
    using card_st_lookup [of t] rel by (auto simp: sort_rel_def)
  ultimately show ?thesis using op OpSize by (auto simp: st_GetUsedSize_def)
qed

lemma sort_InitEmpty_rel:
  assumes t: "st_attached t" "st_type t = EXCLUSIVE \<longrightarrow> 0 < N" "st_bs_level t < 2 \<or> st_bs_level t = 2 \<and> st_bs_mid_count t = 3" "ok (st_pool t)"
    and lo: "lo \<le> top (st_pool t)" and N: "0 \<le> N" "int n + 1 < 2 ^ 31" "16 * (N + 1) + 64 * (int n + 1) \<le> int (room (st_pool t))"
  shows "\<exists>t'. st_InitEmpty alloc t N = Some (True, t') \<and> sort_rel lo ok top room n t' Map.empty \<and> st_type t' = st_type t \<and> st_total t' = N"
proof -
  let ?p = "st_pool t" and ?size = "nat (SortHeader_size + Record_size * N)"
  have size: "int ?size = 16 * (N + 1)" "0 < ?size" using N(1) by (simp_all add: SortHeader_size_def Record_size_def)
  then have le: "int ?size \<le> int (room ?p)" using N(3) by (simp add: algebra_simps)
  then have "?size \<le> room ?p" by (simp only: of_nat_le_iff)
  then obtain q where Q: "alloc ?p ?size = Some (top ?p, q)" "ok q" "top q = top ?p + ?size" "room q = room ?p - ?size"
    using bump [OF t(4) size(2)] by blast
  define t2 where "t2 = (st_upd_header (top ?p) (\<lambda>_. sh_Init N) (t\<lparr>st_pool := q, st_header := top ?p\<rparr>))
    \<lparr>st_first := top ?p + nat SortHeader_size\<rparr>"
  define t' where "t' = fold (\<lambda>i t. st_write (rec_addr t i) rec_Clear t) [0..N - 1] t2"
  have same: "same_table t2 t'" unfolding t'_def by (rule fold_write_same)
  have I: "st_InitEmpty alloc t N = Some (True, t')"
    using t(1) Q(1) top_pos [OF t(4)] by (simp add: st_InitEmpty_def Let_def t'_def t2_def)
  have H: "st_header t' = top ?p" "st_first t' = top ?p + 16" "st_used t' = 0" "st_total t' = N" "st_pool t' = q"
    "st_attached t'" "st_type t' = st_type t" "st_bs_level t' < 2 \<or> st_bs_level t' = 2 \<and> st_bs_mid_count t' = 3"
    unfolding same_tableD [OF same] using t(1-3)
    by (simp_all add: t2_def st_upd_header_def SortHeader_size_def st_used_def st_total_def sh_Init_def)
  have "st_wf t'"
    using H(1-4,8) N(1) top_pos [OF t(4)] by (simp add: st_wf_def ascending_def)
  moreover have "st_lookup t' = Map.empty" by (simp add: st_lookup_def st_view_def H(3))
  moreover have "int (room q) = int (room ?p) - 16 * (N + 1)"
    using \<open>?size \<le> room ?p\<close> unfolding Q(4) size(1) [symmetric] by (rule of_nat_diff)
  ultimately have "sort_rel lo ok top room n t' Map.empty"
    using H Q(2,3) N size(1) t(2) lo by (simp add: sort_rel_def)
  then show ?thesis using I H(4,7) by blast
qed

end

section \<open>A sort table in a mapped pool\<close>

lemma mapped_sort_table:
  assumes "key_search normal"
  shows "map_table (sort_step sorter normal mps_touch mps_Free) kv_hash id sort_op (sort_rel b (mps_mapped b) mps_top mps_space)"
  by (rule map_table.intro) (rule touched_table.sort_step_rel [OF assms])

interpretation mapped_sort: map_table "sort_step sorter (simd_search 2 3) mps_touch mps_Free" kv_hash id sort_op
  "sort_rel b (mps_mapped b) mps_top mps_space" for sorter b
  by (rule mapped_sort_table [OF simd.key_search_axioms])

text \<open>
  What a new table needs whose pool has no other client: that its block and those of \<open>n\<close> operations stay
  below the width of \<open>off_t\<close>, and for a session also that they fit into the mapping.
\<close>

definition new_sort_ok :: "mmap_pool_state \<Rightarrow> mmap_pool_state sort_table \<Rightarrow> nat \<Rightarrow> bool" where
  "new_sort_ok s t n \<longleftrightarrow> mps_patient s \<and> (st_type t = EXCLUSIVE \<longrightarrow> 0 < st_init_record_num t) \<and>
     (st_bs_level t < 2 \<or> st_bs_level t = 2 \<and> st_bs_mid_count t = 3) \<and> 0 \<le> st_init_record_num t \<and> n + 1 < 2 ^ 31 \<and>
     int (mps_used s) + int (mp_min_expand (snd s)) + 16 * (st_init_record_num t + 1) + 64 * (int n + 1) \<le> 2 ^ 63"

definition mapped_sort_ok :: "mmap_pool_state \<Rightarrow> mmap_pool_state sort_table \<Rightarrow> nat \<Rightarrow> bool" where
  "mapped_sort_ok s t n \<longleftrightarrow> new_sort_ok s t n \<and>
     int (mps_top s) + 16 * (st_init_record_num t + 1) + 64 * (int n + 1) \<le> int (mps_end s)"

lemma mapped_sort_Init:
  assumes "mapped_sort_ok s t n"
  obtains t1 where "st_Init mps_touch t (Some s) begin_addr True = Some (True, t1)"
    "sort_rel (mps_bot s) (mps_mapped (mps_bot s)) mps_top mps_space n t1 Map.empty"
proof -
  let ?t = "t\<lparr>st_attached := True, st_pool := s\<rparr>" and ?N = "st_init_record_num t"
  have A: "mps_patient s" "st_type t = EXCLUSIVE \<longrightarrow> 0 < ?N" "st_bs_level t < 2 \<or> st_bs_level t = 2 \<and> st_bs_mid_count t = 3"
    "0 \<le> ?N" "int n + 1 < 2 ^ 31" "int (mps_used s + mp_min_expand (snd s)) + 16 * (?N + 1) + 64 * (int n + 1) \<le> 2 ^ 63"
    "int (mps_top s) + 16 * (?N + 1) + 64 * (int n + 1) \<le> int (mps_end s)"
    using assms by (simp_all add: mapped_sort_ok_def new_sort_ok_def)
  have ok: "mps_mapped (mps_bot s) s" using A(1,4,7) by (simp add: mps_mapped_def mps_inside_def mps_patient_def)
  have bot: "mps_bot s \<le> mps_top s" using ok by (intro mps_inside_bot) (simp add: mps_mapped_def)
  have "int (mps_room s) = 2 ^ 63 - int (mps_used s + mp_min_expand (snd s))"
    "int (mps_end s - mps_top s) = int (mps_end s) - int (mps_top s)"
    using A(4,6,7) by (simp_all add: mps_room_def of_nat_diff)
  then have "16 * (?N + 1) + 64 * (int n + 1) \<le> int (mps_space (st_pool ?t))"
    using A(6,7) by (simp add: mps_space_def of_nat_min)
  then obtain t1 where "st_InitEmpty mps_touch ?t ?N = Some (True, t1)"
      "sort_rel (mps_bot s) (mps_mapped (mps_bot s)) mps_top mps_space n t1 Map.empty"
    using touched_table.sort_InitEmpty_rel [of ?t ?N "mps_bot s" "mps_bot s" n] A(1-5) ok bot by auto
  then show ?thesis using that by (simp add: st_Init_def)
qed

text \<open>The block of the table is memory.\<close>

lemma sort_rel_place:
  assumes "sort_rel b (mps_mapped b) mps_top mps_space n t f"
  shows "mps_accessible (st_pool t) (st_header t) (nat (16 * (st_total t + 1)))"
    "st_header t + nat (16 * (st_total t + 1)) \<le> mps_top (st_pool t)"
proof -
  have R: "mps_inside (st_pool t)" "mps_bot (st_pool t) = b" "b \<le> st_header t" "0 \<le> st_total t"
      "int (st_header t) + 16 * (st_total t + 1) \<le> int (mps_top (st_pool t))"
    using assms by (auto simp: sort_rel_def mps_mapped_def st_wf_def)
  have "int (nat (16 * (st_total t + 1))) = 16 * (st_total t + 1)" using R(4) by simp
  then have "int (st_header t + nat (16 * (st_total t + 1))) \<le> int (mps_top (st_pool t))" using R(5) by simp
  then show le: "st_header t + nat (16 * (st_total t + 1)) \<le> mps_top (st_pool t)" by (simp only: of_nat_le_iff)
  show "mps_accessible (st_pool t) (st_header t) (nat (16 * (st_total t + 1)))"
    using R(2,3) le by (intro mps_inside_accessible [OF R(1)]) simp_all
qed

lemma new_sort_session:
  assumes "key_search normal" "mapped_sort_ok s t (length ops)" "\<forall>op \<in> set ops. sort_op op"
  shows "\<exists>t1 t2. st_Init mps_touch t (Some s) begin_addr True = Some (True, t1) \<and>
    table_session (sort_step sorter normal mps_touch mps_Free) ops t1 = Some (fst (map_session kv_hash id ops Map.empty), t2) \<and>
    sort_rel (mps_bot s) (mps_mapped (mps_bot s)) mps_top mps_space 0 t2 (snd (map_session kv_hash id ops Map.empty))"
proof -
  obtain t1 where T1: "st_Init mps_touch t (Some s) begin_addr True = Some (True, t1)"
      "sort_rel (mps_bot s) (mps_mapped (mps_bot s)) mps_top mps_space (length ops) t1 Map.empty"
    by (rule mapped_sort_Init [OF assms(2), of begin_addr])
  then show ?thesis
    using map_table.session_rel [OF mapped_sort_table [OF assms(1)], of "mps_bot s" ops 0 t1 Map.empty sorter] assms(3) by auto
qed

text \<open>
  C8: A session with a new sort table in a mapped pool whose mapping has room for it: \<open>Init\<close> succeeds, and any
  sequence of \<open>Insert\<close>, \<open>BatchDelete\<close> of one key, \<open>Search\<close> and \<open>GetSize\<close> returns and answers as a map from hashed
  keys to values does.  The room asked for is 16 bytes for each record of the first block and 64 for each
  operation; it covers the growth of the table: a shared one moves to a larger block, an exclusive one, which the
  pool must hold alone, takes the space behind it.  No block the table takes is outside the mapping
  (\<open>mps_touch\<close>), nor is the one it ends with.  The blocks it leaves wait for the whole session.
\<close>

theorem mapped_sort_session:
  assumes "key_search normal" "mapped_sort_ok s t (length ops)" "\<forall>op \<in> set ops. sort_op op"
  shows "\<exists>t1 t2. st_Init mps_touch t (Some s) begin_addr True = Some (True, t1) \<and>
    table_session (sort_step sorter normal mps_touch mps_Free) ops t1 = Some (fst (map_session kv_hash id ops Map.empty), t2) \<and>
    mps_accessible (st_pool t2) (st_header t2) (nat (16 * (st_total t2 + 1)))"
  using new_sort_session [OF assms, of begin_addr sorter] sort_rel_place(1) by blast

lemma demo_sort_session:
  "mapped_sort_ok demo_table_pool (SortTable_new demo_table_pool (\<lambda>_. sh_Init 0) (\<lambda>_. rec_Clear r)) 10"
  using demo_table_pool_facts
  by (simp add: mapped_sort_ok_def new_sort_ok_def SortTable_new_def kDefaultInitRecordNum_def
      kMaxBinarySearchLevel_def kDefaultBinarySearchMidCount_def)

lemma demo_ops_sort: "length demo_ops = 10 \<and> (\<forall>op \<in> set demo_ops. sort_op op) \<and>
  snd (map_session kv_hash id demo_ops Map.empty) 1 = Some 7 \<and> kv_hash (demo_kv [1] v) = 1 \<and>
  fst (map_session kv_hash id demo_ops Map.empty) =
    [Answer True, Answer True, Answer True, Entries 2, Answer True, Found False (demo_kv [2, 3, 4] (-1)),
     Found True (demo_kv [1] 7), Answer True, Entries 2, Answer True]"
proof -
  have "kv_hash (demo_kv [1] v) = 1" "kv_hash (demo_kv [2, 3, 4] v) = 262914" "kv_hash (demo_kv [9] v) = 9"
    "kv_hash (demo_kv [8] v) = 8" for v
    by (simp_all add: kv_hash_def key_bytes_def demo_kv_def GetHashKey_def signed_take_bit_int_eq_self)
  moreover have "key_bytes (demo_kv k v) = k" "kv_key (demo_kv k v) = Some k" "kv_payload (demo_kv k v) = []"
    "kv_value (demo_kv k v) = v" "(demo_kv k v)\<lparr>kv_value := w\<rparr> = demo_kv k w" for k v w
    by (simp_all add: key_bytes_def demo_kv_def)
  ultimately show ?thesis
    by (simp add: demo_ops_def fun_upd_twist [of 1 262914] card_insert_if)
qed

theorem mapped_sort_session_witness:
  "\<exists>t1 t2. st_Init mps_touch (SortTable_new demo_table_pool (\<lambda>_. sh_Init 0) (\<lambda>_. \<lparr>rec_key = 0, rec_value = 0\<rparr>))
      (Some demo_table_pool) 0 True = Some (True, t1) \<and>
    table_session (sort_step (List.sort_key kv_hash) (simd_search 2 3) mps_touch mps_Free) demo_ops t1 =
      Some ([Answer True, Answer True, Answer True, Entries 2, Answer True, Found False (demo_kv [2, 3, 4] (-1)),
        Found True (demo_kv [1] 7), Answer True, Entries 2, Answer True], t2)"
  using mapped_sort_session [OF simd.key_search_axioms, of demo_table_pool
      "SortTable_new demo_table_pool (\<lambda>_. sh_Init 0) (\<lambda>_. \<lparr>rec_key = 0, rec_value = 0\<rparr>)" demo_ops 0 "List.sort_key kv_hash"]
    demo_sort_session demo_ops_sort
  by (auto simp: rec_Clear_def)

section \<open>Reopening\<close>

text \<open>A new object of the class over the bytes of \<open>t\<close> from \<open>a\<close> on, which are now mapped at \<open>b\<close>.\<close>

definition sort_remapped :: "'p \<Rightarrow> 'p sort_table \<Rightarrow> nat \<Rightarrow> nat \<Rightarrow> 'p sort_table" where
  "sort_remapped pl t a b = SortTable_new pl (\<lambda>x. st_headers t (a + x - b)) (\<lambda>x. st_records t (a + x - b))"

definition st_GetTableEntryOffset :: "'p sort_table \<Rightarrow> nat \<Rightarrow> int" where
  "st_GetTableEntryOffset t data_begin = int (st_header t) - int data_begin"

lemma sort_reopen:
  assumes wf: "st_wf t" and ab: "a \<le> st_header t" "0 < b"
  shows "\<exists>u. st_Init alloc (sort_remapped pl t a b) (Some pl) (b + (st_header t - a)) False = Some (True, u) \<and>
    st_wf u \<and> st_lookup u = st_lookup t \<and> st_GetUsedSize u = st_GetUsedSize t \<and>
    st_header u = b + (st_header t - a) \<and> st_total u = st_total t"
proof -
  define u where "u = (sort_remapped pl t a b)\<lparr>st_attached := True, st_pool := pl, st_header := b + (st_header t - a),
    st_first := b + (st_header t - a) + 16\<rparr>"
  have W: "0 < st_header t" "st_first t = st_header t + 16" using wf by (simp_all add: st_wf_def)
  have I: "st_Init alloc (sort_remapped pl t a b) (Some pl) (b + (st_header t - a)) False = Some (True, u)"
    using ab(2) by (simp add: st_Init_def st_Load_def Let_def u_def SortHeader_size_def)
  have "st_rec u i = st_rec t i" if "0 \<le> i" for i
  proof -
    have "rec_addr t i = st_header t + 16 + nat (16 * i)" "rec_addr u i = b + (st_header t - a) + 16 + nat (16 * i)"
      using that W(2) by (simp_all add: rec_addr_def u_def Record_size_def nat_add_distrib)
    then have "a + rec_addr u i - b = rec_addr t i" using ab(1) by simp
    moreover have "st_records u x = st_records t (a + x - b)" for x by (simp add: u_def sort_remapped_def SortTable_new_def)
    ultimately show ?thesis by (simp add: st_rec_def)
  qed
  moreover have H: "st_used u = st_used t" "st_total u = st_total t" "st_header u \<noteq> 0"
    using ab by (simp_all add: st_used_def st_total_def u_def sort_remapped_def SortTable_new_def)
  ultimately have "st_view u = st_view t" "ascending (st_key u) (st_used u) = ascending (st_key t) (st_used t)"
    unfolding ascending_def st_view_def by auto
  moreover have "st_first u = st_header u + 16" "st_bs_level u = 2 \<and> st_bs_mid_count u = 3"
    by (simp_all add: u_def sort_remapped_def SortTable_new_def kMaxBinarySearchLevel_def kDefaultBinarySearchMidCount_def)
  ultimately have "st_wf u \<and> st_lookup u = st_lookup t \<and> st_GetUsedSize u = st_GetUsedSize t"
    using wf H by (simp add: st_wf_def st_lookup_def st_GetUsedSize_def)
  moreover have "st_header u = b + (st_header t - a)" by (simp add: u_def)
  ultimately show ?thesis using I H(2) by blast
qed

lemma sort_reopened:
  assumes ks: "key_search normal" and rel: "sort_rel b (mps_mapped b) mps_top mps_space n t f" and r: "same_bytes (st_pool t) r"
    and begins: "old = mp_GetMMapDataBegin (snd (st_pool t))" "new = mp_GetMMapDataBegin (snd r)"
  shows "\<exists>u. st_Init mps_touch (sort_remapped r t old new) (Some r) (nat (int new + st_GetTableEntryOffset t old)) False = Some (True, u) \<and>
    mps_accessible r (st_header u) (nat (16 * (st_total u + 1))) \<and> st_GetUsedSize u = int (card (dom f)) \<and>
    (\<forall>kv. sort_op (OpSearch kv) \<longrightarrow>
      sort_step sorter normal mps_touch mps_Free (OpSearch kv) u = Some (fst (map_step kv_hash id (OpSearch kv) f), u))"
proof -
  have R: "st_wf t" "st_lookup t = f" "mps_inside (st_pool t)" "mps_bot (st_pool t) = b" "b \<le> st_header t"
    using rel by (auto simp: sort_rel_def mps_mapped_def)
  obtain st g c st' g' c' where L: "mps_layout (st_pool t) st g c" "mps_layout r st' g' c'" using r by (auto simp: same_bytes_def)
  have B: "old = b" "new = mps_bot r" "0 < new"
    using mps_data_begin [OF L(1)] mps_data_begin [OF L(2)] mps_layout_top(1) [OF L(2)] R(4) begins by simp_all
  have at: "nat (int new + st_GetTableEntryOffset t old) = new + (st_header t - old)"
    using R(5) B(1) by (simp add: st_GetTableEntryOffset_def nat_add_distrib flip: of_nat_diff)
  obtain u where U: "st_Init mps_touch (sort_remapped r t old new) (Some r) (new + (st_header t - old)) False = Some (True, u)"
      "st_wf u" "st_lookup u = f" "st_GetUsedSize u = st_GetUsedSize t" "st_header u = new + (st_header t - old)" "st_total u = st_total t"
    using sort_reopen [OF R(1), of old new mps_touch r] R(2,5) B by auto
  have "st_GetUsedSize t = int (card (dom f))"
    using card_st_lookup [OF R(1)] R(1,2) by (simp add: st_GetUsedSize_def st_wf_def)
  moreover have "mps_accessible r (st_header u) (nat (16 * (st_total u + 1)))"
    unfolding U(5,6) B(1,2) R(4) [symmetric]
    using R(4,5) sort_rel_place(2) [OF rel] by (intro same_bytes_accessible [OF r R(3)]) simp_all
  ultimately show ?thesis
    using U(1,3,4) key_search.Search_lookup [OF ks U(2), where alloc = mps_touch and free = mps_Free]
    unfolding at by (intro exI [of _ u]) (auto simp: kv_hash_def split: option.splits)
qed

text \<open>
  C10: A sort table survives a restart: after a session with a new table, let a pool map the same bytes, anywhere
  and at least as far as before.  Then a new object of the class finds the table there from the offset of its header;
  its block is inside the new mapping, and \<open>Search\<close> and \<open>GetSize\<close> answer as the session's map does.
\<close>

theorem mapped_sort_reopen:
  assumes "key_search normal" "mapped_sort_ok s t (length ops)" "\<forall>op \<in> set ops. sort_op op"
  shows "\<exists>t1 ans t2. st_Init mps_touch t (Some s) begin_addr True = Some (True, t1) \<and>
    table_session (sort_step sorter normal mps_touch mps_Free) ops t1 = Some (ans, t2) \<and>
    (\<forall>r. same_bytes (st_pool t2) r \<longrightarrow>
      (let old_begin = mp_GetMMapDataBegin (snd (st_pool t2)); new_begin = mp_GetMMapDataBegin (snd r);
           f = snd (map_session kv_hash id ops Map.empty)
       in \<exists>u. st_Init mps_touch (sort_remapped r t2 old_begin new_begin) (Some r)
            (nat (int new_begin + st_GetTableEntryOffset t2 old_begin)) False = Some (True, u) \<and>
          mps_accessible r (st_header u) (nat (16 * (st_total u + 1))) \<and> st_GetUsedSize u = int (card (dom f)) \<and>
          (\<forall>kv. sort_op (OpSearch kv) \<longrightarrow>
            sort_step sorter normal mps_touch mps_Free (OpSearch kv) u = Some (fst (map_step kv_hash id (OpSearch kv) f), u))))"
  using new_sort_session [OF assms, of begin_addr sorter] sort_reopened [OF assms(1), where sorter = sorter] unfolding Let_def by meson

theorem mapped_sort_reopen_witness:
  "\<exists>t1 ans t2 u. st_Init mps_touch (SortTable_new demo_table_pool (\<lambda>_. sh_Init 0) (\<lambda>_. \<lparr>rec_key = 0, rec_value = 0\<rparr>))
      (Some demo_table_pool) 0 True = Some (True, t1) \<and>
    table_session (sort_step (List.sort_key kv_hash) (simd_search 2 3) mps_touch mps_Free) demo_ops t1 = Some (ans, t2) \<and>
    (let r = moved_pool (st_pool t2) 8192; old_begin = mp_GetMMapDataBegin (snd (st_pool t2)) in
      st_Init mps_touch (sort_remapped r t2 old_begin (mp_GetMMapDataBegin (snd r))) (Some r)
        (nat (int (mp_GetMMapDataBegin (snd r)) + st_GetTableEntryOffset t2 old_begin)) False = Some (True, u)) \<and>
    sort_step (List.sort_key kv_hash) (simd_search 2 3) mps_touch mps_Free (OpSearch (demo_kv [1] 0)) u =
      Some (Found True (demo_kv [1] 7), u)"
proof -
  let ?t = "SortTable_new demo_table_pool (\<lambda>_. sh_Init 0) (\<lambda>_. \<lparr>rec_key = 0, rec_value = 0\<rparr>)"
    and ?step = "sort_step (List.sort_key kv_hash) (simd_search 2 3) mps_touch mps_Free"
  have ok: "mapped_sort_ok demo_table_pool ?t (length demo_ops)" "\<forall>op \<in> set demo_ops. sort_op op"
    using demo_sort_session demo_ops_sort by (simp_all add: rec_Clear_def)
  note new_sort_session [OF simd.key_search_axioms ok, of 0 "List.sort_key kv_hash"]
    mapped_sort_reopen [OF simd.key_search_axioms ok, of 0 "List.sort_key kv_hash"]
  then obtain t1 t2 where T: "st_Init mps_touch ?t (Some demo_table_pool) 0 True = Some (True, t1)"
      "table_session ?step demo_ops t1 = Some (fst (map_session kv_hash id demo_ops Map.empty), t2)"
      "mps_good (st_pool t2)"
      "same_bytes (st_pool t2) (moved_pool (st_pool t2) 8192) \<Longrightarrow>
       (let old_begin = mp_GetMMapDataBegin (snd (st_pool t2)); new_begin = mp_GetMMapDataBegin (snd (moved_pool (st_pool t2) 8192))
        in \<exists>u. st_Init mps_touch (sort_remapped (moved_pool (st_pool t2) 8192) t2 old_begin new_begin) (Some (moved_pool (st_pool t2) 8192))
            (nat (int new_begin + st_GetTableEntryOffset t2 old_begin)) False = Some (True, u) \<and>
          (\<forall>kv. sort_op (OpSearch kv) \<longrightarrow> ?step (OpSearch kv) u =
            Some (fst (map_step kv_hash id (OpSearch kv) (snd (map_session kv_hash id demo_ops Map.empty))), u)))"
    unfolding Let_def by (fastforce simp: sort_rel_def mps_mapped_def mps_inside_def mps_fresh_def)
  have "same_bytes (st_pool t2) (moved_pool (st_pool t2) 8192)" by (rule moved_same_bytes [OF T(3)]) simp_all
  from T(4) [OF this] obtain u where U: "let r = moved_pool (st_pool t2) 8192; old_begin = mp_GetMMapDataBegin (snd (st_pool t2)) in
      st_Init mps_touch (sort_remapped r t2 old_begin (mp_GetMMapDataBegin (snd r))) (Some r)
        (nat (int (mp_GetMMapDataBegin (snd r)) + st_GetTableEntryOffset t2 old_begin)) False = Some (True, u)"
      "\<forall>kv. sort_op (OpSearch kv) \<longrightarrow> ?step (OpSearch kv) u =
        Some (fst (map_step kv_hash id (OpSearch kv) (snd (map_session kv_hash id demo_ops Map.empty))), u)"
    unfolding Let_def by blast
  have "sort_op (OpSearch (demo_kv [1] 0))" "(demo_kv [1] 0)\<lparr>kv_value := 7\<rparr> = demo_kv [1] 7"
    by (simp_all add: key_bytes_def demo_kv_def)
  then have "?step (OpSearch (demo_kv [1] 0)) u = Some (Found True (demo_kv [1] 7), u)"
    using U(2) demo_ops_sort by (simp del: sort_step.simps)
  then show ?thesis using T(1,2) U(1) by blast
qed

section \<open>An exclusive table that is not alone in its pool\<close>





end
