(* ===== verification/Field_Info.thy ===== *)
theory Field_Info
  imports String_Utils Prelude "HOL-Library.Char_ord" "HOL-Library.List_Lexorder"
begin

text \<open>
  The fields of a table and its indexes (kernel/manager/table_info/field_info.h, field_info.cc,
  index_info.h, index_info.cc): types and their sizes, fields by dotted name, the conversion of
  JSON values and of text to the bytes that are stored.  A \<open>std::map\<close> is the list of its
  entries in the order of the keys.  rapidjson is not part of the repository: what the code asks
  of a value is the record \<open>json_api\<close>.
\<close>

section \<open>Sorted maps\<close>

fun map_assign :: "'k :: linorder \<Rightarrow> 'v \<Rightarrow> ('k \<times> 'v) list \<Rightarrow> ('k \<times> 'v) list" where
  "map_assign k v [] = [(k, v)]"
| "map_assign k v ((k', v') # kvs) =
     (if k = k' then (k, v) # kvs
      else if k < k' then (k, v) # (k', v') # kvs
      else (k', v') # map_assign k v kvs)"

definition map_insert :: "'k :: linorder \<Rightarrow> 'v \<Rightarrow> ('k \<times> 'v) list \<Rightarrow> ('k \<times> 'v) list" where
  "map_insert k v kvs = (if map_of kvs k = None then map_assign k v kvs else kvs)"

lemma map_of_assign [simp]: "map_of (map_assign k v kvs) = (map_of kvs)(k \<mapsto> v)"
  by (induction kvs) (auto simp: fun_eq_iff)

lemma map_of_insert: "map_of (map_insert k v kvs) = (if map_of kvs k = None then (map_of kvs)(k \<mapsto> v) else map_of kvs)"
  by (simp add: map_insert_def)

lemma set_map_assign: "set (map_assign k v kvs) \<subseteq> insert (k, v) (set kvs)"
  by (induction kvs) (auto split: if_splits)

section \<open>Fields\<close>

datatype field_type = Int8 | Int16 | Int32 | Int64 | Float | Double | String | Tuple | Reference
  | UnigString | UnknownField

text \<open>Addresses of an index and of a table take the place of the two pointers; 0 is \<open>nullptr\<close>.\<close>

datatype field_info = Field_Info
  (fi_name: string)
  (fi_type: field_type)
  (fi_count: int)
  (fi_offset: int)
  (fi_size: int)
  (fi_element_size: int)
  (fi_index_info: nat)
  (fi_tuple_map: "(string \<times> field_info) list")
  (fi_clazz_name: string)
  (fi_related_field_name: string)
  (fi_related_table_name: string)
  (fi_related_table_info: nat)

text \<open>The constructors leave \<open>size\<close> and \<open>element_size\<close> as they find them.\<close>

definition FieldInfo_new :: "int \<Rightarrow> int \<Rightarrow> field_info" where
  "FieldInfo_new junk_size junk_element =
     Field_Info [] UnknownField 1 (-1) junk_size junk_element 0 [] [] [] [] 0"

definition FieldInfo_named :: "int \<Rightarrow> int \<Rightarrow> string \<Rightarrow> field_type \<Rightarrow> int \<Rightarrow> int \<Rightarrow> field_info" where
  "FieldInfo_named junk_size junk_element n t c off =
     Field_Info n t c off junk_size junk_element 0 [] [] [] [] 0"

fun fi_Clear :: "field_info \<Rightarrow> field_info" where
  "fi_Clear (Field_Info n t c off s e i m cl rf rt ri) = Field_Info [] UnknownField 1 (-1) s e i [] cl rf rt ri"

definition IsReference :: "field_info \<Rightarrow> bool" where "IsReference f \<longleftrightarrow> fi_type f = Reference"
definition IsRelated :: "field_info \<Rightarrow> bool" where "IsRelated f \<longleftrightarrow> fi_related_table_info f \<noteq> 0"
definition IsInverted :: "field_info \<Rightarrow> bool" where "IsInverted f \<longleftrightarrow> fi_index_info f \<noteq> 0"
definition IsSingle :: "field_info \<Rightarrow> bool" where "IsSingle f \<longleftrightarrow> fi_count f = 1"
definition IsMultiFix :: "field_info \<Rightarrow> bool" where "IsMultiFix f \<longleftrightarrow> fi_count f > 1"
definition IsFix :: "field_info \<Rightarrow> bool" where "IsFix f \<longleftrightarrow> IsSingle f \<or> IsMultiFix f"
definition IsMultiVar :: "field_info \<Rightarrow> bool" where "IsMultiVar f \<longleftrightarrow> fi_count f = 0"
definition IsMulti :: "field_info \<Rightarrow> bool" where "IsMulti f \<longleftrightarrow> IsMultiFix f \<or> IsMultiVar f"
definition IsUnknown :: "field_info \<Rightarrow> bool" where "IsUnknown f \<longleftrightarrow> fi_type f = UnknownField"

definition GetJniSignature :: "field_info \<Rightarrow> string option" where
  "GetJniSignature f =
     (let s = (\<lambda>one many. Some (if IsSingle f then one else many)) in
      case fi_type f of
        Int8 \<Rightarrow> s ''B'' ''[B''
      | Int16 \<Rightarrow> s ''S'' ''[S''
      | Int32 \<Rightarrow> s ''I'' ''[I''
      | Int64 \<Rightarrow> s ''J'' ''[J''
      | Float \<Rightarrow> s ''F'' ''[F''
      | Double \<Rightarrow> s ''D'' ''[D''
      | String \<Rightarrow> s ''Ljava/lang/String;'' ''Ljava/util/List;''
      | _ \<Rightarrow> None)"

text \<open>Sizes are of type \<open>int32_t\<close>.\<close>

definition int32 :: "int \<Rightarrow> int" where
  "int32 = signed_take_bit 31"

function (sequential) GetFieldElementSize :: "field_info \<Rightarrow> int"
  and GetFieldSize :: "field_info \<Rightarrow> int"
  and tuple_size :: "(string \<times> field_info) list \<Rightarrow> int \<Rightarrow> int" where
  "GetFieldElementSize (Field_Info n t c off s e i m cl rf rt ri) =
     (case t of
        Int8 \<Rightarrow> 1 | Int16 \<Rightarrow> 2 | Int32 \<Rightarrow> 4 | Int64 \<Rightarrow> 8 | Float \<Rightarrow> 4 | Double \<Rightarrow> 8
      | String \<Rightarrow> 8 | UnigString \<Rightarrow> 8
      | Tuple \<Rightarrow> tuple_size m 0
      | Reference \<Rightarrow> 0
      | UnknownField \<Rightarrow> -1)"
| "GetFieldSize f =
     (if IsMultiVar f then 8
      else let sz = GetFieldElementSize f in if 0 > sz then -1 else int32 (sz * fi_count f))"
| "tuple_size [] sz = sz"
| "tuple_size ((k, f) # fs) sz =
     (let local_size = GetFieldSize f in
      if local_size = -1 then -1 else tuple_size fs (int32 (sz + local_size)))"
  by pat_completeness auto
termination
  by (relation "measure (\<lambda>x. case x of Inl f \<Rightarrow> 2 * size f | Inr (Inl f) \<Rightarrow> 2 * size f + 1
    | Inr (Inr (fs, _)) \<Rightarrow> 2 * size_list (size_prod (\<lambda>_. 0) size) fs)") simp_all

declare GetFieldSize.simps [simp del]

definition GetFieldType :: "string \<Rightarrow> field_type" where
  "GetFieldType name =
     (if name = ''int8'' then Int8
      else if name = ''int16'' then Int16
      else if name = ''int32'' then Int32
      else if name = ''int64'' then Int64
      else if name = ''float'' then Float
      else if name = ''double'' then Double
      else if name = ''string'' then String
      else if name = ''unig_string'' then UnigString
      else if name = ''tuple'' then Tuple
      else UnknownField)"

section \<open>Fields by dotted name\<close>

text \<open>A pointer to a field is the path of keys to it.\<close>

fun field_at :: "string list \<Rightarrow> (string \<times> field_info) list \<Rightarrow> field_info option" where
  "field_at [] desc = None"
| "field_at [k] desc = map_of desc k"
| "field_at (k # ks) desc = (case map_of desc k of None \<Rightarrow> None | Some f \<Rightarrow> field_at ks (fi_tuple_map f))"

fun set_tuple_map :: "(string \<times> field_info) list \<Rightarrow> field_info \<Rightarrow> field_info" where
  "set_tuple_map m' (Field_Info n t c off s e i m cl rf rt ri) = Field_Info n t c off s e i m' cl rf rt ri"

fun field_update :: "string list \<Rightarrow> (field_info \<Rightarrow> field_info) \<Rightarrow> (string \<times> field_info) list \<Rightarrow> (string \<times> field_info) list" where
  "field_update [] g desc = desc"
| "field_update [k] g desc = map (\<lambda>(k', f). (k', if k' = k then g f else f)) desc"
| "field_update (k # ks) g desc =
     map (\<lambda>(k', f). (k', if k' = k then set_tuple_map (field_update ks g (fi_tuple_map f)) f else f)) desc"

text \<open>
  None is the call that goes wrong: a name without sections leaves the iterator at the end of
  the map, and its entry is taken all the same.  \<open>Some None\<close> is \<open>nullptr\<close>.
\<close>

definition GetFieldInfoByUnionName :: "string \<Rightarrow> (string \<times> field_info) list \<Rightarrow> string list option option" where
  "GetFieldInfoByUnionName name desc =
     (case Split_string name ''.'' True of
        None \<Rightarrow> None
      | Some [] \<Rightarrow> None
      | Some path \<Rightarrow> Some (case field_at path desc of None \<Rightarrow> None | Some f \<Rightarrow> Some path))"

section \<open>Conversion to stored bytes\<close>

record 'j json_api =
  js_IsArray :: "'j \<Rightarrow> bool"
  js_GetArray :: "'j \<Rightarrow> 'j list"
  js_IsInt :: "'j \<Rightarrow> bool"
  js_GetInt :: "'j \<Rightarrow> int"
  js_IsInt64 :: "'j \<Rightarrow> bool"
  js_GetInt64 :: "'j \<Rightarrow> int"
  js_IsFloat :: "'j \<Rightarrow> bool"
  js_GetFloat :: "'j \<Rightarrow> bytes"      \<comment> \<open>the 4 bytes of the float\<close>
  js_IsDouble :: "'j \<Rightarrow> bool"
  js_GetDouble :: "'j \<Rightarrow> bytes"     \<comment> \<open>the 8 bytes of the double\<close>
  js_IsString :: "'j \<Rightarrow> bool"
  js_GetString :: "'j \<Rightarrow> bytes"     \<comment> \<open>up to the terminating null character\<close>

definition int_bytes :: "nat \<Rightarrow> int \<Rightarrow> bytes" where
  "int_bytes n v = le_bytes n (nat (v mod 256 ^ n))"

definition ConvertJsonSingleFieldToString ::
  "'j json_api \<Rightarrow> field_info \<Rightarrow> 'j \<Rightarrow> bytes \<Rightarrow> bool \<times> bytes" where
  "ConvertJsonSingleFieldToString api f value res =
     (case fi_type f of
        Int8 \<Rightarrow> if js_IsInt api value then (True, res @ int_bytes 1 (js_GetInt api value)) else (False, res)
      | Int16 \<Rightarrow> if js_IsInt api value then (True, res @ int_bytes 2 (js_GetInt api value)) else (False, res)
      | Int32 \<Rightarrow> if js_IsInt api value then (True, res @ int_bytes 4 (js_GetInt api value)) else (False, res)
      | Int64 \<Rightarrow> if js_IsInt64 api value then (True, res @ int_bytes 8 (js_GetInt64 api value)) else (False, res)
      | Float \<Rightarrow> if js_IsFloat api value then (True, res @ js_GetFloat api value) else (False, res)
      | Double \<Rightarrow> if js_IsDouble api value then (True, res @ js_GetDouble api value) else (False, res)
      | String \<Rightarrow> if js_IsString api value then (True, res @ js_GetString api value) else (False, res)
      | UnigString \<Rightarrow> if js_IsString api value then (True, res @ js_GetString api value) else (False, res)
      | _ \<Rightarrow> (False, res))"

fun convert_json_values :: "'j json_api \<Rightarrow> field_info \<Rightarrow> 'j list \<Rightarrow> bytes \<Rightarrow> bool \<times> bytes" where
  "convert_json_values api f [] res = (True, res)"
| "convert_json_values api f (v # vs) res =
     (case ConvertJsonSingleFieldToString api f v res of
        (False, res') \<Rightarrow> (False, res')
      | (True, res') \<Rightarrow> convert_json_values api f vs res')"

definition ConvertJsonFieldToString :: "'j json_api \<Rightarrow> field_info \<Rightarrow> 'j \<Rightarrow> bool \<times> bytes" where
  "ConvertJsonFieldToString api f value =
     (let is_single = IsSingle f \<and> \<not> js_IsArray api value;
          is_multi_fix = IsMultiFix f \<and> js_IsArray api value \<and> int (length (js_GetArray api value)) = fi_count f;
          is_multi_var = IsMultiVar f \<and> js_IsArray api value
      in if is_single then ConvertJsonSingleFieldToString api f value []
         else if is_multi_fix \<or> is_multi_var then convert_json_values api f (js_GetArray api value) []
         else (False, []))"

definition is_space :: "char \<Rightarrow> bool" where
  "is_space c \<longleftrightarrow> c = CHR '' '' \<or> 9 \<le> (of_char c :: nat) \<and> (of_char c :: nat) \<le> 13"

text \<open>
  \<open>atol\<close>: blanks, a sign, digits up to the first other character; values outside of
  \<open>long\<close> are not defined in C and taken as they are.
\<close>

definition is_digit :: "char \<Rightarrow> bool" where
  "is_digit c \<longleftrightarrow> 48 \<le> (of_char c :: nat) \<and> (of_char c :: nat) \<le> 57"

definition digits_val :: "string \<Rightarrow> int" where
  "digits_val s = foldl (\<lambda>v c. 10 * v + (of_char c - 48)) 0 (takeWhile is_digit s)"

definition atol :: "string \<Rightarrow> int" where
  "atol s =
     (case dropWhile is_space s of
        [] \<Rightarrow> 0
      | c # cs \<Rightarrow> if c = CHR ''-'' then - digits_val cs else if c = CHR ''+'' then digits_val cs else digits_val (c # cs))"

definition string_bytes :: "string \<Rightarrow> bytes" where
  "string_bytes s = map of_char s"

text \<open>The bytes of a float and of a double read from text are arguments.\<close>

definition ConvertStoreFormat ::
  "(string \<Rightarrow> bytes) \<Rightarrow> (string \<Rightarrow> bytes) \<Rightarrow> field_info \<Rightarrow> string \<Rightarrow> bool \<times> bytes" where
  "ConvertStoreFormat float_of double_of f str_value =
     (case fi_type f of
        String \<Rightarrow> (True, string_bytes str_value)
      | UnigString \<Rightarrow> (True, string_bytes str_value)
      | Int8 \<Rightarrow> (True, int_bytes 1 (atol str_value))
      | Int16 \<Rightarrow> (True, int_bytes 2 (atol str_value))
      | Int32 \<Rightarrow> (True, int_bytes 4 (atol str_value))
      | Int64 \<Rightarrow> (True, int_bytes 8 (atol str_value))
      | Float \<Rightarrow> (True, float_of str_value)
      | Double \<Rightarrow> (True, double_of str_value)
      | _ \<Rightarrow> (False, []))"

section \<open>Indexes\<close>

record index_info =
  ii_name :: string
  ii_type :: string
  ii_field_info :: nat
  ii_secondary_type :: string
  ii_metric :: string
  ii_ncentroids :: int
  ii_bucket :: string
  ii_dimension :: int
  ii_threshold :: int
  ii_pq_code_num :: int
  ii_pq_nbits_per_code :: int
  ii_segment_level :: int
  ii_payload_info :: "(string \<times> field_info) list"
  ii_ef_construction :: int
  ii_ef_search :: int
  ii_nlinks :: int
  ii_is_faiss :: bool

definition IndexInfo_new :: "nat \<Rightarrow> bool \<Rightarrow> index_info" where
  "IndexInfo_new junk_field junk_faiss =
     \<lparr>ii_name = [], ii_type = [], ii_field_info = junk_field, ii_secondary_type = [], ii_metric = [],
      ii_ncentroids = -1, ii_bucket = [], ii_dimension = -1, ii_threshold = -1, ii_pq_code_num = -1,
      ii_pq_nbits_per_code = -1, ii_segment_level = -1, ii_payload_info = [], ii_ef_construction = 200,
      ii_ef_search = 32, ii_nlinks = 32, ii_is_faiss = junk_faiss\<rparr>"

fun payload_size :: "(string \<times> field_info) list \<Rightarrow> int \<Rightarrow> int" where
  "payload_size [] sz = sz"
| "payload_size ((k, f) # fs) sz =
     (let local_size = fi_size f in if local_size \<le> 0 then -1 else payload_size fs (int32 (sz + local_size)))"

definition GetPayloadSize :: "index_info \<Rightarrow> int" where
  "GetPayloadSize ii = payload_size (ii_payload_info ii) 0"

definition GetIndexSize :: "index_info \<Rightarrow> int" where
  "GetIndexSize ii = int32 (GetPayloadSize ii + 8)"

definition HasPayload :: "index_info \<Rightarrow> bool" where
  "HasPayload ii = (ii_payload_info ii = [])"

section \<open>Text to stored integers\<close>

text \<open>The decimal text of a number, as a reader of \<open>atol\<close> expects it.\<close>

fun show_nat :: "nat \<Rightarrow> string" where
  "show_nat n = (if n < 10 then [char_of (48 + n)] else show_nat (n div 10) @ [char_of (48 + n mod 10)])"

declare show_nat.simps [simp del]

definition show_int :: "int \<Rightarrow> string" where
  "show_int v = (if v < 0 then CHR ''-'' # show_nat (nat (- v)) else show_nat (nat v))"

lemma of_char_digit: "n < 10 \<Longrightarrow> (of_char (char_of (48 + n)) :: nat) = 48 + n"
  by simp

lemma show_nat_digits: "\<forall>c \<in> set (show_nat n). is_digit c"
proof (induction n rule: show_nat.induct)
  case (1 n)
  then show ?case by (subst show_nat.simps) (auto simp: is_digit_def)
qed

lemma digits_val_show: "digits_val (show_nat n) = int n"
proof -
  have "takeWhile is_digit (show_nat n) = show_nat n" for n
    using show_nat_digits by (simp add: takeWhile_eq_all_conv)
  moreover have "foldl (\<lambda>v c. 10 * v + (of_char c - 48)) 0 (show_nat n) = int n"
  proof (induction n rule: show_nat.induct)
    case (1 n)
    have "(of_char (char_of (48 + m)) :: int) = 48 + int m" if "m < 10" for m :: nat
    proof -
      have "(of_char (char_of (48 + m)) :: int) = int (of_char (char_of (48 + m)))"
        by (rule of_nat_of_char [symmetric])
      then show ?thesis unfolding of_char_digit [OF that] by simp
    qed
    moreover have "10 * (int n div 10) + int (n mod 10) = int n" by (simp add: zmod_int)
    ultimately show ?case using 1 by (subst show_nat.simps) (auto simp: zdiv_int)
  qed
  ultimately show ?thesis unfolding digits_val_def by (simp only:)
qed

lemma show_nat_hd: "\<exists>c cs. show_nat n = c # cs \<and> is_digit c"
  using show_nat_digits [of n] by (cases "show_nat n") (simp_all add: show_nat.simps [of n] split: if_splits)

lemma atol_show: "atol (show_int v) = v"
proof (cases "v < 0")
  case True
  then show ?thesis by (simp add: show_int_def atol_def is_space_def digits_val_show)
next
  case False
  obtain c cs where n: "show_nat (nat v) = c # cs" "is_digit c" using show_nat_hd by blast
  then have "\<not> is_space c" "c \<noteq> CHR ''-''" "c \<noteq> CHR ''+''" by (auto simp: is_digit_def is_space_def)
  then have "atol (show_int v) = digits_val (show_nat (nat v))"
    using False n(1) by (simp add: atol_def show_int_def)
  then show ?thesis using False digits_val_show by simp
qed

definition int_width :: "field_type \<Rightarrow> nat" where
  "int_width t = (case t of Int8 \<Rightarrow> 1 | Int16 \<Rightarrow> 2 | Int32 \<Rightarrow> 4 | Int64 \<Rightarrow> 8 | _ \<Rightarrow> 0)"

lemma int_bytes_value:
  assumes "0 < n" "- (2 ^ (8 * n - 1)) \<le> v" "v < 2 ^ (8 * n - 1)"
  shows "signed_take_bit (8 * n - 1) (int (le_val (int_bytes n v))) = v"
proof -
  have "(256 :: int) ^ n = 2 ^ (8 * n)" by (simp add: power_mult)
  then have p: "(256 :: int) ^ n = 2 ^ Suc (8 * n - 1)" using assms(1) by simp
  have "int (le_val (int_bytes n v)) = v mod 256 ^ n"
    by (simp add: int_bytes_def le_val_le_bytes zmod_int)
  also have "\<dots> = take_bit (Suc (8 * n - 1)) v" unfolding p by (simp only: take_bit_eq_mod)
  finally show ?thesis using assms(2,3) by (simp add: signed_take_bit_take_bit signed_take_bit_int_eq_self)
qed

text \<open>
  C21: \<open>ConvertStoreFormat\<close> of the decimal text of a number that fits the field's type stores the bytes
  that read back as that number, and as many bytes as the field's element has.
\<close>

theorem ConvertStoreFormat_int:
  assumes "fi_type f \<in> {Int8, Int16, Int32, Int64}"
    and "- (2 ^ (8 * int_width (fi_type f) - 1)) \<le> v" "v < 2 ^ (8 * int_width (fi_type f) - 1)"
  shows "\<exists>store. ConvertStoreFormat float_of double_of f (show_int v) = (True, store) \<and>
    int (length store) = GetFieldElementSize f \<and>
    signed_take_bit (8 * length store - 1) (int (le_val store)) = v"
proof -
  let ?n = "int_width (fi_type f)"
  have n: "0 < ?n" "int ?n = GetFieldElementSize f" using assms(1) by (cases f; auto simp: int_width_def)+
  have "ConvertStoreFormat float_of double_of f (show_int v) = (True, int_bytes ?n v)"
    using assms(1) by (auto simp: ConvertStoreFormat_def atol_show int_width_def)
  moreover have "length (int_bytes ?n v) = ?n" by (simp add: int_bytes_def)
  ultimately show ?thesis using int_bytes_value [OF n(1) assms(2,3)] n(2) by simp
qed

theorem ConvertStoreFormat_int_witness:
  "\<exists>store. ConvertStoreFormat (\<lambda>_. []) (\<lambda>_. []) (FieldInfo_named 0 0 ''n'' Int16 1 0) (show_int (-300)) = (True, store) \<and>
     signed_take_bit (8 * length store - 1) (int (le_val store)) = -300"
  using ConvertStoreFormat_int [of "FieldInfo_named 0 0 ''n'' Int16 1 0" "-300" "\<lambda>_. []" "\<lambda>_. []"]
  by (auto simp: FieldInfo_named_def int_width_def)

text \<open>
  An index with a part of its payload of size 0 or less has no payload size, but its
  own size is 7 instead of an error.
\<close>

theorem GetIndexSize_lost_error:
  assumes "\<exists>(k, f) \<in> set (ii_payload_info ii). fi_size f \<le> 0"
  shows "GetPayloadSize ii = -1 \<and> GetIndexSize ii = 7"
proof -
  have "payload_size fs sz = -1" if "\<exists>(k, f) \<in> set fs. fi_size f \<le> 0" for fs :: "(string \<times> field_info) list" and sz
    using that by (induction fs sz rule: payload_size.induct) (auto simp: Let_def)
  then have "GetPayloadSize ii = -1" using assms by (simp add: GetPayloadSize_def)
  then show ?thesis by (simp add: GetIndexSize_def int32_def signed_take_bit_int_eq_self)
qed

theorem GetIndexSize_lost_error_witness:
  "GetIndexSize ((IndexInfo_new 0 False)\<lparr>ii_payload_info := [(''p'', FieldInfo_named (-1) 0 ''p'' UnknownField 1 0)]\<rparr>) = 7"
  using GetIndexSize_lost_error [of "(IndexInfo_new 0 False)\<lparr>ii_payload_info := [(''p'', FieldInfo_named (-1) 0 ''p'' UnknownField 1 0)]\<rparr>"]
  by (simp add: FieldInfo_named_def)

end
