(* ===== verification/Table_Info.thy ===== *)
theory Table_Info
  imports Field_Info
begin

text \<open>
  The description of a table (kernel/manager/table_info/table_info.h, table_info.cc and the four
  kinds of table beside it, table_info_factory.cc): its configuration and the layout of its
  fields, read from a JSON object, from an XML element or from the messages of a protobuf file.
  The three libraries are not part of the repository: a JSON object and an XML element are
  functions from names to strings, and the messages that the importer finds are data.
  None is a call that faults.
\<close>

section \<open>Tables\<close>

datatype table_type = KKV | KV | STRUCTURE | VIEW | Unknown

text \<open>What the code reads of a protobuf field and of a message.\<close>

datatype cpp_type = CPPTYPE_MESSAGE | CPPTYPE_INT32 | CPPTYPE_INT64 | CPPTYPE_DOUBLE | CPPTYPE_FLOAT
  | CPPTYPE_STRING | CPPTYPE_OTHER

datatype proto_field = Proto_Field
  (pf_name: string)
  (pf_number: int)
  (pf_repeated: bool)
  (pf_cpp_type: cpp_type)
  (pf_message: "proto_field list")
  (pf_count: int)
  (pf_related_table: string)
  (pf_related_key: string)
  (pf_extend_type: string)
  (pf_extend_flag: string)

record proto_message =
  pm_full_name :: string
  pm_table_name :: string
  pm_fields :: "proto_field list"

record table_info =
  ti_name :: string
  ti_clazz_name :: string
  ti_type :: table_type
  ti_table_config :: "(string \<times> string) list"
  ti_field_desc :: "(string \<times> field_info) list"
  ti_related_field_map :: "(string \<times> string list) list"
  ti_faiss_index_set :: "string list"
  ti_descriptor :: "proto_message list"

definition kStructureTableKeyXmlStr :: string where "kStructureTableKeyXmlStr = ''key''"
definition kKvTableKeyXmlStr :: string where "kKvTableKeyXmlStr = ''key''"
definition kKvTableValueXmlStr :: string where "kKvTableValueXmlStr = ''value''"
definition kKkvTablePkeyXmlStr :: string where "kKkvTablePkeyXmlStr = ''pkey''"
definition kKkvTableSkeyXmlStr :: string where "kKkvTableSkeyXmlStr = ''skey''"
definition kKkvTableValueXmlStr :: string where "kKkvTableValueXmlStr = ''value''"
definition kTableNameXmlStr :: string where "kTableNameXmlStr = ''name''"
definition kTableTypeXmlStr :: string where "kTableTypeXmlStr = ''type''"
definition kTableClazzNameXmlStr :: string where "kTableClazzNameXmlStr = ''clazz''"
definition kProtoFile :: string where "kProtoFile = ''proto_file''"
definition kTableNameJsonStr :: string where "kTableNameJsonStr = ''table_name''"

definition TableInfo_new :: "table_info" where
  "TableInfo_new =
     \<lparr>ti_name = [], ti_clazz_name = [], ti_type = Unknown, ti_table_config = [], ti_field_desc = [],
      ti_related_field_map = [],
      ti_faiss_index_set = [''IndexIVFFlat'', ''IndexPQ'', ''IndexFaissHnsw'', ''IndexHnswLib''],
      ti_descriptor = []\<rparr>"

section \<open>Fields of a protobuf message\<close>

text \<open>
  Fields numbered above 10000 are skipped.  The size of a message field is summed up in
  \<open>tmp_total_size\<close> for the offsets of its parts; its own size is computed anew from the map.
\<close>

definition set_name_count_type :: "string \<Rightarrow> int \<Rightarrow> field_type \<Rightarrow> (string \<times> field_info) list \<Rightarrow> field_info \<Rightarrow> field_info" where
  "set_name_count_type n c t m f =
     Field_Info n t c (fi_offset f) (fi_size f) (fi_element_size f) (fi_index_info f) m (fi_clazz_name f)
       (fi_related_field_name f) (fi_related_table_name f) (fi_related_table_info f)"

fun set_sizes :: "field_info \<Rightarrow> field_info" where
  "set_sizes (Field_Info n t c off s e i m cl rf rt ri) =
     Field_Info n t c off (GetFieldSize (Field_Info n t c off s e i m cl rf rt ri))
       (GetFieldElementSize (Field_Info n t c off s e i m cl rf rt ri)) i m cl rf rt ri"

fun set_offset :: "int \<Rightarrow> field_info \<Rightarrow> field_info" where
  "set_offset off' (Field_Info n t c off s e i m cl rf rt ri) = Field_Info n t c off' s e i m cl rf rt ri"

fun set_clazz :: "string \<Rightarrow> field_info \<Rightarrow> field_info" where
  "set_clazz cl' (Field_Info n t c off s e i m cl rf rt ri) = Field_Info n t c off s e i m cl' rf rt ri"

definition proto_count :: "proto_field \<Rightarrow> int" where
  "proto_count p = (if pf_count p > 0 then pf_count p else if pf_repeated p then 0 else 1)"

definition proto_type :: "proto_field \<Rightarrow> field_type" where
  "proto_type p =
     (case pf_cpp_type p of
        CPPTYPE_MESSAGE \<Rightarrow> GetFieldType ''tuple''
      | CPPTYPE_INT32 \<Rightarrow> if pf_extend_type p \<noteq> [] then GetFieldType (pf_extend_type p) else GetFieldType ''int32''
      | CPPTYPE_INT64 \<Rightarrow> if pf_extend_type p \<noteq> [] then GetFieldType (pf_extend_type p) else GetFieldType ''int64''
      | CPPTYPE_DOUBLE \<Rightarrow> GetFieldType ''double''
      | CPPTYPE_FLOAT \<Rightarrow> GetFieldType ''float''
      | CPPTYPE_STRING \<Rightarrow> if pf_extend_flag p = ''uniq_string'' then GetFieldType ''uniq_string'' else GetFieldType ''string''
      | CPPTYPE_OTHER \<Rightarrow> UnknownField)"

function (sequential) ParseFieldDesc :: "(int \<times> int) \<Rightarrow> proto_field \<Rightarrow> field_info \<Rightarrow> field_info"
  and parse_sub_fields :: "(int \<times> int) \<Rightarrow> proto_field list \<Rightarrow> (string \<times> field_info) list \<Rightarrow> int \<Rightarrow> (string \<times> field_info) list" where
  "ParseFieldDesc junk p f =
     set_sizes (set_name_count_type (pf_name p) (proto_count p) (proto_type p)
       (if pf_cpp_type p = CPPTYPE_MESSAGE then parse_sub_fields junk (pf_message p) (fi_tuple_map f) 0 else fi_tuple_map f) f)"
| "parse_sub_fields junk [] m tmp_total_size = m"
| "parse_sub_fields junk (p # ps) m tmp_total_size =
     (if pf_number p > 10000 then parse_sub_fields junk ps m tmp_total_size
      else
        let sub = set_offset tmp_total_size (ParseFieldDesc junk p (FieldInfo_new (fst junk) (snd junk)))
        in parse_sub_fields junk ps (map_assign (fi_name sub) sub m) (int32 (tmp_total_size + fi_size sub)))"
  by pat_completeness auto
termination
proof (relation "measure (\<lambda>x. case x of Inl (_, p, _) \<Rightarrow> 2 * size p | Inr (_, ps, _) \<Rightarrow> 2 * size_list size ps + 1)", goal_cases)
  case (2 junk p f)
  then show ?case by (cases p) simp
qed auto

section \<open>The base class\<close>

text \<open>The fields of one message, in order; a related field updates the field it is related to.\<close>

fun parse_message_fields ::
  "(int \<times> int) \<Rightarrow> string \<Rightarrow> proto_field list \<Rightarrow> int \<Rightarrow> table_info \<Rightarrow> (bool \<times> table_info) option" where
  "parse_message_fields junk clazz [] total_size t = Some (True, t)"
| "parse_message_fields junk clazz (p # ps) total_size t =
     (if pf_number p > 10000 then parse_message_fields junk clazz ps total_size t
      else if pf_related_table p \<noteq> [] \<and> pf_related_key p \<noteq> [] then
        (case GetFieldInfoByUnionName (pf_related_key p) (ti_field_desc t) of
           None \<Rightarrow> None
         | Some None \<Rightarrow> parse_message_fields junk clazz ps total_size t
         | Some (Some path) \<Rightarrow>
             parse_message_fields junk clazz ps total_size
               (t\<lparr>ti_field_desc := field_update path
                    (\<lambda>f. Field_Info (fi_name f) (fi_type f) 1 (fi_offset f) (fi_size f) (fi_element_size f)
                       (fi_index_info f) (fi_tuple_map f) (fi_clazz_name f) (fi_related_field_name f)
                       (pf_related_table p) (fi_related_table_info f)) (ti_field_desc t),
                  ti_related_field_map := map_assign (pf_related_table p) path (ti_related_field_map t)\<rparr>))
      else
        let f = ParseFieldDesc junk p
                  (set_offset total_size (set_clazz clazz (FieldInfo_new (fst junk) (snd junk))))
        in if fi_size f = -1 then Some (False, t)
           else parse_message_fields junk clazz ps (int32 (total_size + fi_size f))
                  (t\<lparr>ti_field_desc := map_insert (pf_name p) f (ti_field_desc t)\<rparr>))"

fun parse_messages :: "(int \<times> int) \<Rightarrow> proto_message list \<Rightarrow> table_info \<Rightarrow> (bool \<times> table_info) option" where
  "parse_messages junk [] t = Some (True, t)"
| "parse_messages junk (d # ds) t =
     (case parse_message_fields junk (pm_full_name d) (pm_fields d) 0 t of
        None \<Rightarrow> None
      | Some (False, t') \<Rightarrow> Some (False, t')
      | Some (True, t') \<Rightarrow> parse_messages junk ds t')"

text \<open>\<open>import name path file\<close> is the importer's answer: the messages of the file, or None.\<close>

definition split_path :: "string \<Rightarrow> string \<times> string" where
  "split_path s =
     (let fname = rev (takeWhile (\<lambda>c. c \<noteq> CHR ''/'') (rev s)) in (take (length s - length fname) s, fname))"

definition ti_ParseTableConfig ::
  "(string \<Rightarrow> string \<Rightarrow> string \<Rightarrow> proto_message list option) \<Rightarrow> (int \<times> int) \<Rightarrow> table_info \<Rightarrow>
   (string \<Rightarrow> string option) \<Rightarrow> (bool \<times> table_info) option" where
  "ti_ParseTableConfig import junk t json =
     (case json ''key'' of
        None \<Rightarrow> None
      | Some key \<Rightarrow>
          let t1 = t\<lparr>ti_table_config := map_assign kStructureTableKeyXmlStr key (ti_table_config t)\<rparr> in
          (case json kProtoFile of
             None \<Rightarrow> Some (False, t1)
           | Some proto_file \<Rightarrow>
               (case json kTableNameJsonStr of
                  None \<Rightarrow> None
                | Some name \<Rightarrow>
                    (case import name (fst (split_path proto_file)) (snd (split_path proto_file)) of
                       None \<Rightarrow> Some (False, t1)
                     | Some messages \<Rightarrow>
                         let ds = ti_descriptor t1 @ filter (\<lambda>d. pm_table_name d \<noteq> []) messages
                         in parse_messages junk ds (t1\<lparr>ti_descriptor := ds\<rparr>)))))"

text \<open>On an XML element the base class does nothing.\<close>

definition ti_ParseTableConfig_xml :: "table_info \<Rightarrow> (string \<Rightarrow> string option) \<Rightarrow> bool \<times> table_info" where
  "ti_ParseTableConfig_xml t xml = (True, t)"

section \<open>The kinds of table\<close>

text \<open>
  The classes call a \<open>ParseFieldDesc\<close> of the base class on the XML descriptor that the
  repository does not define; it is the argument \<open>base\<close>.
\<close>

definition KvTableInfo_new :: table_info where
  "KvTableInfo_new = TableInfo_new\<lparr>ti_type := KV\<rparr>"

definition ParseKvTableConfig :: "table_info \<Rightarrow> (string \<Rightarrow> string option) \<Rightarrow> bool \<times> table_info" where
  "ParseKvTableConfig t xml =
     (case xml kKvTableKeyXmlStr of
        None \<Rightarrow> (False, t)
      | Some key \<Rightarrow>
          let t1 = t\<lparr>ti_table_config := map_insert kKvTableKeyXmlStr key (ti_table_config t)\<rparr> in
          (case xml kKvTableValueXmlStr of
             None \<Rightarrow> (False, t1)
           | Some value \<Rightarrow>
               (True, t1\<lparr>ti_table_config := map_insert kKvTableValueXmlStr value (ti_table_config t1)\<rparr>)))"

definition kv_ParseTableConfig :: "table_info \<Rightarrow> (string \<Rightarrow> string option) \<Rightarrow> bool \<times> table_info" where
  "kv_ParseTableConfig t xml =
     (case ti_ParseTableConfig_xml t xml of
        (False, t') \<Rightarrow> (False, t') | (True, t') \<Rightarrow> ParseKvTableConfig t' xml)"

definition CheckKvFieldDesc :: "table_info \<Rightarrow> bool option" where
  "CheckKvFieldDesc t =
     (case (map_of (ti_table_config t) kKvTableKeyXmlStr, map_of (ti_table_config t) kKvTableValueXmlStr) of
        (Some key, Some value) \<Rightarrow>
          if map_of (ti_field_desc t) key = None then Some False
          else if map_of (ti_field_desc t) value = None then Some False
          else Some True
      | _ \<Rightarrow> None)"

definition kv_ParseFieldDesc ::
  "(table_info \<Rightarrow> 'x \<Rightarrow> bool \<times> table_info) \<Rightarrow> table_info \<Rightarrow> 'x \<Rightarrow> (bool \<times> table_info) option" where
  "kv_ParseFieldDesc base t xml =
     (case base t xml of
        (False, t') \<Rightarrow> Some (False, t')
      | (True, t') \<Rightarrow> map_option (\<lambda>ok. (ok, t')) (CheckKvFieldDesc t'))"

definition KkvTableInfo_new :: table_info where
  "KkvTableInfo_new = TableInfo_new\<lparr>ti_type := KKV\<rparr>"

definition ParseKkvTableConfig :: "table_info \<Rightarrow> (string \<Rightarrow> string option) \<Rightarrow> bool \<times> table_info" where
  "ParseKkvTableConfig t xml =
     (case xml kKkvTablePkeyXmlStr of
        None \<Rightarrow> (False, t)
      | Some pkey \<Rightarrow>
          let t1 = t\<lparr>ti_table_config := map_insert kKkvTablePkeyXmlStr pkey (ti_table_config t)\<rparr> in
          (case xml kKkvTableSkeyXmlStr of
             None \<Rightarrow> (False, t1)
           | Some skey \<Rightarrow>
               let t2 = t1\<lparr>ti_table_config := map_insert kKkvTableSkeyXmlStr skey (ti_table_config t1)\<rparr> in
               (case xml kKkvTableValueXmlStr of
                  None \<Rightarrow> (False, t2)
                | Some value \<Rightarrow>
                    (True, t2\<lparr>ti_table_config := map_insert kKkvTableValueXmlStr value (ti_table_config t2)\<rparr>))))"

definition kkv_ParseTableConfig :: "table_info \<Rightarrow> (string \<Rightarrow> string option) \<Rightarrow> bool \<times> table_info" where
  "kkv_ParseTableConfig t xml =
     (case ti_ParseTableConfig_xml t xml of
        (False, t') \<Rightarrow> (False, t') | (True, t') \<Rightarrow> ParseKkvTableConfig t' xml)"

definition CheckKkvFieldDesc :: "table_info \<Rightarrow> bool option" where
  "CheckKkvFieldDesc t =
     (case (map_of (ti_table_config t) kKkvTablePkeyXmlStr, map_of (ti_table_config t) kKkvTableSkeyXmlStr,
            map_of (ti_table_config t) kKkvTableValueXmlStr) of
        (Some pkey, Some skey, Some value) \<Rightarrow>
          if map_of (ti_field_desc t) pkey = None then Some False
          else if map_of (ti_field_desc t) skey = None then Some False
          else if map_of (ti_field_desc t) value = None then Some False
          else Some True
      | _ \<Rightarrow> None)"

definition kkv_ParseFieldDesc ::
  "(table_info \<Rightarrow> 'x \<Rightarrow> bool \<times> table_info) \<Rightarrow> table_info \<Rightarrow> 'x \<Rightarrow> (bool \<times> table_info) option" where
  "kkv_ParseFieldDesc base t xml =
     (case base t xml of
        (False, t') \<Rightarrow> Some (False, t')
      | (True, t') \<Rightarrow> map_option (\<lambda>ok. (ok, t')) (CheckKkvFieldDesc t'))"

definition StructureTableInfo_new :: table_info where
  "StructureTableInfo_new = TableInfo_new\<lparr>ti_type := STRUCTURE\<rparr>"

definition CheckStructureFieldDesc :: "table_info \<Rightarrow> bool option" where
  "CheckStructureFieldDesc t =
     (case map_of (ti_table_config t) kStructureTableKeyXmlStr of
        None \<Rightarrow> None
      | Some key \<Rightarrow> Some (map_of (ti_field_desc t) key \<noteq> None))"

definition structure_ParseTableConfig ::
  "(string \<Rightarrow> string \<Rightarrow> string \<Rightarrow> proto_message list option) \<Rightarrow> (int \<times> int) \<Rightarrow> table_info \<Rightarrow>
   (string \<Rightarrow> string option) \<Rightarrow> (bool \<times> table_info) option" where
  "structure_ParseTableConfig import junk t json =
     (case ti_ParseTableConfig import junk t json of
        None \<Rightarrow> None
      | Some (False, t1) \<Rightarrow> Some (False, t1)
      | Some (True, t1) \<Rightarrow>
          let t2 = (case json kStructureTableKeyXmlStr of
                      None \<Rightarrow> t1
                    | Some key \<Rightarrow> t1\<lparr>ti_table_config := map_assign kStructureTableKeyXmlStr key (ti_table_config t1)\<rparr>)
          in (case map_of (ti_table_config t2) kStructureTableKeyXmlStr of
                None \<Rightarrow> None
              | Some key \<Rightarrow> Some (map_of (ti_field_desc t2) key \<noteq> None, t2)))"

definition ParseStructureTableConfig :: "table_info \<Rightarrow> (string \<Rightarrow> string option) \<Rightarrow> bool \<times> table_info" where
  "ParseStructureTableConfig t xml =
     (case xml kStructureTableKeyXmlStr of
        None \<Rightarrow> (False, t)
      | Some key \<Rightarrow> (True, t\<lparr>ti_table_config := map_assign kStructureTableKeyXmlStr key (ti_table_config t)\<rparr>))"

definition structure_ParseTableConfig_xml :: "table_info \<Rightarrow> (string \<Rightarrow> string option) \<Rightarrow> bool \<times> table_info" where
  "structure_ParseTableConfig_xml t xml =
     (case ti_ParseTableConfig_xml t xml of
        (False, t') \<Rightarrow> (False, t') | (True, t') \<Rightarrow> ParseStructureTableConfig t' xml)"

definition structure_ParseFieldDesc ::
  "(table_info \<Rightarrow> 'x \<Rightarrow> bool \<times> table_info) \<Rightarrow> table_info \<Rightarrow> 'x \<Rightarrow> (bool \<times> table_info) option" where
  "structure_ParseFieldDesc base t xml =
     (case base t xml of
        (False, t') \<Rightarrow> Some (False, t')
      | (True, t') \<Rightarrow> map_option (\<lambda>ok. (ok, t')) (CheckStructureFieldDesc t'))"

definition ViewTableInfo_new :: table_info where
  "ViewTableInfo_new = TableInfo_new\<lparr>ti_type := VIEW\<rparr>"

section \<open>The factory\<close>

text \<open>\<open>Some None\<close> is \<open>nullptr\<close>; a JSON object without a table name faults.\<close>

definition new_table_of_type :: "string \<Rightarrow> table_info option" where
  "new_table_of_type table_type =
     (if table_type = ''kkv'' then Some KkvTableInfo_new
      else if table_type = ''kv'' then Some KvTableInfo_new
      else if table_type = ''structure'' then Some StructureTableInfo_new
      else if table_type = ''view'' then Some ViewTableInfo_new
      else None)"

definition named_table :: "string \<Rightarrow> string \<Rightarrow> table_info \<Rightarrow> table_info" where
  "named_table name table_type t =
     t\<lparr>ti_table_config := map_assign kTableTypeXmlStr table_type (map_assign kTableNameXmlStr name (ti_table_config t)),
       ti_name := name\<rparr>"

definition CreateTableInfo_json :: "(string \<Rightarrow> string option) \<Rightarrow> table_info option option" where
  "CreateTableInfo_json json =
     (case json ''table_name'' of
        None \<Rightarrow> None
      | Some name \<Rightarrow>
          let table_type = (case json ''table_type'' of
                None \<Rightarrow> ''structure'' | Some s \<Rightarrow> if s = [] then ''structure'' else s)
          in Some (case new_table_of_type table_type of
               None \<Rightarrow> None
             | Some t \<Rightarrow>
                 let t1 = named_table name table_type t
                 in Some (case json ''clazz'' of None \<Rightarrow> t1 | Some clazz \<Rightarrow> t1\<lparr>ti_clazz_name := clazz\<rparr>)))"

definition CreateTableInfo_xml :: "(string \<Rightarrow> string option) \<Rightarrow> table_info option" where
  "CreateTableInfo_xml xml =
     (case xml kTableNameXmlStr of
        None \<Rightarrow> None
      | Some name \<Rightarrow>
          (case xml kTableTypeXmlStr of
             None \<Rightarrow> None
           | Some table_type \<Rightarrow>
               (case new_table_of_type table_type of
                  None \<Rightarrow> None
                | Some t \<Rightarrow>
                    let t1 = named_table name table_type t
                    in Some (case xml kTableClazzNameXmlStr of
                         None \<Rightarrow> t1
                       | Some clazz \<Rightarrow>
                           t1\<lparr>ti_clazz_name := map (\<lambda>c. if c = CHR ''.'' then CHR ''/'' else c) clazz\<rparr>))))"

end
