(* ===== verification/Table_Layout.thy ===== *)
theory Table_Layout
  imports Table_Info
begin

text \<open>
  The layout that \<open>ParseFieldDesc\<close> and \<open>ParseTableConfig\<close> give to fields: ranges that do not overlap,
  within the size of what they are part of; and the checks of the kinds of table.
\<close>

section \<open>Sizes do not depend on where a field is\<close>

lemma GetFieldElementSize_cong:
  "fi_type f = fi_type g \<Longrightarrow> fi_tuple_map f = fi_tuple_map g \<Longrightarrow> GetFieldElementSize f = GetFieldElementSize g"
  by (cases f; cases g) simp

lemma GetFieldSize_cong:
  "fi_type f = fi_type g \<Longrightarrow> fi_tuple_map f = fi_tuple_map g \<Longrightarrow> fi_count f = fi_count g \<Longrightarrow>
   GetFieldSize f = GetFieldSize g"
  using GetFieldElementSize_cong [of f g] by (simp add: GetFieldSize.simps IsMultiVar_def Let_def)

lemma set_simps [simp]:
  "fi_name (set_offset d f) = fi_name f" "fi_type (set_offset d f) = fi_type f" "fi_count (set_offset d f) = fi_count f"
  "fi_offset (set_offset d f) = d" "fi_size (set_offset d f) = fi_size f" "fi_tuple_map (set_offset d f) = fi_tuple_map f"
  "fi_name (set_sizes f) = fi_name f" "fi_type (set_sizes f) = fi_type f" "fi_count (set_sizes f) = fi_count f"
  "fi_offset (set_sizes f) = fi_offset f" "fi_tuple_map (set_sizes f) = fi_tuple_map f"
  "fi_size (set_sizes f) = GetFieldSize f" "fi_element_size (set_sizes f) = GetFieldElementSize f"
  "fi_name (set_clazz s f) = fi_name f" "fi_offset (set_clazz s f) = fi_offset f" "fi_tuple_map (set_clazz s f) = fi_tuple_map f"
  by (cases f; simp)+

lemma sizes_set_sizes [simp]:
  "GetFieldSize (set_sizes f) = GetFieldSize f" "GetFieldElementSize (set_sizes f) = GetFieldElementSize f"
  by (rule GetFieldSize_cong GetFieldElementSize_cong; simp)+

lemma set_name_count_type_simps [simp]:
  "fi_name (set_name_count_type n c t m f) = n" "fi_type (set_name_count_type n c t m f) = t"
  "fi_count (set_name_count_type n c t m f) = c" "fi_tuple_map (set_name_count_type n c t m f) = m"
  "fi_offset (set_name_count_type n c t m f) = fi_offset f"
  by (simp_all add: set_name_count_type_def)

lemma FieldInfo_new_simps [simp]: "fi_tuple_map (FieldInfo_new a b) = []"
  by (simp add: FieldInfo_new_def)

text \<open>The field that a protobuf field becomes, and its size, which is the same wherever it is put.\<close>

definition parsed :: "int \<times> int \<Rightarrow> proto_field \<Rightarrow> field_info" where
  "parsed junk p = ParseFieldDesc junk p (FieldInfo_new (fst junk) (snd junk))"

lemma ParseFieldDesc_simps [simp]:
  "fi_name (ParseFieldDesc junk p f) = pf_name p" "fi_offset (ParseFieldDesc junk p f) = fi_offset f"
  "fi_type (ParseFieldDesc junk p f) = proto_type p" "fi_count (ParseFieldDesc junk p f) = proto_count p"
  "fi_tuple_map (ParseFieldDesc junk p f) =
     (if pf_cpp_type p = CPPTYPE_MESSAGE then parse_sub_fields junk (pf_message p) (fi_tuple_map f) 0 else fi_tuple_map f)"
  unfolding ParseFieldDesc.simps by simp_all

lemma fi_size_ParseFieldDesc: "fi_size (ParseFieldDesc junk p f) = GetFieldSize (ParseFieldDesc junk p f)"
  unfolding ParseFieldDesc.simps by (simp only: set_simps sizes_set_sizes)

lemma fi_element_size_ParseFieldDesc:
  "fi_element_size (ParseFieldDesc junk p f) = GetFieldElementSize (ParseFieldDesc junk p f)"
  unfolding ParseFieldDesc.simps by (simp only: set_simps sizes_set_sizes)

declare ParseFieldDesc.simps [simp del]

lemma ParseFieldDesc_size:
  assumes "fi_tuple_map f = []"
  shows "fi_size (ParseFieldDesc junk p f) = fi_size (parsed junk p)"
  unfolding fi_size_ParseFieldDesc parsed_def by (rule GetFieldSize_cong) (simp_all add: assms)

section \<open>Ranges that do not overlap\<close>

definition apart :: "(string \<times> field_info) list \<Rightarrow> int \<Rightarrow> bool" where
  "apart m n \<longleftrightarrow>
     (\<forall>k f. map_of m k = Some f \<longrightarrow> 0 \<le> fi_offset f \<and> 0 \<le> fi_size f \<and> fi_offset f + fi_size f \<le> n) \<and>
     (\<forall>k k' f f'. map_of m k = Some f \<longrightarrow> map_of m k' = Some f' \<longrightarrow> k \<noteq> k' \<longrightarrow>
        fi_offset f + fi_size f \<le> fi_offset f' \<or> fi_offset f' + fi_size f' \<le> fi_offset f)"

lemma apart_Nil [simp]: "apart [] n"
  by (simp add: apart_def)

lemma apart_mono: "apart m n \<Longrightarrow> n \<le> n' \<Longrightarrow> apart m n'"
  unfolding apart_def by (meson order_trans)

lemma apart_assign:
  assumes "apart m n" "fi_offset f = n" "0 \<le> fi_size f" "0 \<le> n"
  shows "apart (map_assign k f m) (n + fi_size f)"
proof -
  have old: "0 \<le> fi_offset g \<and> 0 \<le> fi_size g \<and> fi_offset g + fi_size g \<le> n" if "map_of m k' = Some g" for k' g
    using assms(1) that unfolding apart_def by blast
  have pair: "fi_offset g + fi_size g \<le> fi_offset h \<or> fi_offset h + fi_size h \<le> fi_offset g"
    if "map_of m k1 = Some g" "map_of m k2 = Some h" "k1 \<noteq> k2" for k1 k2 g h
    using assms(1) that unfolding apart_def by blast
  have "0 \<le> fi_offset g \<and> 0 \<le> fi_size g \<and> fi_offset g + fi_size g \<le> n + fi_size f"
    if "map_of (map_assign k f m) k' = Some g" for k' g
    using that old [of k' g] assms(2-4) by (auto split: if_splits)
  moreover have "fi_offset g + fi_size g \<le> fi_offset h \<or> fi_offset h + fi_size h \<le> fi_offset g"
    if "map_of (map_assign k f m) k1 = Some g" "map_of (map_assign k f m) k2 = Some h" "k1 \<noteq> k2" for k1 k2 g h
    using that pair [of k1 g k2 h] old [of k1 g] old [of k2 h] assms(2) by (auto split: if_splits)
  ultimately show ?thesis unfolding apart_def by blast
qed

lemma apart_insert:
  assumes "apart m n" "fi_offset f = n" "0 \<le> fi_size f" "0 \<le> n"
  shows "apart (map_insert k f m) (n + fi_size f)"
  using apart_assign [OF assms] apart_mono [OF assms(1)] assms(3) by (simp add: map_insert_def)

section \<open>The parts of a message field\<close>

definition part_sizes :: "int \<times> int \<Rightarrow> proto_field list \<Rightarrow> int list" where
  "part_sizes junk ps = map (\<lambda>p. fi_size (parsed junk p)) (filter (\<lambda>p. pf_number p \<le> 10000) ps)"

definition part_names :: "proto_field list \<Rightarrow> string list" where
  "part_names ps = map pf_name (filter (\<lambda>p. pf_number p \<le> 10000) ps)"

definition map_total :: "(string \<times> field_info) list \<Rightarrow> int" where
  "map_total m = sum_list (map (\<lambda>(k, f). fi_size f) m)"

lemma map_total_assign: "map_of m k = None \<Longrightarrow> map_total (map_assign k f m) = map_total m + fi_size f"
  by (induction m) (auto simp: map_total_def split: if_splits)

lemma int32_id: "0 \<le> v \<Longrightarrow> v < 2 ^ 31 \<Longrightarrow> int32 v = v"
  unfolding int32_def by (rule signed_take_bit_int_eq_self) simp_all

lemma sum_list_nonneg': "(\<forall>s \<in> set (xs :: int list). 0 \<le> s) \<Longrightarrow> 0 \<le> sum_list xs"
  by (induction xs) auto

definition sizes_kept :: "(string \<times> field_info) list \<Rightarrow> bool" where
  "sizes_kept m \<longleftrightarrow> (\<forall>(k, f) \<in> set m. GetFieldSize f = fi_size f \<and> 0 \<le> fi_size f)"

lemma tuple_size_total:
  assumes "sizes_kept m" "0 \<le> n" "n + map_total m < 2 ^ 31"
  shows "tuple_size m n = n + map_total m"
  using assms
proof (induction m arbitrary: n)
  case Nil
  then show ?case by (simp add: map_total_def)
next
  case (Cons kf m)
  obtain k f where kf: "kf = (k, f)" by fastforce
  have m: "sizes_kept m" "GetFieldSize f = fi_size f" "0 \<le> fi_size f" using Cons.prems(1) by (auto simp: sizes_kept_def kf)
  have "0 \<le> map_total m" unfolding map_total_def using m(1) by (intro sum_list_nonneg') (auto simp: sizes_kept_def)
  moreover have "map_total (kf # m) = fi_size f + map_total m" by (simp add: map_total_def kf)
  ultimately show ?case
    using Cons.IH [OF m(1), of "n + fi_size f"] Cons.prems(2,3) m int32_id [of "n + fi_size f"] by (simp add: kf)
qed

lemma parse_sub_fields_layout:
  assumes "\<forall>s \<in> set (part_sizes junk ps). 0 \<le> s" "n + sum_list (part_sizes junk ps) < 2 ^ 31" "0 \<le> n"
    and "distinct (part_names ps)" "\<forall>x \<in> set (part_names ps). map_of m x = None"
    and "apart m n" "map_total m = n" "sizes_kept m"
  defines "m' \<equiv> parse_sub_fields junk ps m n"
  shows "apart m' (map_total m') \<and> map_total m' = n + sum_list (part_sizes junk ps) \<and> sizes_kept m' \<and>
    (\<forall>x \<in> set (part_names ps). map_of m' x \<noteq> None) \<and> (\<forall>x. map_of m x \<noteq> None \<longrightarrow> map_of m' x \<noteq> None)"
  unfolding m'_def using assms(1-8)
proof (induction ps arbitrary: m n)
  case Nil
  then show ?case by (simp add: part_sizes_def part_names_def)
next
  case (Cons p ps)
  show ?case
  proof (cases "pf_number p > 10000")
    case True
    then have skip: "part_sizes junk (p # ps) = part_sizes junk ps" "part_names (p # ps) = part_names ps"
      "parse_sub_fields junk (p # ps) m n = parse_sub_fields junk ps m n"
      by (simp_all add: part_sizes_def part_names_def)
    show ?thesis using Cons.IH [of n m] Cons.prems unfolding skip by blast
  next
    case False
    let ?sub = "set_offset n (parsed junk p)"
    let ?m = "map_assign (pf_name p) ?sub m"
    let ?s = "fi_size (parsed junk p)"
    have sizes: "part_sizes junk (p # ps) = ?s # part_sizes junk ps" "part_names (p # ps) = pf_name p # part_names ps"
      using False by (simp_all add: part_sizes_def part_names_def)
    have s: "0 \<le> ?s" "0 \<le> sum_list (part_sizes junk ps)"
      using Cons.prems(1) unfolding sizes by (auto intro: sum_list_nonneg')
    have wrap: "int32 (n + ?s) = n + ?s" using Cons.prems(2,3) s unfolding sizes by (intro int32_id) auto
    have "GetFieldSize ?sub = fi_size ?sub"
      using GetFieldSize_cong [of ?sub "parsed junk p"] by (simp add: parsed_def fi_size_ParseFieldDesc)
    then have kept: "sizes_kept ?m"
      using Cons.prems(8) set_map_assign [of "pf_name p" ?sub m] s(1) by (fastforce simp: sizes_kept_def)
    have fresh: "map_of m (pf_name p) = None" using Cons.prems(5) unfolding sizes by simp
    have apart': "apart ?m (n + ?s)" using apart_assign [OF Cons.prems(6), of ?sub "pf_name p"] s(1) Cons.prems(3) by simp
    have total: "map_total ?m = n + ?s" using map_total_assign [OF fresh, of ?sub] Cons.prems(7) by simp
    have IH: "apart (parse_sub_fields junk ps ?m (n + ?s)) (map_total (parse_sub_fields junk ps ?m (n + ?s))) \<and>
        map_total (parse_sub_fields junk ps ?m (n + ?s)) = n + ?s + sum_list (part_sizes junk ps) \<and>
        sizes_kept (parse_sub_fields junk ps ?m (n + ?s)) \<and>
        (\<forall>x \<in> set (part_names ps). map_of (parse_sub_fields junk ps ?m (n + ?s)) x \<noteq> None) \<and>
        (\<forall>x. map_of ?m x \<noteq> None \<longrightarrow> map_of (parse_sub_fields junk ps ?m (n + ?s)) x \<noteq> None)"
      using Cons.prems s apart' total kept unfolding sizes by (intro Cons.IH) auto
    have "parse_sub_fields junk (p # ps) m n = parse_sub_fields junk ps ?m (n + ?s)"
      using False wrap by (simp add: parsed_def [symmetric]) (simp add: parsed_def)
    then show ?thesis using IH unfolding sizes by auto
  qed
qed

text \<open>
  C20: the parts of a message field of a protobuf file lie within the element, do not overlap, and
  fill it: the element's size, computed from the map in the order of the names, is the sum of
  the sizes of the parts in the order of the file.
\<close>

theorem message_field_layout:
  assumes "pf_cpp_type p = CPPTYPE_MESSAGE" "distinct (part_names (pf_message p))"
    and "\<forall>s \<in> set (part_sizes junk (pf_message p)). 0 \<le> s" "sum_list (part_sizes junk (pf_message p)) < 2 ^ 31"
  shows "fi_element_size (ParseFieldDesc junk p (FieldInfo_new a b)) = sum_list (part_sizes junk (pf_message p)) \<and>
    (\<forall>k \<in> set (part_names (pf_message p)). map_of (fi_tuple_map (ParseFieldDesc junk p (FieldInfo_new a b))) k \<noteq> None) \<and>
    apart (fi_tuple_map (ParseFieldDesc junk p (FieldInfo_new a b))) (fi_element_size (ParseFieldDesc junk p (FieldInfo_new a b)))"
proof -
  let ?f = "ParseFieldDesc junk p (FieldInfo_new a b)"
  have m: "fi_tuple_map ?f = parse_sub_fields junk (pf_message p) [] 0" using assms(1) by simp
  have L: "apart (fi_tuple_map ?f) (map_total (fi_tuple_map ?f)) \<and>
      map_total (fi_tuple_map ?f) = 0 + sum_list (part_sizes junk (pf_message p)) \<and> sizes_kept (fi_tuple_map ?f) \<and>
      (\<forall>x \<in> set (part_names (pf_message p)). map_of (fi_tuple_map ?f) x \<noteq> None) \<and>
      (\<forall>x. map_of ([] :: (string \<times> field_info) list) x \<noteq> None \<longrightarrow> map_of (fi_tuple_map ?f) x \<noteq> None)"
    unfolding m using assms(2-4) by (intro parse_sub_fields_layout) (simp_all add: map_total_def sizes_kept_def)
  have "fi_type ?f = Tuple" using assms(1) by (simp add: proto_type_def GetFieldType_def)
  then have "fi_element_size ?f = tuple_size (fi_tuple_map ?f) 0"
    unfolding fi_element_size_ParseFieldDesc by (cases ?f) simp
  moreover have "tuple_size (fi_tuple_map ?f) 0 = 0 + map_total (fi_tuple_map ?f)"
    using L assms(4) by (intro tuple_size_total) (simp_all only: add_0)
  ultimately have E: "fi_element_size ?f = map_total (fi_tuple_map ?f)" by (simp only: add_0)
  show ?thesis using L unfolding E add_0 by blast
qed

text \<open>A message of two numbers and a string.\<close>

definition demo_field :: "string \<Rightarrow> cpp_type \<Rightarrow> proto_field list \<Rightarrow> proto_field" where
  "demo_field n t ps = Proto_Field n 1 False t ps 0 [] [] [] []"

definition demo_message :: proto_field where
  "demo_message = demo_field ''poi'' CPPTYPE_MESSAGE
     [demo_field ''id'' CPPTYPE_INT64 [], demo_field ''city'' CPPTYPE_INT32 [], demo_field ''addr'' CPPTYPE_STRING []]"

lemma parsed_plain:
  assumes "pf_cpp_type p \<noteq> CPPTYPE_MESSAGE"
  shows "fi_size (parsed junk p) = GetFieldSize (Field_Info [] (proto_type p) (proto_count p) 0 0 0 0 [] [] [] [] 0)"
  unfolding parsed_def fi_size_ParseFieldDesc using assms by (intro GetFieldSize_cong) simp_all

lemma demo_message_sizes: "part_sizes junk (pf_message demo_message) = [8, 4, 8]"
  by (simp add: part_sizes_def demo_message_def demo_field_def parsed_plain proto_type_def proto_count_def GetFieldType_def
      GetFieldSize.simps IsMultiVar_def int32_def signed_take_bit_int_eq_self)

theorem message_field_layout_witness:
  "fi_element_size (ParseFieldDesc (5, 6) demo_message (FieldInfo_new 7 8)) = 20 \<and>
   apart (fi_tuple_map (ParseFieldDesc (5, 6) demo_message (FieldInfo_new 7 8))) 20"
  using message_field_layout [of demo_message "(5, 6)" 7 8] demo_message_sizes
  by (auto simp: part_names_def demo_message_def demo_field_def)

section \<open>The fields of a table\<close>

lemma map_of_map_entry: "map_of (map (\<lambda>(k, f). (k, g k f)) m) k = map_option (g k) (map_of m k)"
  by (induction m) auto

lemma map_of_field_update:
  assumes "\<And>f. fi_offset (g f) = fi_offset f \<and> fi_size (g f) = fi_size f"
  shows "\<exists>h. (\<forall>k. map_of (field_update path g desc) k = map_option (h k) (map_of desc k)) \<and>
    (\<forall>k f. fi_offset (h k f) = fi_offset f \<and> fi_size (h k f) = fi_size f)"
proof (cases "(path, g, desc)" rule: field_update.cases)
  case (1 g' desc')
  then show ?thesis by (intro exI [of _ "\<lambda>_ f. f"]) (simp add: option.map_ident)
next
  case (2 k g' desc')
  then have "path = [k]" by simp
  then show ?thesis using assms
    by (intro exI [of _ "\<lambda>k' f. if k' = k then g f else f"]) (simp add: map_of_map_entry)
next
  case (3 k k2 ks g' desc')
  then have path: "path = k # k2 # ks" by simp
  have "fi_offset (set_tuple_map m' f) = fi_offset f \<and> fi_size (set_tuple_map m' f) = fi_size f" for m' f
    by (cases f) simp
  then show ?thesis unfolding path
    by (intro exI [of _ "\<lambda>k' f. if k' = k then set_tuple_map (field_update (k2 # ks) g (fi_tuple_map f)) f else f"])
      (simp add: map_of_map_entry)
qed

lemma apart_update:
  assumes "apart m n" "\<And>k. map_of m' k = map_option (h k) (map_of m k)"
    and "\<And>k f. fi_offset (h k f) = fi_offset f \<and> fi_size (h k f) = fi_size f"
  shows "apart m' n"
  using assms(1) assms(3) unfolding apart_def assms(2) by (auto simp: map_option_case split: option.splits)

text \<open>A field with a related key changes the field it names, which keeps its place.\<close>

lemma apart_related:
  assumes "apart fs n"
  shows "apart (field_update path (\<lambda>f. Field_Info (fi_name f) (fi_type f) 1 (fi_offset f) (fi_size f) (fi_element_size f)
    (fi_index_info f) (fi_tuple_map f) (fi_clazz_name f) (fi_related_field_name f) tbl (fi_related_table_info f)) fs) n"
  (is "apart (field_update path ?g fs) n")
proof -
  obtain h where "\<forall>k. map_of (field_update path ?g fs) k = map_option (h k) (map_of fs k)"
    "\<forall>k f. fi_offset (h k f) = fi_offset f \<and> fi_size (h k f) = fi_size f"
    using map_of_field_update [of ?g path fs] by auto
  then show ?thesis by (intro apart_update [OF assms, of _ h]) auto
qed

text \<open>Any other field is put behind the fields so far.\<close>

lemma parse_message_field_own:
  assumes "parse_message_fields junk clazz (p # ps) n t = Some (True, t')" "apart (ti_field_desc t) n" "0 \<le> n"
    and "\<not> pf_number p > 10000" "\<not> (pf_related_table p \<noteq> [] \<and> pf_related_key p \<noteq> [])"
    and "-1 \<le> fi_size (parsed junk p)" "n + fi_size (parsed junk p) < 2 ^ 31"
  obtains t1 where "0 \<le> fi_size (parsed junk p)" "apart (ti_field_desc t1) (n + fi_size (parsed junk p))"
    "parse_message_fields junk clazz ps (n + fi_size (parsed junk p)) t1 = Some (True, t')"
proof -
  let ?s = "fi_size (parsed junk p)"
  let ?f = "ParseFieldDesc junk p (set_offset n (set_clazz clazz (FieldInfo_new (fst junk) (snd junk))))"
  have size: "fi_size ?f = ?s" by (rule ParseFieldDesc_size) simp
  have pos: "0 \<le> ?s"
  proof (rule ccontr)
    assume "\<not> 0 \<le> ?s"
    then have "?s = -1" using assms(6) by simp
    then show False using assms(1,4,5) size by (simp add: Let_def)
  qed
  have wrap: "int32 (n + ?s) = n + ?s" using assms(3,7) pos by (intro int32_id) auto
  have "apart (map_insert (pf_name p) ?f (ti_field_desc t)) (n + fi_size ?f)"
    using assms(2,3) pos size by (intro apart_insert) simp_all
  moreover have "parse_message_fields junk clazz ps (n + ?s)
      (t\<lparr>ti_field_desc := map_insert (pf_name p) ?f (ti_field_desc t)\<rparr>) = Some (True, t')"
    using assms(1,4,5) size pos wrap by (simp add: Let_def)
  ultimately show ?thesis using pos size
    by (intro that [of "t\<lparr>ti_field_desc := map_insert (pf_name p) ?f (ti_field_desc t)\<rparr>"]) simp_all
qed

lemma parse_message_fields_apart:
  assumes "parse_message_fields junk clazz ps n t = Some (True, t')" "apart (ti_field_desc t) n" "0 \<le> n"
    and "\<forall>p \<in> set ps. -1 \<le> fi_size (parsed junk p)" "n + sum_list (map (\<lambda>p. max 0 (fi_size (parsed junk p))) ps) < 2 ^ 31"
  shows "apart (ti_field_desc t') (n + sum_list (map (\<lambda>p. max 0 (fi_size (parsed junk p))) ps))"
  using assms
proof (induction ps arbitrary: n t)
  case Nil
  then show ?case by simp
next
  case (Cons p ps)
  let ?s = "fi_size (parsed junk p)" and ?rest = "sum_list (map (\<lambda>p. max 0 (fi_size (parsed junk p))) ps)"
  have rest: "0 \<le> ?rest" by (intro sum_list_nonneg') auto
  have sum: "n + ?rest < 2 ^ 31" "n + ?s < 2 ^ 31" using Cons.prems(5) rest by simp_all
  have goal: "apart (ti_field_desc t') (n + sum_list (map (\<lambda>p. max 0 (fi_size (parsed junk p))) (p # ps)))"
    if "parse_message_fields junk clazz ps n t1 = Some (True, t')" "apart (ti_field_desc t1) n" for t1
    using Cons.IH [OF that Cons.prems(3)] Cons.prems(4) sum by (auto elim: apart_mono)
  show ?case
  proof (cases "pf_number p > 10000 \<or> pf_related_table p \<noteq> [] \<and> pf_related_key p \<noteq> []")
    case True
    then show ?thesis
      using goal [of t] goal [of "t\<lparr>ti_field_desc := f, ti_related_field_map := g\<rparr>" for f g] apart_related [OF Cons.prems(2)] Cons.prems(1,2)
      by (auto split: if_splits option.splits)
  next
    case False
    obtain t1 where T: "0 \<le> ?s" "apart (ti_field_desc t1) (n + ?s)" "parse_message_fields junk clazz ps (n + ?s) t1 = Some (True, t')"
      by (rule parse_message_field_own [OF Cons.prems(1-3)]) (use False Cons.prems(4) sum(2) in auto)
    have "apart (ti_field_desc t') (n + ?s + ?rest)" using Cons.prems(3-5) T(1) by (intro Cons.IH [OF T(3,2)]) auto
    then show ?thesis using T(1) by (simp add: add.assoc)
  qed
qed

text \<open>
  C19: when \<open>ParseTableConfig\<close> of a new table succeeds on a file with one table message, the
  ranges of its fields do not overlap and end below the sum of their sizes, whatever the order of the
  fields and whichever of them relate to other tables.
\<close>

theorem ParseTableConfig_layout:
  assumes "ti_ParseTableConfig import junk t json = Some (True, t')" "ti_field_desc t = []" "ti_descriptor t = []"
    and "\<forall>n path file. \<forall>ms. import n path file = Some ms \<longrightarrow> filter (\<lambda>d. pm_table_name d \<noteq> []) ms = [d]"
    and "\<forall>p \<in> set (pm_fields d). -1 \<le> fi_size (parsed junk p)"
    and "sum_list (map (\<lambda>p. max 0 (fi_size (parsed junk p))) (pm_fields d)) < 2 ^ 31"
  shows "apart (ti_field_desc t') (sum_list (map (\<lambda>p. max 0 (fi_size (parsed junk p))) (pm_fields d)))"
proof -
  obtain key proto_file name where J: "json ''key'' = Some key" "json kProtoFile = Some proto_file"
    "json kTableNameJsonStr = Some name"
    using assms(1) by (auto simp: ti_ParseTableConfig_def Let_def split: option.splits)
  obtain ms where ms: "import name (fst (split_path proto_file)) (snd (split_path proto_file)) = Some ms"
    using assms(1) J by (auto simp: ti_ParseTableConfig_def Let_def split: option.splits)
  have one: "filter (\<lambda>d. pm_table_name d \<noteq> []) ms = [d]" using assms(4) ms by blast
  define t1 where "t1 = t\<lparr>ti_table_config := map_assign kStructureTableKeyXmlStr key (ti_table_config t), ti_descriptor := [d]\<rparr>"
  have "parse_messages junk [d] t1 = Some (True, t')"
    using assms(1,3) J ms one by (simp add: ti_ParseTableConfig_def Let_def t1_def)
  then have "parse_message_fields junk (pm_full_name d) (pm_fields d) 0 t1 = Some (True, t')"
    by (auto split: option.splits prod.splits bool.splits)
  then show ?thesis
    using parse_message_fields_apart [of junk "pm_full_name d" "pm_fields d" 0 t1 t'] assms(2,5,6) by (simp add: t1_def)
qed

definition demo_file :: proto_message where
  "demo_file = \<lparr>pm_full_name = ''demo.Poi'', pm_table_name = ''poi'',
     pm_fields = [demo_field ''id'' CPPTYPE_INT64 [], demo_field ''city'' CPPTYPE_INT32 []]\<rparr>"

definition demo_json :: "string \<Rightarrow> string option" where
  "demo_json = [''key'' \<mapsto> ''id'', ''proto_file'' \<mapsto> ''/tmp/poi.proto'', ''table_name'' \<mapsto> ''poi'']"

lemma demo_plain_size:
  "fi_size (parsed junk (demo_field n CPPTYPE_INT64 [])) = 8" "fi_size (parsed junk (demo_field n CPPTYPE_INT32 [])) = 4"
  by (simp_all add: parsed_plain demo_field_def proto_type_def proto_count_def GetFieldType_def GetFieldSize.simps
      IsMultiVar_def int32_def signed_take_bit_int_eq_self)

lemma demo_parse: "\<exists>t'. ti_ParseTableConfig (\<lambda>_ _ _. Some [demo_file]) junk StructureTableInfo_new demo_json = Some (True, t')"
proof -
  have size: "fi_size (ParseFieldDesc junk (demo_field n c []) (set_offset k (set_clazz cl (FieldInfo_new a b)))) \<noteq> -1"
    if "c = CPPTYPE_INT64 \<or> c = CPPTYPE_INT32" for n k cl a b c
    using ParseFieldDesc_size [of "set_offset k (set_clazz cl (FieldInfo_new a b))" junk "demo_field n c []"] that
      demo_plain_size [of junk n] by auto
  have plain: "pf_number (demo_field n c ps) = 1" "pf_related_table (demo_field n c ps) = []" for n c ps
    by (simp_all add: demo_field_def)
  show ?thesis
    by (simp add: ti_ParseTableConfig_def demo_json_def demo_file_def kProtoFile_def kTableNameJsonStr_def
        StructureTableInfo_new_def TableInfo_new_def Let_def plain size)
qed

theorem ParseTableConfig_layout_witness:
  "\<exists>t'. ti_ParseTableConfig (\<lambda>_ _ _. Some [demo_file]) (0, 0) StructureTableInfo_new demo_json = Some (True, t') \<and>
     apart (ti_field_desc t') 12"
proof -
  obtain t' where t': "ti_ParseTableConfig (\<lambda>_ _ _. Some [demo_file]) (0, 0) StructureTableInfo_new demo_json = Some (True, t')"
    using demo_parse by blast
  show ?thesis
    using ParseTableConfig_layout [OF t', of demo_file] t' demo_plain_size
    by (auto simp: StructureTableInfo_new_def TableInfo_new_def demo_file_def)
qed

text \<open>
  A string field that is not repeated and carries the flag \<open>uniq_string\<close> makes the parse of
  its message fail: the name the parser looks up is not the \<open>unig_string\<close> that \<open>GetFieldType\<close> knows.
\<close>

theorem uniq_string_fails:
  assumes "pf_cpp_type p = CPPTYPE_STRING" "pf_extend_flag p = ''uniq_string''" "pf_repeated p \<longrightarrow> 0 < pf_count p"
    and "pf_number p \<le> 10000" "pf_related_table p = []"
  shows "parse_message_fields junk clazz (p # ps) n t = Some (False, t)"
proof -
  let ?f = "ParseFieldDesc junk p (set_offset n (set_clazz clazz (FieldInfo_new (fst junk) (snd junk))))"
  have "fi_type ?f = UnknownField" using assms(1,2) by (simp add: proto_type_def GetFieldType_def)
  then have "GetFieldElementSize ?f = -1" by (cases ?f) simp
  moreover have "\<not> IsMultiVar ?f" using assms(3) by (auto simp: IsMultiVar_def proto_count_def)
  ultimately have "fi_size ?f = -1"
    unfolding fi_size_ParseFieldDesc by (simp add: GetFieldSize.simps Let_def)
  then show ?thesis using assms(4,5) by (simp add: Let_def)
qed

theorem uniq_string_fails_witness:
  "parse_message_fields (0, 0) ''M'' [Proto_Field ''s'' 3 False CPPTYPE_STRING [] 0 [] [] [] ''uniq_string''] 0 TableInfo_new =
     Some (False, TableInfo_new)"
  using uniq_string_fails [of "Proto_Field ''s'' 3 False CPPTYPE_STRING [] 0 [] [] [] ''uniq_string''" "(0, 0)" "''M''" "[]" 0 TableInfo_new]
  by simp

text \<open>
  A JSON table without a key is not tolerated as the comment says: the parser reads the
  member that is missing.
\<close>

theorem ParseTableConfig_without_key:
  "json ''key'' = None \<Longrightarrow> ti_ParseTableConfig import junk t json = None"
  by (simp add: ti_ParseTableConfig_def)

theorem ParseTableConfig_without_key_witness:
  "ti_ParseTableConfig (\<lambda>_ _ _. None) (0, 0) TableInfo_new (\<lambda>_. None) = None"
  by (rule ParseTableConfig_without_key) simp

text \<open>The attributes that the element of a \<open>kv\<close> or \<open>kkv\<close> table must have besides its name and type.\<close>

definition kind_attributes :: "string \<Rightarrow> string list" where
  "kind_attributes ty = (if ty = ''kv'' then [''key'', ''value''] else [''pkey'', ''skey'', ''value''])"

lemma kv_config_check:
  assumes "ti_table_config t = [(''name'', n), (''type'', ty)]"
  shows "\<exists>ok t1. kv_ParseTableConfig t xml = (ok, t1) \<and> ok = (\<forall>a \<in> set (kind_attributes ''kv''). xml a \<noteq> None) \<and>
    (ok \<longrightarrow> (\<forall>fields. CheckKvFieldDesc (t1\<lparr>ti_field_desc := fields\<rparr>) =
      Some (\<forall>a \<in> set (kind_attributes ''kv''). map_of fields (the (xml a)) \<noteq> None)))"
  using assms
  by (simp add: kv_ParseTableConfig_def ti_ParseTableConfig_xml_def ParseKvTableConfig_def CheckKvFieldDesc_def kind_attributes_def
      kKvTableKeyXmlStr_def kKvTableValueXmlStr_def map_of_insert Let_def split: option.split)

lemma kkv_config_check:
  assumes "ti_table_config t = [(''name'', n), (''type'', ty)]"
  shows "\<exists>ok t1. kkv_ParseTableConfig t xml = (ok, t1) \<and> ok = (\<forall>a \<in> set (kind_attributes ''kkv''). xml a \<noteq> None) \<and>
    (ok \<longrightarrow> (\<forall>fields. CheckKkvFieldDesc (t1\<lparr>ti_field_desc := fields\<rparr>) =
      Some (\<forall>a \<in> set (kind_attributes ''kkv''). map_of fields (the (xml a)) \<noteq> None)))"
  using assms
  by (simp add: kkv_ParseTableConfig_def ti_ParseTableConfig_xml_def ParseKkvTableConfig_def CheckKkvFieldDesc_def kind_attributes_def
      kKkvTablePkeyXmlStr_def kKkvTableSkeyXmlStr_def kKkvTableValueXmlStr_def map_of_insert Let_def split: option.split)

text \<open>
  C22: a table made by the factory from an XML element of type \<open>kv\<close> or \<open>kkv\<close> has the element's name and that
  type.  \<open>ParseTableConfig\<close> of the element succeeds exactly when it has the attributes of its kind: key and value,
  or the two keys and value.  Then the check of the fields does not fault, whatever fields the table has by then,
  and it succeeds exactly when those that the attributes name are among them.
\<close>

theorem kv_table_life:
  assumes "xml ''name'' = Some n" "xml ''type'' = Some ty" "ty = ''kv'' \<or> ty = ''kkv''"
  shows "\<exists>t ok t1. CreateTableInfo_xml xml = Some t \<and> ti_name t = n \<and> ti_type t = (if ty = ''kv'' then KV else KKV) \<and>
    (if ty = ''kv'' then kv_ParseTableConfig t xml else kkv_ParseTableConfig t xml) = (ok, t1) \<and>
    ok = (\<forall>a \<in> set (kind_attributes ty). xml a \<noteq> None) \<and>
    (ok \<longrightarrow> (\<forall>fields. (if ty = ''kv'' then CheckKvFieldDesc (t1\<lparr>ti_field_desc := fields\<rparr>)
        else CheckKkvFieldDesc (t1\<lparr>ti_field_desc := fields\<rparr>)) =
      Some (\<forall>a \<in> set (kind_attributes ty). map_of fields (the (xml a)) \<noteq> None)))"
proof -
  note defs = CreateTableInfo_xml_def kTableNameXmlStr_def kTableTypeXmlStr_def new_table_of_type_def named_table_def
    KvTableInfo_new_def KkvTableInfo_new_def TableInfo_new_def Let_def
  obtain t where T: "CreateTableInfo_xml xml = Some t" "ti_name t = n" "ti_type t = (if ty = ''kv'' then KV else KKV)"
    "ti_table_config t = [(''name'', n), (''type'', ty)]"
    using assms by (auto simp: defs split: option.splits)
  then show ?thesis using assms(3) kv_config_check [OF T(4), of xml] kkv_config_check [OF T(4), of xml] by auto
qed

theorem kv_table_life_witness:
  "(\<exists>t t1. CreateTableInfo_xml [''name'' \<mapsto> ''poi'', ''type'' \<mapsto> ''kv'', ''key'' \<mapsto> ''id'', ''value'' \<mapsto> ''city''] = Some t \<and>
     ti_type t = KV \<and> kv_ParseTableConfig t [''name'' \<mapsto> ''poi'', ''type'' \<mapsto> ''kv'', ''key'' \<mapsto> ''id'', ''value'' \<mapsto> ''city''] = (True, t1) \<and>
     CheckKvFieldDesc (t1\<lparr>ti_field_desc := [(''city'', FieldInfo_new 0 0), (''id'', FieldInfo_new 0 0)]\<rparr>) = Some True \<and>
     CheckKvFieldDesc (t1\<lparr>ti_field_desc := [(''id'', FieldInfo_new 0 0)]\<rparr>) = Some False) \<and>
   (\<exists>t t1. CreateTableInfo_xml [''name'' \<mapsto> ''ad'', ''type'' \<mapsto> ''kkv'', ''pkey'' \<mapsto> ''id'', ''value'' \<mapsto> ''bid''] = Some t \<and>
     ti_type t = KKV \<and> kkv_ParseTableConfig t [''name'' \<mapsto> ''ad'', ''type'' \<mapsto> ''kkv'', ''pkey'' \<mapsto> ''id'', ''value'' \<mapsto> ''bid''] = (False, t1))"
proof
  let ?x = "[''name'' \<mapsto> ''poi'', ''type'' \<mapsto> ''kv'', ''key'' \<mapsto> ''id'', ''value'' \<mapsto> ''city'']"
  show "\<exists>t t1. CreateTableInfo_xml ?x = Some t \<and> ti_type t = KV \<and> kv_ParseTableConfig t ?x = (True, t1) \<and>
     CheckKvFieldDesc (t1\<lparr>ti_field_desc := [(''city'', FieldInfo_new 0 0), (''id'', FieldInfo_new 0 0)]\<rparr>) = Some True \<and>
     CheckKvFieldDesc (t1\<lparr>ti_field_desc := [(''id'', FieldInfo_new 0 0)]\<rparr>) = Some False"
    using kv_table_life [of ?x "''poi''" "''kv''"] by (auto simp: kind_attributes_def)
  let ?y = "[''name'' \<mapsto> ''ad'', ''type'' \<mapsto> ''kkv'', ''pkey'' \<mapsto> ''id'', ''value'' \<mapsto> ''bid'']"
  show "\<exists>t t1. CreateTableInfo_xml ?y = Some t \<and> ti_type t = KKV \<and> kkv_ParseTableConfig t ?y = (False, t1)"
    using kv_table_life [of ?y "''ad''" "''kkv''"] by (auto simp: kind_attributes_def)
qed

end
