(* ===== verification/Lock_Free_Queue.thy ===== *)
theory Lock_Free_Queue
  imports Prelude
begin

text \<open>
  The bounded queue of the worker threads (kernel/common/concurrency/lock_free_queue.hpp): a
  linked list with a dummy node at its head and a count of its elements.  Each access to shared
  memory is a step of a thread's program counter; \<open>lq_Push\<close> and \<open>lq_Pop\<close> are the two
  operations run alone, \<open>lq_step\<close> is the interleaving of many threads.  Memory is sequentially
  consistent; a node is at an address that is not 0, and access to a node that was deleted is
  the program counter \<open>Fault\<close>.  A moved-from entity is None.
\<close>

section \<open>Nodes and the queue\<close>

record 'a node =
  nd_entity :: "'a option"
  nd_next :: nat

record 'a lf_queue =
  lq_mem :: "nat \<Rightarrow> 'a node option"
  lq_head :: nat
  lq_tail :: nat
  lq_size :: u64
  lq_max :: u64

definition Node_new :: "'a node" where
  "Node_new = \<lparr>nd_entity = None, nd_next = 0\<rparr>"

definition lq_new :: "nat \<Rightarrow> u64 \<Rightarrow> 'a lf_queue" where
  "lq_new a max_queue_size =
     \<lparr>lq_mem = [a \<mapsto> Node_new], lq_head = a, lq_tail = a, lq_size = 0, lq_max = max_queue_size\<rparr>"

definition lq_Tail :: "'a lf_queue \<Rightarrow> nat" where "lq_Tail q = lq_tail q"
definition lq_Size :: "'a lf_queue \<Rightarrow> u64" where "lq_Size q = lq_size q"

text \<open>None: the head node is not there.\<close>

definition lq_Front :: "'a lf_queue \<Rightarrow> nat option" where
  "lq_Front q = map_option nd_next (lq_mem q (lq_head q))"

definition lq_Empty :: "'a lf_queue \<Rightarrow> bool option" where
  "lq_Empty q = map_option (\<lambda>a. a = 0) (lq_Front q)"

section \<open>Steps of a thread\<close>

text \<open>
  \<open>Push\<close>: called; size read; counted; node made; tail read; tail moved; count to be undone.
  \<open>Pop\<close>: called; size read; counted; head read; the successor of the head tested (the flag says
  that it was null); the new head read; head moved; entity to be taken; head to be deleted;
  count to be undone.
\<close>

datatype 'a pc = Idle
  | Push_Call 'a | Push_Sized 'a u64 | Push_Counted 'a | Push_Made nat | Push_Tail nat nat
  | Push_Link nat nat | Push_Undo nat | Pushed bool
  | Pop_Call | Pop_Sized u64 | Pop_Counted | Pop_Head nat | Pop_Tested nat bool | Pop_Next nat nat
  | Pop_Moved nat | Pop_Take nat | Pop_Delete nat "'a option" | Pop_Undo | Pop_Failed | Popped "'a option"
  | Fault

definition node_put :: "nat \<Rightarrow> 'a node option \<Rightarrow> 'a lf_queue \<Rightarrow> 'a lf_queue" where
  "node_put a n q = q\<lparr>lq_mem := (lq_mem q)(a := n)\<rparr>"

text \<open>\<open>new\<close> is the address that operator new returns for the nodes there are.\<close>

fun lq_exec :: "((nat \<Rightarrow> 'a node option) \<Rightarrow> nat) \<Rightarrow> 'a lf_queue \<times> 'a pc \<Rightarrow> 'a lf_queue \<times> 'a pc" where
  "lq_exec new (q, Push_Call e) = (q, Push_Sized e (lq_size q))"
| "lq_exec new (q, Push_Sized e size') =
     (if size' \<ge> lq_max q \<or> lq_size q \<noteq> size' then (q, Pushed False)
      else (q\<lparr>lq_size := size' + 1\<rparr>, Push_Counted e))"
| "lq_exec new (q, Push_Counted e) =
     (let a = new (lq_mem q) in (node_put a (Some (Node_new\<lparr>nd_entity := Some e\<rparr>)) q, Push_Made a))"
| "lq_exec new (q, Push_Made node) = (q, Push_Tail node (lq_tail q))"
| "lq_exec new (q, Push_Tail node tail) =
     (if lq_tail q = tail then (q\<lparr>lq_tail := node\<rparr>, Push_Link node tail) else (q, Push_Undo node))"
| "lq_exec new (q, Push_Undo node) = (node_put node None (q\<lparr>lq_size := lq_size q - 1\<rparr>), Pushed False)"
| "lq_exec new (q, Push_Link node tail) =
     (case lq_mem q tail of
        None \<Rightarrow> (q, Fault)
      | Some n \<Rightarrow> (node_put tail (Some (n\<lparr>nd_next := node\<rparr>)) q, Pushed True))"
| "lq_exec new (q, Pop_Call) = (q, Pop_Sized (lq_size q))"
| "lq_exec new (q, Pop_Sized size') =
     (if size' = 0 \<or> lq_size q \<noteq> size' then (q, Pop_Failed)
      else (q\<lparr>lq_size := size' - 1\<rparr>, Pop_Counted))"
| "lq_exec new (q, Pop_Counted) = (q, Pop_Head (lq_head q))"
| "lq_exec new (q, Pop_Head head) =
     (case lq_mem q head of None \<Rightarrow> (q, Fault) | Some n \<Rightarrow> (q, Pop_Tested head (nd_next n = 0)))"
| "lq_exec new (q, Pop_Tested head null) =
     (if null then (q, Pop_Next head (lq_head q))
      else (case lq_mem q head of None \<Rightarrow> (q, Fault) | Some n \<Rightarrow> (q, Pop_Next head (nd_next n))))"
| "lq_exec new (q, Pop_Next head next) =
     (if lq_head q = head then (q\<lparr>lq_head := next\<rparr>, Pop_Moved head) else (q, Pop_Undo))"
| "lq_exec new (q, Pop_Moved head) =
     (case lq_mem q head of
        None \<Rightarrow> (q, Fault)
      | Some n \<Rightarrow> (q, if nd_next n = 0 then Pop_Undo else Pop_Take head))"
| "lq_exec new (q, Pop_Undo) = (q\<lparr>lq_size := lq_size q + 1\<rparr>, Pop_Failed)"
| "lq_exec new (q, Pop_Take head) =
     (case lq_mem q head of
        None \<Rightarrow> (q, Fault)
      | Some n \<Rightarrow>
          (case lq_mem q (nd_next n) of
             None \<Rightarrow> (q, Fault)
           | Some s \<Rightarrow> (node_put (nd_next n) (Some (s\<lparr>nd_entity := None\<rparr>)) q, Pop_Delete head (nd_entity s))))"
| "lq_exec new (q, Pop_Delete head e) =
     (case lq_mem q head of None \<Rightarrow> (q, Fault) | Some _ \<Rightarrow> (node_put head None q, Popped e))"
| "lq_exec new (q, pc) = (q, pc)"

text \<open>The operations of a thread that runs alone: 6 and 9 steps reach a result.\<close>

definition lq_Push :: "((nat \<Rightarrow> 'a node option) \<Rightarrow> nat) \<Rightarrow> 'a lf_queue \<Rightarrow> 'a \<Rightarrow> 'a lf_queue \<times> 'a pc" where
  "lq_Push new q e = (lq_exec new ^^ 6) (q, Push_Call e)"

definition lq_Pop :: "((nat \<Rightarrow> 'a node option) \<Rightarrow> nat) \<Rightarrow> 'a lf_queue \<Rightarrow> 'a lf_queue \<times> 'a pc" where
  "lq_Pop new q = (lq_exec new ^^ 9) (q, Pop_Call)"

partial_function (option) delete_nodes :: "nat \<Rightarrow> 'a lf_queue \<Rightarrow> 'a lf_queue option" where
  "delete_nodes e q =
     (if e = 0 then Some q
      else case lq_mem q e of
             None \<Rightarrow> None
           | Some n \<Rightarrow> delete_nodes (nd_next n) (node_put e None q))"

definition lq_delete :: "'a lf_queue \<Rightarrow> 'a lf_queue option" where
  "lq_delete q = delete_nodes (lq_head q) q"

section \<open>The list a queue stands for\<close>

fun chain :: "(nat \<Rightarrow> 'a node option) \<Rightarrow> nat \<Rightarrow> nat list \<Rightarrow> bool" where
  "chain m a [] \<longleftrightarrow> (\<exists>n. m a = Some n \<and> nd_next n = 0)"
| "chain m a (b # bs) \<longleftrightarrow> (\<exists>n. m a = Some n \<and> nd_next n = b) \<and> b \<noteq> 0 \<and> chain m b bs"

definition entity_at :: "(nat \<Rightarrow> 'a node option) \<Rightarrow> nat \<Rightarrow> 'a option" where
  "entity_at m a = (case m a of None \<Rightarrow> None | Some n \<Rightarrow> nd_entity n)"

definition lq_nodes :: "'a lf_queue \<Rightarrow> nat list \<Rightarrow> 'a list \<Rightarrow> bool" where
  "lq_nodes q as xs \<longleftrightarrow> chain (lq_mem q) (lq_head q) as \<and> distinct (lq_head q # as) \<and> lq_head q \<noteq> 0 \<and>
     lq_tail q = last (lq_head q # as) \<and> map (entity_at (lq_mem q)) as = map Some xs"

definition lq_rep :: "u64 \<Rightarrow> 'a lf_queue \<Rightarrow> 'a list \<Rightarrow> bool" where
  "lq_rep n q xs \<longleftrightarrow> (\<exists>as. lq_nodes q as xs \<and> dom (lq_mem q) = set (lq_head q # as)) \<and> lq_max q = n \<and>
     length xs \<le> unat n \<and> lq_size q = of_nat (length xs)"

lemma lq_rep_size:
  assumes "lq_rep n q xs"
  shows "unat (lq_size q) = length xs"
proof -
  have "unat n < 2 ^ LENGTH(64)" by (rule unsigned_less)
  then have "length xs < 2 ^ 64" using assms by (simp add: lq_rep_def)
  then have "unat (of_nat (length xs) :: u64) = length xs" unfolding unat_of_nat by simp
  then show ?thesis using assms by (simp add: lq_rep_def)
qed

lemma chain_dom: "chain m a as \<Longrightarrow> set (a # as) \<subseteq> dom m"
  by (induction m a as rule: chain.induct) auto

lemma chain_0: "chain m a as \<Longrightarrow> 0 \<notin> set as"
  by (induction m a as rule: chain.induct) auto

lemma chain_cong:
  "\<forall>x \<in> set (a # as). map_option nd_next (m' x) = map_option nd_next (m x) \<Longrightarrow> chain m' a as = chain m a as"
proof (induction m a as rule: chain.induct)
  case (1 m a)
  then have "map_option nd_next (m' a) = map_option nd_next (m a)" by simp
  then show ?case by (cases "m a"; cases "m' a"; simp)
next
  case (2 m a b bs)
  then have "map_option nd_next (m' a) = map_option nd_next (m a)" "chain m' b bs = chain m b bs" by simp_all
  then show ?case by (cases "m a"; cases "m' a"; simp)
qed

lemma chain_append:
  assumes "chain m a as" "distinct (a # as)" "m b = None" "b \<noteq> 0" "m (last (a # as)) = Some n"
  shows "chain (m(b \<mapsto> Node_new\<lparr>nd_entity := e\<rparr>, last (a # as) \<mapsto> n\<lparr>nd_next := b\<rparr>)) a (as @ [b])"
  using assms
proof (induction m a as rule: chain.induct)
  case (1 m a)
  then show ?case by (auto simp: Node_new_def)
next
  case (2 m a c cs)
  have "last (c # cs) \<noteq> a" using 2(3) by (metis distinct.simps(2) last_in_set list.distinct(1))
  moreover have "a \<noteq> b" using 2(2,4) by auto
  ultimately show ?case using 2 by auto
qed

lemma of_nat_less_max: "length xs \<le> unat n \<Longrightarrow> of_nat (length xs) < (n :: u64) \<longleftrightarrow> length xs < unat n"
  by (metis le_unat_uoi unat_mono word_less_nat_alt)

section \<open>Alone, a bounded first-in first-out queue\<close>

text \<open>What a client relies on: a queue with a capacity that stands for a list.\<close>

locale bounded_fifo =
  fixes push :: "'s \<Rightarrow> 'a \<Rightarrow> bool \<times> 's" and pop :: "'s \<Rightarrow> 'a option \<times> 's"
    and stands_for :: "'s \<Rightarrow> 'a list \<Rightarrow> bool" and capacity :: nat
  assumes push_room: "stands_for s xs \<Longrightarrow> length xs < capacity \<Longrightarrow>
      fst (push s x) \<and> stands_for (snd (push s x)) (xs @ [x])"
    and push_full: "stands_for s xs \<Longrightarrow> capacity \<le> length xs \<Longrightarrow> push s x = (False, s)"
    and pop_empty: "stands_for s [] \<Longrightarrow> pop s = (None, s)"
    and pop_first: "stands_for s (x # xs) \<Longrightarrow> fst (pop s) = Some x \<and> stands_for (snd (pop s)) xs"

datatype 'a queue_op = Do_Push 'a | Do_Pop
datatype 'a queue_answer = Push_Answer bool | Pop_Answer "'a option"

fun run_queue ::
  "('s \<Rightarrow> 'a \<Rightarrow> bool \<times> 's) \<Rightarrow> ('s \<Rightarrow> 'a option \<times> 's) \<Rightarrow> 's \<Rightarrow> 'a queue_op list \<Rightarrow> 'a queue_answer list \<times> 's" where
  "run_queue push pop s [] = ([], s)"
| "run_queue push pop s (Do_Push x # ops) =
     (case push s x of (b, s') \<Rightarrow> apfst ((#) (Push_Answer b)) (run_queue push pop s' ops))"
| "run_queue push pop s (Do_Pop # ops) =
     (case pop s of (r, s') \<Rightarrow> apfst ((#) (Pop_Answer r)) (run_queue push pop s' ops))"

text \<open>The queue as a list.\<close>

definition fifo_push :: "nat \<Rightarrow> 'a list \<Rightarrow> 'a \<Rightarrow> bool \<times> 'a list" where
  "fifo_push n xs x = (if length xs < n then (True, xs @ [x]) else (False, xs))"

definition fifo_pop :: "'a list \<Rightarrow> 'a option \<times> 'a list" where
  "fifo_pop xs = (case xs of [] \<Rightarrow> (None, []) | x # xs' \<Rightarrow> (Some x, xs'))"

context bounded_fifo
begin

lemma push_step: "stands_for s xs \<Longrightarrow> fst (push s x) = fst (fifo_push capacity xs x) \<and>
    stands_for (snd (push s x)) (snd (fifo_push capacity xs x))"
  using push_room [of s xs x] push_full [of s xs x] by (auto simp: fifo_push_def)

lemma pop_step: "stands_for s xs \<Longrightarrow> fst (pop s) = fst (fifo_pop xs) \<and> stands_for (snd (pop s)) (snd (fifo_pop xs))"
  using pop_empty [of s] pop_first [of s] by (auto simp: fifo_pop_def split: list.splits)

lemma run_refines:
  "stands_for s xs \<Longrightarrow>
     fst (run_queue push pop s ops) = fst (run_queue (fifo_push capacity) fifo_pop xs ops) \<and>
     stands_for (snd (run_queue push pop s ops)) (snd (run_queue (fifo_push capacity) fifo_pop xs ops))"
proof (induction ops arbitrary: s xs)
  case Nil
  then show ?case by simp
next
  case (Cons op ops)
  show ?case
  proof (cases op)
    case (Do_Push x)
    show ?thesis using push_step [OF Cons.prems, of x] Cons.IH [of "snd (push s x)" "snd (fifo_push capacity xs x)"]
      by (simp add: Do_Push split_beta)
  next
    case Do_Pop
    show ?thesis using pop_step [OF Cons.prems] Cons.IH [of "snd (pop s)" "snd (fifo_pop xs)"]
      by (simp add: Do_Pop split_beta)
  qed
qed

end

section \<open>The linked list keeps the contract\<close>

text \<open>The results of the program counters, as the functions return them.\<close>

definition queue_push :: "((nat \<Rightarrow> 'a node option) \<Rightarrow> nat) \<Rightarrow> 'a lf_queue \<Rightarrow> 'a \<Rightarrow> bool \<times> 'a lf_queue" where
  "queue_push new q e = (snd (lq_Push new q e) = Pushed True, fst (lq_Push new q e))"

definition queue_pop :: "((nat \<Rightarrow> 'a node option) \<Rightarrow> nat) \<Rightarrow> 'a lf_queue \<Rightarrow> 'a option \<times> 'a lf_queue" where
  "queue_pop new q =
     (case lq_Pop new q of (q', Popped e) \<Rightarrow> (e, q') | (q', _) \<Rightarrow> (None, q'))"

locale node_allocator =
  fixes new :: "(nat \<Rightarrow> 'a node option) \<Rightarrow> nat"
  assumes new_fresh: "finite (dom m) \<Longrightarrow> m (new m) = None" and new_not_0: "finite (dom m) \<Longrightarrow> new m \<noteq> 0"

lemma lq_Push_full:
  assumes "lq_rep n q xs" "unat n \<le> length xs"
  shows "lq_Push new q e = (q, Pushed False)"
proof -
  have "lq_size q \<ge> lq_max q" using assms of_nat_less_max [of xs n] by (auto simp: lq_rep_def not_less)
  then show ?thesis by (simp add: lq_Push_def numeral_eq_Suc)
qed

lemma lq_Pop_empty:
  assumes "lq_rep n q []"
  shows "lq_Pop new q = (q, Pop_Failed)"
  using assms by (simp add: lq_Pop_def lq_rep_def numeral_eq_Suc)

lemma tail_node:
  assumes "lq_nodes q as xs"
  obtains n where "lq_mem q (lq_tail q) = Some n" "nd_next n = 0"
proof -
  have "chain m a as \<Longrightarrow> \<exists>n. m (last (a # as)) = Some n \<and> nd_next n = 0" for m :: "nat \<Rightarrow> 'a node option" and a as
    by (induction m a as rule: chain.induct) auto
  then show ?thesis using assms that unfolding lq_nodes_def by metis
qed

lemma entity_at_upd:
  "entity_at (m(a \<mapsto> n)) b = (if b = a then nd_entity n else entity_at m b)"
  "entity_at (m(a := None)) b = (if b = a then None else entity_at m b)"
  by (simp_all add: entity_at_def)

lemma nodes_append:
  assumes "lq_nodes q as xs" "lq_mem q b = None" "b \<noteq> 0" "lq_mem q (lq_tail q) = Some n"
  shows "lq_nodes (q\<lparr>lq_size := s, lq_tail := b,
      lq_mem := (lq_mem q)(b \<mapsto> Node_new\<lparr>nd_entity := Some e\<rparr>, lq_tail q \<mapsto> n\<lparr>nd_next := b\<rparr>)\<rparr>) (as @ [b]) (xs @ [e])"
proof -
  let ?h = "lq_head q" and ?m = "(lq_mem q)(b \<mapsto> Node_new\<lparr>nd_entity := Some e\<rparr>, lq_tail q \<mapsto> n\<lparr>nd_next := b\<rparr>)"
  have q: "chain (lq_mem q) ?h as" "distinct (?h # as)" "lq_tail q = last (?h # as)" "?h \<noteq> 0"
    "map (entity_at (lq_mem q)) as = map Some xs"
    using assms(1) by (simp_all add: lq_nodes_def)
  have new: "b \<notin> set (?h # as)" using chain_dom [OF q(1)] assms(2) by blast
  have "chain ?m ?h (as @ [b])"
    using chain_append [OF q(1,2) assms(2,3), of n "Some e"] assms(4) q(3) by simp
  moreover have "map (entity_at ?m) as = map (entity_at (lq_mem q)) as"
    using new assms(4) by (auto simp: entity_at_def)
  moreover have "lq_tail q \<noteq> b" using new q(3) by (metis last_in_set list.distinct(1))
  ultimately show ?thesis using q new unfolding lq_nodes_def by (simp add: entity_at_def Node_new_def)
qed

lemma nodes_remove:
  assumes "lq_nodes q (a # as) (x # xs)" "lq_mem q a = Some s"
  shows "nd_entity s = Some x"
    and "lq_nodes (q\<lparr>lq_size := k, lq_head := a,
      lq_mem := (lq_mem q)(a \<mapsto> s\<lparr>nd_entity := None\<rparr>, lq_head q := None)\<rparr>) as xs"
proof -
  let ?m = "(lq_mem q)(a \<mapsto> s\<lparr>nd_entity := None\<rparr>, lq_head q := None)"
  have q: "chain (lq_mem q) a as" "distinct (lq_head q # a # as)" "a \<noteq> 0" "lq_tail q = last (a # as)"
      "map (entity_at (lq_mem q)) (a # as) = map Some (x # xs)"
    using assms(1) by (auto simp: lq_nodes_def)
  show "nd_entity s = Some x" using q(5) assms(2) by (simp add: entity_at_def)
  have "\<forall>y \<in> set (a # as). map_option nd_next (?m y) = map_option nd_next (lq_mem q y)"
    using q(2) assms(2) by auto
  then have "chain ?m a as" using chain_cong q(1) by blast
  moreover have "map (entity_at ?m) as = map (entity_at (lq_mem q)) as"
    using q(2) by (auto simp: entity_at_def)
  then have "map (entity_at ?m) as = map Some xs" using q(5) by (simp only: list.map list.inject)
  ultimately show "lq_nodes (q\<lparr>lq_size := k, lq_head := a, lq_mem := ?m\<rparr>) as xs"
    using q(2-4) unfolding lq_nodes_def by (simp del: map_eq_conv)
qed

context node_allocator
begin

lemma lq_Push_room:
  assumes "lq_rep n q xs" "length xs < unat n"
  shows "snd (lq_Push new q e) = Pushed True" and "lq_rep n (fst (lq_Push new q e)) (xs @ [e])"
proof -
  obtain as where q: "lq_nodes q as xs" "finite (dom (lq_mem q))" "lq_max q = n" "lq_size q = of_nat (length xs)"
    and dom: "dom (lq_mem q) = set (lq_head q # as)"
    using assms(1) by (auto simp: lq_rep_def)
  obtain t where t: "lq_mem q (lq_tail q) = Some t" using tail_node [OF q(1)] by blast
  let ?b = "new (lq_mem q)"
  let ?q = "q\<lparr>lq_size := lq_size q + 1, lq_tail := ?b,
      lq_mem := (lq_mem q)(?b \<mapsto> Node_new\<lparr>nd_entity := Some e\<rparr>, lq_tail q \<mapsto> t\<lparr>nd_next := ?b\<rparr>)\<rparr>"
  have less: "\<not> lq_size q \<ge> lq_max q"
    using of_nat_less_max [of xs n] assms(2) q(3,4) by (simp add: not_le)
  have "?b \<noteq> lq_tail q" using t new_fresh [OF q(2)] by auto
  then have run: "lq_Push new q e = (?q, Pushed True)"
    using less t by (simp add: lq_Push_def numeral_eq_Suc node_put_def Let_def)
  show "snd (lq_Push new q e) = Pushed True" using run by simp
  have "lq_nodes ?q (as @ [?b]) (xs @ [e])"
    using nodes_append [OF q(1) new_fresh [OF q(2)] new_not_0 [OF q(2)] t] .
  moreover have "dom (lq_mem ?q) = set (lq_head ?q # as @ [?b])"
    using dom t by auto
  ultimately have "\<exists>as. lq_nodes ?q as (xs @ [e]) \<and> dom (lq_mem ?q) = set (lq_head ?q # as)" by blast
  then show "lq_rep n (fst (lq_Push new q e)) (xs @ [e])"
    using run q(3,4) assms(2) unfolding lq_rep_def by (simp add: add.commute)
qed

lemma lq_Pop_first:
  assumes "lq_rep n q (x # xs)"
  shows "snd (lq_Pop new q) = Popped (Some x)" and "lq_rep n (fst (lq_Pop new q)) xs"
proof -
  obtain as' where q': "lq_nodes q as' (x # xs)" and q: "dom (lq_mem q) = set (lq_head q # as')" "lq_max q = n"
      "length (x # xs) \<le> unat n" "lq_size q = of_nat (length (x # xs))"
    using assms by (auto simp: lq_rep_def)
  then obtain a as where as: "as' = a # as" by (cases as') (auto simp: lq_nodes_def)
  have nodes: "lq_nodes q (a # as) (x # xs)" using q' as by simp
  obtain h where h: "lq_mem q (lq_head q) = Some h" "nd_next h = a" "a \<noteq> 0" "a \<noteq> lq_head q"
    using nodes by (auto simp: lq_nodes_def)
  obtain s where s: "lq_mem q a = Some s" using nodes by (cases as) (auto simp: lq_nodes_def)
  let ?q = "q\<lparr>lq_size := lq_size q - 1, lq_head := a,
      lq_mem := (lq_mem q)(a \<mapsto> s\<lparr>nd_entity := None\<rparr>, lq_head q := None)\<rparr>"
  have "unat (lq_size q) = length (x # xs)" by (rule lq_rep_size [OF assms])
  then have nz: "lq_size q \<noteq> 0" by auto
  have run: "lq_Pop new q = (?q, Popped (nd_entity s))"
    using nz h s by (simp add: lq_Pop_def numeral_eq_Suc node_put_def fun_upd_twist)
  show "snd (lq_Pop new q) = Popped (Some x)" using run nodes_remove(1) [OF nodes s] by simp
  have size: "lq_size q - 1 = of_nat (length xs)" unfolding q(4) by simp
  have "distinct (lq_head q # a # as)" using nodes by (simp add: lq_nodes_def)
  then have "dom (lq_mem ?q) = set (lq_head ?q # as)" using q(1) as by auto
  then have "\<exists>as. lq_nodes ?q as xs \<and> dom (lq_mem ?q) = set (lq_head ?q # as)"
    using nodes_remove(2) [OF nodes s] by blast
  then show "lq_rep n (fst (lq_Pop new q)) xs"
    using run q size unfolding lq_rep_def by simp
qed

lemma contract: "bounded_fifo (queue_push new) (queue_pop new) (lq_rep n) (unat n)"
proof
  fix q :: "'a lf_queue" and xs x
  assume rep: "lq_rep n q xs"
  show "fst (queue_push new q x) \<and> lq_rep n (snd (queue_push new q x)) (xs @ [x])" if "length xs < unat n"
    using lq_Push_room [OF rep that] by (simp add: queue_push_def)
  show "queue_push new q x = (False, q)" if "unat n \<le> length xs"
    using lq_Push_full [OF rep that] by (simp add: queue_push_def)
next
  fix q :: "'a lf_queue" and x xs
  show "queue_pop new q = (None, q)" if "lq_rep n q []"
    using lq_Pop_empty [OF that] by (simp add: queue_pop_def)
  show "fst (queue_pop new q) = Some x \<and> lq_rep n (snd (queue_pop new q)) xs" if "lq_rep n q (x # xs)"
    using lq_Pop_first [OF that] by (cases "lq_Pop new q") (simp add: queue_pop_def)
qed

end

sublocale node_allocator \<subseteq> fifo: bounded_fifo "queue_push new" "queue_pop new" "lq_rep n" "unat n" for n
  by (rule contract)

text \<open>Operator new, as the least address that is free.\<close>

definition least_free :: "(nat \<Rightarrow> 'a node option) \<Rightarrow> nat" where
  "least_free m = (LEAST a. 0 < a \<and> m a = None)"

lemma least_free_ok:
  assumes "finite (dom m)"
  shows "0 < least_free m \<and> m (least_free m) = None"
proof -
  have "finite (insert 0 (dom m))" using assms by simp
  then obtain a where "a \<notin> insert 0 (dom m)" using infinite_UNIV_nat ex_new_if_finite by blast
  then have "0 < a \<and> m a = None" by auto
  then show ?thesis unfolding least_free_def by (rule LeastI)
qed

interpretation least: node_allocator least_free
  using least_free_ok by unfold_locales auto

lemma lq_rep_new: "a \<noteq> 0 \<Longrightarrow> lq_rep n (lq_new a n) []"
  by (auto simp: lq_rep_def lq_new_def lq_nodes_def Node_new_def)

lemma delete_chain:
  assumes "chain (lq_mem q) a as" "distinct (a # as)" "a \<noteq> 0"
  shows "\<exists>q'. delete_nodes a q = Some q' \<and> dom (lq_mem q') = dom (lq_mem q) - set (a # as)"
  using assms
proof (induction as arbitrary: q a)
  case Nil
  then obtain n where n: "lq_mem q a = Some n" "nd_next n = 0" by auto
  have "delete_nodes a q = Some (node_put a None q)"
    using n Nil(3) delete_nodes.simps [of a q] delete_nodes.simps [of 0] by simp
  then show ?case by (simp add: node_put_def)
next
  case (Cons b bs)
  then obtain n where n: "lq_mem q a = Some n" "nd_next n = b" by auto
  have "chain (lq_mem (node_put a None q)) b bs = chain (lq_mem q) b bs"
    using Cons.prems(2) by (intro chain_cong) (auto simp: node_put_def)
  then obtain q' where q': "delete_nodes b (node_put a None q) = Some q'"
      "dom (lq_mem q') = dom (lq_mem (node_put a None q)) - set (b # bs)"
    using Cons.IH [of "node_put a None q" b] Cons.prems by auto
  have "delete_nodes a q = Some q'"
    using n Cons.prems(3) q'(1) delete_nodes.simps [of a q] by simp
  then show ?case using q'(2) by (auto simp: node_put_def)
qed

lemma lq_delete_frees:
  assumes "lq_rep n q xs"
  obtains q' where "lq_delete q = Some q'" "dom (lq_mem q') = {}"
proof -
  obtain as where "lq_nodes q as xs" "dom (lq_mem q) = set (lq_head q # as)"
    using assms by (auto simp: lq_rep_def)
  then have "\<exists>q'. lq_delete q = Some q' \<and> dom (lq_mem q') = {}"
    using delete_chain [of q "lq_head q" as] unfolding lq_nodes_def lq_delete_def by simp
  then show ?thesis using that by blast
qed

context node_allocator
begin

lemma run_from_new:
  assumes "a \<noteq> 0"
  obtains q where "run_queue (queue_push new) (queue_pop new) (lq_new a n) ops =
      (fst (run_queue (fifo_push (unat n)) fifo_pop [] ops), q)"
    "lq_rep n q (snd (run_queue (fifo_push (unat n)) fifo_pop [] ops))"
  using fifo.run_refines [OF lq_rep_new [OF assms]] that by (metis prod.collapse)

end

text \<open>
  C5: operations on a new queue, one after the other, answer as those of a list with room for
  \<open>max_queue_size\<close> elements: \<open>Push\<close> fails exactly when the list is full, \<open>Pop\<close> exactly when it is empty,
  and elements come out in the order they went in.  The destructor then frees every node.
\<close>

theorem lq_refines_fifo:
  assumes "\<forall>m. finite (dom m) \<longrightarrow> new m \<noteq> 0 \<and> m (new m) = None" "a \<noteq> 0"
  shows "\<exists>q q'. run_queue (queue_push new) (queue_pop new) (lq_new a n) ops =
      (fst (run_queue (fifo_push (unat n)) fifo_pop [] ops), q) \<and>
    lq_Size q = of_nat (length (snd (run_queue (fifo_push (unat n)) fifo_pop [] ops))) \<and>
    lq_delete q = Some q' \<and> dom (lq_mem q') = {}"
proof -
  have new: "node_allocator new" using assms(1) by unfold_locales auto

  obtain q where q: "run_queue (queue_push new) (queue_pop new) (lq_new a n) ops =
      (fst (run_queue (fifo_push (unat n)) fifo_pop [] ops), q)"
    "lq_rep n q (snd (run_queue (fifo_push (unat n)) fifo_pop [] ops))"
    by (rule node_allocator.run_from_new [OF new assms(2), of n ops])
  obtain q' where "lq_delete q = Some q'" "dom (lq_mem q') = {}" by (rule lq_delete_frees [OF q(2)])
  then show ?thesis using q by (intro exI [of _ q] exI [of _ q']) (simp add: lq_rep_def lq_Size_def)
qed

theorem lq_refines_fifo_witness:
  "fst (run_queue (queue_push least_free) (queue_pop least_free) (lq_new 1 2)
     [Do_Push (7::int), Do_Push 8, Do_Push 9, Do_Pop, Do_Push 9, Do_Pop, Do_Pop, Do_Pop]) =
   [Push_Answer True, Push_Answer True, Push_Answer False, Pop_Answer (Some 7), Push_Answer True,
    Pop_Answer (Some 8), Pop_Answer (Some 9), Pop_Answer None]"
proof -
  let ?ops = "[Do_Push (7::int), Do_Push 8, Do_Push 9, Do_Pop, Do_Push 9, Do_Pop, Do_Pop, Do_Pop]"
  have "fst (run_queue (queue_push least_free) (queue_pop least_free) (lq_new 1 2) ?ops) =
      fst (run_queue (fifo_push (unat (2 :: u64))) fifo_pop [] ?ops)"
    using lq_refines_fifo [of least_free 1 2 ?ops] least_free_ok by (metis fst_conv neq0_conv one_neq_zero)
  then show ?thesis by (simp add: fifo_push_def fifo_pop_def)
qed

section \<open>Many threads\<close>

text \<open>
  Each call is a thread of its own, so that every interleaving of calls of any number of threads
  is covered; a thread that is not there is idle.  A step lets one thread do its next access;
  a new node may get any free address, that of a deleted node included.
\<close>

inductive lq_step :: "'a lf_queue \<times> (nat \<Rightarrow> 'a pc) \<Rightarrow> 'a lf_queue \<times> (nat \<Rightarrow> 'a pc) \<Rightarrow> bool" where
  thread: "lq_mem q a = None \<Longrightarrow> a \<noteq> 0 \<Longrightarrow> lq_exec (\<lambda>_. a) (q, ps i) = (q', p) \<Longrightarrow>
    lq_step (q, ps) (q', ps(i := p))"

inductive_cases lq_stepE: "lq_step (q, ps) s"

abbreviation lq_steps :: "'a lf_queue \<times> (nat \<Rightarrow> 'a pc) \<Rightarrow> 'a lf_queue \<times> (nat \<Rightarrow> 'a pc) \<Rightarrow> bool" where
  "lq_steps \<equiv> lq_step\<^sup>*\<^sup>*"

subsection \<open>Threads that push\<close>

fun own :: "'a pc \<Rightarrow> nat option" where
  "own (Push_Made a) = Some a"
| "own (Push_Tail a t) = Some a"
| "own (Push_Undo a) = Some a"
| "own p = None"

fun committed :: "'a pc \<Rightarrow> bool" where
  "committed (Push_Link a t) = True"
| "committed (Pushed b) = b"
| "committed p = False"

fun counted :: "'a pc \<Rightarrow> bool" where
  "counted (Push_Counted e) = True"
| "counted p = (committed p \<or> own p \<noteq> None)"

fun pushing :: "'a \<Rightarrow> 'a pc \<Rightarrow> bool" where
  "pushing e Idle = True"
| "pushing e (Push_Call e') = (e' = e)"
| "pushing e (Push_Sized e' s) = (e' = e)"
| "pushing e (Push_Counted e') = (e' = e)"
| "pushing e (Pushed b) = True"
| "pushing e p = (own p \<noteq> None \<or> committed p)"

definition next_at :: "(nat \<Rightarrow> 'a node option) \<Rightarrow> nat \<Rightarrow> nat" where
  "next_at m a = (case m a of None \<Rightarrow> 0 | Some n \<Rightarrow> nd_next n)"

text \<open>
  The nodes in the order in which they became the tail; \<open>cs\<close> are the threads that put the new
  ones there.  A link may be missing as long as its thread is about to set it.
\<close>

definition links_ok :: "(nat \<Rightarrow> 'a node option) \<Rightarrow> (nat \<Rightarrow> 'a pc) \<Rightarrow> nat list \<Rightarrow> bool" where
  "links_ok m ps L \<longleftrightarrow> next_at m (last L) = 0 \<and>
     (\<forall>k. Suc k < length L \<longrightarrow> next_at m (L ! k) = L ! Suc k \<or>
        next_at m (L ! k) = 0 \<and> (\<exists>i. ps i = Push_Link (L ! Suc k) (L ! k))) \<and>
     (\<forall>i a t. ps i = Push_Link a t \<longrightarrow> (\<exists>k. Suc k < length L \<and> L ! k = t \<and> L ! Suc k = a))"

definition owners_ok :: "(nat \<Rightarrow> 'a) \<Rightarrow> (nat \<Rightarrow> 'a node option) \<Rightarrow> (nat \<Rightarrow> 'a pc) \<Rightarrow> nat list \<Rightarrow> bool" where
  "owners_ok es m ps L \<longleftrightarrow> dom m = set L \<union> {a. \<exists>i. own (ps i) = Some a} \<and>
     (\<forall>i a. own (ps i) = Some a \<longrightarrow> m a = Some \<lparr>nd_entity = Some (es i), nd_next = 0\<rparr> \<and> a \<notin> set L \<and> a \<noteq> 0 \<and>
        (\<forall>j. own (ps j) = Some a \<longrightarrow> j = i)) \<and>
     (\<forall>i. pushing (es i) (ps i))"

definition list_ok :: "(nat \<Rightarrow> 'a) \<Rightarrow> 'a list \<Rightarrow> 'a lf_queue \<Rightarrow> nat list \<Rightarrow> nat list \<Rightarrow> bool" where
  "list_ok es xs q L cs \<longleftrightarrow> distinct L \<and> 0 \<notin> set L \<and> L \<noteq> [] \<and> hd L = lq_head q \<and> last L = lq_tail q \<and>
     map (entity_at (lq_mem q)) (tl L) = map Some (xs @ map es cs)"

definition shape :: "(nat \<Rightarrow> 'a) \<Rightarrow> 'a list \<Rightarrow> 'a lf_queue \<Rightarrow> (nat \<Rightarrow> 'a pc) \<Rightarrow> nat list \<Rightarrow> nat list \<Rightarrow> bool" where
  "shape es xs q ps L cs \<longleftrightarrow> list_ok es xs q L cs \<and> links_ok (lq_mem q) ps L \<and> owners_ok es (lq_mem q) ps L \<and>
     distinct cs \<and> set cs = {i. committed (ps i)}"

definition count_ok :: "nat \<Rightarrow> u64 \<Rightarrow> 'a lf_queue \<Rightarrow> (nat \<Rightarrow> 'a pc) \<Rightarrow> bool" where
  "count_ok l n q ps \<longleftrightarrow> lq_max q = n \<and> finite {i. ps i \<noteq> Idle} \<and>
     lq_size q = of_nat (l + card {i. counted (ps i)}) \<and> l + card {i. counted (ps i)} \<le> unat n"

lemma quiet_step:
  assumes "shape es xs q ps L cs" "lq_mem q' = lq_mem q" "lq_head q' = lq_head q" "lq_tail q' = lq_tail q"
    and "own p = own (ps i)" "committed p = committed (ps i)" "pushing (es i) p"
    and "\<And>a t. p \<noteq> Push_Link a t" "\<And>a t. ps i \<noteq> Push_Link a t"
  shows "shape es xs q' (ps(i := p)) L cs"
proof -
  have own: "own ((ps(i := p)) j) = own (ps j)" for j using assms(5) by simp
  have com: "committed ((ps(i := p)) j) = committed (ps j)" for j using assms(6) by simp
  have link: "(ps(i := p)) j = Push_Link a t \<longleftrightarrow> ps j = Push_Link a t" for j a t using assms(8,9) by simp
  have push: "(\<forall>j. pushing (es j) ((ps(i := p)) j)) \<longleftrightarrow> (\<forall>j. j \<noteq> i \<longrightarrow> pushing (es j) (ps j))"
    using assms(7) by auto
  show ?thesis
    using assms(1) unfolding shape_def list_ok_def links_ok_def owners_ok_def assms(2-4) own com link push by auto
qed

lemma owned_split: "{b. \<exists>j. own (ps j) = Some b} = set_option (own (ps i)) \<union> {b. \<exists>j. j \<noteq> i \<and> own (ps j) = Some b}"
  by (auto simp: elem_set)

lemma owned_upd:
  "{b. \<exists>j. own ((ps(i := p)) j) = Some b} = set_option (own p) \<union> {b. \<exists>j. j \<noteq> i \<and> own (ps j) = Some b}"
  by (auto simp: elem_set)

lemma ownerD:
  assumes "owners_ok es m ps L" "own (ps i) = Some a"
  shows "m a = Some \<lparr>nd_entity = Some (es i), nd_next = 0\<rparr>" "a \<notin> set L" "a \<noteq> 0" "own (ps j) = Some a \<Longrightarrow> j = i"
  using assms unfolding owners_ok_def by blast+

lemma owners_okI:
  assumes "dom m = set L \<union> {a. \<exists>i. own (ps i) = Some a}"
    and "\<And>i a. own (ps i) = Some a \<Longrightarrow> m a = Some \<lparr>nd_entity = Some (es i), nd_next = 0\<rparr> \<and> a \<notin> set L \<and> a \<noteq> 0 \<and>
      (\<forall>j. own (ps j) = Some a \<longrightarrow> j = i)"
    and "\<And>i. pushing (es i) (ps i)"
  shows "owners_ok es m ps L"
  using assms unfolding owners_ok_def by blast

lemma pushing_upd: "owners_ok es m ps L \<Longrightarrow> pushing (es i) p \<Longrightarrow> pushing (es j) ((ps(i := p)) j)"
  by (simp add: owners_ok_def)

lemma owner_keep:
  assumes "owners_ok es m ps L" "own (ps j) = Some b" "own p \<noteq> Some b"
  shows "m b = Some \<lparr>nd_entity = Some (es j), nd_next = 0\<rparr> \<and> b \<notin> set L \<and> b \<noteq> 0 \<and>
    (\<forall>k. own ((ps(i := p)) k) = Some b \<longrightarrow> k = j)"
proof -
  have "k = j" if k: "own ((ps(i := p)) k) = Some b" for k
  proof -
    have "k \<noteq> i" using k assms(3) by auto
    then have "own (ps k) = Some b" using k by simp
    then show ?thesis by (rule ownerD(4) [OF assms(1,2)])
  qed
  then show ?thesis using ownerD(1-3) [OF assms(1,2)] by blast
qed

lemma links_cong:
  assumes "\<And>x. x \<in> set L \<Longrightarrow> next_at m' x = next_at m x" "\<And>j b t. ps' j = Push_Link b t \<longleftrightarrow> ps j = Push_Link b t" "L \<noteq> []"
  shows "links_ok m' ps' L = links_ok m ps L"
proof -
  have "next_at m' (L ! k) = next_at m (L ! k)" if "Suc k < length L" for k using assms(1) that by simp
  moreover have "next_at m' (last L) = next_at m (last L)" using assms(1,3) by simp
  ultimately show ?thesis unfolding links_ok_def assms(2) by (metis (no_types, lifting))
qed

lemma make_step:
  assumes "shape es xs q ps L cs" "ps i = Push_Counted e" "lq_mem q a = None" "a \<noteq> 0"
  shows "shape es xs (node_put a (Some (Node_new\<lparr>nd_entity := Some e\<rparr>)) q) (ps(i := Push_Made a)) L cs"
proof -
  let ?m = "(lq_mem q)(a \<mapsto> Node_new\<lparr>nd_entity := Some e\<rparr>)" and ?ps = "ps(i := Push_Made a)"
  have dom: "dom (lq_mem q) = set L \<union> {a. \<exists>i. own (ps i) = Some a}" and e: "e = es i"
    using assms(1,2) by (auto simp: shape_def owners_ok_def dest!: spec [of _ i])
  have new: "a \<notin> set L" "own (ps j) \<noteq> Some a" for j using dom assms(3) by auto
  have old: "ps j = Push_Link b t \<Longrightarrow> j \<noteq> i" for j b t using assms(2) by auto
  have L: "x \<in> set L \<Longrightarrow> ?m x = lq_mem q x" for x using new by auto
  have "links_ok ?m ?ps L"
  proof -
    have "next_at ?m x = next_at (lq_mem q) x" if "x \<in> set L" for x using L [OF that] by (simp add: next_at_def)
    moreover have "?ps j = Push_Link b t \<longleftrightarrow> ps j = Push_Link b t" for j b t using old by auto
    moreover have "L \<noteq> []" "links_ok (lq_mem q) ps L" using assms(1) by (simp_all add: shape_def list_ok_def)
    ultimately show ?thesis using links_cong by blast
  qed
  moreover have "owners_ok es ?m ?ps L"
  proof -
    have "dom ?m = set L \<union> {a. \<exists>j. own (?ps j) = Some a}"
      unfolding owned_upd using dom owned_split [of ps i] assms(2) by auto
    moreover have "?m b = Some \<lparr>nd_entity = Some (es j), nd_next = 0\<rparr> \<and> b \<notin> set L \<and> b \<noteq> 0 \<and>
        (\<forall>k. own (?ps k) = Some b \<longrightarrow> k = j)" if "own (?ps j) = Some b" for j b
    proof (cases "j = i")
      case True
      then show ?thesis using that new e assms(4) by (auto simp: Node_new_def)
    next
      case False
      have "owners_ok es (lq_mem q) ps L" and b: "own (ps j) = Some b" using assms(1) that False by (simp_all add: shape_def)
      moreover have ne: "b \<noteq> a" using new(2) b by auto
      ultimately show ?thesis using owner_keep [of es "lq_mem q" ps L j b "Push_Made a" i] by simp
    qed
    moreover have "pushing (es j) (?ps j)" for j
      using assms(1) by (intro pushing_upd [of es "lq_mem q" ps L]) (simp_all add: shape_def)
    ultimately show ?thesis by (rule owners_okI)
  qed
  moreover have "map (entity_at ?m) (tl L) = map (entity_at (lq_mem q)) (tl L)"
    using new(1) list.set_sel(2) [of L] by (cases L) (auto simp: entity_at_def)
  moreover have "{j. committed (?ps j)} = {j. committed (ps j)}" using assms(2) by auto
  ultimately show ?thesis
    using assms(1) unfolding shape_def list_ok_def node_put_def by (simp del: map_eq_conv)
qed

text \<open>A node that its push has made the tail and has still to link, and one that gets linked.\<close>

lemma links_snoc:
  assumes links: "links_ok m ps L" and L: "L \<noteq> []" "last L = t" and i: "\<And>b u. ps i \<noteq> Push_Link b u" and a: "next_at m a = 0"
  shows "links_ok m (ps(i := Push_Link a t)) (L @ [a])"
proof -
  let ?ps = "ps(i := Push_Link a t)"
  have "next_at m ((L @ [a]) ! k) = (L @ [a]) ! Suc k \<or>
      next_at m ((L @ [a]) ! k) = 0 \<and> (\<exists>i. ?ps i = Push_Link ((L @ [a]) ! Suc k) ((L @ [a]) ! k))"
    if k: "Suc k < length (L @ [a])" for k
  proof (cases "Suc k < length L")
    case True
    then have "next_at m (L ! k) = L ! Suc k \<or>
        next_at m (L ! k) = 0 \<and> (\<exists>i. ps i = Push_Link (L ! Suc k) (L ! k))"
      using links by (simp add: links_ok_def)
    moreover have "ps j = Push_Link b u \<Longrightarrow> ?ps j = Push_Link b u" for j b u using i by auto
    ultimately show ?thesis using True by (auto simp: nth_append simp del: fun_upd_apply)
  next
    case False
    then have "Suc k = length L" using k by simp
    then have "L ! k = last L" using L(1) by (metis diff_Suc_1 last_conv_nth)
    then have "(L @ [a]) ! k = t" "(L @ [a]) ! Suc k = a" using \<open>Suc k = length L\<close> L(2) by (auto simp: nth_append)
    moreover have "next_at m t = 0" using links L(2) by (simp add: links_ok_def)
    ultimately show ?thesis by auto
  qed
  moreover have "\<exists>k. Suc k < length (L @ [a]) \<and> (L @ [a]) ! k = u \<and> (L @ [a]) ! Suc k = b"
    if "?ps j = Push_Link b u" for j b u
  proof (cases "j = i")
    case True
    then show ?thesis using that L
      by (intro exI [of _ "length L - 1"]) (auto simp: nth_append last_conv_nth)
  next
    case False
    then have "ps j = Push_Link b u" using that by simp
    then obtain k where "Suc k < length L" "L ! k = u" "L ! Suc k = b"
      using links unfolding links_ok_def by blast
    then show ?thesis by (intro exI [of _ k]) (simp add: nth_append)
  qed
  moreover have "next_at m (last (L @ [a])) = 0" using a by simp
  ultimately show ?thesis unfolding links_ok_def by blast
qed

lemma links_join:
  assumes links: "links_ok m ps L" and i: "ps i = Push_Link a t" and dist: "distinct L"
    and m': "\<And>x. next_at m' x = (if x = t then a else next_at m x)"
  shows "links_ok m' (ps(i := Pushed True)) L"
proof -
  let ?ps = "ps(i := Pushed True)"
  obtain k where k: "Suc k < length L" "L ! k = t" "L ! Suc k = a"
    using links i unfolding links_ok_def by blast
  have "next_at m' (L ! l) = L ! Suc l \<or>
      next_at m' (L ! l) = 0 \<and> (\<exists>i. ?ps i = Push_Link (L ! Suc l) (L ! l))" if l: "Suc l < length L" for l
  proof (cases "l = k")
    case True
    then show ?thesis using k m' by simp
  next
    case False
    have ne: "L ! l \<noteq> t" using False k(1,2) l dist nth_eq_iff_index_eq [of L l k] by simp
    have "next_at m (L ! l) = L ! Suc l \<or>
        next_at m (L ! l) = 0 \<and> (\<exists>i. ps i = Push_Link (L ! Suc l) (L ! l))"
      using links l unfolding links_ok_def by blast
    moreover have "ps j = Push_Link (L ! Suc l) (L ! l) \<Longrightarrow> ?ps j = Push_Link (L ! Suc l) (L ! l)" for j
      using i ne by auto
    ultimately show ?thesis unfolding m' using ne by meson
  qed
  moreover have "last L \<noteq> t"
  proof -
    have "last L = L ! (length L - 1)" using k(1) by (intro last_conv_nth) auto
    then show ?thesis using k(1,2) dist nth_eq_iff_index_eq [of L "length L - 1" k] by auto
  qed
  then have "next_at m' (last L) = 0" using links m' by (simp add: links_ok_def)
  moreover have "\<exists>k. Suc k < length L \<and> L ! k = u \<and> L ! Suc k = b" if "?ps j = Push_Link b u" for j b u
  proof -
    have "ps j = Push_Link b u" using that by (auto split: if_splits)
    then show ?thesis using links unfolding links_ok_def by blast
  qed
  ultimately show ?thesis unfolding links_ok_def by blast
qed

lemma tail_step:
  assumes "shape es xs q ps L cs" "ps i = Push_Tail a t" "lq_tail q = t"
  shows "shape es xs (q\<lparr>lq_tail := a\<rparr>) (ps(i := Push_Link a t)) (L @ [a]) (cs @ [i])"
proof -
  let ?m = "lq_mem q" and ?ps = "ps(i := Push_Link a t)"
  have list: "list_ok es xs q L cs" and links: "links_ok ?m ps L" and owners: "owners_ok es ?m ps L"
    and cs: "distinct cs" "set cs = {i. committed (ps i)}"
    using assms(1) by (simp_all add: shape_def)
  have a: "?m a = Some \<lparr>nd_entity = Some (es i), nd_next = 0\<rparr>" "a \<notin> set L" "a \<noteq> 0"
    "\<And>j. own (ps j) = Some a \<Longrightarrow> j = i"
    using ownerD [OF owners, of i a] assms(2) by auto
  have L: "L \<noteq> []" "last L = t" using list assms(3) by (simp_all add: list_ok_def)
  have "list_ok es xs (q\<lparr>lq_tail := a\<rparr>) (L @ [a]) (cs @ [i])"
    using list a by (simp add: list_ok_def entity_at_def)
  moreover have "links_ok ?m ?ps (L @ [a])"
    using a(1) assms(2) by (intro links_snoc [OF links L]) (auto simp: next_at_def)
  moreover have "owners_ok es ?m ?ps (L @ [a])"
  proof -
    have "dom ?m = set (L @ [a]) \<union> {a. \<exists>j. own (?ps j) = Some a}"
      unfolding owned_upd using owners owned_split [of ps i] assms(2) unfolding owners_ok_def by auto
    moreover have "?m b = Some \<lparr>nd_entity = Some (es j), nd_next = 0\<rparr> \<and> b \<notin> set (L @ [a]) \<and> b \<noteq> 0 \<and>
        (\<forall>k. own (?ps k) = Some b \<longrightarrow> k = j)" if "own (?ps j) = Some b" for j b
    proof -
      have j: "j \<noteq> i" "own (ps j) = Some b" using that by (auto split: if_splits)
      then have "b \<noteq> a" using a(4) by blast
      then show ?thesis using owner_keep [OF owners j(2), of "Push_Link a t" i] by simp
    qed
    moreover have "pushing (es j) (?ps j)" for j by (rule pushing_upd [OF owners]) simp
    ultimately show ?thesis by (rule owners_okI)
  qed
  moreover have "distinct (cs @ [i])" "set (cs @ [i]) = {i. committed (?ps i)}"
    using cs assms(2) by auto
  ultimately show ?thesis unfolding shape_def by simp
qed

lemma link_step:
  assumes "shape es xs q ps L cs" "ps i = Push_Link a t"
  obtains n where "lq_mem q t = Some n"
    and "shape es xs (node_put t (Some (n\<lparr>nd_next := a\<rparr>)) q) (ps(i := Pushed True)) L cs"
proof -
  let ?ps = "ps(i := Pushed True)"
  have list: "list_ok es xs q L cs" and links: "links_ok (lq_mem q) ps L" and owners: "owners_ok es (lq_mem q) ps L"
    and cs: "distinct cs" "set cs = {i. committed (ps i)}"
    using assms(1) by (simp_all add: shape_def)
  obtain k where k: "Suc k < length L" "L ! k = t" "L ! Suc k = a"
    using links assms(2) unfolding links_ok_def by blast
  then have t: "t \<in> set L" using nth_mem [of k L] by simp
  then have "t \<in> dom (lq_mem q)" using owners unfolding owners_ok_def by blast
  then obtain n where n: "lq_mem q t = Some n" by blast
  let ?m = "(lq_mem q)(t \<mapsto> n\<lparr>nd_next := a\<rparr>)"
  have "links_ok ?m ?ps L"
    using list by (intro links_join [OF links assms(2)]) (auto simp: list_ok_def next_at_def)
  moreover have "owners_ok es ?m ?ps L"
  proof (rule owners_okI)
    show "dom ?m = set L \<union> {a. \<exists>j. own (?ps j) = Some a}"
      unfolding owned_upd using owners owned_split [of ps i] assms(2) t unfolding owners_ok_def by auto
    show "pushing (es j) (?ps j)" for j by (rule pushing_upd [OF owners]) simp
  next
    fix j b assume j: "own (?ps j) = Some b"
    then have b: "own (ps j) = Some b" by (auto split: if_splits)
    then have "b \<noteq> t" using ownerD(2) [OF owners b] t by blast
    then show "?m b = Some \<lparr>nd_entity = Some (es j), nd_next = 0\<rparr> \<and> b \<notin> set L \<and> b \<noteq> 0 \<and>
        (\<forall>k. own (?ps k) = Some b \<longrightarrow> k = j)"
      using owner_keep [OF owners b, of "Pushed True" i] by simp
  qed
  moreover have "map (entity_at ?m) (tl L) = map (entity_at (lq_mem q)) (tl L)"
    using n by (auto simp: entity_at_def)
  moreover have "{j. committed (?ps j)} = {j. committed (ps j)}" using assms(2) by auto
  ultimately have "shape es xs (node_put t (Some (n\<lparr>nd_next := a\<rparr>)) q) ?ps L cs"
    using list cs unfolding shape_def list_ok_def node_put_def by (simp del: map_eq_conv)
  then show ?thesis using that n by blast
qed

lemma undo_step:
  assumes "shape es xs q ps L cs" "ps i = Push_Undo a"
  shows "shape es xs (node_put a None (q\<lparr>lq_size := s\<rparr>)) (ps(i := Pushed False)) L cs"
proof -
  let ?m = "(lq_mem q)(a := None)" and ?ps = "ps(i := Pushed False)"
  have list: "list_ok es xs q L cs" and links: "links_ok (lq_mem q) ps L" and owners: "owners_ok es (lq_mem q) ps L"
    and cs: "distinct cs" "set cs = {i. committed (ps i)}"
    using assms(1) by (simp_all add: shape_def)
  have own: "own (ps i) = Some a" using assms(2) by simp
  have a: "a \<notin> set L" by (rule ownerD(2) [OF owners own])
  have "links_ok ?m ?ps L"
  proof -
    have "next_at ?m x = next_at (lq_mem q) x" if "x \<in> set L" for x using a that by (auto simp: next_at_def)
    moreover have "?ps j = Push_Link b t \<longleftrightarrow> ps j = Push_Link b t" for j b t using assms(2) by auto
    moreover have "L \<noteq> []" using list by (simp add: list_ok_def)
    ultimately show ?thesis using links links_cong by blast
  qed
  moreover have "owners_ok es ?m ?ps L"
  proof (rule owners_okI)
    have "a \<notin> {b. \<exists>j. j \<noteq> i \<and> own (ps j) = Some b}" using ownerD(4) [OF owners own] by blast
    then show "dom ?m = set L \<union> {a. \<exists>j. own (?ps j) = Some a}"
      unfolding owned_upd using owners owned_split [of ps i] assms(2) a unfolding owners_ok_def by auto
    show "pushing (es j) (?ps j)" for j by (rule pushing_upd [OF owners]) simp
  next
    fix j b assume j: "own (?ps j) = Some b"
    then have b: "j \<noteq> i" "own (ps j) = Some b" by (auto split: if_splits)
    then have "b \<noteq> a" using ownerD(4) [OF owners own] by blast
    then show "?m b = Some \<lparr>nd_entity = Some (es j), nd_next = 0\<rparr> \<and> b \<notin> set L \<and> b \<noteq> 0 \<and>
        (\<forall>k. own (?ps k) = Some b \<longrightarrow> k = j)"
      using owner_keep [OF owners b(2), of "Pushed False" i] by simp
  qed
  moreover have "map (entity_at ?m) (tl L) = map (entity_at (lq_mem q)) (tl L)"
    using a list.set_sel(2) [of L] by (cases L) (auto simp: entity_at_def)
  moreover have "{j. committed (?ps j)} = {j. committed (ps j)}" using assms(2) by auto
  ultimately show ?thesis
    using list cs unfolding shape_def list_ok_def node_put_def by (simp del: map_eq_conv)
qed

lemma count_upd:
  fixes ps :: "nat \<Rightarrow> 'b pc"
  assumes "finite {i. ps i \<noteq> Idle}"
  shows "card {j. counted ((ps(i := p)) j)} + (if counted (ps i) then 1 else 0) =
    card {j. counted (ps j)} + (if counted p then 1 else 0)"
proof -
  have "{j. counted (ps j)} \<subseteq> {i. ps i \<noteq> Idle}" by auto
  then have fin: "finite {j. j \<noteq> i \<and> counted (ps j)}" using assms by (auto elim: rev_finite_subset)
  have "{j. counted (f j)} = (if counted (f i) then insert i {j. j \<noteq> i \<and> counted (f j)} else {j. j \<noteq> i \<and> counted (f j)})"
    for f :: "nat \<Rightarrow> 'b pc" by auto
  from this [of ps] this [of "ps(i := p)"]
  have "card {j. counted (ps j)} = card {j. j \<noteq> i \<and> counted (ps j)} + (if counted (ps i) then 1 else 0)"
    "card {j. counted ((ps(i := p)) j)} = card {j. j \<noteq> i \<and> counted ((ps(i := p)) j)} + (if counted p then 1 else 0)"
    using fin by (auto cong: conj_cong)
  moreover have "{j. j \<noteq> i \<and> counted ((ps(i := p)) j)} = {j. j \<noteq> i \<and> counted (ps j)}" by auto
  ultimately show ?thesis by simp
qed

lemma finite_upd: "finite {i. ps i \<noteq> Idle} \<Longrightarrow> finite {j. (ps(i := p)) j \<noteq> Idle}"
  by (rule finite_subset [of _ "insert i {i. ps i \<noteq> Idle}"]) auto

lemma count_quiet:
  assumes "count_ok l n q ps" "counted p = counted (ps i)" "lq_size q' = lq_size q" "lq_max q' = lq_max q"
  shows "count_ok l n q' (ps(i := p))"
  using assms count_upd [of ps i p] finite_upd [of ps i p] unfolding count_ok_def by (auto split: if_splits)

lemma count_up:
  assumes "count_ok l n q ps" "\<not> counted (ps i)" "counted p" "lq_size q < lq_max q"
  shows "count_ok l n (q\<lparr>lq_size := lq_size q + 1\<rparr>) (ps(i := p))"
proof -
  let ?c = "card {j. counted (ps j)}"
  have c: "card {j. counted ((ps(i := p)) j)} = Suc ?c"
    using count_upd [of ps i p] assms by (simp add: count_ok_def)
  have "length (replicate (l + ?c) ()) \<le> unat n" "of_nat (l + ?c) < n"
    using assms(1,4) by (simp_all add: count_ok_def)
  then have "l + ?c < unat n" using of_nat_less_max [of "replicate (l + ?c) ()" n] by simp
  then show ?thesis using assms(1) finite_upd [of ps i p] c by (simp add: count_ok_def)
qed

lemma count_down:
  assumes "count_ok l n q ps" "counted (ps i)" "\<not> counted p"
  shows "count_ok l n (node_put a None (q\<lparr>lq_size := lq_size q - 1\<rparr>)) (ps(i := p))"
proof -
  have "card {j. counted (ps j)} = Suc (card {j. counted ((ps(i := p)) j)})"
    using count_upd [of ps i p] assms by (simp add: count_ok_def)
  then show ?thesis using assms(1) finite_upd [of ps i p] by (simp add: count_ok_def node_put_def)
qed

definition push_inv :: "(nat \<Rightarrow> 'a) \<Rightarrow> 'a list \<Rightarrow> u64 \<Rightarrow> 'a lf_queue \<times> (nat \<Rightarrow> 'a pc) \<Rightarrow> bool" where
  "push_inv es xs n s \<longleftrightarrow> (\<exists>L cs. shape es xs (fst s) (snd s) L cs) \<and> count_ok (length xs) n (fst s) (snd s)"

lemma inv_quiet:
  assumes "push_inv es xs n (q, ps)" "own p = own (ps i)" "committed p = committed (ps i)" "pushing (es i) p"
    and "counted p = counted (ps i)" "\<And>a t. p \<noteq> Push_Link a t" "\<And>a t. ps i \<noteq> Push_Link a t"
  shows "push_inv es xs n (q, ps(i := p))"
  using assms quiet_step [of es xs q ps _ _ q p i] count_quiet [of "length xs" n q ps p i q]
  unfolding push_inv_def fst_conv snd_conv by blast

lemma inv_counted:
  assumes "push_inv es xs n (q, ps)" "ps i = Push_Sized e (lq_size q)" "lq_size q < lq_max q" "e = es i"
  shows "push_inv es xs n (q\<lparr>lq_size := lq_size q + 1\<rparr>, ps(i := Push_Counted e))"
  using assms quiet_step [of es xs q ps _ _ "q\<lparr>lq_size := lq_size q + 1\<rparr>" "Push_Counted e" i]
    count_up [of "length xs" n q ps i "Push_Counted e"]
  unfolding push_inv_def by fastforce

lemma inv_make:
  assumes "push_inv es xs n (q, ps)" "ps i = Push_Counted e" "lq_mem q a = None" "a \<noteq> 0"
  shows "push_inv es xs n (node_put a (Some (Node_new\<lparr>nd_entity := Some e\<rparr>)) q, ps(i := Push_Made a))"
proof -
  obtain L cs where sh: "shape es xs q ps L cs" and co: "count_ok (length xs) n q ps"
    using assms(1) by (auto simp: push_inv_def)
  show ?thesis using make_step [OF sh assms(2-4)] count_quiet [OF co, of "Push_Made a" i] assms(2)
    unfolding push_inv_def by (auto simp: node_put_def)
qed

lemma inv_tail:
  assumes "push_inv es xs n (q, ps)" "ps i = Push_Tail a t" "lq_tail q = t"
  shows "push_inv es xs n (q\<lparr>lq_tail := a\<rparr>, ps(i := Push_Link a t))"
proof -
  obtain L cs where sh: "shape es xs q ps L cs" and co: "count_ok (length xs) n q ps"
    using assms(1) by (auto simp: push_inv_def)
  show ?thesis using tail_step [OF sh assms(2,3)] count_quiet [OF co, of "Push_Link a t" i "q\<lparr>lq_tail := a\<rparr>"] assms(2)
    unfolding push_inv_def by auto
qed

lemma inv_link:
  assumes "push_inv es xs n (q, ps)" "ps i = Push_Link a t"
  obtains m where "lq_mem q t = Some m"
    "push_inv es xs n (node_put t (Some (m\<lparr>nd_next := a\<rparr>)) q, ps(i := Pushed True))"
proof -
  obtain L cs where sh: "shape es xs q ps L cs" and co: "count_ok (length xs) n q ps"
    using assms(1) by (auto simp: push_inv_def)
  obtain m where m: "lq_mem q t = Some m" "shape es xs (node_put t (Some (m\<lparr>nd_next := a\<rparr>)) q) (ps(i := Pushed True)) L cs"
    by (rule link_step [OF sh assms(2)])
  moreover have "count_ok (length xs) n (node_put t (Some (m\<lparr>nd_next := a\<rparr>)) q) (ps(i := Pushed True))"
    using assms(2) by (intro count_quiet [OF co]) (simp_all add: node_put_def)
  ultimately have "push_inv es xs n (node_put t (Some (m\<lparr>nd_next := a\<rparr>)) q, ps(i := Pushed True))"
    unfolding push_inv_def fst_conv snd_conv by blast
  then show ?thesis by (rule that [OF m(1)])
qed

lemma inv_undo:
  assumes "push_inv es xs n (q, ps)" "ps i = Push_Undo a"
  shows "push_inv es xs n (node_put a None (q\<lparr>lq_size := lq_size q - 1\<rparr>), ps(i := Pushed False))"
  using assms undo_step [of es xs q ps _ _ i a "lq_size q - 1"] count_down [of "length xs" n q ps i "Pushed False" a]
  unfolding push_inv_def by fastforce

lemma push_inv_step:
  assumes "push_inv es xs n (q, ps)" "lq_step (q, ps) s"
  shows "push_inv es xs n s"
proof -
  obtain a i q' p where st: "lq_mem q a = None" "a \<noteq> 0" "lq_exec (\<lambda>_. a) (q, ps i) = (q', p)" "s = (q', ps(i := p))"
    using assms(2) by (auto elim: lq_stepE)
  have push: "pushing (es i) (ps i)" using assms(1) by (auto simp: push_inv_def shape_def owners_ok_def)
  have "push_inv es xs n (q', ps(i := p))"
  proof (cases "ps i")
    case (Push_Sized e z)
    then show ?thesis using st push inv_quiet [OF assms(1), of "Pushed False" i] inv_counted [OF assms(1), of i e]
      by (auto split: if_splits)
  next
    case (Push_Counted e)
    then show ?thesis using st inv_make [OF assms(1) Push_Counted st(1,2)] by (auto simp: Let_def)
  next
    case (Push_Tail b t)
    then show ?thesis using st inv_tail [OF assms(1) Push_Tail] inv_quiet [OF assms(1), of "Push_Undo b" i]
      by (auto split: if_splits)
  next
    case (Push_Link b t)
    obtain m where "lq_mem q t = Some m"
      "push_inv es xs n (node_put t (Some (m\<lparr>nd_next := b\<rparr>)) q, ps(i := Pushed True))"
      by (rule inv_link [OF assms(1) Push_Link])
    then show ?thesis using st Push_Link by auto
  next
    case (Push_Undo b)
    then show ?thesis using st inv_undo [OF assms(1) Push_Undo] by auto
  next
    case (Pushed b)
    then have "q' = q" "p = ps i" using st(3) by auto
    then show ?thesis using assms(1) by simp
  qed (use push st inv_quiet [OF assms(1), of p i] in auto)
  then show ?thesis using st(4) by simp
qed

lemma push_inv_steps: "lq_steps s s' \<Longrightarrow> push_inv es xs n s \<Longrightarrow> push_inv es xs n s'"
  by (induction rule: rtranclp_induct) (auto intro: push_inv_step)

lemma idle_steps: "lq_steps s s' \<Longrightarrow> snd s i = Idle \<Longrightarrow> snd s' i = Idle"
  by (induction rule: rtranclp_induct) (auto elim!: lq_step.cases)

lemma chain_links:
  "chain m h as \<Longrightarrow> next_at m (last (h # as)) = 0 \<and>
    (\<forall>k. Suc k < length (h # as) \<longrightarrow> next_at m ((h # as) ! k) = (h # as) ! Suc k)"
  by (induction m h as rule: chain.induct) (auto simp: next_at_def nth_Cons split: nat.splits)

lemma links_chain:
  assumes "next_at m (last (h # as)) = 0" "set (h # as) \<subseteq> dom m" "0 \<notin> set as"
    and "\<forall>k. Suc k < length (h # as) \<longrightarrow> next_at m ((h # as) ! k) = (h # as) ! Suc k"
  shows "chain m h as"
  using assms
proof (induction as arbitrary: h)
  case Nil
  then show ?case by (auto simp: next_at_def)
next
  case (Cons b bs)
  have "next_at m h = b" using Cons.prems(4) [rule_format, of 0] by simp
  moreover have "chain m b bs"
  proof (rule Cons.IH)
    show "\<forall>k. Suc k < length (b # bs) \<longrightarrow> next_at m ((b # bs) ! k) = (b # bs) ! Suc k"
      using Cons.prems(4) by (auto dest: spec [of _ "Suc _"])
  qed (use Cons.prems in auto)
  ultimately show ?case using Cons.prems(2,3) by (auto simp: next_at_def)
qed

text \<open>At rest, the nodes form the list of a queue.\<close>

lemma shape_done:
  assumes "shape es xs q ps L cs" "\<forall>i. ps i = Idle \<or> (\<exists>b. ps i = Pushed b)"
  shows "lq_nodes q (tl L) (xs @ map es cs)" "dom (lq_mem q) = set (lq_head q # tl L)" "hd L = lq_head q"
proof -
  have list: "list_ok es xs q L cs" and links: "links_ok (lq_mem q) ps L" and owners: "owners_ok es (lq_mem q) ps L"
    using assms(1) by (simp_all add: shape_def)
  have none: "ps i \<noteq> Push_Link a t" "own (ps i) = None" for i a t using assms(2) [rule_format, of i] by auto
  obtain h as where L: "L = h # as" "h = lq_head q" using list by (cases L) (auto simp: list_ok_def)
  have dom: "dom (lq_mem q) = set (h # as)" using owners none(2) L unfolding owners_ok_def by auto
  have "chain (lq_mem q) h as"
  proof (rule links_chain)
    show "next_at (lq_mem q) (last (h # as)) = 0" using links L(1) by (simp add: links_ok_def)
    show "\<forall>k. Suc k < length (h # as) \<longrightarrow> next_at (lq_mem q) ((h # as) ! k) = (h # as) ! Suc k"
      using links none(1) unfolding links_ok_def L(1) by blast
    show "set (h # as) \<subseteq> dom (lq_mem q)" "0 \<notin> set as" using dom list L by (auto simp: list_ok_def)
  qed
  then show "lq_nodes q (tl L) (xs @ map es cs)"
    using list L unfolding lq_nodes_def list_ok_def by auto
  show "dom (lq_mem q) = set (lq_head q # tl L)" "hd L = lq_head q" using dom L by simp_all
qed

lemma push_inv_start:
  assumes "lq_rep n q xs"
  shows "push_inv es xs n (q, \<lambda>i. if i < k then Push_Call (es i) else Idle)"
proof -
  let ?ps = "\<lambda>i. if i < k then Push_Call (es i) else Idle"
  obtain as where as: "lq_nodes q as xs" "dom (lq_mem q) = set (lq_head q # as)" and q: "lq_max q = n"
    "length xs \<le> unat n" "lq_size q = of_nat (length xs)"
    using assms by (auto simp: lq_rep_def)

  have none: "own (?ps i) = None" "\<not> committed (?ps i)" "?ps i \<noteq> Push_Link a t" for i a t by simp_all
  have "links_ok (lq_mem q) ?ps (lq_head q # as)"
    using chain_links [of "lq_mem q" "lq_head q" as] as(1) none(3) unfolding links_ok_def lq_nodes_def by blast
  moreover have "owners_ok es (lq_mem q) ?ps (lq_head q # as)"
    using as(2) none(1) by (intro owners_okI) simp_all
  moreover have "list_ok es xs q (lq_head q # as) []"
    using as(1) chain_0 [of "lq_mem q" "lq_head q" as] by (auto simp: list_ok_def lq_nodes_def)
  ultimately have "shape es xs q ?ps (lq_head q # as) []" unfolding shape_def by auto
  moreover have "count_ok (length xs) n q ?ps"
    using q finite_subset [of "{i. ?ps i \<noteq> Idle}" "{..<k}"] by (auto simp: count_ok_def split: if_splits)
  ultimately show ?thesis unfolding push_inv_def by auto
qed

text \<open>
  C6: any number of threads may call \<open>Push\<close> on a queue at the same time: no thread touches a
  deleted node, and when all calls have returned the queue holds what it held before and behind
  it, in some order, exactly the elements of the calls that returned true, within its capacity.
\<close>

theorem lq_concurrent_push:
  assumes "lq_rep n q xs" "lq_steps (q, \<lambda>i. if i < k then Push_Call (es i) else Idle) (q', ps)"
  shows "(\<forall>i. ps i \<noteq> Fault) \<and>
    ((\<forall>i < k. \<exists>b. ps i = Pushed b) \<longrightarrow>
      (\<exists>cs. distinct cs \<and> set cs = {i. ps i = Pushed True} \<and> lq_rep n q' (xs @ map es cs)))"
proof -
  have inv: "push_inv es xs n (q', ps)"
    by (rule push_inv_steps [OF assms(2) push_inv_start [OF assms(1)]])
  then obtain L cs where sh: "shape es xs q' ps L cs" and co: "count_ok (length xs) n q' ps" by (auto simp: push_inv_def)
  have "ps i \<noteq> Fault" for i
  proof
    assume "ps i = Fault"
    moreover have "pushing (es i) (ps i)" using sh by (simp add: shape_def owners_ok_def)
    ultimately show False by simp
  qed
  moreover have "\<exists>cs. distinct cs \<and> set cs = {i. ps i = Pushed True} \<and> lq_rep n q' (xs @ map es cs)"
    if "\<forall>i < k. \<exists>b. ps i = Pushed b"
  proof -
    have "\<not> i < k \<Longrightarrow> ps i = Idle" for i using idle_steps [OF assms(2), of i] by simp
    then have fin: "\<forall>i. ps i = Idle \<or> (\<exists>b. ps i = Pushed b)" using that by blast
    have eq: "counted (ps i) \<longleftrightarrow> ps i = Pushed True" "committed (ps i) \<longleftrightarrow> ps i = Pushed True" for i
      using fin [rule_format, of i] by auto
    have cs: "distinct cs" "set cs = {i. ps i = Pushed True}" using sh eq(2) by (auto simp: shape_def)
    have "card {i. counted (ps i)} = length cs" unfolding eq(1) cs(2) [symmetric] by (rule distinct_card [OF cs(1)])
    then have "lq_rep n q' (xs @ map es cs)" using shape_done [OF sh fin] co unfolding lq_rep_def count_ok_def by auto
    then show ?thesis using cs by blast
  qed
  ultimately show ?thesis by blast
qed

text \<open>A schedule: the thread of each step and the address a new node would get.\<close>

fun run_threads ::
  "(nat \<times> nat) list \<Rightarrow> 'a lf_queue \<times> (nat \<Rightarrow> 'a pc) \<Rightarrow> ('a lf_queue \<times> (nat \<Rightarrow> 'a pc)) option" where
  "run_threads [] s = Some s"
| "run_threads ((i, a) # sched) (q, ps) =
     (if lq_mem q a \<noteq> None \<or> a = 0 then None
      else case lq_exec (\<lambda>_. a) (q, ps i) of (q', p) \<Rightarrow> run_threads sched (q', ps(i := p)))"

lemma run_threads_steps: "run_threads sched s = Some s' \<Longrightarrow> lq_steps s s'"
proof (induction sched s rule: run_threads.induct)
  case (2 i a sched q ps)
  then have "lq_step (q, ps) (case lq_exec (\<lambda>_. a) (q, ps i) of (q', p) \<Rightarrow> (q', ps(i := p)))"
    by (cases "lq_exec (\<lambda>_. a) (q, ps i)") (auto intro: lq_step.intros split: if_splits)
  moreover have "lq_steps (case lq_exec (\<lambda>_. a) (q, ps i) of (q', p) \<Rightarrow> (q', ps(i := p))) s'"
    using 2 by (cases "lq_exec (\<lambda>_. a) (q, ps i)") (auto split: if_splits)
  ultimately show ?case by (rule converse_rtranclp_into_rtranclp)
qed auto

text \<open>
  Two threads push at once; the second reads the tail before the first moves it, and fails.
\<close>

definition demo_pushes :: "nat \<Rightarrow> int pc" where
  "demo_pushes = (\<lambda>i. if i < 2 then Push_Call (int i + 7) else Idle)"

definition demo_schedule :: "(nat \<times> nat) list" where
  "demo_schedule = [(0, 9), (0, 9), (1, 9), (1, 9), (0, 2), (1, 3), (0, 9), (1, 9), (0, 9), (1, 9), (1, 9), (0, 9)]"

lemma demo_run:
  "\<exists>q ps. run_threads demo_schedule (lq_new 1 4, demo_pushes) = Some (q, ps) \<and>
     ps 0 = Pushed True \<and> ps 1 = Pushed False \<and> (\<forall>i. 2 \<le> i \<longrightarrow> ps i = Idle)"
  by (simp add: demo_schedule_def demo_pushes_def lq_new_def node_put_def Node_new_def Let_def)

theorem lq_concurrent_push_witness:
  "\<exists>q ps. lq_steps (lq_new 1 4, demo_pushes) (q, ps) \<and> lq_rep 4 q [7]"
proof -
  obtain q ps where r: "run_threads demo_schedule (lq_new 1 4, demo_pushes) = Some (q, ps)"
    "ps 0 = Pushed True" "ps 1 = Pushed False" "\<forall>i. 2 \<le> i \<longrightarrow> ps i = Idle" using demo_run by blast
  have st: "lq_steps (lq_new 1 4, demo_pushes) (q, ps)" by (rule run_threads_steps [OF r(1)])
  have "i < 2 \<longleftrightarrow> i = 0 \<or> i = 1" for i :: nat by auto
  then have "\<forall>i < 2. \<exists>b. ps i = Pushed b" using r by auto
  then obtain cs where cs: "distinct cs" "set cs = {i. ps i = Pushed True}" "lq_rep 4 q ([] @ map (\<lambda>i. int i + 7) cs)"
    using lq_concurrent_push [of 4 "lq_new 1 4" "[]" 2 "\<lambda>i. int i + 7" q ps] st lq_rep_new [of 1 4]
    unfolding demo_pushes_def by auto
  have "ps i = Pushed True \<longleftrightarrow> i = 0" for i using r(2-4) by (cases "2 \<le> i") (auto simp: not_le numeral_2_eq_2 less_Suc_eq)
  then have "set cs = {0}" using cs(2) by auto
  then have "cs = [0]" using cs(1) distinct_card [OF cs(1)] by (cases cs; cases "tl cs") auto
  then show ?thesis using cs(3) st by auto
qed

subsection \<open>A pop against a push\<close>

text \<open>
  C32: one thread that pushes and one that pops are enough to corrupt the queue.  The pop counts
  itself in while the push has moved the tail and not yet set the link; it finds no successor and
  leaves the head where it is, but when it looks again the link is there, so it takes the element
  and deletes the node that is still the head.  Both calls return true; the next push succeeds
  and the next pop reads the deleted node.
\<close>

theorem lq_pop_race:
  "\<exists>q1 ps1 q2 ps2 q3 ps3.
     lq_steps (lq_new 1 2, (\<lambda>_. Idle)(0 := Push_Call x, 1 := Pop_Call)) (q1, ps1) \<and>
       ps1 0 = Pushed True \<and> ps1 1 = Popped (Some x) \<and>
     lq_steps (q1, (\<lambda>_. Idle)(0 := Push_Call y)) (q2, ps2) \<and> ps2 0 = Pushed True \<and>
     lq_steps (q2, (\<lambda>_. Idle)(1 := Pop_Call)) (q3, ps3) \<and> ps3 1 = Fault"
proof -
  have "\<exists>q1 ps1 q2 ps2 q3 ps3.
     run_threads [(0, 9), (0, 9), (0, 2), (0, 9), (0, 9), (1, 9), (1, 9), (1, 9), (1, 9), (1, 9), (1, 9),
       (0, 9), (1, 9), (1, 9), (1, 9)] (lq_new 1 2, (\<lambda>_. Idle)(0 := Push_Call x, 1 := Pop_Call)) = Some (q1, ps1) \<and>
       ps1 0 = Pushed True \<and> ps1 1 = Popped (Some x) \<and>
     run_threads [(0, 9), (0, 9), (0, 3), (0, 9), (0, 9), (0, 9)]
       (q1, (\<lambda>_. Idle)(0 := Push_Call y)) = Some (q2, ps2) \<and> ps2 0 = Pushed True \<and>
     run_threads [(1, 9), (1, 9), (1, 9), (1, 9)] (q2, (\<lambda>_. Idle)(1 := Pop_Call)) = Some (q3, ps3) \<and> ps3 1 = Fault"
    by (simp add: lq_new_def node_put_def Node_new_def Let_def)
  then show ?thesis using run_threads_steps by blast
qed

end
