(* ===== verification/Task_Names.thy ===== *)
theory Task_Names
  imports Lock_Free_Queue
begin

text \<open>
  \<open>TaskUnion\<close> of src/kernel/common/concurrency/thread_pool.h, the element of a worker's queue: a task and a name.
  Both of its assignments copy the task only.  The queue assigns an element twice on its way, into the
  node of \<open>Push\<close> and into the caller's variable of \<open>Pop\<close>, so that the names do not arrive.
\<close>

record 'c task_union =
  tu_task :: "'c option"
  tu_name :: string

definition TaskUnion_new :: "'c task_union" where
  "TaskUnion_new = \<lparr>tu_task = None, tu_name = ''''\<rparr>"

definition TaskUnion_task :: "'c \<Rightarrow> 'c task_union" where
  "TaskUnion_task t = \<lparr>tu_task = Some t, tu_name = ''''\<rparr>"

definition TaskUnion_named :: "'c \<Rightarrow> string \<Rightarrow> 'c task_union" where
  "TaskUnion_named t n = \<lparr>tu_task = Some t, tu_name = n\<rparr>"

text \<open>\<open>operator=\<close>, from \<open>t\<close> to \<open>u\<close>; the move and the copy leave the same in \<open>u\<close>.\<close>

definition tu_assign :: "'c task_union \<Rightarrow> 'c task_union \<Rightarrow> 'c task_union" where
  "tu_assign t u = u\<lparr>tu_task := tu_task t\<rparr>"

text \<open>\<open>Push\<close> assigns to the element of a new node, \<open>Pop\<close> to the variable the worker hands over.\<close>

definition task_push ::
  "((nat \<Rightarrow> 'c task_union node option) \<Rightarrow> nat) \<Rightarrow> 'c task_union lf_queue \<Rightarrow> 'c task_union \<Rightarrow> bool \<times> 'c task_union lf_queue" where
  "task_push new q t = queue_push new q (tu_assign t TaskUnion_new)"

definition task_pop ::
  "((nat \<Rightarrow> 'c task_union node option) \<Rightarrow> nat) \<Rightarrow> 'c task_union lf_queue \<Rightarrow> 'c task_union \<Rightarrow>
   bool \<times> 'c task_union \<times> 'c task_union lf_queue" where
  "task_pop new q out =
     (case queue_pop new q of (None, q') \<Rightarrow> (False, out, q') | (Some t, q') \<Rightarrow> (True, tu_assign t out, q'))"

text \<open>Adding named tasks one after the other, and taking them out into one variable as a worker does.\<close>

fun push_all ::
  "((nat \<Rightarrow> 'c task_union node option) \<Rightarrow> nat) \<Rightarrow> 'c task_union lf_queue \<Rightarrow> 'c task_union list \<Rightarrow> 'c task_union lf_queue" where
  "push_all new q [] = q"
| "push_all new q (t # ts) = push_all new (snd (task_push new q t)) ts"

fun pop_all ::
  "((nat \<Rightarrow> 'c task_union node option) \<Rightarrow> nat) \<Rightarrow> nat \<Rightarrow> 'c task_union lf_queue \<Rightarrow> 'c task_union \<Rightarrow> 'c task_union list" where
  "pop_all new 0 q out = []"
| "pop_all new (Suc n) q out =
     (case task_pop new q out of (ok, out', q') \<Rightarrow> (if ok then out' # pop_all new n q' out' else []))"

lemma push_all_rep:
  assumes "node_allocator new" "lq_rep n q xs" "length xs + length ts \<le> unat n"
  shows "lq_rep n (push_all new q ts) (xs @ map (\<lambda>t. tu_assign t TaskUnion_new) ts)"
  using assms(2-)
proof (induction ts arbitrary: q xs)
  case (Cons t ts)
  then have "lq_rep n (snd (task_push new q t)) (xs @ [tu_assign t TaskUnion_new])"
    using bounded_fifo.push_room [OF node_allocator.contract [OF assms(1)] Cons.prems(1)] by (simp add: task_push_def)
  from Cons.IH [OF this] Cons.prems(2) show ?case by simp
qed simp

lemma pop_all_rep:
  assumes "node_allocator new" "lq_rep n q xs"
  shows "pop_all new (length xs) q out = map (\<lambda>t. tu_assign t out) xs"
  using assms(2-)
proof (induction xs arbitrary: q out)
  case (Cons t xs)
  obtain q' where q': "queue_pop new q = (Some t, q')" "lq_rep n q' xs"
    using bounded_fifo.pop_first [OF node_allocator.contract [OF assms(1)] Cons.prems] by (cases "queue_pop new q") auto
  then show ?case using Cons.IH [OF q'(2)] by (simp add: task_pop_def tu_assign_def)
qed simp

text \<open>
  Names are lost: whatever named tasks are added to a new queue with room for them, a worker takes them
  out in order, and each has the name of the worker's own variable, which is empty.
\<close>

theorem task_names_lost:
  assumes "\<forall>m. finite (dom m) \<longrightarrow> new m \<noteq> 0 \<and> m (new m) = None" "a \<noteq> 0" "length ts \<le> unat n"
  shows "pop_all new (length ts) (push_all new (lq_new a n) (map (\<lambda>(t, name). TaskUnion_named t name) ts)) TaskUnion_new =
    map (\<lambda>(t, name). TaskUnion_task t) ts"
proof -
  have new: "node_allocator new" using assms(1) by unfold_locales auto
  have "lq_rep n (push_all new (lq_new a n) (map (\<lambda>(t, name). TaskUnion_named t name) ts))
      (map (\<lambda>(t, name). TaskUnion_task t) ts)"
    using push_all_rep [OF new lq_rep_new [OF assms(2)], of "map (\<lambda>(t, name). TaskUnion_named t name) ts" n] assms(3)
    by (simp add: comp_def case_prod_beta' tu_assign_def TaskUnion_named_def TaskUnion_new_def TaskUnion_task_def)
  from pop_all_rep [OF new this, of TaskUnion_new] show ?thesis
    by (simp add: comp_def case_prod_beta' tu_assign_def TaskUnion_new_def TaskUnion_task_def)
qed

theorem task_names_lost_witness:
  "pop_all least_free 2 (push_all least_free (lq_new 1 2) [TaskUnion_named (7::int) ''load'', TaskUnion_named 8 ''dump''])
     TaskUnion_new = [TaskUnion_task 7, TaskUnion_task 8]"
proof -
  let ?ts = "[(7::int, ''load''), (8, ''dump'')]"
  have "length ?ts \<le> unat (2 :: u64)" by simp
  then have "pop_all least_free (length ?ts) (push_all least_free (lq_new 1 2) (map (\<lambda>(t, name). TaskUnion_named t name) ?ts))
      TaskUnion_new = map (\<lambda>(t, name). TaskUnion_task t) ?ts"
    using task_names_lost [of least_free 1 ?ts 2] least_free_ok by (metis neq0_conv one_neq_zero)
  then show ?thesis by (simp add: numeral_2_eq_2 del: pop_all.simps push_all.simps)
qed

end
