(* ===== verification/Thread_Pool.thy ===== *)
theory Thread_Pool
  imports Lock_Free_Queue
begin

text \<open>
  The worker threads (kernel/common/concurrency/thread_pool.h, thread_pool.cc): each worker has a
  queue of its own; \<open>AddTask\<close> deals the tasks out in turn.  A worker is a program counter; the
  queue operations run under the queue's mutex, so each is one step.  Memory of the queues'
  nodes is separate per queue.  What happens is kept as a list of events.
\<close>

section \<open>The pool\<close>

text \<open>
  A worker waits on its condition, is woken, has seen a task, fetches, runs a task, has returned,
  is joined.
\<close>

datatype 'a worker = Waiting | Woken | Seen | Fetching | Running 'a | Exited | Joined | Crashed

record 'a thread_pool =
  tp_worker_size :: nat
  tp_queue_size :: u64
  tp_status :: int
  tp_counter :: u64
  tp_srcs :: "'a lf_queue list"
  tp_workers :: "(nat \<times> 'a worker) list"  \<comment> \<open>the queue a thread was started on, and where it is\<close>

definition ThreadPool_new :: "nat \<Rightarrow> u64 \<Rightarrow> 'a thread_pool" where
  "ThreadPool_new worker_size queue_size =
     \<lparr>tp_worker_size = worker_size, tp_queue_size = queue_size, tp_status = 0, tp_counter = 0,
      tp_srcs = [], tp_workers = []\<rparr>"

definition tp_Start :: "'a thread_pool \<Rightarrow> 'a thread_pool" where
  "tp_Start t =
     (if tp_status t \<noteq> 0 then t
      else t\<lparr>tp_status := 1,
             tp_srcs := tp_srcs t @ replicate (tp_worker_size t) (lq_new 1 (tp_queue_size t)),
             tp_workers := tp_workers t @ map (\<lambda>i. (i, Waiting)) [0..<tp_worker_size t]\<rparr>)"

text \<open>\<open>Stop\<close> clears the status and wakes the workers, then joins them in turn.\<close>

definition tp_Stop :: "'a thread_pool \<Rightarrow> 'a thread_pool" where
  "tp_Stop t = (if tp_status t \<noteq> 1 then t else t\<lparr>tp_status := 0\<rparr>)"

datatype 'a join_result = Blocks | Throws | Returns "'a thread_pool"

fun tp_join :: "nat list \<Rightarrow> 'a thread_pool \<Rightarrow> 'a join_result" where
  "tp_join [] t = Returns t"
| "tp_join (i # is) t =
     (case snd (tp_workers t ! i) of
        Joined \<Rightarrow> Throws
      | Exited \<Rightarrow> tp_join is (t\<lparr>tp_workers := (tp_workers t)[i := (fst (tp_workers t ! i), Joined)]\<rparr>)
      | _ \<Rightarrow> Blocks)"

text \<open>
  \<open>AddTask\<close>: the status is read without the lock; the rest is under the lock of the queue.  None:
  a division by zero.  The answer is the queue's number with what \<open>Push\<close> answered.
\<close>

definition tp_accepts :: "'a thread_pool \<Rightarrow> bool" where
  "tp_accepts t \<longleftrightarrow> tp_status t \<noteq> 0"

definition tp_enqueue ::
  "((nat \<Rightarrow> 'a node option) \<Rightarrow> nat) \<Rightarrow> 'a thread_pool \<Rightarrow> 'a \<Rightarrow> ((nat \<times> bool) \<times> 'a thread_pool) option" where
  "tp_enqueue new t task =
     (if tp_srcs t = [] then None
      else
        let c = unat (tp_counter t) mod length (tp_srcs t) in
        (case queue_push new (tp_srcs t ! c) task of
           (ok, q) \<Rightarrow>
             Some ((c, ok), t\<lparr>tp_counter := tp_counter t + 1, tp_srcs := (tp_srcs t)[c := q]\<rparr>)))"

definition tp_AddTask ::
  "((nat \<Rightarrow> 'a node option) \<Rightarrow> nat) \<Rightarrow> 'a thread_pool \<Rightarrow> 'a \<Rightarrow> (bool \<times> 'a thread_pool) option" where
  "tp_AddTask new t task =
     (if \<not> tp_accepts t then Some (False, t)
      else map_option (\<lambda>((c, ok), t'). (ok, t')) (tp_enqueue new t task))"

text \<open>A step of \<open>ThreadBody\<close>; a task that is run is part of the result.\<close>

definition tp_goto :: "nat \<Rightarrow> 'a worker \<Rightarrow> 'a thread_pool \<Rightarrow> 'a thread_pool" where
  "tp_goto i p t = t\<lparr>tp_workers := (tp_workers t)[i := (fst (tp_workers t ! i), p)]\<rparr>"

definition tp_work ::
  "((nat \<Rightarrow> 'a node option) \<Rightarrow> nat) \<Rightarrow> 'a thread_pool \<Rightarrow> nat \<Rightarrow> 'a option \<times> 'a thread_pool" where
  "tp_work new t i =
     (let s = fst (tp_workers t ! i); q = tp_srcs t ! s in
      case snd (tp_workers t ! i) of
        Waiting \<Rightarrow>
          (None, if tp_status t = 0 \<or> lq_Empty q = Some False then tp_goto i Woken t else t)
      | Woken \<Rightarrow> (None, tp_goto i (case lq_Empty q of Some True \<Rightarrow> Exited | Some False \<Rightarrow> Seen | None \<Rightarrow> Crashed) t)
      | Seen \<Rightarrow> (None, tp_goto i (case lq_Empty q of Some True \<Rightarrow> Waiting | Some False \<Rightarrow> Fetching | None \<Rightarrow> Crashed) t)
      | Fetching \<Rightarrow>
          (case queue_pop new q of
             (Some task, q') \<Rightarrow> (None, tp_goto i (Running task) (t\<lparr>tp_srcs := (tp_srcs t)[s := q']\<rparr>))
           | (None, q') \<Rightarrow>
               (None, tp_goto i (case lq_Empty q' of Some True \<Rightarrow> Waiting | Some False \<Rightarrow> Fetching | None \<Rightarrow> Crashed)
                        (t\<lparr>tp_srcs := (tp_srcs t)[s := q']\<rparr>)))
      | Running task \<Rightarrow> (Some task, tp_goto i Waiting t)
      | _ \<Rightarrow> (None, t))"

definition tp_delete :: "'a thread_pool \<Rightarrow> 'a lf_queue option list" where
  "tp_delete t = map lq_delete (tp_srcs t)"

section \<open>The pool and its callers\<close>

text \<open>
  A caller of \<open>AddTask\<close> has called it, has seen a running pool, or has returned.  Steps of the
  callers, of \<open>Stop\<close> and of the workers interleave in any order.
\<close>

datatype 'a caller = Away | Called 'a | Checked 'a | Answered bool

datatype 'a event = Accepted nat 'a | Ran nat 'a

type_synonym 'a tp_state = "'a thread_pool \<times> (nat \<Rightarrow> 'a caller) \<times> 'a event list"

inductive tp_step :: "((nat \<Rightarrow> 'a node option) \<Rightarrow> nat) \<Rightarrow> 'a tp_state \<Rightarrow> 'a tp_state \<Rightarrow> bool" for new where
  call: "cs j \<in> {Away, Answered b} \<Longrightarrow> tp_step new (t, cs, es) (t, cs(j := Called task), es)"
| refuse: "cs j = Called task \<Longrightarrow> \<not> tp_accepts t \<Longrightarrow> tp_step new (t, cs, es) (t, cs(j := Answered False), es)"
| check: "cs j = Called task \<Longrightarrow> tp_accepts t \<Longrightarrow> tp_step new (t, cs, es) (t, cs(j := Checked task), es)"
| enqueue: "cs j = Checked task \<Longrightarrow> tp_enqueue new t task = Some ((c, ok), t') \<Longrightarrow>
    tp_step new (t, cs, es) (t', cs(j := Answered ok), if ok then es @ [Accepted c task] else es)"
| work: "i < length (tp_workers t) \<Longrightarrow> tp_work new t i = (r, t') \<Longrightarrow>
    tp_step new (t, cs, es) (t', cs, case r of None \<Rightarrow> es | Some task \<Rightarrow> es @ [Ran (fst (tp_workers t ! i)) task])"
| stop: "tp_step new (t, cs, es) (tp_Stop t, cs, es)"

inductive_cases tp_stepE: "tp_step new (t, cs, es) s"

definition tp_started :: "nat \<Rightarrow> u64 \<Rightarrow> 'a tp_state" where
  "tp_started w n = (tp_Start (ThreadPool_new w n), \<lambda>_. Away, [])"

abbreviation tp_reaches :: "((nat \<Rightarrow> 'a node option) \<Rightarrow> nat) \<Rightarrow> 'a tp_state \<Rightarrow> 'a tp_state \<Rightarrow> bool" where
  "tp_reaches new \<equiv> (tp_step new)\<^sup>*\<^sup>*"

fun accepted :: "nat \<Rightarrow> 'a event list \<Rightarrow> 'a list" where
  "accepted s [] = []"
| "accepted s (Accepted c x # es) = (if c = s then x # accepted s es else accepted s es)"
| "accepted s (Ran c x # es) = accepted s es"

fun ran :: "nat \<Rightarrow> 'a event list \<Rightarrow> 'a list" where
  "ran s [] = []"
| "ran s (Ran c x # es) = (if c = s then x # ran s es else ran s es)"
| "ran s (Accepted c x # es) = ran s es"

section \<open>An abstract worker\<close>

text \<open>A worker and the list of tasks in its queue; the label is the task it has run.\<close>

inductive worker_move :: "int \<Rightarrow> 'a worker \<times> 'a list \<Rightarrow> 'a option \<Rightarrow> 'a worker \<times> 'a list \<Rightarrow> bool" for status where
  wake: "status = 0 \<or> xs \<noteq> [] \<Longrightarrow> worker_move status (Waiting, xs) None (Woken, xs)"
| sleep: "status \<noteq> 0 \<Longrightarrow> worker_move status (Waiting, []) None (Waiting, [])"
| leave: "worker_move status (Woken, []) None (Exited, [])"
| see: "xs \<noteq> [] \<Longrightarrow> worker_move status (Woken, xs) None (Seen, xs)"
| start: "xs \<noteq> [] \<Longrightarrow> worker_move status (Seen, xs) None (Fetching, xs)"
| fetch: "worker_move status (Fetching, x # xs) None (Running x, xs)"
| finish: "worker_move status (Running x, xs) (Some x) (Waiting, xs)"
| stay: "worker_move status (Exited, xs) None (Exited, xs)"

lemma events_append [simp]:
  "accepted s (es @ es') = accepted s es @ accepted s es'"
  "ran s (es @ es') = ran s es @ ran s es'"
  by (induction es rule: accepted.induct) auto

section \<open>No task is lost or run twice\<close>

lemma lq_Empty_rep: "lq_rep n q xs \<Longrightarrow> lq_Empty q = Some (xs = [])"
proof -
  assume "lq_rep n q xs"
  then obtain as where "chain (lq_mem q) (lq_head q) as" "map (entity_at (lq_mem q)) as = map Some xs"
    by (auto simp: lq_rep_def lq_nodes_def)
  then show ?thesis by (cases as; cases xs) (auto simp: lq_Empty_def lq_Front_def)
qed

fun in_hand :: "'a worker \<Rightarrow> 'a list" where
  "in_hand (Running x) = [x]"
| "in_hand p = []"

definition worker_ok :: "u64 \<Rightarrow> int \<Rightarrow> 'a lf_queue \<Rightarrow> 'a worker \<Rightarrow> nat \<Rightarrow> 'a event list \<Rightarrow> bool" where
  "worker_ok n status q p i es \<longleftrightarrow> (\<exists>xs. lq_rep n q xs \<and> accepted i es = ran i es @ in_hand p @ xs \<and>
     (p \<in> {Seen, Fetching} \<longrightarrow> xs \<noteq> []) \<and> (p = Woken \<longrightarrow> status = 0 \<or> xs \<noteq> [])) \<and>
     (p = Exited \<longrightarrow> status = 0) \<and> p \<notin> {Joined, Crashed}"

definition tp_inv :: "nat \<Rightarrow> u64 \<Rightarrow> 'a thread_pool \<Rightarrow> 'a event list \<Rightarrow> bool" where
  "tp_inv w n t es \<longleftrightarrow> length (tp_srcs t) = w \<and> length (tp_workers t) = w \<and> tp_status t \<in> {0, 1} \<and>
     (\<forall>i < w. fst (tp_workers t ! i) = i \<and>
        worker_ok n (tp_status t) (tp_srcs t ! i) (snd (tp_workers t ! i)) i es)"

text \<open>The tasks in the queue of a worker.\<close>

definition worker_tasks :: "u64 \<Rightarrow> 'a thread_pool \<Rightarrow> nat \<Rightarrow> 'a list \<Rightarrow> bool" where
  "worker_tasks n t i xs \<longleftrightarrow> lq_rep n (tp_srcs t ! i) xs \<and> (snd (tp_workers t ! i) \<in> {Seen, Fetching} \<longrightarrow> xs \<noteq> [])"

lemma tp_inv_started: "tp_inv w n (fst (tp_started w n)) []"
  using lq_rep_new [of 1 n]
  by (auto simp: tp_inv_def tp_started_def tp_Start_def ThreadPool_new_def worker_ok_def)

lemma tp_inv_stop: "tp_inv w n t es \<Longrightarrow> tp_inv w n (tp_Stop t) es"
  by (auto simp: tp_inv_def tp_Stop_def worker_ok_def)

text \<open>A step that concerns one worker leaves the others as they are.\<close>

lemma tp_inv_upd:
  assumes "tp_inv w n t es" "i < w" "worker_ok n (tp_status t) q p i (es @ d)"
    and "\<And>j. j \<noteq> i \<Longrightarrow> accepted j d = [] \<and> ran j d = []"
  shows "tp_inv w n (t\<lparr>tp_srcs := (tp_srcs t)[i := q], tp_workers := (tp_workers t)[i := (i, p)]\<rparr>) (es @ d)"
  using assms by (auto simp: tp_inv_def worker_ok_def nth_list_update)

lemma goto_upd:
  assumes "fst (tp_workers t ! i) = i"
  shows "tp_goto i p (t\<lparr>tp_srcs := (tp_srcs t)[i := q]\<rparr>) =
    t\<lparr>tp_srcs := (tp_srcs t)[i := q], tp_workers := (tp_workers t)[i := (i, p)]\<rparr>"
    and "tp_goto i p t = t\<lparr>tp_srcs := (tp_srcs t)[i := tp_srcs t ! i], tp_workers := (tp_workers t)[i := (i, p)]\<rparr>"
  using assms by (simp_all add: tp_goto_def)

context node_allocator
begin

lemma tp_inv_enqueue:
  assumes "tp_inv w n t es" "tp_enqueue new t task = Some ((c, ok), t')"
  shows "tp_inv w n t' (if ok then es @ [Accepted c task] else es)"
proof -
  let ?q = "tp_srcs t ! c" and ?p = "snd (tp_workers t ! c)"
  have c: "c < w" "queue_push new ?q task = (ok, tp_srcs t' ! c)"
    and t': "t' = t\<lparr>tp_counter := tp_counter t + 1, tp_srcs := (tp_srcs t)[c := tp_srcs t' ! c]\<rparr>"
    using assms by (auto simp: tp_enqueue_def tp_inv_def Let_def split: if_splits prod.splits)
  obtain xs where xs: "lq_rep n ?q xs" "accepted c es = ran c es @ in_hand ?p @ xs" "?p \<in> {Seen, Fetching} \<longrightarrow> xs \<noteq> []"
      "?p = Woken \<longrightarrow> tp_status t = 0 \<or> xs \<noteq> []"
    and other: "?p = Exited \<longrightarrow> tp_status t = 0" "?p \<notin> {Joined, Crashed}" "fst (tp_workers t ! c) = c"
    using assms(1) c(1) by (auto simp: tp_inv_def worker_ok_def)
  have push: "ok = fst (fifo_push (unat n) xs task)" "lq_rep n (tp_srcs t' ! c) (snd (fifo_push (unat n) xs task))"
    using fifo.push_step [OF xs(1), of task] c(2) by auto
  define d where "d = (if ok then [Accepted c task] else [])"
  have "worker_ok n (tp_status t) (tp_srcs t' ! c) ?p c (es @ d)"
    using push xs(2-4) other by (auto simp: worker_ok_def d_def fifo_push_def)
  then have "tp_inv w n (t\<lparr>tp_srcs := (tp_srcs t)[c := tp_srcs t' ! c], tp_workers := (tp_workers t)[c := (c, ?p)]\<rparr>) (es @ d)"
    by (intro tp_inv_upd [OF assms(1) c(1)]) (auto simp: d_def)
  moreover have "(tp_workers t)[c := (c, ?p)] = tp_workers t" using other(3) by (metis list_update_id prod.collapse)
  ultimately have "tp_inv w n (t\<lparr>tp_srcs := (tp_srcs t)[c := tp_srcs t' ! c]\<rparr>) (es @ d)"
    by (simp add: tp_inv_def)
  moreover have "tp_workers t' = tp_workers t" "tp_status t' = tp_status t" "tp_srcs t' = (tp_srcs t)[c := tp_srcs t' ! c]"
    by (subst t', simp)+
  ultimately have "tp_inv w n t' (es @ d)" by (simp add: tp_inv_def)
  then show ?thesis by (simp add: d_def split: if_splits)
qed

text \<open>What a step of a worker does to its list of tasks.\<close>

lemma tp_work_moves:
  assumes "tp_inv w n t es" "i < w" "worker_tasks n t i xs"
  obtains r p' q' xs' where "worker_move (tp_status t) (snd (tp_workers t ! i), xs) r (p', xs')" "lq_rep n q' xs'"
    "tp_work new t i = (r, t\<lparr>tp_srcs := (tp_srcs t)[i := q'], tp_workers := (tp_workers t)[i := (i, p')]\<rparr>)"
proof -
  let ?q = "tp_srcs t ! i" and ?p = "snd (tp_workers t ! i)"
  have rep: "lq_rep n ?q xs" and bad: "?p \<notin> {Joined, Crashed}" and i: "fst (tp_workers t ! i) = i"
    and some: "?p \<in> {Seen, Fetching} \<longrightarrow> xs \<noteq> []"
    using assms unfolding tp_inv_def worker_tasks_def worker_ok_def by auto
  have empty: "lq_Empty ?q = Some (xs = [])" by (rule lq_Empty_rep [OF rep])
  have same: "t = t\<lparr>tp_srcs := (tp_srcs t)[i := ?q], tp_workers := (tp_workers t)[i := (i, ?p)]\<rparr>"
  proof -
    have "(tp_workers t)[i := (i, ?p)] = tp_workers t" using i by (metis list_update_id prod.collapse)
    then show ?thesis by simp
  qed
  note work = tp_work_def i goto_upd [OF i] empty
  show ?thesis
  proof (cases ?p)
    case Waiting
    show ?thesis
    proof (cases "tp_status t = 0 \<or> xs \<noteq> []")
      case True
      then show ?thesis using that [OF _ rep, of None Woken] Waiting by (auto simp: work intro: worker_move.wake)
    next
      case False
      then have "tp_work new t i = (None, t)" using Waiting by (simp add: work)
      then show ?thesis using that [OF _ rep, of None Waiting] Waiting False same by (auto intro: worker_move.sleep)
    qed
  next
    case Woken
    then show ?thesis using that [OF _ rep, of None "if xs = [] then Exited else Seen"]
      by (cases "xs = []") (auto simp: work intro: worker_move.leave worker_move.see)
  next
    case Seen
    then show ?thesis using that [OF _ rep, of None Fetching] some by (auto simp: work intro: worker_move.start)
  next
    case Fetching
    then obtain x ys where x: "xs = x # ys" using some by (cases xs) auto
    then obtain q' where q': "queue_pop new ?q = (Some x, q')" "lq_rep n q' ys"
      using fifo.pop_first rep by (metis prod.collapse)
    then show ?thesis using that [OF _ q'(2), of None "Running x"] Fetching x by (auto simp: work intro: worker_move.fetch)
  next
    case (Running x)
    then show ?thesis using that [OF _ rep, of "Some x" Waiting] by (auto simp: work intro: worker_move.finish)
  next
    case Exited
    then have "tp_work new t i = (None, t)" by (simp add: work)
    then show ?thesis using that [OF _ rep, of None Exited] Exited same by (auto intro: worker_move.stay)
  qed (use bad in auto)
qed

lemma tp_inv_work:
  assumes "tp_inv w n t es" "i < w" "tp_work new t i = (r, t')"
  shows "tp_inv w n t' (case r of None \<Rightarrow> es | Some task \<Rightarrow> es @ [Ran (fst (tp_workers t ! i)) task])"
proof -
  obtain xs where xs: "worker_tasks n t i xs" "accepted i es = ran i es @ in_hand (snd (tp_workers t ! i)) @ xs"
    "snd (tp_workers t ! i) = Woken \<longrightarrow> tp_status t = 0 \<or> xs \<noteq> []" "snd (tp_workers t ! i) = Exited \<longrightarrow> tp_status t = 0"
    using assms(1,2) by (auto simp: tp_inv_def worker_ok_def worker_tasks_def)
  have i: "fst (tp_workers t ! i) = i" using assms(1,2) by (simp add: tp_inv_def)
  obtain p' q' xs' where m: "worker_move (tp_status t) (snd (tp_workers t ! i), xs) r (p', xs')" "lq_rep n q' xs'"
    "t' = t\<lparr>tp_srcs := (tp_srcs t)[i := q'], tp_workers := (tp_workers t)[i := (i, p')]\<rparr>"
    using tp_work_moves [OF assms(1,2) xs(1)] assms(3) by (metis Pair_inject)
  define d where "d = (case r of None \<Rightarrow> [] | Some task \<Rightarrow> [Ran i task])"
  have "worker_ok n (tp_status t) q' p' i (es @ d)"
    using m(1) xs(2-4) m(2) by cases (auto simp: worker_ok_def d_def)
  then have "tp_inv w n t' (es @ d)"
    unfolding m(3) by (intro tp_inv_upd [OF assms(1,2)]) (auto simp: d_def split: option.split)
  then show ?thesis by (simp add: d_def i split: option.split_asm)
qed

lemma tp_inv_steps:
  assumes "tp_reaches new (tp_started w n) (t, cs, es)"
  shows "tp_inv w n t es"
proof -
  have "tp_inv w n (fst s') (snd (snd s'))" if "tp_reaches new s s'" "tp_inv w n (fst s) (snd (snd s))" for s s'
    using that
  proof (induction rule: rtranclp_induct)
    case (step s1 s2)
    have inv: "tp_inv w n (fst s1) (snd (snd s1))" by (rule step.IH [OF step.prems])
    show ?case using step.hyps(2)
    proof cases
      case (enqueue cs j task t c ok t' es)
      then show ?thesis using inv tp_inv_enqueue [of w n t es task c ok t'] by simp
    next
      case (work i t r t' cs es)
      then show ?thesis using inv tp_inv_work [of w n t es i r t'] by (simp add: tp_inv_def)
    qed (use inv tp_inv_stop in auto)
  qed simp
  from this [OF assms] tp_inv_started [of w n] show ?thesis by (simp add: tp_started_def)
qed

end

text \<open>
  C4: in a pool that was started, whatever callers, \<open>Stop\<close> and workers do and in whatever order, the
  tasks that a worker's queue accepted are, in that order, those the worker has run, the one it
  runs now, and those still in its queue: no task is lost, run twice or overtaken.
\<close>

theorem tp_conserves_tasks:
  assumes "\<forall>m. finite (dom m) \<longrightarrow> new m \<noteq> 0 \<and> m (new m) = None"
    and "tp_reaches new (tp_started w n) (t, cs, es)" "i < w"
  shows "\<exists>xs. lq_rep n (tp_srcs t ! i) xs \<and> accepted i es = ran i es @ in_hand (snd (tp_workers t ! i)) @ xs"
proof -
  have "node_allocator new" using assms(1) by unfold_locales auto
  then have "tp_inv w n t es" by (rule node_allocator.tp_inv_steps [OF _ assms(2)])
  then show ?thesis using assms(3) by (auto simp: tp_inv_def worker_ok_def)
qed

section \<open>Stopping drains the queues\<close>

text \<open>A step of a worker that changes something.\<close>

inductive tp_progress ::
  "((nat \<Rightarrow> 'a node option) \<Rightarrow> nat) \<Rightarrow> 'a thread_pool \<times> 'a event list \<Rightarrow> 'a thread_pool \<times> 'a event list \<Rightarrow> bool" for new where
  "i < length (tp_workers t) \<Longrightarrow> tp_work new t i = (r, t') \<Longrightarrow> r \<noteq> None \<or> t' \<noteq> t \<Longrightarrow>
    tp_progress new (t, es)
      (t', case r of None \<Rightarrow> es | Some task \<Rightarrow> es @ [Ran (fst (tp_workers t ! i)) task])"

inductive_cases tp_progressE: "tp_progress new (t, es) s"

fun rank :: "'a worker \<Rightarrow> nat" where
  "rank Fetching = 1"
| "rank Seen = 2"
| "rank Woken = 3"
| "rank Waiting = 4"
| "rank (Running x) = 5"
| "rank p = 0"

definition load :: "'a thread_pool \<Rightarrow> nat \<Rightarrow> nat" where
  "load t i = 10 * unat (lq_size (tp_srcs t ! i)) + rank (snd (tp_workers t ! i))"

lemma worker_move_rank:
  "worker_move 0 (p, xs) r (p', xs') \<Longrightarrow>
   p \<noteq> Exited \<and> 10 * length xs' + rank p' < 10 * length xs + rank p \<and> (p' = Exited \<longrightarrow> xs' = []) \<or>
   p = Exited \<and> r = None \<and> p' = p \<and> xs' = xs"
  by (erule worker_move.cases) auto

definition draining :: "nat \<Rightarrow> u64 \<Rightarrow> 'a thread_pool \<times> 'a event list \<Rightarrow> bool" where
  "draining w n s \<longleftrightarrow> tp_inv w n (fst s) (snd s) \<and> tp_status (fst s) = 0 \<and>
     (\<forall>i < w. snd (tp_workers (fst s) ! i) = Exited \<longrightarrow> lq_Empty (tp_srcs (fst s) ! i) = Some True)"

context node_allocator
begin

lemma drain_move:
  assumes "draining w n (t, es)" "i < w"
  obtains xs r p' q' xs' where "lq_rep n (tp_srcs t ! i) xs" "lq_rep n q' xs'"
    "worker_move 0 (snd (tp_workers t ! i), xs) r (p', xs')"
    "tp_work new t i = (r, t\<lparr>tp_srcs := (tp_srcs t)[i := q'], tp_workers := (tp_workers t)[i := (i, p')]\<rparr>)"
proof -
  have inv: "tp_inv w n t es" and st: "tp_status t = 0" using assms(1) by (simp_all add: draining_def)
  then obtain xs where xs: "worker_tasks n t i xs" using assms(2) by (auto simp: tp_inv_def worker_ok_def worker_tasks_def)
  obtain r p' q' xs' where m: "worker_move (tp_status t) (snd (tp_workers t ! i), xs) r (p', xs')" "lq_rep n q' xs'"
    "tp_work new t i = (r, t\<lparr>tp_srcs := (tp_srcs t)[i := q'], tp_workers := (tp_workers t)[i := (i, p')]\<rparr>)"
    by (rule tp_work_moves [OF inv assms(2) xs])
  have "lq_rep n (tp_srcs t ! i) xs" using xs by (simp add: worker_tasks_def)
  then show ?thesis by (rule that [OF _ m(2) m(1) [unfolded st] m(3)])
qed

lemma drain_step:
  assumes "draining w n s" "tp_progress new s s'"
  shows "draining w n s'" and "sum (load (fst s')) {..<w} < sum (load (fst s)) {..<w}"
    and "accepted i (snd s') = accepted i (snd s)"
proof -
  obtain t es where s: "s = (t, es)" by (cases s)
  have inv: "tp_inv w n t es" and st: "tp_status t = 0" using assms(1) by (simp_all add: draining_def s)
  from assms(2) [unfolded s] obtain j r t' where j: "j < length (tp_workers t)" "tp_work new t j = (r, t')" "r \<noteq> None \<or> t' \<noteq> t"
    and s': "s' = (t', case r of None \<Rightarrow> es | Some task \<Rightarrow> es @ [Ran (fst (tp_workers t ! j)) task])"
    by (rule tp_progressE) blast
  have jw: "j < w" using j(1) inv by (simp add: tp_inv_def)
  show "accepted i (snd s') = accepted i (snd s)" by (simp add: s s' split: option.split)
  obtain xs r' p' q' xs' where m: "lq_rep n (tp_srcs t ! j) xs" "lq_rep n q' xs'"
    "worker_move 0 (snd (tp_workers t ! j), xs) r' (p', xs')"
    "tp_work new t j = (r', t\<lparr>tp_srcs := (tp_srcs t)[j := q'], tp_workers := (tp_workers t)[j := (j, p')]\<rparr>)"
    by (rule drain_move [OF assms(1) [unfolded s] jw])
  then have t': "t' = t\<lparr>tp_srcs := (tp_srcs t)[j := q'], tp_workers := (tp_workers t)[j := (j, p')]\<rparr>" "r' = r" using j(2) by auto
  have len: "length (tp_srcs t) = w" "length (tp_workers t) = w" using inv by (simp_all add: tp_inv_def)
  have "snd (tp_workers t ! j) \<noteq> Exited" using j(2,3) by (auto simp: tp_work_def)
  then have down: "10 * length xs' + rank p' < 10 * length xs + rank (snd (tp_workers t ! j))" "p' = Exited \<longrightarrow> xs' = []"
    using worker_move_rank [OF m(3)] by auto
  have "load t' j < load t j"
    using down(1) len jw lq_rep_size [OF m(1)] lq_rep_size [OF m(2)] by (simp add: load_def t'(1))
  moreover have "load t' i = load t i" if "i \<noteq> j" for i using that by (simp add: load_def t'(1))
  moreover have "load t' i \<le> load t i" for i using calculation by (cases "i = j") auto
  ultimately have "sum (load t') {..<w} < sum (load t) {..<w}"
    using jw by (intro sum_strict_mono_ex1) auto
  then show "sum (load (fst s')) {..<w} < sum (load (fst s)) {..<w}" by (simp add: s s')
  have "tp_inv w n (fst s') (snd s')" using tp_inv_work [OF inv jw j(2)] by (simp add: s')
  moreover have "lq_Empty (tp_srcs t' ! i) = Some True" if "i < w" "snd (tp_workers t' ! i) = Exited" for i
  proof (cases "i = j")
    case True
    then have "xs' = []" using that down(2) len by (simp add: t'(1))
    then show ?thesis using True lq_Empty_rep [OF m(2)] len jw by (simp add: t'(1))
  next
    case False
    then show ?thesis using that assms(1) by (simp add: t'(1) s draining_def)
  qed
  ultimately show "draining w n s'" using st by (simp add: draining_def s' t'(1))
qed

lemma drain_stuck:
  assumes "draining w n (t, es)" "\<not> (\<exists>s. tp_progress new (t, es) s)" "i < w"
  shows "snd (tp_workers t ! i) = Exited \<and> ran i es = accepted i es"
proof -
  have inv: "tp_inv w n t es" using assms(1) by (simp add: draining_def)
  obtain xs r p' q' xs' where m: "lq_rep n (tp_srcs t ! i) xs" "lq_rep n q' xs'"
    "worker_move 0 (snd (tp_workers t ! i), xs) r (p', xs')"
    "tp_work new t i = (r, t\<lparr>tp_srcs := (tp_srcs t)[i := q'], tp_workers := (tp_workers t)[i := (i, p')]\<rparr>)"
    by (rule drain_move [OF assms(1,3)])
  have len: "length (tp_srcs t) = w" "length (tp_workers t) = w" using inv by (simp_all add: tp_inv_def)
  then have same: "t\<lparr>tp_srcs := (tp_srcs t)[i := q'], tp_workers := (tp_workers t)[i := (i, p')]\<rparr> = t"
    using assms(2,3) tp_progress.intros [OF _ m(4), of es] by metis
  have "(tp_srcs t)[i := q'] = tp_srcs t" using arg_cong [OF same, of tp_srcs] by simp
  then have q': "q' = tp_srcs t ! i" using len assms(3) by (metis nth_list_update_eq)
  have "(tp_workers t)[i := (i, p')] = tp_workers t" using arg_cong [OF same, of tp_workers] by simp
  then have p': "p' = snd (tp_workers t ! i)" using len assms(3) by (metis nth_list_update_eq snd_conv)
  have "length xs' = length xs" using lq_rep_size [OF m(1)] lq_rep_size [OF m(2)] q' by simp
  then have exited: "snd (tp_workers t ! i) = Exited" using worker_move_rank [OF m(3)] p' by auto
  have "lq_Empty (tp_srcs t ! i) = Some True" using assms(1,3) exited by (simp add: draining_def)
  moreover obtain ys where "lq_rep n (tp_srcs t ! i) ys" "accepted i es = ran i es @ in_hand (snd (tp_workers t ! i)) @ ys"
    using inv assms(3) by (auto simp: tp_inv_def worker_ok_def)
  ultimately show ?thesis using exited lq_Empty_rep [of n "tp_srcs t ! i" ys] by simp
qed

lemma drain_steps:
  assumes "(tp_progress new)\<^sup>*\<^sup>* s s'" "draining w n s"
  shows "draining w n s' \<and> accepted i (snd s') = accepted i (snd s)"
  using assms by (induction rule: rtranclp_induct) (use drain_step in auto)

lemma drain_finite:
  assumes "draining w n (f 0)"
  shows "\<not> (\<forall>k. tp_progress new (f k) (f (Suc k)))"
proof
  assume step: "\<forall>k. tp_progress new (f k) (f (Suc k))"
  let ?m = "\<lambda>k. sum (load (fst (f k))) {..<w}"
  have "draining w n (f k) \<and> ?m k + k \<le> ?m 0" for k
  proof (induction k)
    case (Suc k)
    then show ?case using drain_step(1,2) [of w n "f k" "f (Suc k)"] step by fastforce
  qed (use assms in simp)
  from this [of "Suc (?m 0)"] show False by simp
qed

end

lemma tp_join_all:
  "distinct is \<Longrightarrow> \<forall>i \<in> set is. i < length (tp_workers t) \<and> snd (tp_workers t ! i) = Exited \<Longrightarrow> \<exists>t'. tp_join is t = Returns t'"
proof (induction "is" t rule: tp_join.induct)
  case (2 i "is" t)
  let ?t = "t\<lparr>tp_workers := (tp_workers t)[i := (fst (tp_workers t ! i), Joined)]\<rparr>"
  have "\<forall>j \<in> set is. j < length (tp_workers ?t) \<and> snd (tp_workers ?t ! j) = Exited"
  proof
    fix j assume "j \<in> set is"
    moreover then have "i \<noteq> j" using 2(2) by auto
    ultimately show "j < length (tp_workers ?t) \<and> snd (tp_workers ?t ! j) = Exited" using 2(3) by simp
  qed
  then show ?case using 2 by simp
qed simp

text \<open>
  C3: \<open>Stop\<close> of a running pool returns, and every task that \<open>AddTask\<close> has accepted is run.
  However the workers are scheduled, they cannot go on for ever, and when none of them can do
  anything more each has run all the tasks its queue had accepted, in order, and the join of all
  workers returns.  (No call of \<open>AddTask\<close> is under way between its test of the status and its push.)
\<close>

theorem tp_Stop_drains:
  assumes "\<forall>m. finite (dom m) \<longrightarrow> new m \<noteq> 0 \<and> m (new m) = None"
    and "tp_reaches new (tp_started w n) (t, cs, es)" "tp_status t = 1"
  shows "(\<forall>f. f 0 = (tp_Stop t, es) \<longrightarrow> \<not> (\<forall>k. tp_progress new (f k) (f (Suc k)))) \<and>
    (\<forall>t' es'. (tp_progress new)\<^sup>*\<^sup>* (tp_Stop t, es) (t', es') \<and> \<not> (\<exists>s. tp_progress new (t', es') s) \<longrightarrow>
       (\<forall>i < w. ran i es' = accepted i es) \<and> (\<exists>t''. tp_join [0..<w] t' = Returns t''))"
proof -
  have new: "node_allocator new" using assms(1) by unfold_locales auto
  have inv: "tp_inv w n t es" by (rule node_allocator.tp_inv_steps [OF new assms(2)])
  have "snd (tp_workers t ! i) \<noteq> Exited" if "i < w" for i
    using inv assms(3) that by (auto simp: tp_inv_def worker_ok_def)
  then have drain: "draining w n (tp_Stop t, es)"
    using tp_inv_stop [OF inv] assms(3) by (simp add: draining_def) (simp add: tp_Stop_def)
  have "(\<forall>i < w. ran i es' = accepted i es) \<and> (\<exists>t''. tp_join [0..<w] t' = Returns t'')"
    if "(tp_progress new)\<^sup>*\<^sup>* (tp_Stop t, es) (t', es')" "\<not> (\<exists>s. tp_progress new (t', es') s)" for t' es'
  proof -
    have d: "draining w n (t', es')" "accepted i es' = accepted i es" for i
      using node_allocator.drain_steps [OF new that(1) drain] by simp_all
    have fin: "snd (tp_workers t' ! i) = Exited \<and> ran i es' = accepted i es'" if "i < w" for i
      by (rule node_allocator.drain_stuck [OF new d(1) \<open>\<not> (\<exists>s. tp_progress new (t', es') s)\<close> that])
    moreover have "length (tp_workers t') = w" using d(1) by (simp add: draining_def tp_inv_def)
    ultimately show ?thesis using d(2) tp_join_all [of "[0..<w]" t'] by simp
  qed
  then show ?thesis using node_allocator.drain_finite [OF new] drain by metis
qed

text \<open>A run: a caller adds a task to a pool with one worker.\<close>

context node_allocator
begin

lemma enqueue_first:
  assumes "tp_srcs t = [lq_new 1 n]" "0 < unat n"
  obtains t' where "tp_enqueue new t x = Some ((0, True), t')" "tp_status t' = tp_status t" "tp_workers t' = tp_workers t"
proof -
  have "fst (queue_push new (lq_new 1 n) x)"
    using fifo.push_room [OF lq_rep_new [of 1 n], of x] assms(2) by simp
  then obtain q where "queue_push new (lq_new 1 n) x = (True, q)" by (metis (full_types) prod.collapse)
  then have "tp_enqueue new t x = Some ((0, True), t\<lparr>tp_counter := tp_counter t + 1, tp_srcs := [q]\<rparr>)"
    using assms(1) by (simp add: tp_enqueue_def Let_def)
  then show ?thesis by (rule that) simp_all
qed

end

lemma demo_added:
  "\<exists>t cs. tp_reaches least_free (tp_started 1 4) (t, cs, [Accepted 0 (7 :: int)]) \<and> tp_status t = 1"
proof -
  let ?t = "tp_Start (ThreadPool_new 1 4) :: int thread_pool"
  have "tp_step least_free (?t, \<lambda>_. Away, []) (?t, (\<lambda>_. Away)(0 := Called 7), [])"
    by (rule tp_step.call) simp
  moreover have "tp_step least_free (?t, (\<lambda>_. Away)(0 := Called 7), []) (?t, ((\<lambda>_. Away)(0 := Called 7))(0 := Checked 7), [])"
    by (rule tp_step.check) (simp_all add: tp_accepts_def tp_Start_def ThreadPool_new_def)
  moreover obtain t' where t': "tp_enqueue least_free ?t 7 = Some ((0, True), t')" "tp_status t' = tp_status ?t"
    by (rule least.enqueue_first [of ?t 4 7]) (simp_all add: tp_Start_def ThreadPool_new_def)
  then have "tp_step least_free (?t, ((\<lambda>_. Away)(0 := Called 7))(0 := Checked 7), [])
      (t', (((\<lambda>_. Away)(0 := Called 7))(0 := Checked 7))(0 := Answered True), if True then [] @ [Accepted 0 7] else [])"
    by (intro tp_step.enqueue) simp_all
  ultimately have "tp_reaches least_free (?t, \<lambda>_. Away, []) (t', (((\<lambda>_. Away)(0 := Called 7))(0 := Checked 7))(0 := Answered True), [Accepted 0 7])"
    unfolding if_True append_Nil by (meson rtranclp.rtrancl_into_rtrancl rtranclp.rtrancl_refl)
  moreover have "tp_status t' = 1" using t'(2) by (simp add: tp_Start_def ThreadPool_new_def)
  ultimately show ?thesis unfolding tp_started_def by blast
qed

theorem tp_conserves_tasks_witness:
  "\<exists>t cs xs. tp_reaches least_free (tp_started 1 4) (t, cs, [Accepted 0 (7 :: int)]) \<and>
     lq_rep 4 (tp_srcs t ! 0) xs \<and> in_hand (snd (tp_workers t ! 0)) @ xs = [7]"
proof -
  obtain t cs where r: "tp_reaches least_free (tp_started 1 4) (t, cs, [Accepted 0 (7 :: int)])" using demo_added by blast
  then have "\<exists>xs. lq_rep 4 (tp_srcs t ! 0) xs \<and> accepted 0 [Accepted 0 (7 :: int)] = ran 0 [Accepted 0 (7 :: int)] @ in_hand (snd (tp_workers t ! 0)) @ xs"
    by (intro tp_conserves_tasks [of least_free 1 4 t cs]) (use least_free_ok in auto)
  then have "\<exists>xs. lq_rep 4 (tp_srcs t ! 0) xs \<and> in_hand (snd (tp_workers t ! 0)) @ xs = [7]" by (simp add: eq_commute)
  then show ?thesis using r by blast
qed

theorem tp_Stop_drains_witness:
  "\<exists>t cs. tp_reaches least_free (tp_started 1 4) (t, cs, [Accepted 0 (7 :: int)]) \<and>
     (\<forall>t' es'. (tp_progress least_free)\<^sup>*\<^sup>* (tp_Stop t, [Accepted 0 7]) (t', es') \<longrightarrow>
       \<not> (\<exists>s. tp_progress least_free (t', es') s) \<longrightarrow> ran 0 es' = [7])"
proof -
  obtain t cs where r: "tp_reaches least_free (tp_started 1 4) (t, cs, [Accepted 0 (7 :: int)])" "tp_status t = 1"
    using demo_added by blast
  have "\<forall>m :: nat \<Rightarrow> int node option. finite (dom m) \<longrightarrow> least_free m \<noteq> 0 \<and> m (least_free m) = None"
    using least_free_ok by auto
  from tp_Stop_drains [OF this r] have
    "(tp_progress least_free)\<^sup>*\<^sup>* (tp_Stop t, [Accepted 0 7]) (t', es') \<Longrightarrow>
       \<not> (\<exists>s. tp_progress least_free (t', es') s) \<Longrightarrow> ran 0 es' = [7]" for t' es' by simp
  then show ?thesis using r(1) by blast
qed

section \<open>Races and restarts\<close>

text \<open>
  C33: \<open>AddTask\<close> tests the status without the lock.  When \<open>Stop\<close> comes between the test and the
  push, the worker may leave first: \<open>AddTask\<close> returns true, \<open>Stop\<close> returns, and the task is
  never run.
\<close>

theorem tp_lost_task:
  "\<exists>t cs es t'. tp_reaches least_free (tp_started 1 2) (t, cs, es) \<and> cs 0 = Answered True \<and>
     accepted 0 es = [x] \<and> ran 0 es = [] \<and> tp_join [0] t = Returns t' \<and>
     \<not> (\<exists>s. tp_progress least_free (t, es) s)"
proof -
  let ?cs = "(\<lambda>_. Away) :: nat \<Rightarrow> 'a caller"
  let ?t0 = "tp_Start (ThreadPool_new 1 2) :: 'a thread_pool"
  let ?t1 = "tp_Stop ?t0"
  let ?t2 = "tp_goto 0 Woken ?t1" and ?c1 = "?cs(0 := Called x)" and ?c2 = "?cs(0 := Called x, 0 := Checked x)"
  let ?t3 = "tp_goto 0 Exited ?t2"
  note defs = tp_Start_def ThreadPool_new_def tp_Stop_def tp_goto_def
  have empty: "lq_Empty (lq_new 1 2 :: 'a lf_queue) = Some True" by (simp add: lq_Empty_def lq_Front_def lq_new_def Node_new_def)
  have "tp_step least_free (?t0, ?cs, []) (?t0, ?c1, [])" by (rule tp_step.call) simp
  moreover have "tp_step least_free (?t0, ?c1, []) (?t0, ?c2, [])"
    by (rule tp_step.check) (simp_all add: tp_accepts_def defs)
  moreover have "tp_step least_free (?t0, ?c2, []) (?t1, ?c2, [])" by (rule tp_step.stop)
  moreover have "tp_work least_free ?t1 0 = (None, ?t2)" by (simp add: tp_work_def defs)
  then have step1: "tp_step least_free (?t1, ?c2, []) (?t2, ?c2, [])"
    using tp_step.work [of 0 ?t1 least_free None ?t2 ?c2 "[]"] by (simp add: defs)
  moreover note step1
  moreover have "tp_work least_free ?t2 0 = (None, ?t3)" using empty by (simp add: tp_work_def defs)
  then have "tp_step least_free (?t2, ?c2, []) (?t3, ?c2, [])"
    using tp_step.work [of 0 ?t2 least_free None ?t3 ?c2 "[]"] by (simp add: defs)
  moreover obtain t4 where t4: "tp_enqueue least_free ?t3 x = Some ((0, True), t4)" "tp_workers t4 = tp_workers ?t3"
    by (rule least.enqueue_first [of ?t3 2 x]) (simp_all add: defs)
  moreover have w4: "tp_workers t4 = [(0, Exited)]" unfolding t4(2) by (simp add: defs)
  have "tp_step least_free (?t3, ?c2, []) (t4, ?c2(0 := Answered True), [Accepted 0 x])"
    using tp_step.enqueue [of ?c2 0 x least_free ?t3 0 True t4 "[]"] t4(1) by simp
  ultimately have "tp_reaches least_free (tp_started 1 2) (t4, ?c2(0 := Answered True), [Accepted 0 x])"
    unfolding tp_started_def by (meson rtranclp.rtrancl_into_rtrancl rtranclp.rtrancl_refl)
  moreover have "\<not> (\<exists>s. tp_progress least_free (t4, [Accepted 0 x]) s)"
    using w4 by (auto elim!: tp_progressE simp: tp_work_def)
  moreover have "\<exists>t'. tp_join [0] t4 = Returns t'" using w4 by simp
  ultimately show ?thesis using fun_upd_same by (metis accepted.simps(1,2) ran.simps(1,3))
qed

text \<open>
  A pool that is started again after \<open>Stop\<close> joins its first threads a second time, which throws;
  its new threads serve the first queues, while tasks are dealt out to all of them.
\<close>

theorem tp_restart_throws:
  assumes "tp_join [0..<w] t' = Returns t" "w \<le> length (tp_workers t')" "tp_status t = 0" "tp_worker_size t = w" "0 < w"
  shows "tp_join [0..<w] (tp_Stop (tp_Start t)) = Throws"
proof -
  have keeps: "tp_join is t' = Returns t \<Longrightarrow> i < length (tp_workers t') \<Longrightarrow> snd (tp_workers t' ! i) = Joined \<or> i \<in> set is \<Longrightarrow>
      snd (tp_workers t ! i) = Joined \<and> length (tp_workers t) = length (tp_workers t')" for "is" i and t' :: "'a thread_pool"
  proof (induction "is" t' rule: tp_join.induct)
    case (2 j "is" t')
    let ?t = "t'\<lparr>tp_workers := (tp_workers t')[j := (fst (tp_workers t' ! j), Joined)]\<rparr>"
    have j: "snd (tp_workers t' ! j) = Exited" "tp_join is ?t = Returns t" using 2(2) by (auto split: worker.splits)
    have "snd (tp_workers ?t ! i) = Joined \<or> i \<in> set is"
      using 2(3,4) by (cases "i = j") auto
    then show ?case using 2(1) [OF j(1) j(2)] 2(3) by simp
  qed auto
  have "snd (tp_workers t ! 0) = Joined" "length (tp_workers t) = length (tp_workers t')"
  proof -
    have "0 < length (tp_workers t')" "0 \<in> set [0..<w]" using assms(2,5) by auto
    then show "snd (tp_workers t ! 0) = Joined" "length (tp_workers t) = length (tp_workers t')"
      using keeps [OF assms(1), of 0] by blast+
  qed
  moreover have "[0..<w] = 0 # [1..<w]" using assms(5) by (simp add: upt_conv_Cons)
  ultimately show ?thesis using assms(2,3,5) by (auto simp: tp_Stop_def tp_Start_def nth_append)
qed

end
