(* ===== verification/Length_Pools.thy ===== *)
theory Length_Pools
  imports Mmap_Pool
begin

text \<open>
  Two pools over a mapped file (kernel/pool/fix_length_pool.cc, variable_length_pool.cc): one for
  values of one size, one whose blocks start with the length of their value.  Lengths in blocks are
  of type \<open>int32_t\<close>; they are read and written through the mapping, so None is also a header
  outside it.
\<close>

section \<open>Values of one size\<close>

text \<open>The size to store, \<open>value_size_\<close>, is the first argument; \<open>size_t\<close> of it is compared.\<close>

definition size_t :: "int \<Rightarrow> nat" where
  "size_t v = nat (v mod 2 ^ 64)"

definition fx_DoAlloc :: "int \<Rightarrow> os \<Rightarrow> mmap_pool \<Rightarrow> nat \<Rightarrow> (nat \<times> os \<times> mmap_pool) option" where
  "fx_DoAlloc value_size os p sz =
     (if sz \<noteq> size_t value_size then Some (0, os, p) else fp_DoAlloc mp_AllocFromStore os p sz)"

definition fx_Write :: "int \<Rightarrow> os \<Rightarrow> mmap_pool \<Rightarrow> nat \<Rightarrow> bytes \<Rightarrow> (bool \<times> os \<times> mmap_pool) option" where
  "fx_Write value_size os p addr data =
     (if p_store p = None \<or> value_size \<le> 0 \<or> length data \<noteq> size_t value_size then Some (False, os, p)
      else mp_Write os p addr data)"

definition fx_Read :: "int \<Rightarrow> mmap_pool \<Rightarrow> nat \<Rightarrow> nat \<Rightarrow> bool \<times> nat \<times> nat" where
  "fx_Read value_size p addr len =
     (if p_store p = None \<or> value_size \<le> 0 then (False, 0, 0) else mp_Read p addr (size_t value_size))"

definition fx_NewData :: "int \<Rightarrow> os \<Rightarrow> mmap_pool \<Rightarrow> bytes \<Rightarrow> (int \<times> os \<times> mmap_pool) option" where
  "fx_NewData value_size os p data =
     (if p_store p = None \<or> value_size \<le> 0 then Some (-1, os, p)
      else case fx_DoAlloc value_size os p (length data) of
             None \<Rightarrow> None
           | Some (addr, os1, p1) \<Rightarrow>
               if addr = 0 then Some (-1, os1, p1)
               else map_option (\<lambda>(ok, os2, p2). (if ok then int (mp_GetDataOffset p2 addr) else -1, os2, p2))
                      (mp_Write os1 p1 addr data))"

definition fx_DoFree :: "int \<Rightarrow> mmap_pool \<Rightarrow> nat \<Rightarrow> nat \<Rightarrow> bool \<times> mmap_pool" where
  "fx_DoFree value_size p addr sz =
     (if value_size \<le> 0 then (False, p) else fp_DoFree p addr (size_t value_size))"

section \<open>Values with their length\<close>

definition VariableDataHeader_size :: nat where "VariableDataHeader_size = 4"

definition vl_peek :: "os \<Rightarrow> mmap_pool \<Rightarrow> nat \<Rightarrow> int option" where
  "vl_peek os p addr =
     (case p_store p of
        None \<Rightarrow> None
      | Some st \<Rightarrow> map_option (\<lambda>bs. signed_take_bit 31 (int (le_val bs))) (mapped_read os st addr 4))"

definition vl_poke :: "os \<Rightarrow> mmap_pool \<Rightarrow> nat \<Rightarrow> nat \<Rightarrow> os option" where
  "vl_poke os p addr sz =
     (case p_store p of None \<Rightarrow> None | Some st \<Rightarrow> mapped_write os st addr (le_bytes 4 sz))"

definition vl_DoAlloc :: "os \<Rightarrow> mmap_pool \<Rightarrow> nat \<Rightarrow> (nat \<times> os \<times> mmap_pool) option" where
  "vl_DoAlloc os p sz =
     (case fp_DoAlloc mp_AllocFromStore os p (add64 sz VariableDataHeader_size) of
        None \<Rightarrow> None
      | Some (addr, os1, p1) \<Rightarrow>
          if addr = 0 then Some (0, os1, p1)
          else map_option (\<lambda>os2. (addr, os2, p1)) (vl_poke os1 p1 addr sz))"

definition vl_Write :: "os \<Rightarrow> mmap_pool \<Rightarrow> nat \<Rightarrow> bytes \<Rightarrow> (bool \<times> os \<times> mmap_pool) option" where
  "vl_Write os p addr data =
     (if p_store p = None \<or> addr = 0 then Some (False, os, p)
      else case vl_peek os p addr of
             None \<Rightarrow> None
           | Some sz \<Rightarrow>
               if signed_take_bit 31 (int (length data)) > sz then Some (False, os, p)
               else (case vl_poke os p addr (length data) of
                       None \<Rightarrow> None
                     | Some os1 \<Rightarrow> mp_Write os1 p (addr + VariableDataHeader_size) data))"

definition vl_Read :: "os \<Rightarrow> mmap_pool \<Rightarrow> nat \<Rightarrow> nat \<Rightarrow> (bool \<times> nat \<times> nat) option" where
  "vl_Read os p addr len =
     (if p_store p = None \<or> addr = 0 then Some (False, 0, 0)
      else map_option (\<lambda>sz. mp_Read p (addr + VariableDataHeader_size) (size_t sz)) (vl_peek os p addr))"

definition vl_NewData :: "os \<Rightarrow> mmap_pool \<Rightarrow> bytes \<Rightarrow> (int \<times> os \<times> mmap_pool) option" where
  "vl_NewData os p data =
     (case vl_DoAlloc os p (length data) of
        None \<Rightarrow> None
      | Some (addr, os1, p1) \<Rightarrow>
          if addr = 0 \<or> p_store p1 = None then Some (-1, os1, p1)
          else map_option (\<lambda>(ok, os2, p2). (if ok then int (mp_GetDataOffset p2 addr) else -1, os2, p2))
                 (mp_Write os1 p1 (addr + VariableDataHeader_size) data))"

text \<open>The size to give back is read from the block when the free is performed.\<close>

definition vl_DoFree :: "os \<Rightarrow> mmap_pool \<Rightarrow> nat \<Rightarrow> nat \<Rightarrow> (bool \<times> mmap_pool) option" where
  "vl_DoFree os p addr sz =
     (if addr = 0 then Some (False, p)
      else map_option (\<lambda>v. fp_DoFree p addr (add64 (size_t v) VariableDataHeader_size)) (vl_peek os p addr))"

section \<open>The fixed pool\<close>

lemma size_t_int: "length d < 2 ^ 63 \<Longrightarrow> size_t (int (length d)) = length d"
  by (simp add: size_t_def nat_mod_distrib)

text \<open>
  A pool for values of \<open>v\<close> bytes takes exactly those: \<open>NewData\<close> of anything else answers -1 and
  leaves the pool as it was; a value of \<open>v\<close> bytes is stored like in any mapped pool, and read
  back whole, whatever length the reader asks for.
\<close>

theorem fx_NewData_Read:
  assumes "mps_good (os, p)" "separate (pool_regions p)"
    and "within (mps_bot (os, p)) (mps_top (os, p)) (pool_regions p)" "0 < v" "v < 2 ^ 31"
  shows "(int (length d) \<noteq> v \<and> length d < 2 ^ 64 \<longrightarrow> fx_NewData v os p d = Some (-1, os, p)) \<and>
    (int (length d) = v \<longrightarrow> (\<exists>r os' p'. fx_NewData v os p d = Some (r, os', p') \<and> mps_good (os', p') \<and>
      (r = -1 \<or> 0 \<le> r \<and> mps_bytes (os', p') (mp_GetDataAddr p' (nat r)) (length d) = Some d \<and>
        fx_Read v p' (mp_GetDataAddr p' (nat r)) n = mp_Read p' (mp_GetDataAddr p' (nat r)) (length d))))"
proof -
  obtain st f b where L: "mps_layout (os, p) st f b" using assms(1) by (auto simp: mps_good_def)
  have st: "p_store p \<noteq> None" using L by (simp add: mps_layout_def)
  have v: "size_t v = nat v" using assms(4,5) by (simp add: size_t_def)
  have "fx_NewData v os p d = Some (-1, os, p)" if "int (length d) \<noteq> v"
    using that st assms(4) v by (auto simp: fx_NewData_def fx_DoAlloc_def)
  moreover have "\<exists>r os' p'. fx_NewData v os p d = Some (r, os', p') \<and> mps_good (os', p') \<and>
      (r = -1 \<or> 0 \<le> r \<and> mps_bytes (os', p') (mp_GetDataAddr p' (nat r)) (length d) = Some d \<and>
        fx_Read v p' (mp_GetDataAddr p' (nat r)) n = mp_Read p' (mp_GetDataAddr p' (nat r)) (length d))"
    if len: "int (length d) = v"
  proof -
    have d: "d \<noteq> []" "length d < 2 ^ 63" "size_t v = length d" using len assms(4,5) v by auto
    have "fx_NewData v os p d = mp_NewData os p d"
      using st d assms(4) by (auto simp: fx_NewData_def fx_DoAlloc_def mp_NewData_def)
    moreover obtain r os' p' where R: "mp_NewData os p d = Some (r, os', p')" "mps_good (os', p')"
      "r = -1 \<or> 0 \<le> r \<and> mps_bytes (os', p') (mp_GetDataAddr p' (nat r)) (length d) = Some d"
      using NewData_readback [OF assms(1-3) d(1,2)] by blast
    moreover have "p_store p' \<noteq> None" using R(2) by (auto simp: mps_good_def mps_layout_def)
    ultimately show ?thesis using d(3) assms(4) by (auto simp: fx_Read_def)
  qed
  ultimately show ?thesis by blast
qed

theorem fx_NewData_Read_witness:
  "\<exists>r os' p'. fx_NewData 3 (fst demo_mmap_pool) (snd demo_mmap_pool) [1, 2, 3] = Some (r, os', p') \<and>
    (r = -1 \<or> mps_bytes (os', p') (mp_GetDataAddr p' (nat r)) 3 = Some [1, 2, 3])"
proof -
  have "\<exists>r os' p'. fx_NewData 3 (fst demo_mmap_pool) (snd demo_mmap_pool) [1, 2, 3] = Some (r, os', p') \<and>
      mps_good (os', p') \<and> (r = -1 \<or> 0 \<le> r \<and>
        mps_bytes (os', p') (mp_GetDataAddr p' (nat r)) (length [1, 2, 3 :: byte]) = Some [1, 2, 3] \<and>
        fx_Read 3 p' (mp_GetDataAddr p' (nat r)) 0 = mp_Read p' (mp_GetDataAddr p' (nat r)) (length [1, 2, 3 :: byte]))"
    using fx_NewData_Read [of "fst demo_mmap_pool" "snd demo_mmap_pool" 3 "[1, 2, 3]" 0] demo_mmap_pool_ok
    by (simp add: separate_def)
  then show ?thesis by (auto simp: numeral_3_eq_3)
qed

section \<open>The pool for values of any length\<close>

text \<open>A block at a holds the value d behind its length, within the used space and the mapping.\<close>

definition vl_holds :: "mmap_pool_state \<Rightarrow> nat \<Rightarrow> bytes \<Rightarrow> bool" where
  "vl_holds s a d \<longleftrightarrow> mps_good s \<and> mps_bot s \<le> a \<and> a + (4 + length d) \<le> mps_top s \<and> a + (4 + length d) \<le> mps_end s \<and>
     d \<noteq> [] \<and> length d < 2 ^ 31 \<and> mps_bytes s a 4 = Some (le_bytes 4 (length d)) \<and>
     mps_bytes s (a + 4) (length d) = Some d"

lemma vl_poke_facts:
  assumes "mps_good (os, p)" "mps_bot (os, p) \<le> a" "a + 4 \<le> mps_top (os, p)" "a + 4 \<le> mps_end (os, p)"
  obtains os' where "vl_poke os p a v = Some os'" "mps_write (os, p) a (le_bytes 4 v) = Some (True, (os', p))"
proof -
  obtain st f b where L: "mps_layout (os, p) st f b" using assms(1) by (auto simp: mps_good_def)
  have st: "p_store p = Some st" "mapped os st f b" using L by (simp_all add: mps_layout_def)
  have a: "b \<le> a" "a - b + 4 \<le> length (file_of os f)" "a - b + 4 \<le> mm_size st"
    using assms(2-4) L mps_layout_top [OF L] mps_end_layout [OF L] by (auto simp: mps_layout_def)
  then obtain os' where W: "mapped_write os st a (le_bytes 4 v) = Some os'"
    using mapped_write_mapped [OF st(2), of a "le_bytes 4 v"] by auto
  have "mm_Write os st a (le_bytes 4 v) = Some (Status1 Success, os', st)"
    using a W mapped_size [OF st(2)] st(2) by (auto simp: mm_Write_def mapped_def fs_GetSize_def Let_def simp del: le_bytes.simps)
  then have "mps_write (os, p) a (le_bytes 4 v) = Some (True, (os', p))"
    using st(1) by (simp add: mps_write_def mp_Write_def)
  then show ?thesis using that W st(1) by (simp add: vl_poke_def)
qed

lemma vl_store:
  assumes "mps_good (os, p)" "mps_bot (os, p) \<le> a" "a + (4 + length d) \<le> mps_top (os, p)"
    "a + (4 + length d) \<le> mps_end (os, p)" "d \<noteq> []" "length d < 2 ^ 31"
  obtains os1 os2 p2 where "vl_poke os p a (length d) = Some os1" "mp_Write os1 p (a + 4) d = Some (True, os2, p2)"
    "vl_holds (os2, p2) a d" "p_store p2 \<noteq> None" "mp_begin p2 = mp_begin p"
proof -
  obtain os1 where P: "vl_poke os p a (length d) = Some os1"
    "mps_write (os, p) a (le_bytes 4 (length d)) = Some (True, (os1, p))"
    by (rule vl_poke_facts [OF assms(1,2)]) (use assms(3,4) in auto)
  have F: "mps_good (os1, p)" "mps_bot (os1, p) = mps_bot (os, p)" "mps_top (os1, p) = mps_top (os, p)"
    "mps_end (os1, p) = mps_end (os, p)" "mps_bytes (os1, p) a 4 = Some (le_bytes 4 (length d))"
    using mps_write_facts [OF assms(1), of "le_bytes 4 (length d)" a] P(2) assms(2,3) by auto
  obtain os2 p2 where G: "mps_write (os1, p) (a + 4) d = Some (True, (os2, p2))" "mps_good (os2, p2)"
    "mps_bot (os2, p2) = mps_bot (os1, p)" "mps_top (os2, p2) = mps_top (os1, p)" "mps_end (os2, p2) = mps_end (os1, p)"
    "mps_bytes (os2, p2) (a + 4) (length d) = Some d" "mps_bytes (os2, p2) a 4 = mps_bytes (os1, p) a 4"
    using mps_write_facts [OF F(1) assms(5), of "a + 4"] assms(2,3) F(2,3) by (auto simp: add.assoc)
  then have W: "mp_Write os1 p (a + 4) d = Some (True, os2, p2)"
    by (auto simp: mps_write_def split: option.splits prod.splits)
  moreover have "mp_begin p2 = mp_begin p" using W by (auto simp: mp_Write_def split: option.splits)
  moreover have "vl_holds (os2, p2) a d" using F G assms by (simp add: vl_holds_def)
  moreover have "p_store p2 \<noteq> None" using G(2) by (auto simp: mps_good_def mps_layout_def)
  ultimately show ?thesis using that P(1) by blast
qed

lemma vl_peek_holds:
  assumes "vl_holds (os, p) a d"
  shows "vl_peek os p a = Some (int (length d))" "vl_Read os p a n = Some (True, a + 4, length d)"
    "p_store p = Some st \<Longrightarrow> mapped_read os st (a + 4) (length d) = Some d" "a \<noteq> 0"
proof -
  have h: "mps_good (os, p)" "mps_bot (os, p) \<le> a" "a + (4 + length d) \<le> mps_end (os, p)" "d \<noteq> []" "length d < 2 ^ 31"
    "mps_bytes (os, p) a 4 = Some (le_bytes 4 (length d))" "mps_bytes (os, p) (a + 4) (length d) = Some d"
    using assms by (simp_all add: vl_holds_def)
  obtain st' f b where L: "mps_layout (os, p) st' f b" using h(1) by (auto simp: mps_good_def)
  have st': "p_store p = Some st'" "mm_base st' = Some b" using L by (simp_all add: mps_layout_def mapped_def)
  have b: "b + 64 \<le> a" "a + (4 + length d) \<le> b + mm_size st'"
    using h(2,3) mps_layout_top(1) [OF L] mps_end_layout [OF L] by simp_all
  have head: "mapped_read os st' a 4 = Some (le_bytes 4 (length d))"
    using mapped_pool_readable [OF h(1), of st' b a 4] st' h(6) b by simp
  have body: "mp_Read p (a + 4) (length d) = (True, a + 4, length d)" "mapped_read os st' (a + 4) (length d) = Some d"
    using mapped_pool_readable [OF h(1), of st' b "a + 4" "length d"] st' h(4,7) b by simp_all
  have "le_val (le_bytes 4 (length d)) = length d" using h(5) by (simp add: le_val_le_bytes del: le_bytes.simps)
  then show peek: "vl_peek os p a = Some (int (length d))"
    using h(5) head st'(1) by (simp add: vl_peek_def signed_take_bit_int_eq_self)
  have "size_t (int (length d)) = length d" using h(5) by (intro size_t_int) simp
  then show "vl_Read os p a n = Some (True, a + 4, length d)"
    using peek body(1) st'(1) b(1) by (simp add: vl_Read_def VariableDataHeader_size_def)
  show "p_store p = Some st \<Longrightarrow> mapped_read os st (a + 4) (length d) = Some d" using body(2) st'(1) by simp
  show "a \<noteq> 0" using b(1) by simp
qed

text \<open>A value in a block the pool gave out: inside the used space, and read back.\<close>

lemma vl_place:
  assumes "mps_good (os, p)" "within (mps_bot (os, p)) (mps_top (os, p)) (pool_regions p)" "0 < n" "n < 2 ^ 63"
    "mps_top (os, p) + n \<le> mps_end (os, p)"
  obtains a os1 p1 where "fp_DoAlloc mp_AllocFromStore os p n = Some (a, os1, p1)" "mps_good (os1, p1)"
    "a \<noteq> 0 \<Longrightarrow> mps_bot (os1, p1) \<le> a \<and> a + n \<le> mps_top (os1, p1) \<and> a + n \<le> mps_end (os1, p1)"
    "mps_used (os, p) + n + mp_min_expand p \<le> 2 ^ 63 \<longrightarrow> a \<noteq> 0"
proof -
  obtain a s1 where A: "mps_alloc (os, p) n = Some (a, s1)" "mps_good s1" "mps_bot s1 = mps_bot (os, p)"
    "mps_top (os, p) \<le> mps_top s1" "mps_end s1 = mps_end (os, p)"
    "a = 0 \<or> add_mset (n, a) (pool_regions (snd s1)) \<subseteq># pool_regions p \<or> a = mps_top (os, p) \<and> mps_top s1 = a + n"
    "mps_used (os, p) + n + mp_min_expand p \<le> 2 ^ 63 \<longrightarrow> a \<noteq> 0"
    using mps_alloc_facts [OF assms(1,3,4)] by auto
  obtain os1 p1 where s1: "s1 = (os1, p1)" by fastforce
  obtain st f b where L: "mps_layout (os, p) st f b" using assms(1) by (auto simp: mps_good_def)
  have "mps_bot (os, p) \<le> mps_top (os, p)" using L mps_layout_top [OF L] by (simp add: mps_layout_def)
  moreover have "(n, a) \<in># pool_regions p \<or> a = mps_top (os, p) \<and> mps_top s1 = a + n" if "a \<noteq> 0"
    using A(6) that by (auto dest: mset_subset_eqD)
  ultimately have "mps_bot s1 \<le> a \<and> a + n \<le> mps_top s1 \<and> a + n \<le> mps_end s1" if "a \<noteq> 0"
    using that withinD [OF assms(2), of n a] A(3-5) assms(5) by auto
  moreover have "fp_DoAlloc mp_AllocFromStore os p n = Some (a, os1, p1)"
    using A(1) s1 by (auto simp: mps_alloc_def split: option.splits prod.splits)
  ultimately show ?thesis using that A(2,7) s1 by simp
qed

lemma vl_holds_addr:
  assumes "vl_holds (os, p) a d"
  shows "mp_GetDataAddr p (mp_GetDataOffset p a) = a"
proof -
  obtain st f b where L: "mps_layout (os, p) st f b" using assms by (auto simp: vl_holds_def mps_good_def)
  have "b + 64 \<le> a" "a < 2 ^ 64" "mp_begin p = Some b"
    using assms mps_layout_top [OF L] L by (auto simp: vl_holds_def mps_layout_def)
  then show ?thesis using mp_offset_addr [of p b a] by simp
qed

text \<open>
  C27: \<open>NewData\<close> of a value of 1 to \<open>2 ^ 31 - 1\<close> bytes succeeds, when the used space and the new block are within the
  mapping and below the width of \<open>off_t\<close>: it returns an offset, and \<open>Read\<close> finds there the length and the bytes of
  the value.
\<close>

theorem vl_NewData_Read:
  assumes "mps_good (os, p)" "within (mps_bot (os, p)) (mps_top (os, p)) (pool_regions p)"
    and "d \<noteq> []" "length d < 2 ^ 31" "mps_top (os, p) + (4 + length d) \<le> mps_end (os, p)"
    and "mps_used (os, p) + (4 + length d) + mp_min_expand p \<le> 2 ^ 63"
  shows "\<exists>r os' p' st. vl_NewData os p d = Some (r, os', p') \<and> 0 \<le> r \<and> mps_good (os', p') \<and>
    vl_Read os' p' (mp_GetDataAddr p' (nat r)) n = Some (True, mp_GetDataAddr p' (nat r) + 4, length d) \<and>
    p_store p' = Some st \<and> mapped_read os' st (mp_GetDataAddr p' (nat r) + 4) (length d) = Some d"
proof -
  let ?n = "4 + length d"
  have n: "0 < ?n" "?n < 2 ^ 63" "add64 (length d) VariableDataHeader_size = ?n"
    using assms(4) by (simp_all add: add64_def VariableDataHeader_size_def)
  obtain a os1 p1 where A: "fp_DoAlloc mp_AllocFromStore os p ?n = Some (a, os1, p1)" "mps_good (os1, p1)"
    "a \<noteq> 0 \<Longrightarrow> mps_bot (os1, p1) \<le> a \<and> a + ?n \<le> mps_top (os1, p1) \<and> a + ?n \<le> mps_end (os1, p1)"
    "a \<noteq> 0"
    using vl_place [OF assms(1,2) n(1,2) assms(5)] assms(6) by metis
  obtain os2 os3 p3 where W: "vl_poke os1 p1 a (length d) = Some os2" "mp_Write os2 p1 (a + 4) d = Some (True, os3, p3)"
    "vl_holds (os3, p3) a d" "p_store p3 \<noteq> None" "mp_begin p3 = mp_begin p1"
    by (rule vl_store [OF A(2), of a d]) (use A(3) [OF A(4)] assms(3,4) in auto)
  obtain st where st: "p_store p3 = Some st" using W(4) by blast
  have "p_store p1 \<noteq> None" using A(2) by (auto simp: mps_good_def mps_layout_def)
  then have "vl_NewData os p d = Some (int (mp_GetDataOffset p3 a), os3, p3)"
    using A(1,4) n(3) W(1,2) by (simp add: vl_NewData_def vl_DoAlloc_def VariableDataHeader_size_def)
  then show ?thesis using vl_holds_addr [OF W(3)] vl_peek_holds [OF W(3)] W(3) st
    by (intro exI [of _ "int (mp_GetDataOffset p3 a)"] exI [of _ os3] exI [of _ p3] exI [of _ st]) (auto simp: vl_holds_def)
qed

lemma demo_mmap_pool_bounds:
  "within (mps_bot demo_mmap_pool) (mps_top demo_mmap_pool) (pool_regions (snd demo_mmap_pool))"
  "mps_top demo_mmap_pool = 4160" "mps_end demo_mmap_pool = 8192"
proof -
  have "le_val (get_bytes 0 8 (le_bytes 8 64 @ replicate 56 0)) = 64"
    by (simp add: get_bytes_def le_val_le_bytes)
  then show "mps_top demo_mmap_pool = 4160"
    by (simp add: mps_top_def mps_used_def mp_GetUsedSize_def mp_peek_def mp_base_def demo_mmap_pool_def mapped_read_def
        file_of_def del: le_bytes.simps)
  show "mps_end demo_mmap_pool = 8192" by (simp add: mps_end_def demo_mmap_pool_def mp_base_def)
  show "within (mps_bot demo_mmap_pool) (mps_top demo_mmap_pool) (pool_regions (snd demo_mmap_pool))"
    using demo_mmap_pool_ok by simp
qed

theorem vl_NewData_Read_witness:
  "\<exists>r os' p'. vl_NewData (fst demo_mmap_pool) (snd demo_mmap_pool) [1, 2, 3] = Some (r, os', p') \<and> 0 \<le> r \<and>
    vl_Read os' p' (mp_GetDataAddr p' (nat r)) 0 = Some (True, mp_GetDataAddr p' (nat r) + 4, length [1, 2, 3 :: byte])"
proof -
  have used: "mps_used demo_mmap_pool = 64" "mp_min_expand (snd demo_mmap_pool) = 16"
    using demo_mmap_pool_bounds(2)
    by (simp_all add: mps_top_def mp_base_def demo_mmap_pool_def MMapPool_new_def pool.defs FilePool_new_def)
  have "mps_top (fst demo_mmap_pool, snd demo_mmap_pool) + (4 + length [1, 2, 3 :: byte]) \<le> mps_end (fst demo_mmap_pool, snd demo_mmap_pool)"
    using demo_mmap_pool_bounds(2,3) by simp
  from vl_NewData_Read [OF _ _ _ _ this, of 0] show ?thesis
    using demo_mmap_pool_ok demo_mmap_pool_bounds(1) used by auto
qed

text \<open>
  A value is overwritten by one that is not longer; \<open>Read\<close> then finds the new one.  A longer one (below
  \<open>2 ^ 31\<close> bytes) is refused.  The length in the block is now the smaller one, and it is all that a
  later \<open>Free\<close> gives back.
\<close>

theorem vl_Write_Read:
  assumes "vl_holds (os, p) a d" "e \<noteq> []" "length e < 2 ^ 31"
  shows "if length e \<le> length d
    then \<exists>os' p'. vl_Write os p a e = Some (True, os', p') \<and> vl_holds (os', p') a e \<and>
      vl_Read os' p' a n = Some (True, a + 4, length e)
    else vl_Write os p a e = Some (False, os, p)"
proof -
  have h: "mps_good (os, p)" "mps_bot (os, p) \<le> a" "a + (4 + length d) \<le> mps_top (os, p)" "a + (4 + length d) \<le> mps_end (os, p)"
    using assms(1) by (simp_all add: vl_holds_def)
  have st: "p_store p \<noteq> None" using h(1) by (auto simp: mps_good_def mps_layout_def)
  have len: "signed_take_bit 31 (int (length e)) = int (length e)" using assms(3) by (simp add: signed_take_bit_int_eq_self)
  note peek = vl_peek_holds(1,4) [OF assms(1)]
  show ?thesis
  proof (cases "length e \<le> length d")
    case True
    obtain os1 os2 p2 where W: "vl_poke os p a (length e) = Some os1" "mp_Write os1 p (a + 4) e = Some (True, os2, p2)"
      "vl_holds (os2, p2) a e"
      by (rule vl_store [OF h(1,2) _ _ assms(2,3)]) (use True h(3,4) in auto)
    then show ?thesis using True peek st len vl_peek_holds(2) [OF W(3)]
      by (auto simp: vl_Write_def VariableDataHeader_size_def)
  next
    case False
    then show ?thesis using peek st len by (auto simp: vl_Write_def)
  qed
qed

end
