(* ===== verification/Arena_Tables.thy ===== *)
theory Arena_Tables
  imports Allocator
begin

text \<open>
  The tables of the buddy pool (kernel/pool/arena_buddy_pool/ab_pool_define.h, slab_mem_table.h,
  section_mem_table.h, section_mem_table.cc, page_mem_table.h, page_mem_table.cc): a section hands
  out memory upwards, a slab is a page of items of one size, a page table keeps free lists of
  blocks of 4 to 128 KB that are split and merged.  Offsets count from the start of the pool's
  data; the memory of a table that the code uses is the word at the start of each free
  block, and the slab head at the start of each slab.

  page_mem_table.cc is not complete: the end of \<open>AllocByPageLevel\<close> and the beginning of \<open>AllocBySlab\<close> are
  missing, so that the text of the one runs into the other.  \<open>AllocByPageLevel\<close> is the text as it
  stands, with the names it does not declare as arguments.
\<close>

section \<open>Sizes\<close>

definition DEFAULT_PAGE_MEM_SIZE :: nat where "DEFAULT_PAGE_MEM_SIZE = 10 * 1024 * 1024"
definition DEFAULT_SECTION_MEM_SIZE :: nat where "DEFAULT_SECTION_MEM_SIZE = 1 * 1024 * 1024"
definition PAGE_MAX_LEVELS :: nat where "PAGE_MAX_LEVELS = 6"
definition SLAB_MAX_LEVELS :: nat where "SLAB_MAX_LEVELS = 46"
definition SLAB_MIN_LEVELS :: nat where "SLAB_MIN_LEVELS = 16"
definition SLAB_LEVEL_MIN_STEP :: nat where "SLAB_LEVEL_MIN_STEP = 8"
definition SLAB_LEVEL_MAX_STEP :: nat where "SLAB_LEVEL_MAX_STEP = 64"
definition SIZE_LIMIT_SMALL :: nat where "SIZE_LIMIT_SMALL = 4 * 1024"
definition SIZE_LIMIT_LARGE :: nat where "SIZE_LIMIT_LARGE = 128 * 1024"
definition INVALID_MEM_ADDR :: nat where "INVALID_MEM_ADDR = 0xFFFFFFFF"

lemmas sizes = PAGE_MAX_LEVELS_def SLAB_MAX_LEVELS_def SLAB_MIN_LEVELS_def SLAB_LEVEL_MIN_STEP_def
  SLAB_LEVEL_MAX_STEP_def SIZE_LIMIT_SMALL_def SIZE_LIMIT_LARGE_def

datatype object_size = SMALL_OBJECT | LARGE_OBJECT | HUGE_OBJECT

definition divide_size :: "nat \<Rightarrow> object_size" where
  "divide_size sz =
     (if sz < SIZE_LIMIT_SMALL div 2 then SMALL_OBJECT
      else if sz < SIZE_LIMIT_LARGE then LARGE_OBJECT else HUGE_OBJECT)"

definition page_level_to_size :: "nat \<Rightarrow> nat" where
  "page_level_to_size level = 1024 * 2 ^ (level + 2)"

definition slab_level_to_size :: "nat \<Rightarrow> nat" where
  "slab_level_to_size level =
     (if level < SLAB_MIN_LEVELS then (level + 1) * SLAB_LEVEL_MIN_STEP
      else SLAB_MIN_LEVELS * SLAB_LEVEL_MIN_STEP + (level - SLAB_MIN_LEVELS + 1) * SLAB_LEVEL_MAX_STEP)"

text \<open>The sizes are compared as doubles, which are exact below \<open>2 ^ 53\<close>; -1 as a \<open>uint16_t\<close> is 65535.\<close>

function first_level :: "(nat \<Rightarrow> nat) \<Rightarrow> nat \<Rightarrow> nat \<Rightarrow> nat \<Rightarrow> nat" where
  "first_level size_of levels sz k = (if k < levels \<and> size_of k < sz then first_level size_of levels sz (k + 1) else k)"
  by pat_completeness auto
termination by (relation "measure (\<lambda>(_, levels, _, k). levels - k)") auto

declare first_level.simps [simp del]

definition find_level :: "nat \<Rightarrow> nat" where
  "find_level sz = (let k = first_level page_level_to_size PAGE_MAX_LEVELS sz 0 in if k < PAGE_MAX_LEVELS then k else 65535)"

definition find_slab_level :: "nat \<Rightarrow> nat" where
  "find_slab_level sz = (let k = first_level slab_level_to_size SLAB_MAX_LEVELS sz 0 in if k < SLAB_MAX_LEVELS then k else 65535)"

section \<open>Sections and slabs\<close>

record section_table =
  sec_begin :: nat
  sec_end :: nat
  sec_current :: nat
  sec_next :: nat
  sec_valid :: bool

definition SectionMemTableHead_size :: nat where "SectionMemTableHead_size = 40"

definition section_Init :: "nat \<Rightarrow> nat \<Rightarrow> section_table" where
  "section_Init start sz =
     \<lparr>sec_begin = start, sec_end = start + sz, sec_current = start + SectionMemTableHead_size,
      sec_next = INVALID_MEM_ADDR, sec_valid = True\<rparr>"

text \<open>An offset, or None for \<open>ERROR_ALLOC_ADDR\<close>.\<close>

definition section_AllocData :: "section_table \<Rightarrow> nat \<Rightarrow> nat option \<times> section_table" where
  "section_AllocData s len =
     (if sec_valid s then
        if sec_current s + len > sec_end s then (None, s)
        else (Some (sec_current s), s\<lparr>sec_current := sec_current s + len\<rparr>)
      else (None, s))"

definition section_BelongToTable :: "section_table \<Rightarrow> nat \<Rightarrow> nat \<Rightarrow> bool" where
  "section_BelongToTable s offset sz \<longleftrightarrow> offset > sec_begin s \<and> offset < sec_end s \<and> offset + sz < sec_end s"

record slab_table =
  sl_begin :: nat
  sl_end :: nat
  sl_current :: nat
  sl_item_size :: nat
  sl_use_item :: nat
  sl_max_item_num :: nat

definition SlabMemTableHead_size :: nat where "SlabMemTableHead_size = 40"

definition slab_Init :: "nat \<Rightarrow> nat \<Rightarrow> slab_table" where
  "slab_Init addr sz =
     \<lparr>sl_begin = addr, sl_end = addr + SIZE_LIMIT_SMALL, sl_current = addr + SlabMemTableHead_size, sl_item_size = sz,
      sl_use_item = 0, sl_max_item_num = (SIZE_LIMIT_SMALL - SlabMemTableHead_size) div sz\<rparr>"

text \<open>0 is \<open>ERROR_ALLOC_OFFSET\<close>.\<close>

definition slab_AllocData :: "slab_table \<Rightarrow> nat \<times> slab_table" where
  "slab_AllocData s =
     (if sl_use_item s < sl_max_item_num s then
        (sl_begin s + SlabMemTableHead_size + sl_item_size s * sl_use_item s, s\<lparr>sl_use_item := sl_use_item s + 1\<rparr>)
      else (0, s))"

section \<open>Page tables\<close>

record page_table =
  pt_begin :: nat
  pt_end :: nat
  pt_current :: nat
  pt_next :: nat
  pt_valid :: bool
  pt_heads :: "nat \<Rightarrow> nat"       \<comment> \<open>\<open>page_node_addr\<close> of each level\<close>
  pt_slab_node :: "nat \<Rightarrow> nat"   \<comment> \<open>\<open>slab_node_addr\<close> of each slab level\<close>
  pt_slab_free :: "nat \<Rightarrow> nat"   \<comment> \<open>\<open>free_block\<close> of each slab level\<close>
  pt_link :: "nat \<Rightarrow> nat"        \<comment> \<open>the word at an offset\<close>
  pt_slabs :: "nat \<Rightarrow> slab_table" \<comment> \<open>the slab head at an offset\<close>

definition PageMemTableHead_size :: nat where "PageMemTableHead_size = 40"

definition pt_AllocMem :: "page_table \<Rightarrow> nat \<Rightarrow> nat \<times> page_table" where
  "pt_AllocMem t mem_len =
     (if pt_current t + mem_len > pt_end t then (0, t)
      else (pt_current t, t\<lparr>pt_current := pt_current t + mem_len\<rparr>))"

text \<open>Putting a block at the head of a free list, and the list's head at a given block.\<close>

definition pt_set_head :: "nat \<Rightarrow> nat \<Rightarrow> page_table \<Rightarrow> page_table" where
  "pt_set_head level a t = t\<lparr>pt_heads := (pt_heads t)(level := a)\<rparr>"

definition pt_set_link :: "nat \<Rightarrow> nat \<Rightarrow> page_table \<Rightarrow> page_table" where
  "pt_set_link a v t = t\<lparr>pt_link := (pt_link t)(a := v)\<rparr>"

definition pt_push :: "nat \<Rightarrow> nat \<Rightarrow> page_table \<Rightarrow> page_table" where
  "pt_push level a t = pt_set_head level a (pt_set_link a (pt_heads t level) t)"

definition pt_Init :: "page_table \<Rightarrow> nat \<Rightarrow> page_table" where
  "pt_Init t addr =
     (let t1 = t\<lparr>pt_begin := addr, pt_end := addr + DEFAULT_PAGE_MEM_SIZE, pt_current := addr,
                 pt_next := INVALID_MEM_ADDR, pt_valid := True\<rparr>;
          t2 = snd (pt_AllocMem t1 (PageMemTableHead_size + PAGE_MAX_LEVELS * 8 + SLAB_MAX_LEVELS * 16));
          t3 = fold (\<lambda>i t. case pt_AllocMem t (1024 * 2 ^ (i + 2)) of
                 (a, t') \<Rightarrow> pt_set_link a INVALID_MEM_ADDR (pt_set_head i a t')) [0..<PAGE_MAX_LEVELS] t2
      in t3\<lparr>pt_slab_node := (\<lambda>j. if j < SLAB_MAX_LEVELS then INVALID_MEM_ADDR else pt_slab_node t3 j),
            pt_slab_free := (\<lambda>j. if j < SLAB_MAX_LEVELS then INVALID_MEM_ADDR else pt_slab_free t3 j)\<rparr>)"

definition pt_SetValidFlag :: "page_table \<Rightarrow> page_table" where
  "pt_SetValidFlag t = t\<lparr>pt_valid := False\<rparr>"

definition pt_BelongToTable :: "page_table \<Rightarrow> nat \<Rightarrow> nat \<Rightarrow> bool" where
  "pt_BelongToTable t offset sz \<longleftrightarrow> offset > pt_begin t \<and> offset < pt_end t \<and> offset + sz < pt_end t"

text \<open>Two helpers that nothing calls; None is a list without an end.\<close>

definition free_lists_backword :: "nat \<Rightarrow> page_table \<Rightarrow> page_table" where
  "free_lists_backword level t = pt_set_head level (pt_link t (pt_heads t level)) t"

partial_function (option) node_tail :: "page_table \<Rightarrow> nat \<Rightarrow> nat option" where
  "node_tail t a = (if pt_link t a = INVALID_MEM_ADDR then Some a else node_tail t (pt_link t a))"

definition get_page_node_tail :: "page_table \<Rightarrow> nat \<Rightarrow> nat option" where
  "get_page_node_tail t level =
     (if pt_heads t level = INVALID_MEM_ADDR then Some INVALID_MEM_ADDR else node_tail t (pt_heads t level))"

section \<open>Splitting\<close>

fun split_down :: "nat \<Rightarrow> nat \<Rightarrow> nat \<Rightarrow> page_table \<Rightarrow> page_table" where
  "split_down level 0 end_offset t = t"
| "split_down level (Suc current) end_offset t =
     (if Suc current > level then
        split_down level current (end_offset - page_level_to_size current)
          (pt_push current (end_offset - page_level_to_size current) t)
      else t)"

function split_from :: "nat \<Rightarrow> nat \<Rightarrow> page_table \<Rightarrow> nat \<times> page_table" where
  "split_from level i t =
     (if i < PAGE_MAX_LEVELS then
        if pt_heads t i \<noteq> INVALID_MEM_ADDR then
          let ret = pt_heads t i;
              t1 = split_down level i (ret + page_level_to_size i) t;
              a = pt_heads t1 i
          in (ret, pt_set_link a INVALID_MEM_ADDR (pt_set_head i (pt_link t1 a) t1))
        else split_from level (i + 1) t
      else (0, t))"
  by pat_completeness auto
termination by (relation "measure (\<lambda>(_, i, _). PAGE_MAX_LEVELS - i)") auto

declare split_from.simps [simp del]

definition SplitFromHighLevel :: "page_table \<Rightarrow> nat \<Rightarrow> nat \<times> page_table" where
  "SplitFromHighLevel t level = split_from level (level + 1) t"

definition GetUnitFromPageLevel :: "page_table \<Rightarrow> nat \<times> page_table" where
  "GetUnitFromPageLevel t =
     (if pt_heads t 0 \<noteq> INVALID_MEM_ADDR then
        (pt_heads t 0, pt_set_head 0 (pt_link t (pt_heads t 0)) t)
      else SplitFromHighLevel t 0)"

section \<open>Allocation\<close>

definition ExtendFromPageMem :: "page_table \<Rightarrow> nat \<Rightarrow> nat \<times> page_table" where
  "ExtendFromPageMem t slab_level =
     (case GetUnitFromPageLevel t of
        (addr, t1) \<Rightarrow>
          if addr = 0 then (0, t1)
          else case slab_AllocData (slab_Init addr (slab_level_to_size slab_level)) of
                 (ret, s) \<Rightarrow> (ret, t1\<lparr>pt_slabs := (pt_slabs t1)(addr := s),
                                      pt_slab_node := (pt_slab_node t1)(slab_level := addr)\<rparr>))"

fun extend_levels :: "nat list \<Rightarrow> page_table \<Rightarrow> bool \<times> page_table" where
  "extend_levels [] t = (True, t)"
| "extend_levels (i # is) t =
     (case pt_AllocMem t (page_level_to_size i) of
        (addr, t1) \<Rightarrow> if addr \<noteq> 0 then extend_levels is (pt_push i addr t1) else (False, t1))"

definition ExtendPageMem :: "page_table \<Rightarrow> bool \<times> page_table" where
  "ExtendPageMem t = extend_levels [0..<PAGE_MAX_LEVELS] t"

text \<open>The part that is of \<open>AllocBySlab\<close>: from the slab of the level, then a new slab.\<close>

definition slab_part :: "page_table \<Rightarrow> nat \<Rightarrow> nat \<times> page_table" where
  "slab_part t slab_level =
     (let node = pt_slab_node t slab_level;
          first = (if node \<noteq> INVALID_MEM_ADDR then
                     (case slab_AllocData (pt_slabs t node) of
                        (ret, s) \<Rightarrow> (ret, t\<lparr>pt_slabs := (pt_slabs t)(node := s)\<rparr>))
                   else (0, t))
      in if fst first \<noteq> 0 then first
         else case ExtendFromPageMem (snd first) slab_level of
                (ret, t1) \<Rightarrow>
                  if ret \<noteq> 0 then (ret, t1)
                  else case ExtendPageMem t1 of
                         (True, t2) \<Rightarrow> ExtendFromPageMem t2 slab_level
                       | (False, t2) \<Rightarrow> (ret, t2))"

definition AllocByPageLevel :: "nat \<Rightarrow> page_table \<Rightarrow> nat \<Rightarrow> nat \<times> page_table" where
  "AllocByPageLevel slab_level t len =
     (let level = find_level len; a = pt_heads t level in
      if a \<noteq> INVALID_MEM_ADDR then (a, pt_set_link a INVALID_MEM_ADDR (pt_set_head level (pt_link t a) t))
      else slab_part t slab_level)"

text \<open>\<open>AllocBySlab\<close> and the slab level are arguments.\<close>

definition pt_AllocData ::
  "(page_table \<Rightarrow> nat \<Rightarrow> nat \<times> page_table) \<Rightarrow> nat \<Rightarrow> page_table \<Rightarrow> nat \<Rightarrow> nat option \<times> page_table" where
  "pt_AllocData by_slab slab_level t len =
     (case (case divide_size len of
              SMALL_OBJECT \<Rightarrow> by_slab t len
            | LARGE_OBJECT \<Rightarrow> AllocByPageLevel slab_level t len
            | HUGE_OBJECT \<Rightarrow> (0, t)) of
        (ret, t') \<Rightarrow> if ret = 0 then (None, pt_SetValidFlag t') else (Some ret, t'))"

section \<open>Freeing\<close>

definition adjacent :: "nat \<Rightarrow> nat \<Rightarrow> nat \<Rightarrow> bool" where
  "adjacent level_size head now \<longleftrightarrow> sub64 now level_size = head \<or> sub64 head level_size = now"

text \<open>The loop along the free list: a block next to \<open>head\<close> and the one before it in the list.\<close>

partial_function (option) merge_scan :: "page_table \<Rightarrow> nat \<Rightarrow> nat \<Rightarrow> nat \<Rightarrow> nat \<Rightarrow> (nat \<times> nat) option option" where
  "merge_scan t level_size head prev now =
     (if now = INVALID_MEM_ADDR then Some None
      else if adjacent level_size head now then Some (Some (prev, now))
      else merge_scan t level_size head now (pt_link t now))"

text \<open>None: a level that does not exist, or a list without an end.\<close>

partial_function (option) MergePageLevel :: "page_table \<Rightarrow> nat \<Rightarrow> nat \<Rightarrow> page_table option" where
  "MergePageLevel t head level =
     (if level \<ge> PAGE_MAX_LEVELS then None
      else
        let t1 = pt_push level head t; now = pt_link t1 head; level_size = page_level_to_size level in
        if adjacent level_size head now then
          MergePageLevel (pt_set_head level (pt_link t1 now) t1) (min head now) (level + 1)
        else case merge_scan t1 level_size head head now of
               None \<Rightarrow> None
             | Some None \<Rightarrow> Some t1
             | Some (Some (prev, now)) \<Rightarrow>
                 let t2 = pt_set_link prev (pt_link t1 now) t1
                 in MergePageLevel (pt_set_head level (pt_link t2 head) t2) (min head now) (level + 1))"

definition FreeDataByPage :: "page_table \<Rightarrow> nat \<Rightarrow> nat \<Rightarrow> (bool \<times> page_table) option" where
  "FreeDataByPage t addr sz = map_option (\<lambda>t'. (True, t')) (MergePageLevel t addr (find_level sz))"

definition FreeDataBySlab :: "page_table \<Rightarrow> nat \<Rightarrow> nat \<Rightarrow> bool \<times> page_table" where
  "FreeDataBySlab t addr sz =
     (let l = find_slab_level sz; t1 = pt_set_link addr (pt_slab_free t l) t
      in (True, t1\<lparr>pt_slab_free := (pt_slab_free t1)(l := addr)\<rparr>))"

definition pt_FreeData :: "page_table \<Rightarrow> nat \<Rightarrow> nat \<Rightarrow> (bool \<times> page_table) option" where
  "pt_FreeData t addr sz =
     (case divide_size sz of
        SMALL_OBJECT \<Rightarrow> Some (FreeDataBySlab t addr sz)
      | LARGE_OBJECT \<Rightarrow> FreeDataByPage t addr sz
      | HUGE_OBJECT \<Rightarrow> Some (True, t))"

end
