(* ===== verification/Arena_Blocks.thy ===== *)
theory Arena_Blocks
  imports Arena_Tables
begin

text \<open>
  The free blocks of a page table (page_mem_table.cc) as lists of addresses, one for each level,
  and what splitting and merging do to them: the bytes covered by the free blocks, together with
  the block handed out or taken back, stay the same, each covered once.
\<close>

section \<open>Free lists\<close>

fun chained :: "(nat \<Rightarrow> nat) \<Rightarrow> nat \<Rightarrow> nat list \<Rightarrow> bool" where
  "chained link a [] \<longleftrightarrow> a = INVALID_MEM_ADDR"
| "chained link a (x # xs) \<longleftrightarrow> a = x \<and> x \<noteq> INVALID_MEM_ADDR \<and> chained link (link x) xs"

lemma chained_cong: "chained f a xs \<Longrightarrow> (\<And>x. x \<in> set xs \<Longrightarrow> g x = f x) \<Longrightarrow> chained g a xs"
  by (induction xs arbitrary: a) auto

lemma chained_upd [simp]: "a' \<notin> set xs \<Longrightarrow> chained (f(a' := v)) a xs = chained f a xs"
  by (induction xs arbitrary: a) auto

lemma chained_head: "chained f a xs \<Longrightarrow> a \<noteq> INVALID_MEM_ADDR \<Longrightarrow> \<exists>ys. xs = a # ys \<and> chained f (f a) ys"
  by (cases xs) auto

lemma chained_end: "chained f INVALID_MEM_ADDR xs \<longleftrightarrow> xs = []"
  by (cases xs) auto

lemma chained_cut:
  "chained f a (xs @ p # n # ys) \<Longrightarrow> distinct (xs @ p # n # ys) \<Longrightarrow> chained (f(p := f n)) a (xs @ p # ys)"
  by (induction xs arbitrary: a) auto

definition free_blocks :: "(nat \<Rightarrow> nat list) \<Rightarrow> region multiset" where
  "free_blocks bs = (\<Sum>l<PAGE_MAX_LEVELS. mset (map (\<lambda>a. (page_level_to_size l, a)) (bs l)))"

lemma page_size_pos [simp]: "0 < page_level_to_size l" "page_level_to_size l \<noteq> 0"
  by (simp_all add: page_level_to_size_def)

lemma page_size_Suc: "page_level_to_size (Suc l) = 2 * page_level_to_size l"
  by (simp add: page_level_to_size_def)

lemma page_size_less [simp]: "page_level_to_size k < page_level_to_size l \<longleftrightarrow> k < l"
  by (simp add: page_level_to_size_def)

lemma page_size_inj [simp]: "page_level_to_size k = page_level_to_size l \<longleftrightarrow> k = l"
  by (metis nat_neq_iff page_size_less)

lemma in_blocks: "(n, a) \<in># free_blocks bs \<longleftrightarrow> (\<exists>l<PAGE_MAX_LEVELS. n = page_level_to_size l \<and> a \<in> set (bs l))"
  by (auto simp: free_blocks_def set_mset_sum)

lemma in_blocksI: "l < PAGE_MAX_LEVELS \<Longrightarrow> a \<in> set (bs l) \<Longrightarrow> (page_level_to_size l, a) \<in># free_blocks bs"
  by (auto simp: in_blocks)

lemma free_blocks_split:
  assumes "l < PAGE_MAX_LEVELS"
  shows "free_blocks (bs(l := xs)) =
    mset (map (\<lambda>a. (page_level_to_size l, a)) xs) + (\<Sum>k\<in>{..<PAGE_MAX_LEVELS} - {l}. mset (map (\<lambda>a. (page_level_to_size k, a)) (bs k)))"
proof -
  have "(\<Sum>k\<in>{..<PAGE_MAX_LEVELS} - {l}. mset (map (\<lambda>a. (page_level_to_size k, a)) ((bs(l := xs)) k))) =
    (\<Sum>k\<in>{..<PAGE_MAX_LEVELS} - {l}. mset (map (\<lambda>a. (page_level_to_size k, a)) (bs k)))"
    by (rule sum.cong) auto
  then show ?thesis
    using assms by (simp add: free_blocks_def sum.remove [where x = l])
qed

lemma free_blocks_Cons:
  assumes "l < PAGE_MAX_LEVELS"
  shows "free_blocks (bs(l := x # xs)) = add_mset (page_level_to_size l, x) (free_blocks (bs(l := xs)))"
  using assms by (simp add: free_blocks_split)

lemma free_blocks_take:
  assumes "l < PAGE_MAX_LEVELS" "x \<in> set (bs l)"
  shows "free_blocks bs = add_mset (page_level_to_size l, x) (free_blocks (bs(l := remove1 x (bs l))))"
proof -
  have "mset (bs l) = mset (x # remove1 x (bs l))" using assms(2) by simp
  then have same: "mset (map f (bs l)) = mset (map f (x # remove1 x (bs l)))" for f :: "nat \<Rightarrow> region"
    by (simp only: mset_map)
  have "free_blocks bs = free_blocks (bs(l := bs l))" by simp
  also have "\<dots> = free_blocks (bs(l := x # remove1 x (bs l)))"
    unfolding free_blocks_split [OF assms(1)] using same by (simp add: mset_map del: mset_remove1)
  finally show ?thesis by (simp add: free_blocks_Cons assms(1))
qed

text \<open>Two neighbours of a size cover what the block of the double size does.\<close>

lemma in_region_halves: "in_region x (2 * n, a) \<longleftrightarrow> in_region x (n, a) \<or> in_region x (n, a + n)"
  by (auto simp: in_region_def)

lemma not_in_both_halves: "\<not> (in_region x (n, a) \<and> in_region x (n, a + n))"
  by (auto simp: in_region_def)

lemma cover_halves: "cover (add_mset (2 * n, a) R) x = cover (add_mset (n, a) (add_mset (n, a + n) R)) x"
  using in_region_halves [of x n a] not_in_both_halves [of x n a] by auto

definition same_cover :: "region multiset \<Rightarrow> region multiset \<Rightarrow> bool" where
  "same_cover R S \<longleftrightarrow> (\<forall>x. cover R x = cover S x)"

lemma same_cover_refl [simp]: "same_cover R R"
  by (simp add: same_cover_def)

lemma same_cover_trans [trans]: "same_cover R S \<Longrightarrow> same_cover S T \<Longrightarrow> same_cover R T"
  by (simp add: same_cover_def)

lemma same_cover_sym: "same_cover R S \<Longrightarrow> same_cover S R"
  by (simp add: same_cover_def)

lemma same_cover_add: "same_cover R S \<Longrightarrow> same_cover (add_mset r R) (add_mset r S)"
  by (simp add: same_cover_def)

lemma same_cover_halves: "same_cover (add_mset (2 * n, a) R) (add_mset (n, a) (add_mset (n, a + n) R))"
  using cover_halves by (simp add: same_cover_def)

lemma same_cover_separate: "same_cover R S \<Longrightarrow> separate R \<Longrightarrow> separate S"
  by (simp add: same_cover_def separate_def)

text \<open>The free lists of a table, with addresses that can be told from the end of a list.\<close>

definition lists_ok :: "page_table \<Rightarrow> (nat \<Rightarrow> nat list) \<Rightarrow> bool" where
  "lists_ok t bs \<longleftrightarrow> (\<forall>l<PAGE_MAX_LEVELS. chained (pt_link t) (pt_heads t l) (bs l))"

definition in_table :: "region multiset \<Rightarrow> bool" where
  "in_table R \<longleftrightarrow> separate R \<and> within 1 (INVALID_MEM_ADDR - 1) R"

lemma in_tableD:
  "in_table R \<Longrightarrow> separate R"
  "in_table R \<Longrightarrow> within 1 (INVALID_MEM_ADDR - 1) R"
  by (simp_all add: in_table_def)

lemma in_table_mono: "in_table S \<Longrightarrow> R \<subseteq># S \<Longrightarrow> in_table R"
  using separate_mono within_mono by (auto simp: in_table_def)

lemma in_table_addD: "in_table (add_mset r R) \<Longrightarrow> in_table R"
  by (erule in_table_mono) (auto simp: subseteq_mset_def)

lemma in_table_halves:
  assumes "0 < n"
  shows "in_table (add_mset (2 * n, a) R) \<longleftrightarrow> in_table (add_mset (n, a) (add_mset (n, a + n) R))"
  using assms same_cover_separate [OF same_cover_halves [of n a R]]
    same_cover_separate [OF same_cover_sym [OF same_cover_halves [of n a R]]]
  by (auto simp: in_table_def)

lemma in_table_addr:
  assumes "in_table R" "(n, a) \<in># R"
  shows "0 < a" "a < INVALID_MEM_ADDR" "a + n < INVALID_MEM_ADDR" "0 < n"
  using withinD [OF in_tableD(2) [OF assms(1)] assms(2)] by (auto simp: INVALID_MEM_ADDR_def)

text \<open>Inside a block there is no other.\<close>

lemma in_table_outside:
  assumes "in_table (add_mset (n, a) R)" "(m, b) \<in># R" "0 < n"
  shows "b < a \<or> a + n \<le> b"
proof -
  have "0 < m" using in_table_addr(4) [OF assms(1), of m b] assms(2) by simp
  then show ?thesis
    using separate_apart [OF in_tableD(1) [OF assms(1)] assms(2)] assms(3) by auto
qed

lemma not_listed:
  assumes "in_table (add_mset (n, a) (free_blocks bs))" "0 < n" "a \<le> b" "b < a + n" "l < PAGE_MAX_LEVELS"
  shows "b \<notin> set (bs l)"
  using in_table_outside [OF assms(1) in_blocksI [OF assms(5)]] assms by fastforce


section \<open>Changing the lists\<close>

lemma heads_upd [simp]:
  "pt_heads (pt_set_head l a t) = (pt_heads t)(l := a)" "pt_link (pt_set_head l a t) = pt_link t"
  "pt_heads (pt_set_link a v t) = pt_heads t" "pt_link (pt_set_link a v t) = (pt_link t)(a := v)"
  by (simp_all add: pt_set_head_def pt_set_link_def)

lemma lists_okD: "lists_ok t bs \<Longrightarrow> l < PAGE_MAX_LEVELS \<Longrightarrow> chained (pt_link t) (pt_heads t l) (bs l)"
  by (simp add: lists_ok_def)

lemma lists_ok_push:
  assumes "lists_ok t bs" "l < PAGE_MAX_LEVELS" "a \<noteq> INVALID_MEM_ADDR" "\<And>k. k < PAGE_MAX_LEVELS \<Longrightarrow> a \<notin> set (bs k)"
  shows "lists_ok (pt_push l a t) (bs(l := a # bs l))"
  using assms by (auto simp: lists_ok_def pt_push_def)

lemma lists_ok_pop:
  assumes "lists_ok t bs" "bs l = a # xs" "l < PAGE_MAX_LEVELS"
  shows "lists_ok (pt_set_head l (pt_link t a) t) (bs(l := xs))"
  using assms lists_okD [OF assms(1,3)] by (auto simp: lists_ok_def)

lemma lists_ok_link:
  assumes "lists_ok t bs" "\<And>k. k < PAGE_MAX_LEVELS \<Longrightarrow> a \<notin> set (bs k)"
  shows "lists_ok (pt_set_link a v t) bs"
  using assms by (auto simp: lists_ok_def)

lemma lists_head:
  assumes "lists_ok t bs" "l < PAGE_MAX_LEVELS" "pt_heads t l \<noteq> INVALID_MEM_ADDR"
  obtains xs where "bs l = pt_heads t l # xs"
  using chained_head [OF lists_okD [OF assms(1,2)] assms(3)] by blast

lemma lists_head_none:
  assumes "lists_ok t bs" "l < PAGE_MAX_LEVELS"
  shows "pt_heads t l = INVALID_MEM_ADDR \<longleftrightarrow> bs l = []"
  using lists_okD [OF assms] by (cases "bs l") auto

lemma node_tail_last: "chained (pt_link t) a xs \<Longrightarrow> xs \<noteq> [] \<Longrightarrow> node_tail t a = Some (last xs)"
proof (induction xs arbitrary: a)
  case (Cons x xs)
  then show ?case by (cases xs) (auto simp: node_tail.simps [of t x])
qed simp

lemma get_page_node_tail_ok:
  "lists_ok t bs \<Longrightarrow> l < PAGE_MAX_LEVELS \<Longrightarrow>
   get_page_node_tail t l = Some (if bs l = [] then INVALID_MEM_ADDR else last (bs l))"
  using lists_okD [of t bs l] lists_head_none [of t bs l] node_tail_last [of t "pt_heads t l" "bs l"]
  by (auto simp: get_page_node_tail_def)

text \<open>The block that is split is taken out of its list only at the end: until then its upper part, level by level, is
  pushed on the lists below.\<close>

definition split_bs :: "nat \<Rightarrow> nat \<Rightarrow> nat \<Rightarrow> (nat \<Rightarrow> nat list) \<Rightarrow> nat \<Rightarrow> nat list" where
  "split_bs level k a bs l = (if level \<le> l \<and> l < k then (a + page_level_to_size l) # bs l else bs l)"

lemma split_bs_none [simp]: "k \<le> level \<Longrightarrow> split_bs level k a bs = bs"
  by (auto simp: split_bs_def)

lemma split_down_ok:
  assumes "lists_ok t bs" "k \<le> PAGE_MAX_LEVELS" "a + page_level_to_size k < INVALID_MEM_ADDR"
    "\<And>j l. j < k \<Longrightarrow> l < PAGE_MAX_LEVELS \<Longrightarrow> a + page_level_to_size j \<notin> set (bs l)"
  shows "lists_ok (split_down level k (a + page_level_to_size k) t) (split_bs level k a bs) \<and>
    pt_link (split_down level k (a + page_level_to_size k) t) a = pt_link t a \<and>
    (\<forall>l\<ge>k. pt_heads (split_down level k (a + page_level_to_size k) t) l = pt_heads t l)"
  using assms
proof (induction k arbitrary: t bs)
  case 0
  then show ?case by (simp add: split_bs_def [abs_def])
next
  case (Suc k)
  show ?case
  proof (cases "Suc k > level")
    case True
    let ?b = "a + page_level_to_size k"
    have at: "a + page_level_to_size (Suc k) - page_level_to_size k = ?b" by (simp add: page_size_Suc)
    have b: "?b < INVALID_MEM_ADDR" using Suc.prems(3) by (simp add: page_size_Suc)
    have ok: "lists_ok (pt_push k ?b t) (bs(k := ?b # bs k))"
      using Suc.prems b by (intro lists_ok_push) auto
    have notin: "a + page_level_to_size j \<notin> set ((bs(k := ?b # bs k)) l)" if "j < k" "l < PAGE_MAX_LEVELS" for j l
      using Suc.prems(4) that by auto
    have same: "split_bs level k a (bs(k := ?b # bs k)) = split_bs level (Suc k) a bs"
      using True by (auto simp: split_bs_def fun_eq_iff less_Suc_eq)
    have "pt_link (pt_push k ?b t) a = pt_link t a" by (auto simp: pt_push_def)
    moreover have "\<forall>l\<ge>Suc k. pt_heads (pt_push k ?b t) l = pt_heads t l" by (simp add: pt_push_def)
    ultimately show ?thesis
      using Suc.IH [OF ok _ b notin] Suc.prems(2) True unfolding same by (simp add: at)
  next
    case False
    then show ?thesis using Suc.prems by (auto simp: split_bs_def [abs_def] lists_ok_def)
  qed
qed

lemma same_cover_split:
  assumes "level \<le> k" "k \<le> PAGE_MAX_LEVELS"
  shows "same_cover (add_mset (page_level_to_size level, a) (free_blocks (split_bs level k a bs)))
    (add_mset (page_level_to_size k, a) (free_blocks bs))"
  using assms
proof (induction k)
  case 0
  then show ?case by (simp add: split_bs_def [abs_def])
next
  case (Suc k)
  let ?n = "page_level_to_size k"
  show ?case
  proof (cases "level \<le> k")
    case True
    have "split_bs level (Suc k) a bs = (split_bs level k a bs)(k := (a + ?n) # split_bs level k a bs k)"
      using True by (auto simp: split_bs_def fun_eq_iff less_Suc_eq)
    then have "free_blocks (split_bs level (Suc k) a bs) = add_mset (?n, a + ?n) (free_blocks (split_bs level k a bs))"
      using Suc.prems(2) by (simp add: free_blocks_Cons)
    then have "same_cover (add_mset (page_level_to_size level, a) (free_blocks (split_bs level (Suc k) a bs)))
      (add_mset (?n, a + ?n) (add_mset (?n, a) (free_blocks bs)))"
      using same_cover_add [OF Suc.IH, of "(?n, a + ?n)"] True Suc.prems by (simp add: add_mset_commute)
    also have "same_cover \<dots> (add_mset (page_level_to_size (Suc k), a) (free_blocks bs))"
      using same_cover_sym [OF same_cover_halves [of ?n a "free_blocks bs"]] by (simp add: page_size_Suc add_mset_commute)
    finally show ?thesis .
  next
    case False
    then have "level = Suc k" using Suc.prems by simp
    then show ?thesis by simp
  qed
qed


text \<open>Splitting a block of level \<open>i\<close>, and the search for one.\<close>

lemma split_block_ok:
  assumes ok: "lists_ok t bs" and tab: "in_table (free_blocks bs)" and lv: "level < i" "i < PAGE_MAX_LEVELS"
    and head: "bs i = a # xs" and "t1 = split_down level i (a + page_level_to_size i) t"
  shows "lists_ok (pt_set_link a INVALID_MEM_ADDR (pt_set_head i (pt_link t1 a) t1)) ((split_bs level i a bs)(i := xs)) \<and>
    same_cover (add_mset (page_level_to_size level, a) (free_blocks ((split_bs level i a bs)(i := xs)))) (free_blocks bs)"
    and "pt_heads t1 i = a"
proof -
  let ?bs1 = "bs(i := xs)"
  have R: "free_blocks bs = add_mset (page_level_to_size i, a) (free_blocks ?bs1)"
    using free_blocks_Cons [OF lv(2), of bs a xs] head by (metis fun_upd_triv)
  have tab1: "in_table (add_mset (page_level_to_size i, a) (free_blocks ?bs1))" using tab R by simp
  have notin: "b \<notin> set (?bs1 l)" if "a \<le> b" "b < a + page_level_to_size i" "l < PAGE_MAX_LEVELS" for b l
    using not_listed [OF tab1] that by simp
  have addr: "a < INVALID_MEM_ADDR" "a + page_level_to_size i < INVALID_MEM_ADDR"
    using in_table_addr [OF tab1] by auto
  have "a + page_level_to_size j \<notin> set (bs l)" if "j < i" "l < PAGE_MAX_LEVELS" for j l
    using notin [of "a + page_level_to_size j" l] that head by (cases "l = i") auto
  then have down: "lists_ok t1 (split_bs level i a bs)" "pt_heads t1 i = pt_heads t i"
    using split_down_ok [OF ok, of i a level] lv addr by (simp_all add: assms(6))
  show "pt_heads t1 i = a" using down(2) lists_okD [OF ok lv(2)] head by simp
  let ?bs' = "(split_bs level i a bs)(i := xs)"
  have eq: "?bs' = split_bs level i a ?bs1" by (auto simp: split_bs_def)
  have "lists_ok (pt_set_head i (pt_link t1 a) t1) ?bs'"
    by (rule lists_ok_pop [OF down(1) _ lv(2)]) (simp add: split_bs_def head)
  moreover have "a \<notin> set (?bs' k)" if "k < PAGE_MAX_LEVELS" for k
    using notin [of a k] that unfolding eq by (auto simp: split_bs_def)
  ultimately have "lists_ok (pt_set_link a INVALID_MEM_ADDR (pt_set_head i (pt_link t1 a) t1)) ?bs'"
    by (rule lists_ok_link)
  moreover have "same_cover (add_mset (page_level_to_size level, a) (free_blocks ?bs')) (free_blocks bs)"
    unfolding eq R by (rule same_cover_split) (use lv in auto)
  ultimately show "lists_ok (pt_set_link a INVALID_MEM_ADDR (pt_set_head i (pt_link t1 a) t1)) ?bs' \<and>
    same_cover (add_mset (page_level_to_size level, a) (free_blocks ?bs')) (free_blocks bs)" by blast
qed

definition took :: "nat \<Rightarrow> page_table \<Rightarrow> (nat \<Rightarrow> nat list) \<Rightarrow> nat \<times> page_table \<Rightarrow> bool" where
  "took level t bs r =
     (if fst r = 0 then snd r = t
      else \<exists>bs'. lists_ok (snd r) bs' \<and>
             same_cover (add_mset (page_level_to_size level, fst r) (free_blocks bs')) (free_blocks bs))"

lemma split_from_ok:
  assumes "lists_ok t bs" "in_table (free_blocks bs)" "level < i"
  shows "took level t bs (split_from level i t) \<and>
    (fst (split_from level i t) = 0 \<longleftrightarrow> (\<forall>l. i \<le> l \<and> l < PAGE_MAX_LEVELS \<longrightarrow> bs l = []))"
  using assms
proof (induction level i t rule: split_from.induct)
  case (1 level i t)
  consider "\<not> i < PAGE_MAX_LEVELS" | "i < PAGE_MAX_LEVELS" "pt_heads t i = INVALID_MEM_ADDR"
    | "i < PAGE_MAX_LEVELS" "pt_heads t i \<noteq> INVALID_MEM_ADDR" by blast
  then show ?case
  proof cases
    case 1
    then show ?thesis by (auto simp: split_from.simps [of level i] took_def)
  next
    case 2
    moreover have "bs i = []" using lists_head_none [OF \<open>lists_ok t bs\<close> 2(1)] 2(2) by simp
    then have "(\<forall>l. i \<le> l \<and> l < PAGE_MAX_LEVELS \<longrightarrow> bs l = []) \<longleftrightarrow>
      (\<forall>l. i + 1 \<le> l \<and> l < PAGE_MAX_LEVELS \<longrightarrow> bs l = [])"
      by (metis Suc_eq_plus1 Suc_leI le_neq_implies_less le_eq_less_or_eq Suc_leD)
    ultimately show ?thesis
      using "1.IH" "1.prems" by (simp add: split_from.simps [of level i])
  next
    case 3
    obtain xs where bs: "bs i = pt_heads t i # xs" by (rule lists_head [OF "1.prems"(1) 3])
    have "pt_heads t i \<noteq> 0"
      using in_table_addr(1) [OF "1.prems"(2) in_blocksI [OF 3(1), of "pt_heads t i" bs]] bs by simp
    then show ?thesis
      using 3 bs split_block_ok [OF "1.prems"(1,2,3) 3(1) bs refl]
      by (auto simp: split_from.simps [of level i] took_def Let_def)
  qed
qed

lemma GetUnit_ok:
  assumes "lists_ok t bs" "in_table (free_blocks bs)"
  shows "took 0 t bs (GetUnitFromPageLevel t) \<and>
    (fst (GetUnitFromPageLevel t) = 0 \<longleftrightarrow> (\<forall>l<PAGE_MAX_LEVELS. bs l = []))"
proof (cases "pt_heads t 0 = INVALID_MEM_ADDR")
  case True
  have "bs 0 = []" using lists_head_none [OF assms(1)] True by (simp add: PAGE_MAX_LEVELS_def)
  then have "(\<forall>l<PAGE_MAX_LEVELS. bs l = []) \<longleftrightarrow> (\<forall>l. 1 \<le> l \<and> l < PAGE_MAX_LEVELS \<longrightarrow> bs l = [])"
    by (metis Suc_leI gr0I One_nat_def)
  then show ?thesis
    using split_from_ok [OF assms, of 0 1] True by (simp add: GetUnitFromPageLevel_def SplitFromHighLevel_def)
next
  case False
  have 0: "0 < PAGE_MAX_LEVELS" by (simp add: PAGE_MAX_LEVELS_def)
  obtain xs where bs: "bs 0 = pt_heads t 0 # xs" by (rule lists_head [OF assms(1) 0 False])
  have "pt_heads t 0 \<noteq> 0"
    using in_table_addr(1) [OF assms(2) in_blocksI [OF 0, of "pt_heads t 0" bs]] bs by simp
  moreover have "free_blocks bs = add_mset (page_level_to_size 0, pt_heads t 0) (free_blocks (bs(0 := xs)))"
    using free_blocks_Cons [OF 0, of bs "pt_heads t 0" xs] bs by (metis fun_upd_triv)
  ultimately show ?thesis
    using False lists_ok_pop [OF assms(1) bs 0] bs 0
    by (force simp: GetUnitFromPageLevel_def took_def)
qed


text \<open>Which unit it is, and the lists after it: the first block of the lowest list that has one is split.\<close>

lemma split_from_first:
  assumes "lists_ok t bs" "in_table (free_blocks bs)" "level < j" "j \<le> i" "i < PAGE_MAX_LEVELS"
    and "\<forall>l. j \<le> l \<and> l < i \<longrightarrow> bs l = []" "bs i = a # xs"
  shows "\<exists>t'. split_from level j t = (a, t') \<and> lists_ok t' ((split_bs level i a bs)(i := xs)) \<and>
    same_cover (add_mset (page_level_to_size level, a) (free_blocks ((split_bs level i a bs)(i := xs)))) (free_blocks bs)"
  using assms
proof (induction level j t rule: split_from.induct)
  case (1 level j t)
  have j: "j < PAGE_MAX_LEVELS" using "1.prems"(4,5) by simp
  show ?case
  proof (cases "j = i")
    case True
    have head: "pt_heads t j = a" "a \<noteq> INVALID_MEM_ADDR"
      using lists_okD [OF "1.prems"(1) j] "1.prems"(7) True by simp_all
    have li: "level < i" using "1.prems"(3,4) by simp
    let ?t1 = "split_down level i (a + page_level_to_size i) t"
    note split = split_block_ok [OF "1.prems"(1,2) li "1.prems"(5,7) refl]
    have "split_from level j t = (a, pt_set_link a INVALID_MEM_ADDR (pt_set_head i (pt_link ?t1 a) ?t1))"
      using split(2) "1.prems"(5) head unfolding True by (simp add: split_from.simps [of level i] Let_def)
    then show ?thesis using split(1) by blast
  next
    case False
    then have "bs j = []" "j + 1 \<le> i" using "1.prems"(4,6) by simp_all
    then have empty: "pt_heads t j = INVALID_MEM_ADDR" using lists_head_none [OF "1.prems"(1) j] by simp
    have "\<exists>t'. split_from level (j + 1) t = (a, t') \<and> lists_ok t' ((split_bs level i a bs)(i := xs)) \<and>
        same_cover (add_mset (page_level_to_size level, a) (free_blocks ((split_bs level i a bs)(i := xs)))) (free_blocks bs)"
      using empty j "1.prems" \<open>j + 1 \<le> i\<close> by (intro "1.IH") simp_all
    moreover have "split_from level j t = split_from level (j + 1) t"
      using empty j by (simp add: split_from.simps [of level j])
    ultimately show ?thesis by (simp only:)
  qed
qed

lemma GetUnit_first:
  assumes "lists_ok t bs" "in_table (free_blocks bs)" "i < PAGE_MAX_LEVELS" "\<forall>l<i. bs l = []" "bs i = a # xs"
  shows "\<exists>t'. GetUnitFromPageLevel t = (a, t') \<and> lists_ok t' ((split_bs 0 i a bs)(i := xs)) \<and>
    same_cover (add_mset (page_level_to_size 0, a) (free_blocks ((split_bs 0 i a bs)(i := xs)))) (free_blocks bs)"
proof (cases "i = 0")
  case True
  have 0: "0 < PAGE_MAX_LEVELS" by (simp add: PAGE_MAX_LEVELS_def)
  have "bs 0 = a # xs" using assms(5) True by simp
  then have "pt_heads t 0 = a" "a \<noteq> INVALID_MEM_ADDR" using lists_okD [OF assms(1) 0] by simp_all
  moreover have "free_blocks bs = add_mset (page_level_to_size 0, a) (free_blocks (bs(0 := xs)))"
    using free_blocks_Cons [OF 0, of bs a xs] \<open>bs 0 = a # xs\<close> by (metis fun_upd_triv)
  ultimately show ?thesis
    using lists_ok_pop [OF assms(1) \<open>bs 0 = a # xs\<close> 0] True by (simp add: GetUnitFromPageLevel_def)
next
  case False
  have 0: "0 < PAGE_MAX_LEVELS" by (simp add: PAGE_MAX_LEVELS_def)
  have "bs 0 = []" using assms(4) False by simp
  then have "pt_heads t 0 = INVALID_MEM_ADDR" using lists_head_none [OF assms(1) 0] by simp
  then show ?thesis
    using split_from_first [OF assms(1,2), of 0 1 i a xs] assms(3-5) False
    by (simp add: GetUnitFromPageLevel_def SplitFromHighLevel_def)
qed

section \<open>Merging\<close>

lemma sub64_eq:
  assumes "a < 2 ^ 32" "b < 2 ^ 32" "c < 2 ^ 32"
  shows "sub64 a b = c \<longleftrightarrow> a = b + c"
proof (cases "b \<le> a")
  case True
  then show ?thesis using sub64_le [OF True] assms by auto
next
  case False
  then have "(int a - int b + 2 ^ 64) mod 2 ^ 64 = int a - int b + 2 ^ 64"
    using assms by (intro mod_pos_pos_trivial) auto
  then have "(int a - int b) mod 2 ^ 64 = int a - int b + 2 ^ 64" by (simp only: mod_add_self2)
  then show ?thesis using False assms by (simp add: sub64_def)
qed

lemma adjacent_iff:
  assumes "0 < n" "head + n < INVALID_MEM_ADDR" "y + n < INVALID_MEM_ADDR \<or> y = INVALID_MEM_ADDR"
  shows "adjacent n head y \<longleftrightarrow> y \<noteq> INVALID_MEM_ADDR \<and> (head + n = y \<or> y + n = head)"
proof -
  have "sub64 y n = head \<longleftrightarrow> y = n + head" "sub64 head n = y \<longleftrightarrow> head = n + y"
    using assms by (intro sub64_eq; auto simp: INVALID_MEM_ADDR_def)+
  then show ?thesis using assms by (auto simp: adjacent_def)
qed

lemma merge_scan_ok:
  assumes "chained (pt_link t) now xs"
  shows "merge_scan t n head p now = Some None \<and> (\<forall>x\<in>set xs. \<not> adjacent n head x) \<or>
    (\<exists>ys y zs. xs = ys @ y # zs \<and> adjacent n head y \<and> merge_scan t n head p now = Some (Some (last (p # ys), y)))"
  using assms
proof (induction xs arbitrary: p now)
  case Nil
  then show ?case by (simp add: merge_scan.simps)
next
  case (Cons x xs)
  then have now: "now = x" "x \<noteq> INVALID_MEM_ADDR" and ch: "chained (pt_link t) (pt_link t x) xs" by auto
  show ?case
  proof (cases "adjacent n head x")
    case True
    then have "merge_scan t n head p now = Some (Some (p, x))" by (simp add: merge_scan.simps [of t n head p] now)
    then show ?thesis using True by (metis append_Nil last.simps)
  next
    case False
    then have step: "merge_scan t n head p now = merge_scan t n head x (pt_link t x)"
      by (simp add: merge_scan.simps [of t n head p] now)
    from Cons.IH [OF ch, of x] show ?thesis
    proof (elim disjE exE conjE)
      fix ys y zs assume "xs = ys @ y # zs" "adjacent n head y"
        "merge_scan t n head x (pt_link t x) = Some (Some (last (x # ys), y))"
      then have "x # xs = (x # ys) @ y # zs \<and> adjacent n head y \<and>
        merge_scan t n head p now = Some (Some (last (p # x # ys), y))" by (simp add: step)
      then show ?thesis by blast
    qed (use step False in auto)
  qed
qed

lemma cut_neighbour:
  assumes "chained f a (ys @ y # zs)" "distinct (ys @ y # zs)" "ys \<noteq> []"
  shows "chained (f(last ys := f y)) a (ys @ zs)"
proof -
  obtain us p where ys: "ys = us @ [p]" using assms(3) by (metis append_butlast_last_id)
  show ?thesis using chained_cut [of f a us p y zs] assms(1,2) by (simp add: ys)
qed

text \<open>One level of merging: the block joins the list, or a neighbour leaves it and the two go to the next level.\<close>

definition merge_one :: "page_table \<Rightarrow> (nat \<Rightarrow> nat list) \<Rightarrow> nat \<Rightarrow> nat \<Rightarrow> bool" where
  "merge_one t bs head level \<longleftrightarrow>
     MergePageLevel t head level = Some (pt_push level head t) \<and> (\<forall>y\<in>set (bs level). \<not> adjacent (page_level_to_size level) head y) \<or>
     (\<exists>y T. y \<in> set (bs level) \<and> adjacent (page_level_to_size level) head y \<and>
        lists_ok T (bs(level := remove1 y (bs level))) \<and>
        MergePageLevel t head level = MergePageLevel T (min head y) (level + 1))"

lemma blocks_distinct:
  assumes "in_table (free_blocks bs)" "l < PAGE_MAX_LEVELS"
  shows "distinct (bs l)"
proof (rule ccontr)
  assume "\<not> distinct (bs l)"
  then obtain xs ys zs y where "bs l = xs @ [y] @ ys @ [y] @ zs" using not_distinct_decomp by blast
  then have y: "y \<in> set (bs l)" "y \<in> set (remove1 y (bs l))"
    by (auto simp: remove1_append)
  have "in_table (add_mset (page_level_to_size l, y) (free_blocks (bs(l := remove1 y (bs l)))))"
    using assms(1) free_blocks_take [of l y bs, OF assms(2) y(1)] by simp
  from not_listed [OF this _ _ _ assms(2), of y] y(2) show False by simp
qed

lemma merge_first:
  assumes "lists_ok t bs" "level < PAGE_MAX_LEVELS" "bs level = y # zs" "head \<notin> set (bs level)"
    "adjacent (page_level_to_size level) head y" "\<And>k. k < PAGE_MAX_LEVELS \<Longrightarrow> head \<notin> set (bs k)"
  shows "merge_one t bs head level"
proof -
  let ?t1 = "pt_push level head t"
  have y: "pt_heads t level = y" "y \<noteq> INVALID_MEM_ADDR" "chained (pt_link t) (pt_link t y) zs"
    using lists_okD [OF assms(1,2)] assms(3) by auto
  have now: "pt_link ?t1 head = y" "pt_link ?t1 y = pt_link t y"
    using assms(3,4) y by (auto simp: pt_push_def)
  let ?T = "pt_set_head level (pt_link t y) ?t1"
  have "lists_ok ?T (bs(level := zs))"
    using assms(1,3,4,6) y(3) by (auto simp: lists_ok_def pt_push_def)
  moreover have "MergePageLevel t head level = MergePageLevel ?T (min head y) (level + 1)"
    using assms(2,5) now by (simp add: MergePageLevel.simps [of t] Let_def)
  ultimately show ?thesis using assms(3,5) unfolding merge_one_def by (metis list.set_intros(1) remove1.simps(2))
qed

lemma merge_later:
  assumes "lists_ok t bs" "level < PAGE_MAX_LEVELS" "bs level = ys @ y # zs" "ys \<noteq> []" "distinct (bs level)"
    "\<And>k. k < PAGE_MAX_LEVELS \<Longrightarrow> head \<notin> set (bs k)"
    and scan: "merge_scan (pt_push level head t) (page_level_to_size level) head head (pt_heads t level) = Some (Some (last ys, y))"
    and far: "\<not> adjacent (page_level_to_size level) head (pt_heads t level)"
    and adj: "adjacent (page_level_to_size level) head y"
    and others: "\<And>k. k < PAGE_MAX_LEVELS \<Longrightarrow> k \<noteq> level \<Longrightarrow> last ys \<notin> set (bs k)"
  shows "merge_one t bs head level"
proof -
  let ?t1 = "pt_push level head t" and ?p = "last ys"
  have "?p \<in> set (bs level)" "y \<in> set (bs level)" using assms(3,4) by auto
  then have neq: "head \<noteq> ?p" "head \<noteq> y" using assms(6) [OF assms(2)] by metis+
  let ?t2 = "pt_set_link ?p (pt_link ?t1 y) ?t1"
  have link: "pt_link ?t1 head = pt_heads t level" "pt_link ?t1 y = pt_link t y" "pt_link ?t2 head = pt_heads t level"
    using neq by (simp_all add: pt_push_def)
  let ?T = "pt_set_head level (pt_heads t level) ?t2"
  have rem: "remove1 y (bs level) = ys @ zs" using assms(3,5) by (simp add: remove1_append)
  have "chained ((pt_link t)(?p := pt_link t y)) (pt_heads t level) (ys @ zs)"
    using cut_neighbour [OF _ _ assms(4)] lists_okD [OF assms(1,2)] assms(3,5) by simp
  moreover have "head \<notin> set (ys @ zs)" using assms(6) [OF assms(2)] assms(3) by simp
  ultimately have here: "chained (pt_link ?T) (pt_heads ?T level) (ys @ zs)"
    using fun_upd_twist [OF neq(1), of "pt_link t" "pt_heads t level" "pt_link t y"] neq by (simp add: pt_push_def)
  have "lists_ok ?T (bs(level := ys @ zs))"
    using here assms(1,6) others by (auto simp: lists_ok_def pt_push_def)
  moreover have "MergePageLevel t head level = MergePageLevel ?T (min head y) (level + 1)"
    using assms(2) far scan link neq(1) by (simp add: MergePageLevel.simps [of t] Let_def)
  ultimately show ?thesis using adj assms(3) rem unfolding merge_one_def by (metis in_set_conv_decomp)
qed


lemma blocks_apart:
  assumes "in_table (free_blocks bs)" "k < PAGE_MAX_LEVELS" "l < PAGE_MAX_LEVELS" "k \<noteq> l" "y \<in> set (bs k)"
  shows "y \<notin> set (bs l)"
proof -
  have "in_table (add_mset (page_level_to_size k, y) (free_blocks (bs(k := remove1 y (bs k)))))"
    using assms(1) free_blocks_take [of k y bs, OF assms(2,5)] by simp
  from not_listed [OF this _ _ _ assms(3), of y] assms(4) show ?thesis by simp
qed

lemma merge_one_ok:
  assumes ok: "lists_ok t bs" and lv: "level < PAGE_MAX_LEVELS"
    and tab: "in_table (add_mset (page_level_to_size level, head) (free_blocks bs))"
  shows "merge_one t bs head level"
proof -
  have notin: "head \<notin> set (bs k)" if "k < PAGE_MAX_LEVELS" for k
    using not_listed [OF tab _ _ _ that, of head] by simp
  have head: "head + page_level_to_size level < INVALID_MEM_ADDR" using in_table_addr [OF tab] by auto
  have tabs: "in_table (free_blocks bs)" by (rule in_table_addD [OF tab])
  have invalid: "\<not> adjacent (page_level_to_size level) head INVALID_MEM_ADDR"
    using adjacent_iff [OF _ head, of INVALID_MEM_ADDR] by simp
  have now: "pt_link (pt_push level head t) head = pt_heads t level" by (simp add: pt_push_def)
  have chain: "chained (pt_link (pt_push level head t)) (pt_heads t level) (bs level)"
    using lists_okD [OF ok lv] notin [OF lv] by (simp add: pt_push_def)
  show ?thesis
  proof (cases "adjacent (page_level_to_size level) head (pt_heads t level)")
    case True
    then have "pt_heads t level \<noteq> INVALID_MEM_ADDR" using invalid by metis
    with lists_head [OF ok lv] obtain zs where "bs level = pt_heads t level # zs" by blast
    from merge_first [OF ok lv this notin [OF lv] True notin] show ?thesis .
  next
    case far: False
    from merge_scan_ok [OF chain, of "page_level_to_size level" head head] show ?thesis
    proof (elim disjE exE conjE)
      assume none: "merge_scan (pt_push level head t) (page_level_to_size level) head head (pt_heads t level) = Some None"
        "\<forall>x\<in>set (bs level). \<not> adjacent (page_level_to_size level) head x"
      then have "MergePageLevel t head level = Some (pt_push level head t)"
        using lv far now by (simp add: MergePageLevel.simps [of t] Let_def)
      then show ?thesis using none(2) by (simp add: merge_one_def)
    next
      fix ys y zs
      assume found: "bs level = ys @ y # zs" "adjacent (page_level_to_size level) head y"
        "merge_scan (pt_push level head t) (page_level_to_size level) head head (pt_heads t level) = Some (Some (last (head # ys), y))"
      have ys: "ys \<noteq> []" using found(1,2) far chain by (cases ys) auto
      have others: "last ys \<notin> set (bs k)" if "k < PAGE_MAX_LEVELS" "k \<noteq> level" for k
        using blocks_apart [OF tabs lv that(1)] that(2) found(1) ys by simp
      have "merge_scan (pt_push level head t) (page_level_to_size level) head head (pt_heads t level) = Some (Some (last ys, y))"
        using found(3) ys by simp
      then show ?thesis
        using merge_later [OF ok lv found(1) ys blocks_distinct [OF tabs lv] notin _ far found(2) others] by blast
    qed
  qed
qed

lemma merged_cover:
  assumes tab: "in_table (add_mset (page_level_to_size level, head) (free_blocks bs))" and lv: "level < PAGE_MAX_LEVELS"
    and y: "y \<in> set (bs level)" "adjacent (page_level_to_size level) head y"
  shows "same_cover (add_mset (page_level_to_size (Suc level), min head y) (free_blocks (bs(level := remove1 y (bs level)))))
    (add_mset (page_level_to_size level, head) (free_blocks bs))"
    and "in_table (add_mset (page_level_to_size (Suc level), min head y) (free_blocks (bs(level := remove1 y (bs level)))))"
proof -
  let ?n = "page_level_to_size level" and ?R = "free_blocks (bs(level := remove1 y (bs level)))"
  have R: "free_blocks bs = add_mset (?n, y) ?R" by (rule free_blocks_take [of level y bs, OF lv y(1)])
  have "head + ?n < INVALID_MEM_ADDR" "y + ?n < INVALID_MEM_ADDR"
    using in_table_addr [OF tab] R by auto
  then have "head + ?n = y \<or> y + ?n = head"
    using y(2) adjacent_iff [of ?n head y] by simp
  then have pair: "add_mset (?n, head) (add_mset (?n, y) ?R) = add_mset (?n, min head y) (add_mset (?n, min head y + ?n) ?R)"
    by (auto simp: min_def add_mset_commute)
  show "same_cover (add_mset (page_level_to_size (Suc level), min head y) ?R) (add_mset (?n, head) (free_blocks bs))"
    unfolding R pair page_size_Suc by (rule same_cover_halves)
  show "in_table (add_mset (page_level_to_size (Suc level), min head y) ?R)"
    using tab unfolding R pair page_size_Suc in_table_halves [OF page_size_pos(1)] .
qed

text \<open>
  When merging goes past the highest level, the block that came back and the free blocks fill the memory of a block
  of the level after it.
\<close>

definition full_run :: "region multiset \<Rightarrow> bool" where
  "full_run R \<longleftrightarrow> (\<exists>b. \<forall>x. b \<le> x \<and> x < b + page_level_to_size PAGE_MAX_LEVELS \<longrightarrow> 0 < cover R x)"

lemma full_run_block: "full_run (add_mset (page_level_to_size PAGE_MAX_LEVELS, b) R)"
  unfolding full_run_def by (rule exI [of _ b]) (simp add: in_region_def)

lemma full_run_same: "same_cover R S \<Longrightarrow> full_run R \<Longrightarrow> full_run S"
  by (simp add: full_run_def same_cover_def)

lemma merge_ok:
  assumes "lists_ok t bs" "level \<le> PAGE_MAX_LEVELS"
    "in_table (add_mset (page_level_to_size level, head) (free_blocks bs))"
  shows "case MergePageLevel t head level of
      None \<Rightarrow> full_run (add_mset (page_level_to_size level, head) (free_blocks bs))
    | Some t' \<Rightarrow> \<exists>bs'. lists_ok t' bs' \<and>
        same_cover (free_blocks bs') (add_mset (page_level_to_size level, head) (free_blocks bs))"
  using assms
proof (induction "PAGE_MAX_LEVELS - level" arbitrary: t bs level head)
  case 0
  then show ?case by (simp add: MergePageLevel.simps [of t] full_run_block)
next
  case (Suc d)
  then have lv: "level < PAGE_MAX_LEVELS" by simp
  from merge_one_ok [OF Suc.prems(1) lv Suc.prems(3)]
  consider "MergePageLevel t head level = Some (pt_push level head t)"
    | y T where "y \<in> set (bs level)" "adjacent (page_level_to_size level) head y"
      "lists_ok T (bs(level := remove1 y (bs level)))" "MergePageLevel t head level = MergePageLevel T (min head y) (Suc level)"
    unfolding merge_one_def by auto
  then show ?case
  proof cases
    case 1
    have "lists_ok (pt_push level head t) (bs(level := head # bs level))"
      using in_table_addr(2) [OF Suc.prems(3)] not_listed [OF Suc.prems(3), of head]
      by (intro lists_ok_push [OF Suc.prems(1) lv]) auto
    then show ?thesis using 1 free_blocks_Cons [OF lv, of bs head "bs level"] by force
  next
    case 2
    have step: "case MergePageLevel T (min head y) (Suc level) of
        None \<Rightarrow> full_run (add_mset (page_level_to_size (Suc level), min head y) (free_blocks (bs(level := remove1 y (bs level)))))
      | Some t' \<Rightarrow> \<exists>bs'. lists_ok t' bs' \<and> same_cover (free_blocks bs')
          (add_mset (page_level_to_size (Suc level), min head y) (free_blocks (bs(level := remove1 y (bs level)))))"
      using Suc.hyps(2) lv by (intro Suc.hyps(1) 2(3) merged_cover(2) [OF Suc.prems(3) lv 2(1,2)]) auto
    show ?thesis
    proof (cases "MergePageLevel T (min head y) (Suc level)")
      case None
      then show ?thesis
        using step 2(4) full_run_same [OF merged_cover(1) [OF Suc.prems(3) lv 2(1,2)]] by simp
    next
      case (Some t')
      then obtain bs' where "lists_ok t' bs'" "same_cover (free_blocks bs')
          (add_mset (page_level_to_size (Suc level), min head y) (free_blocks (bs(level := remove1 y (bs level)))))"
        using step by auto
      then show ?thesis
        using Some 2(4) same_cover_trans merged_cover(1) [OF Suc.prems(3) lv 2(1,2)] by auto
    qed
  qed
qed


text \<open>A block whose right neighbours are the free blocks of its level and of all levels above it.\<close>

lemma merge_chain:
  assumes "lists_ok t bs" "in_table (add_mset (page_level_to_size k, h) (free_blocks bs))" "k \<le> PAGE_MAX_LEVELS"
    and "\<forall>l. k \<le> l \<and> l < PAGE_MAX_LEVELS \<longrightarrow> bs l = [h + page_level_to_size l]"
  shows "MergePageLevel t h k = None"
  using assms
proof (induction "PAGE_MAX_LEVELS - k" arbitrary: t bs k)
  case 0
  then show ?case by (simp add: MergePageLevel.simps [of t])
next
  case (Suc d)
  then have k: "k < PAGE_MAX_LEVELS" by simp
  let ?y = "h + page_level_to_size k"
  have list: "bs k = [?y]" using Suc.prems(4) k by simp
  have "(page_level_to_size k, ?y) \<in># free_blocks bs" using in_blocksI [OF k, of ?y bs] list by simp
  then have "h + page_level_to_size k < INVALID_MEM_ADDR" "?y + page_level_to_size k < INVALID_MEM_ADDR"
    using in_table_addr [OF Suc.prems(2)] by auto
  then have adj: "adjacent (page_level_to_size k) h ?y" using adjacent_iff [of "page_level_to_size k" h ?y] by simp
  from merge_one_ok [OF Suc.prems(1) k Suc.prems(2)]
  obtain T where T: "lists_ok T (bs(k := remove1 ?y (bs k)))" "MergePageLevel t h k = MergePageLevel T (min h ?y) (Suc k)"
    using list adj unfolding merge_one_def by auto
  have "in_table (add_mset (page_level_to_size (Suc k), min h ?y) (free_blocks (bs(k := remove1 ?y (bs k)))))"
    by (rule merged_cover(2) [OF Suc.prems(2) k _ adj]) (simp add: list)
  then have "MergePageLevel T h (Suc k) = None"
    using T(1) Suc.prems(3,4) Suc.hyps(2) k by (intro Suc.hyps(1)) auto
  then show ?case using T(2) by simp
qed

section \<open>What stays of a table\<close>

definition same_frame :: "page_table \<Rightarrow> page_table \<Rightarrow> bool" where
  "same_frame t t' \<longleftrightarrow> pt_current t' = pt_current t \<and> pt_end t' = pt_end t \<and> pt_next t' = pt_next t \<and>
     pt_slab_node t' = pt_slab_node t"

lemma frame_upd [simp]:
  "pt_current (pt_set_head l a t) = pt_current t" "pt_end (pt_set_head l a t) = pt_end t"
  "pt_current (pt_set_link a v t) = pt_current t" "pt_end (pt_set_link a v t) = pt_end t"
  "pt_current (pt_push l a t) = pt_current t" "pt_end (pt_push l a t) = pt_end t"
  "pt_next (pt_set_head l a t) = pt_next t" "pt_next (pt_set_link a v t) = pt_next t" "pt_next (pt_push l a t) = pt_next t"
  "pt_slab_node (pt_set_head l a t) = pt_slab_node t" "pt_slab_node (pt_set_link a v t) = pt_slab_node t"
  "pt_slab_node (pt_push l a t) = pt_slab_node t"
  by (simp_all add: pt_set_head_def pt_set_link_def pt_push_def)

lemma split_down_frame: "same_frame t (split_down level k e t)"
  by (induction level k e t rule: split_down.induct) (auto simp: same_frame_def)

lemma split_from_frame: "same_frame t (snd (split_from level i t))"
  by (induction level i t rule: split_from.induct)
     (use split_down_frame in \<open>auto simp: split_from.simps [of _ _ t for t] same_frame_def Let_def\<close>)

lemma GetUnit_frame: "same_frame t (snd (GetUnitFromPageLevel t))"
  using split_from_frame by (auto simp: GetUnitFromPageLevel_def SplitFromHighLevel_def same_frame_def)


lemma merge_frame: "MergePageLevel t head level = Some t' \<Longrightarrow> same_frame t t'"
proof (induction "PAGE_MAX_LEVELS - level" arbitrary: t head level)
  case 0
  then show ?case by (simp add: MergePageLevel.simps [of t])
next
  case (Suc d)
  then have lv: "level < PAGE_MAX_LEVELS" and d: "d = PAGE_MAX_LEVELS - (level + 1)" by simp_all
  show ?case
    using Suc.prems lv unfolding MergePageLevel.simps [of t]
    by (auto simp: same_frame_def Let_def split: if_splits option.splits
      dest!: Suc.hyps(1) [of "level + 1", unfolded d, OF refl, simplified])
qed

text \<open>No operation but the heap's touches the link to the next table.\<close>

lemma extend_levels_next: "pt_next (snd (extend_levels ls t)) = pt_next t"
  "pt_end (snd (extend_levels ls t)) = pt_end t" "pt_slab_node (snd (extend_levels ls t)) = pt_slab_node t"
  by (induction ls t rule: extend_levels.induct) (auto simp: pt_AllocMem_def)

lemma ExtendFromPageMem_next: "pt_next (snd (ExtendFromPageMem t l)) = pt_next t"
  using GetUnit_frame [of t] by (auto simp: ExtendFromPageMem_def same_frame_def split: prod.splits)

lemma slab_part_next: "pt_next (snd (slab_part t l)) = pt_next t"
proof -
  have "pt_next (snd (case ExtendPageMem t1 of (True, t2) \<Rightarrow> ExtendFromPageMem t2 l | (False, t2) \<Rightarrow> (ret, t2))) = pt_next t1"
    for t1 and ret :: nat
    using extend_levels_next [of "[0..<PAGE_MAX_LEVELS]" t1] ExtendFromPageMem_next
    by (auto simp: ExtendPageMem_def split: prod.splits bool.splits)
  moreover have "pt_next (snd (case ExtendFromPageMem t1 l of (ret, t2) \<Rightarrow>
      if ret \<noteq> 0 then (ret, t2)
      else case ExtendPageMem t2 of (True, t3) \<Rightarrow> ExtendFromPageMem t3 l | (False, t3) \<Rightarrow> (ret, t3))) = pt_next t1" for t1
    using ExtendFromPageMem_next [of t1 l] calculation by (auto simp del: split_paired_All split: prod.splits)
  ultimately show ?thesis by (auto simp: slab_part_def Let_def split: prod.splits)
qed

lemma pt_AllocData_next:
  assumes "\<And>t len. pt_next (snd (by_slab t len)) = pt_next t"
  shows "pt_next (snd (pt_AllocData by_slab l t len)) = pt_next t"
proof -
  have "pt_next (snd (AllocByPageLevel l t len)) = pt_next t"
    using slab_part_next by (auto simp: AllocByPageLevel_def Let_def)
  then have "pt_next (snd (case divide_size len of SMALL_OBJECT \<Rightarrow> by_slab t len
      | LARGE_OBJECT \<Rightarrow> AllocByPageLevel l t len | HUGE_OBJECT \<Rightarrow> (0, t))) = pt_next t"
    using assms by (cases "divide_size len") auto
  then show ?thesis by (auto simp: pt_AllocData_def pt_SetValidFlag_def split: prod.splits)
qed

lemma pt_FreeData_next: "pt_FreeData t a len = Some (ok, t') \<Longrightarrow> pt_next t' = pt_next t"
  using merge_frame [of t a "find_level len"]
  by (auto simp: pt_FreeData_def FreeDataByPage_def FreeDataBySlab_def Let_def same_frame_def split: object_size.splits)

section \<open>Sizes\<close>

lemma first_level_found:
  assumes "k \<le> levels" "\<forall>j<k. size_of j < sz"
  shows "k \<le> first_level size_of levels sz k \<and> first_level size_of levels sz k \<le> levels \<and>
    (\<forall>j < first_level size_of levels sz k. size_of j < sz) \<and>
    (first_level size_of levels sz k < levels \<longrightarrow> sz \<le> size_of (first_level size_of levels sz k))"
  using assms
proof (induction size_of levels sz k rule: first_level.induct)
  case (1 size_of levels sz k)
  show ?case
  proof (cases "k < levels \<and> size_of k < sz")
    case True
    then have "\<forall>j < k + 1. size_of j < sz" using "1.prems"(2) by (simp add: less_Suc_eq)
    then have "k + 1 \<le> first_level size_of levels sz (k + 1) \<and> first_level size_of levels sz (k + 1) \<le> levels \<and>
      (\<forall>j < first_level size_of levels sz (k + 1). size_of j < sz) \<and>
      (first_level size_of levels sz (k + 1) < levels \<longrightarrow> sz \<le> size_of (first_level size_of levels sz (k + 1)))"
      using "1.IH" [OF True] True by simp
    then show ?thesis using True by (simp add: first_level.simps [of size_of levels sz k])
  qed (use "1.prems" in \<open>simp add: first_level.simps [of size_of levels sz k]; linarith\<close>)
qed

definition least_level :: "(nat \<Rightarrow> nat) \<Rightarrow> nat \<Rightarrow> nat \<Rightarrow> nat \<Rightarrow> bool" where
  "least_level size_of levels sz k \<longleftrightarrow> k < levels \<and> sz \<le> size_of k \<and> (\<forall>j<k. size_of j < sz)"

lemma least_levelI:
  assumes "sz \<le> size_of (levels - 1)" "0 < levels"
  shows "least_level size_of levels sz (first_level size_of levels sz 0)"
proof -
  have f: "first_level size_of levels sz 0 \<le> levels"
    "\<forall>j < first_level size_of levels sz 0. size_of j < sz"
    "first_level size_of levels sz 0 < levels \<longrightarrow> sz \<le> size_of (first_level size_of levels sz 0)"
    using first_level_found [of 0 levels size_of sz] by simp_all
  have "first_level size_of levels sz 0 \<noteq> levels"
  proof
    assume "first_level size_of levels sz 0 = levels"
    then have "size_of (levels - 1) < sz" using f(2) assms(2) by simp
    then show False using assms(1) by simp
  qed
  then show ?thesis using f by (auto simp: least_level_def)
qed

text \<open>Slab items of a slab, one after the other.\<close>

fun slab_allocs :: "nat \<Rightarrow> slab_table \<Rightarrow> nat list" where
  "slab_allocs 0 s = []"
| "slab_allocs (Suc n) s = (case slab_AllocData s of (a, s') \<Rightarrow> a # slab_allocs n s')"

lemma slab_allocs_from:
  "slab_allocs n s = map (\<lambda>i. if sl_use_item s + i < sl_max_item_num s
     then sl_begin s + SlabMemTableHead_size + sl_item_size s * (sl_use_item s + i) else 0) [0..<n]"
proof (induction n arbitrary: s)
  case (Suc n)
  have up: "map f [0..<Suc n] = f 0 # map (\<lambda>i. f (Suc i)) [0..<n]" for f :: "nat \<Rightarrow> nat"
    by (simp add: upt_conv_Cons map_Suc_upt [symmetric] del: upt_Suc)
  show ?case
    unfolding up by (auto simp: Suc.IH slab_AllocData_def)
qed simp

end
