(* ===== verification/Arena_Client.thy ===== *)
theory Arena_Client
  imports Arena_Blocks
begin

text \<open>
  A page table (page_mem_table.cc) between \<open>Init\<close> and any sequence of requests of a client: the blocks
  the client holds and the free blocks never overlap, and none is lost.  The sizes of the
  levels, the items of a slab, and what happens when merging reaches the highest level.
\<close>

section \<open>A table and its client\<close>

text \<open>
  The requests: a unit of 4 KB, a small object (the part of \<open>AllocBySlab\<close> that the source has), a large object,
  more free blocks, and a large object that is given back.  The client's state holds the regions it was handed, and
  the pages that became slabs.  A large object whose list is empty goes the way of a small one: the slab level that
  \<open>AllocByPageLevel\<close> does not declare is \<open>sl\<close>, and what comes back is an item of a slab, no region of its own.
  None: merging passed the highest level, where the code writes behind \<open>free_lists_\<close>.
\<close>

datatype table_op = TakeUnit | TakeSmall nat | TakeLarge nat | Extend | GiveLarge nat nat

type_synonym table_client = "page_table \<times> region multiset \<times> region multiset"

text \<open>A page that became the slab of level \<open>l\<close> between \<open>t\<close> and \<open>t'\<close>.\<close>

definition slab_page :: "nat \<Rightarrow> page_table \<Rightarrow> page_table \<Rightarrow> region multiset \<Rightarrow> region multiset" where
  "slab_page l t t' S =
     (if pt_slab_node t' l = pt_slab_node t l then S else add_mset (page_level_to_size 0, pt_slab_node t' l) S)"

fun table_step :: "nat \<Rightarrow> table_op \<Rightarrow> table_client \<Rightarrow> table_client option" where
  "table_step sl TakeUnit (t, R, S) =
     (case GetUnitFromPageLevel t of (a, t') \<Rightarrow> Some (t', if a = 0 then R else add_mset (page_level_to_size 0, a) R, S))"
| "table_step sl (TakeSmall len) (t, R, S) =
     (if divide_size len = SMALL_OBJECT then
        (case slab_part t (find_slab_level len) of (a, t') \<Rightarrow> Some (t', R, slab_page (find_slab_level len) t t' S))
      else Some (t, R, S))"
| "table_step sl (TakeLarge len) (t, R, S) =
     (if divide_size len = LARGE_OBJECT then
        (case AllocByPageLevel sl t len of
           (a, t') \<Rightarrow>
             Some (if pt_heads t (find_level len) \<noteq> INVALID_MEM_ADDR
                   then (t', add_mset (page_level_to_size (find_level len), a) R, S)
                   else (t', R, slab_page sl t t' S)))
      else Some (t, R, S))"
| "table_step sl Extend (t, R, S) = Some (snd (ExtendPageMem t), R, S)"
| "table_step sl (GiveLarge a len) (t, R, S) =
     (if divide_size len = LARGE_OBJECT \<and> (page_level_to_size (find_level len), a) \<in># R then
        map_option (\<lambda>(ok, t'). (t', R - {#(page_level_to_size (find_level len), a)#}, S)) (pt_FreeData t a len)
      else Some (t, R, S))"

fun table_run :: "nat \<Rightarrow> table_op list \<Rightarrow> table_client \<Rightarrow> table_client option" where
  "table_run sl [] s = Some s"
| "table_run sl (op # ops) s = (case table_step sl op s of None \<Rightarrow> None | Some s' \<Rightarrow> table_run sl ops s')"

definition table_good :: "nat \<Rightarrow> page_table \<Rightarrow> (nat \<Rightarrow> nat list) \<Rightarrow> region multiset \<Rightarrow> bool" where
  "table_good lo t bs R \<longleftrightarrow> lists_ok t bs \<and> separate (R + free_blocks bs) \<and> within lo (pt_current t) (R + free_blocks bs) \<and>
     0 < lo \<and> lo \<le> pt_current t \<and> pt_current t \<le> pt_end t \<and> pt_end t < INVALID_MEM_ADDR"

lemma find_level_large: "divide_size n = LARGE_OBJECT \<Longrightarrow> find_level n < PAGE_MAX_LEVELS"
proof -
  assume "divide_size n = LARGE_OBJECT"
  then have "n < 131072" by (simp add: divide_size_def sizes split: if_splits)
  then show ?thesis
    using least_levelI [of n page_level_to_size PAGE_MAX_LEVELS]
    by (simp add: find_level_def Let_def page_level_to_size_def sizes least_level_def)
qed

lemma small_level:
  assumes "divide_size n = SMALL_OBJECT"
  shows "least_level slab_level_to_size SLAB_MAX_LEVELS n (find_slab_level n)"
    "slab_level_to_size (find_slab_level n) < n + 64"
proof -
  have "n < 2048" using assms by (simp add: divide_size_def sizes split: if_splits)
  then show least: "least_level slab_level_to_size SLAB_MAX_LEVELS n (find_slab_level n)"
    using least_levelI [of n slab_level_to_size SLAB_MAX_LEVELS]
    by (simp add: find_slab_level_def Let_def slab_level_to_size_def sizes least_level_def)
  have "slab_level_to_size j < n" if "find_slab_level n = Suc j" for j using least that by (simp add: least_level_def)
  then show "slab_level_to_size (find_slab_level n) < n + 64"
    by (cases "find_slab_level n") (auto simp: slab_level_to_size_def sizes split: if_splits)
qed

lemma large_level:
  assumes "divide_size n = LARGE_OBJECT"
  shows "least_level page_level_to_size PAGE_MAX_LEVELS n (find_level n)"
    "page_level_to_size (find_level n) \<le> 2 * n \<and> (2048 < n \<longrightarrow> page_level_to_size (find_level n) < 2 * n)"
proof -
  have n: "n < 131072" "2048 \<le> n" using assms by (simp_all add: divide_size_def sizes split: if_splits)
  then show least: "least_level page_level_to_size PAGE_MAX_LEVELS n (find_level n)"
    using least_levelI [of n page_level_to_size PAGE_MAX_LEVELS]
    by (simp add: find_level_def Let_def page_level_to_size_def sizes least_level_def)
  have "page_level_to_size j < n" if "find_level n = Suc j" for j using least that by (simp add: least_level_def)
  then show "page_level_to_size (find_level n) \<le> 2 * n \<and> (2048 < n \<longrightarrow> page_level_to_size (find_level n) < 2 * n)"
    using n(2) by (cases "find_level n") (auto simp: page_size_Suc page_level_to_size_def [of 0])
qed

lemma same_cover_plus: "same_cover R S \<Longrightarrow> same_cover (T + R) (T + S)"
  by (simp add: same_cover_def)

lemma cover_pos: "r \<in># R \<Longrightarrow> in_region x r \<Longrightarrow> 0 < cover R x"
  by (induction R) auto

lemma cover_posD: "0 < cover R x \<Longrightarrow> \<exists>r \<in># R. in_region x r"
  by (induction R) (auto split: if_splits)

lemma within_same_cover:
  assumes "same_cover R S" "within lo hi S" "\<And>n a. (n, a) \<in># R \<Longrightarrow> 0 < n"
  shows "within lo hi R"
proof -
  have in_S: "lo \<le> x \<and> x < hi" if "0 < cover R x" for x
  proof -
    have "0 < cover S x" using that assms(1) by (simp add: same_cover_def)
    then obtain m b where "(m, b) \<in># S" "in_region x (m, b)" by (metis cover_posD surj_pair)
    then show ?thesis using withinD [OF assms(2)] by (fastforce simp: in_region_def)
  qed
  have "lo \<le> a \<and> a + n \<le> hi" if r: "(n, a) \<in># R" for n a
  proof -
    have n: "0 < n" using assms(3) r by blast
    have "in_region a (n, a)" "in_region (a + n - 1) (n, a)" using n by (auto simp: in_region_def)
    then show ?thesis using in_S [OF cover_pos [OF r]] n by fastforce
  qed
  then show ?thesis using assms(3) by (fastforce simp: within_def)
qed

lemma free_blocks_pos: "(n, a) \<in># free_blocks bs \<Longrightarrow> 0 < n"
  by (auto simp: in_blocks)

lemma table_goodD:
  assumes "table_good lo t bs R"
  shows "lists_ok t bs" "in_table (R + free_blocks bs)" "in_table (free_blocks bs)"
proof -
  show "lists_ok t bs" using assms by (simp add: table_good_def)
  have w: "within lo (pt_current t) (R + free_blocks bs)" "0 < lo" "pt_current t \<le> INVALID_MEM_ADDR - 1"
    using assms by (auto simp: table_good_def)
  have "within 1 (INVALID_MEM_ADDR - 1) (R + free_blocks bs)"
    unfolding within_def
  proof
    fix r assume "r \<in># R + free_blocks bs"
    then show "0 < fst r \<and> 1 \<le> snd r \<and> snd r + fst r \<le> INVALID_MEM_ADDR - 1"
      using withinD [OF w(1), of "fst r" "snd r"] w(2,3) by simp
  qed
  then show "in_table (R + free_blocks bs)" using assms by (simp add: table_good_def in_table_def)
  then show "in_table (free_blocks bs)" by (rule in_table_mono) simp
qed

text \<open>Blocks that pass between the client and the lists.\<close>

lemma table_good_cover:
  assumes good: "table_good lo t bs R" and lists: "lists_ok t' bs'"
    and same: "same_cover (R' + free_blocks bs') (R + free_blocks bs)"
    and R': "\<And>n a. (n, a) \<in># R' \<Longrightarrow> 0 < n" and "pt_current t' = pt_current t" "pt_end t' = pt_end t"
  shows "table_good lo t' bs' R'"
proof -
  have "within lo (pt_current t) (R' + free_blocks bs')"
    using good R' free_blocks_pos by (intro within_same_cover [OF same]) (auto simp: table_good_def)
  then show ?thesis
    using good lists same_cover_separate [OF same_cover_sym [OF same]] assms(5,6) by (simp add: table_good_def)
qed

lemma in_blocks_pos: "table_good lo t bs R \<Longrightarrow> (n, a) \<in># R \<Longrightarrow> 0 < n"
  using in_table_addr(4) [OF table_goodD(2)] by (metis union_iff)

lemma take_unit_good:
  assumes "table_good lo t bs R" "GetUnitFromPageLevel t = (a, t')" "a \<noteq> 0"
  shows "\<exists>bs'. table_good lo t' bs' (add_mset (page_level_to_size 0, a) R) \<and>
    same_cover (add_mset (page_level_to_size 0, a) R + free_blocks bs') (R + free_blocks bs)"
proof -
  have frame: "pt_current t' = pt_current t" "pt_end t' = pt_end t"
    using GetUnit_frame [of t] assms(2) by (simp_all add: same_frame_def)
  obtain bs' where bs': "lists_ok t' bs'" "same_cover (add_mset (page_level_to_size 0, a) (free_blocks bs')) (free_blocks bs)"
    using GetUnit_ok [OF table_goodD(1,3) [OF assms(1)]] assms(2,3) by (auto simp: took_def)
  have same: "same_cover (add_mset (page_level_to_size 0, a) R + free_blocks bs') (R + free_blocks bs)"
    using same_cover_plus [OF bs'(2), of R] by simp
  have "0 < n" if "(n, b) \<in># add_mset (page_level_to_size 0, a) R" for n b
    using that in_blocks_pos [OF assms(1)] by auto
  then show ?thesis using table_good_cover [OF assms(1) bs'(1) same _ frame] same by blast
qed

lemma no_unit: "table_good lo t bs R \<Longrightarrow> GetUnitFromPageLevel t = (0, t') \<Longrightarrow> t' = t"
  using GetUnit_ok [OF table_goodD(1,3)] by (fastforce simp: took_def)

text \<open>A block of the table's own is not handed out twice.\<close>

lemma table_good_new:
  assumes "table_good lo t bs (add_mset (n, a) R)" "0 < n"
  shows "(n, a) \<notin># R"
proof
  assume "(n, a) \<in># R"
  then obtain R' where R: "R = add_mset (n, a) R'" by (metis mset_add)
  have "cover (add_mset (n, a) R + free_blocks bs) a \<le> 1" using assms(1) by (simp add: table_good_def separate_def)
  then show False using assms(2) by (simp add: R in_region_def)
qed

lemma take_large_good:
  assumes "table_good lo t bs R" "divide_size len = LARGE_OBJECT" "pt_heads t (find_level len) \<noteq> INVALID_MEM_ADDR"
    and "AllocByPageLevel sl t len = (a, t')"
  shows "\<exists>bs'. table_good lo t' bs' (add_mset (page_level_to_size (find_level len), a) R) \<and>
    same_cover (add_mset (page_level_to_size (find_level len), a) R + free_blocks bs') (R + free_blocks bs)"
    "same_frame t t'"
proof -
  let ?l = "find_level len"
  have lv: "?l < PAGE_MAX_LEVELS" using find_level_large assms(2) by blast
  have a: "a = pt_heads t ?l" and t': "t' = pt_set_link a INVALID_MEM_ADDR (pt_set_head ?l (pt_link t a) t)"
    using assms(3,4) by (auto simp: AllocByPageLevel_def Let_def)
  show "same_frame t t'" by (simp add: t' same_frame_def)
  obtain xs where bs: "bs ?l = a # xs" using lists_head [OF table_goodD(1) [OF assms(1)] lv] assms(3) a by blast
  have blocks: "free_blocks bs = add_mset (page_level_to_size ?l, a) (free_blocks (bs(?l := xs)))"
    using free_blocks_Cons [OF lv, of bs a xs] bs by (metis fun_upd_triv)
  have "in_table (add_mset (page_level_to_size ?l, a) (free_blocks (bs(?l := xs))))"
    using table_goodD(3) [OF assms(1)] blocks by simp
  from not_listed [OF this, of a] have "lists_ok t' (bs(?l := xs))"
    unfolding t' by (intro lists_ok_link lists_ok_pop [OF table_goodD(1) [OF assms(1)] bs lv]) auto
  moreover have same: "same_cover (add_mset (page_level_to_size ?l, a) R + free_blocks (bs(?l := xs))) (R + free_blocks bs)"
    by (simp add: blocks)
  moreover have "0 < n" if "(n, b) \<in># add_mset (page_level_to_size ?l, a) R" for n b
    using that in_blocks_pos [OF assms(1)] by auto
  ultimately have "table_good lo t' (bs(?l := xs)) (add_mset (page_level_to_size ?l, a) R)"
    by (intro table_good_cover [OF assms(1)]) (auto simp: t')
  then show "\<exists>bs'. table_good lo t' bs' (add_mset (page_level_to_size ?l, a) R) \<and>
    same_cover (add_mset (page_level_to_size ?l, a) R + free_blocks bs') (R + free_blocks bs)" using same by blast
qed

text \<open>A block that is given back: it is merged, or with the free blocks it fills the room of two of the largest.\<close>

lemma give_large_good:
  assumes "table_good lo t bs (add_mset (page_level_to_size (find_level len), a) R)" "divide_size len = LARGE_OBJECT"
  shows "case pt_FreeData t a len of
      None \<Rightarrow> full_run (add_mset (page_level_to_size (find_level len), a) (free_blocks bs))
    | Some (ok, t') \<Rightarrow> same_frame t t' \<and> (\<exists>bs'. table_good lo t' bs' R \<and>
        same_cover (R + free_blocks bs') (add_mset (page_level_to_size (find_level len), a) R + free_blocks bs))"
proof -
  let ?l = "find_level len" and ?r = "(page_level_to_size (find_level len), a)"
  have lv: "?l \<le> PAGE_MAX_LEVELS" using find_level_large assms(2) by (simp add: less_imp_le)
  have free: "pt_FreeData t a len = map_option (\<lambda>t'. (True, t')) (MergePageLevel t a ?l)"
    using assms(2) by (simp add: pt_FreeData_def FreeDataByPage_def)
  have "in_table (add_mset ?r (free_blocks bs))"
    using table_goodD(2) [OF assms(1)] by (rule in_table_mono) simp
  note merge = merge_ok [OF table_goodD(1) [OF assms(1)] lv this]
  show ?thesis
  proof (cases "MergePageLevel t a ?l")
    case None
    then show ?thesis using merge free by simp
  next
    case (Some t')
    then obtain bs' where bs': "lists_ok t' bs'" "same_cover (free_blocks bs') (add_mset ?r (free_blocks bs))"
      using merge by auto
    note frame = merge_frame [OF Some]
    have same: "same_cover (R + free_blocks bs') (add_mset ?r R + free_blocks bs)"
      using same_cover_plus [OF bs'(2), of R] by simp
    have "0 < n" if "(n, b) \<in># R" for n b using that in_blocks_pos [OF assms(1), of n b] by simp
    then have "table_good lo t' bs' R"
      using frame table_good_cover [OF assms(1) bs'(1) same] by (simp add: same_frame_def)
    then show ?thesis using same frame free Some by auto
  qed
qed

lemma table_good_fresh:
  assumes good: "table_good lo t bs R" and room: "pt_current t + page_level_to_size l \<le> pt_end t" "l < PAGE_MAX_LEVELS"
  shows "table_good lo (pt_push l (pt_current t) (t\<lparr>pt_current := pt_current t + page_level_to_size l\<rparr>))
    (bs(l := pt_current t # bs l)) R"
proof -
  let ?a = "pt_current t" and ?t = "t\<lparr>pt_current := pt_current t + page_level_to_size l\<rparr>"
  have w: "within lo ?a (R + free_blocks bs)" and fin: "pt_end t < INVALID_MEM_ADDR" "lo \<le> ?a" "0 < lo" and "separate (R + free_blocks bs)"
    using good by (simp_all add: table_good_def)
  then have sep: "separate (add_mset (page_level_to_size l, ?a) (R + free_blocks bs))"
    by (intro separate_fresh [of _ lo ?a]) auto
  have "?a \<notin> set (bs k)" if "k < PAGE_MAX_LEVELS" for k
    using withinD [OF w, of "page_level_to_size k" ?a] in_blocksI [OF that, of ?a bs] page_size_pos(1) [of k] by fastforce
  moreover have "lists_ok ?t bs" using table_goodD(1) [OF good] by (simp add: lists_ok_def)
  moreover have "?a \<noteq> INVALID_MEM_ADDR" using room(1) fin(1) by simp
  ultimately have "lists_ok (pt_push l ?a ?t) (bs(l := ?a # bs l))" using room(2) by (intro lists_ok_push)
  moreover have "within lo (?a + page_level_to_size l) (add_mset (page_level_to_size l, ?a) (R + free_blocks bs))"
    using within_le [OF w, of "?a + page_level_to_size l"] fin(2) by simp
  ultimately show ?thesis
    using sep room fin by (simp add: table_good_def free_blocks_Cons)
qed

lemma extend_levels_good:
  assumes "table_good lo t bs R" "\<forall>i\<in>set ls. i < PAGE_MAX_LEVELS"
  shows "\<exists>bs'. table_good lo (snd (extend_levels ls t)) bs' R \<and> free_blocks bs \<subseteq># free_blocks bs'"
  using assms
proof (induction ls t arbitrary: bs rule: extend_levels.induct)
  case (2 i ls t)
  show ?case
  proof (cases "pt_current t + page_level_to_size i > pt_end t")
    case True
    then show ?thesis using "2.prems" by (auto simp: pt_AllocMem_def)
  next
    case False
    let ?t = "pt_push i (pt_current t) (t\<lparr>pt_current := pt_current t + page_level_to_size i\<rparr>)"
    have "pt_current t \<noteq> 0" using "2.prems"(1) by (auto simp: table_good_def)
    then have step: "extend_levels (i # ls) t = extend_levels ls ?t" using False by (simp add: pt_AllocMem_def)
    have good: "table_good lo ?t (bs(i := pt_current t # bs i)) R"
      using "2.prems" False by (intro table_good_fresh) auto
    have more: "free_blocks bs \<subseteq># free_blocks (bs(i := pt_current t # bs i))"
      using "2.prems"(2) by (auto simp: free_blocks_Cons subseteq_mset_def)
    have all: "\<forall>i\<in>set ls. i < PAGE_MAX_LEVELS" using "2.prems"(2) by simp
    have alloc: "pt_AllocMem t (page_level_to_size i) = (pt_current t, t\<lparr>pt_current := pt_current t + page_level_to_size i\<rparr>)"
      using False by (simp add: pt_AllocMem_def)
    have "\<exists>bs'. table_good lo (snd (extend_levels ls ?t)) bs' R \<and>
        free_blocks (bs(i := pt_current t # bs i)) \<subseteq># free_blocks bs'"
      by (rule "2.IH" [OF alloc [symmetric] \<open>pt_current t \<noteq> 0\<close> good all])
    then show ?thesis using more step \<open>pt_current t \<noteq> 0\<close> by (metis subset_mset.order_trans)
  qed
qed auto

lemma Extend_good:
  assumes "table_good lo t bs R"
  shows "\<exists>bs'. table_good lo (snd (ExtendPageMem t)) bs' R \<and> free_blocks bs \<subseteq># free_blocks bs'"
  unfolding ExtendPageMem_def by (rule extend_levels_good [OF assms]) simp

definition covers_more :: "region multiset \<Rightarrow> region multiset \<Rightarrow> bool" where
  "covers_more S R \<longleftrightarrow> (\<forall>x. cover R x \<le> cover S x)"

lemma covers_moreI: "same_cover S R \<Longrightarrow> covers_more S R" "R \<subseteq># S \<Longrightarrow> covers_more (T + S) (T + R)"
  by (simp_all add: covers_more_def same_cover_def cover_mono)

lemma covers_more_trans [trans]: "covers_more T S \<Longrightarrow> covers_more S R \<Longrightarrow> covers_more T R"
  unfolding covers_more_def using order_trans by blast

text \<open>
  What holds between the requests: the regions of the client, the slabs and the free blocks are in good order, and
  the slab of each level is one of the slab pages.
\<close>

definition client_good :: "nat \<Rightarrow> table_client \<Rightarrow> (nat \<Rightarrow> nat list) \<Rightarrow> bool" where
  "client_good lo s bs \<longleftrightarrow> (case s of (t, R, S) \<Rightarrow> table_good lo t bs (R + S) \<and>
     (\<forall>l<SLAB_MAX_LEVELS. pt_slab_node t l \<noteq> INVALID_MEM_ADDR \<longrightarrow> (page_level_to_size 0, pt_slab_node t l) \<in># S))"

lemma table_good_slabs [simp]:
  "table_good lo (t\<lparr>pt_slabs := f\<rparr>) bs R = table_good lo t bs R"
  "table_good lo (t\<lparr>pt_slabs := f, pt_slab_node := g\<rparr>) bs R = table_good lo t bs R"
  by (simp_all add: table_good_def lists_ok_def)

lemma slab_first: "l < SLAB_MAX_LEVELS \<Longrightarrow> fst (slab_AllocData (slab_Init a (slab_level_to_size l))) \<noteq> 0"
proof -
  assume l: "l < SLAB_MAX_LEVELS"
  have "0 < slab_level_to_size l" "slab_level_to_size l \<le> 2048" using l by (auto simp: slab_level_to_size_def sizes)
  then have "0 < (4056::nat) div slab_level_to_size l" by (simp add: div_greater_zero_iff)
  then show ?thesis by (simp add: slab_AllocData_def slab_Init_def SIZE_LIMIT_SMALL_def SlabMemTableHead_size_def)
qed

text \<open>A new slab: its page is a free unit, and becomes the slab of the level.\<close>

lemma new_slab_good:
  assumes "client_good lo (t, R, S) bs" "l < SLAB_MAX_LEVELS" "ExtendFromPageMem t l = (a, t')"
  shows "a = 0 \<and> t' = t \<or> a \<noteq> 0 \<and> pt_end t' = pt_end t \<and>
    (\<exists>bs'. client_good lo (t', R, slab_page l t t' S) bs' \<and>
      covers_more (R + slab_page l t t' S + free_blocks bs') (R + S + free_blocks bs))"
proof -
  obtain u t1 where unit: "GetUnitFromPageLevel t = (u, t1)" by (cases "GetUnitFromPageLevel t") simp
  have good: "table_good lo t bs (R + S)"
    and nodes: "\<forall>l<SLAB_MAX_LEVELS. pt_slab_node t l \<noteq> INVALID_MEM_ADDR \<longrightarrow> (page_level_to_size 0, pt_slab_node t l) \<in># S"
    using assms(1) by (simp_all add: client_good_def)
  show ?thesis
  proof (cases "u = 0")
    case True
    then have "a = 0" "t' = t1" using assms(3) unit by (simp_all add: ExtendFromPageMem_def)
    then show ?thesis using no_unit [OF good] unit True by blast
  next
    case False
    define s where "s = slab_AllocData (slab_Init u (slab_level_to_size l))"
    have t': "t' = t1\<lparr>pt_slabs := (pt_slabs t1)(u := snd s), pt_slab_node := (pt_slab_node t1)(l := u)\<rparr>" and a: "a = fst s"
      using assms(3) unit False by (simp_all add: ExtendFromPageMem_def s_def split: prod.splits)
    have frame: "pt_end t1 = pt_end t" "pt_slab_node t1 = pt_slab_node t"
      using GetUnit_frame [of t] unit by (simp_all add: same_frame_def)
    obtain bs' where bs': "table_good lo t1 bs' (add_mset (page_level_to_size 0, u) (R + S))"
        "same_cover (add_mset (page_level_to_size 0, u) (R + S) + free_blocks bs') (R + S + free_blocks bs)"
      using take_unit_good [OF good unit False] by blast
    have "u \<noteq> INVALID_MEM_ADDR"
      using in_table_addr(2) [OF table_goodD(2) [OF bs'(1)], of "page_level_to_size 0" u] by simp
    moreover have "(page_level_to_size 0, u) \<notin># S" using table_good_new [OF bs'(1)] by simp
    ultimately have "u \<noteq> pt_slab_node t l" using nodes assms(2) by auto
    then have page: "slab_page l t t' S = add_mset (page_level_to_size 0, u) S" by (simp add: slab_page_def t')
    have "client_good lo (t', R, slab_page l t t' S) bs'"
      using bs'(1) nodes frame unfolding page by (simp add: client_good_def t')
    moreover have "covers_more (R + slab_page l t t' S + free_blocks bs') (R + S + free_blocks bs)"
      unfolding page using bs'(2) by (intro covers_moreI(1)) simp
    ultimately show ?thesis using slab_first [OF assms(2), of u] frame(1) by (auto simp: a s_def t')
  qed
qed

lemma Extend_client_good:
  assumes "client_good lo (t, R, S) bs" "ExtendPageMem t = (ok, t')"
  shows "pt_end t' = pt_end t" "pt_slab_node t' = pt_slab_node t"
    "\<exists>bs'. client_good lo (t', R, S) bs' \<and> covers_more (R + S + free_blocks bs') (R + S + free_blocks bs)"
proof -
  show same: "pt_end t' = pt_end t" "pt_slab_node t' = pt_slab_node t"
    using extend_levels_next(2,3) [of "[0..<PAGE_MAX_LEVELS]" t] assms(2) by (simp_all add: ExtendPageMem_def)
  have "table_good lo t bs (R + S)" using assms(1) by (simp add: client_good_def)
  from Extend_good [OF this] obtain bs' where "table_good lo t' bs' (R + S)" "free_blocks bs \<subseteq># free_blocks bs'"
    using assms(2) by auto
  then show "\<exists>bs'. client_good lo (t', R, S) bs' \<and> covers_more (R + S + free_blocks bs') (R + S + free_blocks bs)"
    using assms(1) covers_moreI(2) by (auto simp: client_good_def same(2))
qed

lemma slab_page_node: "pt_slab_node t1 = pt_slab_node t \<Longrightarrow> slab_page l t1 t' S = slab_page l t t' S"
  by (simp add: slab_page_def)

lemma slab_page_same [simp]: "pt_slab_node t' = pt_slab_node t \<Longrightarrow> slab_page l t t' S = S"
  by (simp add: slab_page_def)

lemma slab_part_good:
  assumes good: "client_good lo (t, R, S) bs" and l: "l < SLAB_MAX_LEVELS" and r: "slab_part t l = (a, t')"
  shows "pt_end t' = pt_end t \<and> (\<exists>bs'. client_good lo (t', R, slab_page l t t' S) bs' \<and>
    covers_more (R + slab_page l t t' S + free_blocks bs') (R + S + free_blocks bs))"
proof -
  let ?ok = "\<lambda>t'. pt_end t' = pt_end t \<and> (\<exists>bs'. client_good lo (t', R, slab_page l t t' S) bs' \<and>
    covers_more (R + slab_page l t t' S + free_blocks bs') (R + S + free_blocks bs))"
  obtain b t0 where first: "(if pt_slab_node t l \<noteq> INVALID_MEM_ADDR then
       (case slab_AllocData (pt_slabs t (pt_slab_node t l)) of
          (ret, s) \<Rightarrow> (ret, t\<lparr>pt_slabs := (pt_slabs t)(pt_slab_node t l := s)\<rparr>)) else (0, t)) = (b, t0)"
    by (meson surj_pair)
  then have t0: "pt_end t0 = pt_end t" "pt_slab_node t0 = pt_slab_node t" "client_good lo (t0, R, S) bs"
    using good by (auto simp: client_good_def split: if_splits prod.splits)
  obtain c t1 where slab1: "ExtendFromPageMem t0 l = (c, t1)" by (meson surj_pair)
  obtain more t2 where ext: "ExtendPageMem t1 = (more, t2)" by (meson surj_pair)
  have r': "(a, t') = (if b \<noteq> 0 then (b, t0) else if c \<noteq> 0 then (c, t1)
      else if more then ExtendFromPageMem t2 l else (c, t2))"
    using r first slab1 ext by (auto simp: slab_part_def Let_def)
  consider "b \<noteq> 0" | "b = 0" "c \<noteq> 0" | "b = 0" "c = 0" by blast
  then show ?thesis
  proof cases
    case 1
    then have "t' = t0" using r' by simp
    then show ?thesis using t0 by (auto simp: covers_more_def)
  next
    case 2
    then have "t' = t1" using r' by simp
    moreover have "slab_page l t0 t1 S = slab_page l t t1 S" by (rule slab_page_node [OF t0(2)])
    ultimately show ?thesis using new_slab_good [OF t0(3) l slab1] 2(2) t0(1) by simp
  next
    case 3
    then have t1: "t1 = t0" using new_slab_good [OF t0(3) l slab1] by simp
    obtain bs2 where E: "pt_end t2 = pt_end t0" "pt_slab_node t2 = pt_slab_node t0" "client_good lo (t2, R, S) bs2"
        "covers_more (R + S + free_blocks bs2) (R + S + free_blocks bs)"
      using Extend_client_good [OF t0(3)] ext unfolding t1 by blast
    have t2: "?ok t2" using E t0 by auto
    show ?thesis
    proof (cases more)
      case True
      then have "ExtendFromPageMem t2 l = (a, t')" using r' 3 by simp
      from new_slab_good [OF E(3) l this] show ?thesis
      proof (elim disjE conjE exE)
        assume "a = 0" "t' = t2"
        then show ?thesis using t2 by simp
      next
        fix bs'
        assume B: "pt_end t' = pt_end t2" "client_good lo (t', R, slab_page l t2 t' S) bs'"
          "covers_more (R + slab_page l t2 t' S + free_blocks bs') (R + S + free_blocks bs2)"
        have node: "slab_page l t2 t' S = slab_page l t t' S" using E(2) t0(2) by (intro slab_page_node) simp
        show ?thesis using B E(1) t0(1) covers_more_trans [OF B(3) E(4)] unfolding node by auto
      qed
    next
      case False
      then show ?thesis using r' 3 t2 by simp
    qed
  qed
qed

lemma table_step_good:
  assumes good: "client_good lo (t, R, S) bs" and sl: "sl < SLAB_MAX_LEVELS"
  shows "case table_step sl op (t, R, S) of
      None \<Rightarrow> \<exists>a len. op = GiveLarge a len \<and> (page_level_to_size (find_level len), a) \<in># R \<and>
        full_run (add_mset (page_level_to_size (find_level len), a) (free_blocks bs))
    | Some (t', R', S') \<Rightarrow> pt_end t' = pt_end t \<and>
        (\<exists>bs'. client_good lo (t', R', S') bs' \<and> covers_more (R' + S' + free_blocks bs') (R + S + free_blocks bs))"
proof -
  have tg: "table_good lo t bs (R + S)"
    and nodes: "\<forall>l<SLAB_MAX_LEVELS. pt_slab_node t l \<noteq> INVALID_MEM_ADDR \<longrightarrow> (page_level_to_size 0, pt_slab_node t l) \<in># S"
    using good by (simp_all add: client_good_def)
  have stay: "\<exists>bs'. client_good lo (t, R, S) bs' \<and> covers_more (R + S + free_blocks bs') (R + S + free_blocks bs)"
    using good by (auto simp: covers_more_def)
  show ?thesis
  proof (cases op)
    case TakeUnit
    obtain a t' where unit: "GetUnitFromPageLevel t = (a, t')" by (meson surj_pair)
    have frame: "pt_end t' = pt_end t" "pt_slab_node t' = pt_slab_node t"
      using GetUnit_frame [of t] unit by (simp_all add: same_frame_def)
    show ?thesis
    proof (cases "a = 0")
      case True
      then show ?thesis using TakeUnit unit no_unit [OF tg] stay by simp
    next
      case False
      then show ?thesis
        using TakeUnit unit frame nodes take_unit_good [OF tg unit False] covers_moreI(1)
        by (fastforce simp: client_good_def)
    qed
  next
    case (TakeSmall len)
    show ?thesis
    proof (cases "divide_size len = SMALL_OBJECT")
      case True
      obtain a t' where part: "slab_part t (find_slab_level len) = (a, t')" by (meson surj_pair)
      have "find_slab_level len < SLAB_MAX_LEVELS" using small_level(1) [OF True] by (simp add: least_level_def)
      from slab_part_good [OF good this part] show ?thesis using TakeSmall True part by simp
    qed (use TakeSmall stay in simp)
  next
    case (TakeLarge len)
    obtain a t' where alloc: "AllocByPageLevel sl t len = (a, t')" by (meson surj_pair)
    consider "divide_size len \<noteq> LARGE_OBJECT" | "divide_size len = LARGE_OBJECT" "pt_heads t (find_level len) \<noteq> INVALID_MEM_ADDR"
      | "divide_size len = LARGE_OBJECT" "pt_heads t (find_level len) = INVALID_MEM_ADDR" by blast
    then show ?thesis
    proof cases
      case 1
      then show ?thesis using TakeLarge stay by simp
    next
      case 2
      then show ?thesis
        using TakeLarge alloc nodes take_large_good [OF tg 2 alloc] covers_moreI(1)
        by (fastforce simp: client_good_def same_frame_def)
    next
      case 3
      then have "slab_part t sl = (a, t')" using alloc by (simp add: AllocByPageLevel_def Let_def)
      from slab_part_good [OF good sl this] show ?thesis using TakeLarge alloc 3 by simp
    qed
  next
    case Extend
    obtain ok t' where "ExtendPageMem t = (ok, t')" by (meson surj_pair)
    from Extend_client_good [OF good this] show ?thesis using Extend \<open>ExtendPageMem t = (ok, t')\<close> by simp
  next
    case (GiveLarge a len)
    let ?r = "(page_level_to_size (find_level len), a)"
    show ?thesis
    proof (cases "divide_size len = LARGE_OBJECT \<and> ?r \<in># R")
      case True
      define R' where "R' = R - {#?r#}"
      have R: "R = add_mset ?r R'" using True by (simp add: R'_def)
      have "table_good lo t bs (add_mset ?r (R' + S))" using tg by (simp add: R)
      note free = give_large_good [OF this]
      show ?thesis
      proof (cases "pt_FreeData t a len")
        case None
        then show ?thesis using GiveLarge True free by simp
      next
        case (Some x)
        then obtain ok t' where t': "pt_FreeData t a len = Some (ok, t')" by (cases x) simp
        then show ?thesis
          using GiveLarge True free nodes covers_moreI(1) unfolding R'_def [symmetric]
          by (fastforce simp: client_good_def same_frame_def R)
      qed
    qed (use GiveLarge stay in auto)
  qed
qed

text \<open>A run ends with its last request, or with a block given back that fills the room of two of the largest.\<close>

lemma table_run_good:
  assumes "client_good lo (t, R, S) bs" "sl < SLAB_MAX_LEVELS"
  shows "case table_run sl ops (t, R, S) of
      None \<Rightarrow> \<exists>before a len rest t' R' S' bs'. ops = before @ GiveLarge a len # rest \<and>
        table_run sl before (t, R, S) = Some (t', R', S') \<and> pt_end t' = pt_end t \<and> client_good lo (t', R', S') bs' \<and>
        covers_more (R' + S' + free_blocks bs') (R + S + free_blocks bs) \<and>
        (page_level_to_size (find_level len), a) \<in># R' \<and>
        full_run (add_mset (page_level_to_size (find_level len), a) (free_blocks bs'))
    | Some (t', R', S') \<Rightarrow> pt_end t' = pt_end t \<and>
        (\<exists>bs'. client_good lo (t', R', S') bs' \<and> covers_more (R' + S' + free_blocks bs') (R + S + free_blocks bs))"
  using assms(1)
proof (induction ops arbitrary: t R S bs)
  case Nil
  then show ?case by (auto simp: covers_more_def)
next
  case (Cons op ops)
  note step = table_step_good [OF Cons.prems assms(2), of op]
  show ?case
  proof (cases "table_step sl op (t, R, S)")
    case None
    then obtain a len where "op = GiveLarge a len" "(page_level_to_size (find_level len), a) \<in># R"
        "full_run (add_mset (page_level_to_size (find_level len), a) (free_blocks bs))"
      using step by auto
    moreover have "covers_more (R + S + free_blocks bs) (R + S + free_blocks bs)" by (simp add: covers_more_def)
    moreover have stop: "table_run sl (op # ops) (t, R, S) = None" using None by simp
    ultimately show ?thesis
      unfolding stop option.case using Cons.prems
      by (intro exI [of _ "[]"] exI [of _ a] exI [of _ len] exI [of _ ops] exI [of _ t] exI [of _ R] exI [of _ S] exI [of _ bs]) simp
  next
    case (Some s1)
    obtain t1 R1 S1 where s1: "s1 = (t1, R1, S1)" by (cases s1) simp
    obtain bs1 where bs1: "pt_end t1 = pt_end t" "client_good lo (t1, R1, S1) bs1"
        "covers_more (R1 + S1 + free_blocks bs1) (R + S + free_blocks bs)"
      using step Some s1 by auto
    note IH = Cons.IH [OF bs1(2)]
    show ?thesis
    proof (cases "table_run sl ops (t1, R1, S1)")
      case None
      then obtain before a len rest t' R' S' bs' where N: "ops = before @ GiveLarge a len # rest"
          "table_run sl before (t1, R1, S1) = Some (t', R', S')" "pt_end t' = pt_end t1" "client_good lo (t', R', S') bs'"
          "covers_more (R' + S' + free_blocks bs') (R1 + S1 + free_blocks bs1)"
          "(page_level_to_size (find_level len), a) \<in># R'"
          "full_run (add_mset (page_level_to_size (find_level len), a) (free_blocks bs'))"
        using IH by auto
      have "table_run sl (op # before) (t, R, S) = Some (t', R', S')" using Some s1 N(2) by simp
      moreover have "op # ops = (op # before) @ GiveLarge a len # rest" using N(1) by simp
      moreover have stop: "table_run sl (op # ops) (t, R, S) = None" using Some s1 None by simp
      ultimately show ?thesis
        unfolding stop option.case using N(3,4,6,7) bs1(1) covers_more_trans [OF N(5) bs1(3)]
        by (intro exI [of _ "op # before"] exI [of _ a] exI [of _ len] exI [of _ rest] exI [of _ t'] exI [of _ R']
            exI [of _ S'] exI [of _ bs']) simp
    next
      case (Some s2)
      then show ?thesis
        using IH \<open>table_step sl op (t, R, S) = Some s1\<close> s1 bs1 covers_more_trans [OF _ bs1(3)]
        by (cases s2) fastforce
    qed
  qed
qed

text \<open>A new table: one block of each level.\<close>

definition first_block :: "nat \<Rightarrow> nat \<Rightarrow> nat" where
  "first_block c i = c + 4096 * (2 ^ i - 1)"

lemma first_block_Suc: "first_block c (Suc i) = first_block c i + page_level_to_size i"
  by (cases "2 ^ i :: nat") (simp_all add: first_block_def page_level_to_size_def)

lemma first_block_less: "i < j \<Longrightarrow> first_block c i < first_block c j"
  by (simp add: first_block_def diff_less_mono)

lemma Init_loop:
  assumes "n \<le> PAGE_MAX_LEVELS" "first_block (pt_current t) n \<le> pt_end t"
  defines "t' \<equiv> fold (\<lambda>i t. case pt_AllocMem t (1024 * 2 ^ (i + 2)) of
                 (a, t') \<Rightarrow> pt_set_link a INVALID_MEM_ADDR (pt_set_head i a t')) [0..<n] t"
  shows "pt_current t' = first_block (pt_current t) n \<and> pt_end t' = pt_end t \<and>
    (\<forall>i<n. pt_heads t' i = first_block (pt_current t) i \<and> pt_link t' (first_block (pt_current t) i) = INVALID_MEM_ADDR)"
  using assms(1,2) unfolding t'_def
proof (induction n)
  case 0
  then show ?case by (simp add: first_block_def)
next
  case (Suc n)
  have "first_block (pt_current t) n \<le> pt_end t"
    using Suc.prems(2) first_block_less [of n "Suc n" "pt_current t"] by simp
  then show ?case
    using Suc.IH Suc.prems first_block_Suc [of "pt_current t" n]
    by (auto simp: pt_AllocMem_def less_Suc_eq page_level_to_size_def Let_def)
qed

definition first_lists :: "nat \<Rightarrow> nat \<Rightarrow> nat \<Rightarrow> nat list" where
  "first_lists c n i = (if i < n then [first_block c i] else [])"

lemma first_lists_cover:
  assumes "n \<le> PAGE_MAX_LEVELS"
  shows "separate (free_blocks (first_lists c n)) \<and> within c (first_block c n) (free_blocks (first_lists c n)) \<and>
    (\<forall>x. c \<le> x \<and> x < first_block c n \<longrightarrow> 1 \<le> cover (free_blocks (first_lists c n)) x)"
  using assms
proof (induction n)
  case 0
  have "free_blocks (first_lists c 0) = {#}" by (simp add: free_blocks_def first_lists_def)
  then show ?case by (simp add: separate_def first_block_def)
next
  case (Suc n)
  have "first_lists c (Suc n) = (first_lists c n)(n := first_block c n # first_lists c n n)"
    by (auto simp: first_lists_def less_Suc_eq)
  then have R: "free_blocks (first_lists c (Suc n)) = add_mset (page_level_to_size n, first_block c n) (free_blocks (first_lists c n))"
    using Suc.prems by (simp add: free_blocks_Cons)
  have IH: "separate (free_blocks (first_lists c n))" "within c (first_block c n) (free_blocks (first_lists c n))"
    "\<forall>x. c \<le> x \<and> x < first_block c n \<longrightarrow> 1 \<le> cover (free_blocks (first_lists c n)) x"
    using Suc.IH Suc.prems by simp_all
  have "separate (free_blocks (first_lists c (Suc n)))"
    unfolding R by (rule separate_fresh [OF IH(1,2)]) simp
  moreover have "within c (first_block c (Suc n)) (free_blocks (first_lists c (Suc n)))"
    using within_le [OF IH(2), of "first_block c (Suc n)"] unfolding R
    by (simp add: first_block_Suc) (simp add: first_block_def)
  moreover have "1 \<le> cover (free_blocks (first_lists c (Suc n))) x" if "c \<le> x" "x < first_block c (Suc n)" for x
    using IH(3) that unfolding R
    by (cases "x < first_block c n") (auto simp: first_block_Suc in_region_def trans_le_add2)
  ultimately show ?case by blast
qed

lemma Init_heads:
  shows "pt_current (pt_Init t addr) = first_block (addr + 824) PAGE_MAX_LEVELS"
    "pt_end (pt_Init t addr) = addr + DEFAULT_PAGE_MEM_SIZE"
    "\<forall>i<PAGE_MAX_LEVELS. pt_heads (pt_Init t addr) i = first_block (addr + 824) i \<and>
       pt_link (pt_Init t addr) (first_block (addr + 824) i) = INVALID_MEM_ADDR"
proof -
  let ?c = "addr + 824"
  define t2 where "t2 = snd (pt_AllocMem (t\<lparr>pt_begin := addr, pt_end := addr + DEFAULT_PAGE_MEM_SIZE, pt_current := addr,
    pt_next := INVALID_MEM_ADDR, pt_valid := True\<rparr>) (PageMemTableHead_size + PAGE_MAX_LEVELS * 8 + SLAB_MAX_LEVELS * 16))"
  have t2: "pt_current t2 = ?c" "pt_end t2 = addr + DEFAULT_PAGE_MEM_SIZE"
    by (simp_all add: t2_def pt_AllocMem_def PageMemTableHead_size_def DEFAULT_PAGE_MEM_SIZE_def sizes)
  have fits: "first_block ?c PAGE_MAX_LEVELS \<le> addr + DEFAULT_PAGE_MEM_SIZE"
    by (simp add: first_block_def DEFAULT_PAGE_MEM_SIZE_def sizes)
  show "pt_current (pt_Init t addr) = first_block (addr + 824) PAGE_MAX_LEVELS"
    "pt_end (pt_Init t addr) = addr + DEFAULT_PAGE_MEM_SIZE"
    "\<forall>i<PAGE_MAX_LEVELS. pt_heads (pt_Init t addr) i = first_block (addr + 824) i \<and>
       pt_link (pt_Init t addr) (first_block (addr + 824) i) = INVALID_MEM_ADDR"
    using Init_loop [of PAGE_MAX_LEVELS t2] t2 fits
    by (simp_all add: pt_Init_def Let_def flip: t2_def)
qed

lemma Init_good:
  assumes "addr + DEFAULT_PAGE_MEM_SIZE < INVALID_MEM_ADDR"
  shows "table_good (addr + 824) (pt_Init t addr) (first_lists (addr + 824) PAGE_MAX_LEVELS) {#}"
    "pt_end (pt_Init t addr) = addr + DEFAULT_PAGE_MEM_SIZE"
proof -
  let ?c = "addr + 824"
  have fits: "first_block ?c PAGE_MAX_LEVELS \<le> addr + DEFAULT_PAGE_MEM_SIZE"
    by (simp add: first_block_def DEFAULT_PAGE_MEM_SIZE_def sizes)
  note loop = Init_heads [of t addr]
  show "pt_end (pt_Init t addr) = addr + DEFAULT_PAGE_MEM_SIZE" by (rule loop(2))
  have "first_block ?c i \<noteq> INVALID_MEM_ADDR" if "i < PAGE_MAX_LEVELS" for i
    using first_block_less [OF that, of ?c] fits assms by simp
  then have "lists_ok (pt_Init t addr) (first_lists ?c PAGE_MAX_LEVELS)"
    using loop(3) by (simp add: lists_ok_def first_lists_def)
  moreover have "?c \<le> first_block ?c PAGE_MAX_LEVELS" by (simp add: first_block_def)
  ultimately show "table_good ?c (pt_Init t addr) (first_lists ?c PAGE_MAX_LEVELS) {#}"
    using first_lists_cover [of PAGE_MAX_LEVELS ?c] loop(1,2) fits assms by (simp add: table_good_def)
qed

section \<open>Properties\<close>

text \<open>
  C28: every size below 128 KB has a page level and every small size a slab level, the least whose blocks are large
  enough.  A slab wastes less than 64 bytes for an item; at most half of the block of a large object is
  unused, and exactly half only for an object of 2048 bytes.
\<close>

theorem level_sizes:
  "(divide_size n = SMALL_OBJECT \<longrightarrow>
      least_level slab_level_to_size SLAB_MAX_LEVELS n (find_slab_level n) \<and>
      slab_level_to_size (find_slab_level n) < n + 64) \<and>
   (divide_size n = LARGE_OBJECT \<longrightarrow>
      least_level page_level_to_size PAGE_MAX_LEVELS n (find_level n) \<and>
      page_level_to_size (find_level n) \<le> 2 * n \<and>
      (2048 < n \<longrightarrow> page_level_to_size (find_level n) < 2 * n))"
  by (simp add: small_level large_level)

theorem level_sizes_witness:
  "slab_level_to_size (find_slab_level 100) < 164 \<and> page_level_to_size (find_level 2048) \<le> 4096 \<and>
   least_level page_level_to_size PAGE_MAX_LEVELS 9000 (find_level 9000) \<and> page_level_to_size (find_level 9000) < 18000"
  using level_sizes [of 100] level_sizes [of 2048] level_sizes [of 9000] by (simp add: divide_size_def sizes)

definition demo_slab :: slab_table where
  "demo_slab = slab_Init 0 8"

definition demo_page_table :: page_table where
  "demo_page_table = \<lparr>pt_begin = 0, pt_end = 0, pt_current = 0, pt_next = 0, pt_valid = False, pt_heads = (\<lambda>_. 0),
     pt_slab_node = (\<lambda>_. 0), pt_slab_free = (\<lambda>_. 0), pt_link = (\<lambda>_. 0), pt_slabs = (\<lambda>_. demo_slab)\<rparr>"

text \<open>
  What is promised of a table at \<open>addr\<close>: the free lists are chains, the regions handed out, the slabs and the free
  blocks do not overlap and lie inside the table, and each byte of the blocks that \<open>Init\<close> made is in exactly one.
\<close>

definition page_table_ok :: "nat \<Rightarrow> table_client \<Rightarrow> (nat \<Rightarrow> nat list) \<Rightarrow> bool" where
  "page_table_ok addr s bs \<longleftrightarrow> (case s of (t, R, S) \<Rightarrow>
     lists_ok t bs \<and> separate (R + S + free_blocks bs) \<and>
     within (addr + 824) (addr + DEFAULT_PAGE_MEM_SIZE) (R + S + free_blocks bs) \<and>
     (\<forall>x. addr + 824 \<le> x \<and> x < addr + 824 + 252 * 1024 \<longrightarrow> cover (R + S + free_blocks bs) x = 1))"

lemma page_table_okI:
  assumes "client_good (addr + 824) (t, R, S) bs" "pt_end t = addr + DEFAULT_PAGE_MEM_SIZE"
    and "covers_more (R + S + free_blocks bs) (free_blocks (first_lists (addr + 824) PAGE_MAX_LEVELS))"
  shows "page_table_ok addr (t, R, S) bs"
proof -
  let ?all = "R + S + free_blocks bs"
  have good: "table_good (addr + 824) t bs (R + S)" using assms(1) by (simp add: client_good_def)
  have "cover ?all x = 1" if x: "addr + 824 \<le> x \<and> x < addr + 824 + 252 * 1024" for x
  proof -
    have "x < first_block (addr + 824) PAGE_MAX_LEVELS" using x by (simp add: first_block_def PAGE_MAX_LEVELS_def)
    then have "1 \<le> cover (free_blocks (first_lists (addr + 824) PAGE_MAX_LEVELS)) x"
      using first_lists_cover [of PAGE_MAX_LEVELS "addr + 824"] x by blast
    then have "1 \<le> cover ?all x" using assms(3) unfolding covers_more_def by (meson order_trans)
    moreover have "cover ?all x \<le> 1" using good by (simp add: table_good_def separate_def)
    ultimately show ?thesis by simp
  qed
  moreover have "within (addr + 824) (addr + DEFAULT_PAGE_MEM_SIZE) ?all"
    using good assms(2) within_le by (auto simp: table_good_def simp del: within_add)
  ultimately show ?thesis using good by (simp add: page_table_ok_def table_good_def)
qed

lemma Init_client:
  assumes "addr + DEFAULT_PAGE_MEM_SIZE < INVALID_MEM_ADDR"
  shows "client_good (addr + 824) (pt_Init t addr, {#}, {#}) (first_lists (addr + 824) PAGE_MAX_LEVELS)"
  using Init_good(1) [OF assms, of t] by (simp add: client_good_def) (simp add: pt_Init_def Let_def)

text \<open>
  C23: in a page table whose client takes units, small and large objects, asks for more blocks, and gives large objects
  back, in any order, the regions handed out, the slabs and the free blocks never overlap and stay inside the table,
  and each byte of the first blocks is in exactly one of them.  Every sequence of requests ends well except in one
  case, before which all this holds: a large object is given back that together with the free blocks fills the room
  of two neighbouring blocks of the highest level.
\<close>

theorem page_table_client:
  assumes "addr + DEFAULT_PAGE_MEM_SIZE < INVALID_MEM_ADDR" "sl < SLAB_MAX_LEVELS"
  shows "case table_run sl ops (pt_Init t addr, {#}, {#}) of
      Some s \<Rightarrow> \<exists>bs. page_table_ok addr s bs
    | None \<Rightarrow> \<exists>before a len rest t' R S bs. ops = before @ GiveLarge a len # rest \<and>
        table_run sl before (pt_Init t addr, {#}, {#}) = Some (t', R, S) \<and> page_table_ok addr (t', R, S) bs \<and>
        (page_level_to_size (find_level len), a) \<in># R \<and>
        full_run (add_mset (page_level_to_size (find_level len), a) (free_blocks bs))"
proof -
  let ?init = "(pt_Init t addr, {#}, {#})"
  have ok: "page_table_ok addr (t', R, S) bs" if "pt_end t' = pt_end (pt_Init t addr)" "client_good (addr + 824) (t', R, S) bs"
      "covers_more (R + S + free_blocks bs) ({#} + {#} + free_blocks (first_lists (addr + 824) PAGE_MAX_LEVELS))" for t' R S bs
    using that page_table_okI Init_good(2) [OF assms(1), of t] by simp
  note run = table_run_good [OF Init_client [OF assms(1), of t] assms(2), of ops]
  show ?thesis
  proof (cases "table_run sl ops ?init")
    case None
    then obtain before a len rest t' R S bs where N: "ops = before @ GiveLarge a len # rest"
        "table_run sl before ?init = Some (t', R, S)" "pt_end t' = pt_end (pt_Init t addr)"
        "client_good (addr + 824) (t', R, S) bs"
        "covers_more (R + S + free_blocks bs) ({#} + {#} + free_blocks (first_lists (addr + 824) PAGE_MAX_LEVELS))"
        "(page_level_to_size (find_level len), a) \<in># R" "full_run (add_mset (page_level_to_size (find_level len), a) (free_blocks bs))"
      using run by auto
    show ?thesis
      unfolding None option.case using N ok [OF N(3-5)]
      by (intro exI [of _ before] exI [of _ a] exI [of _ len] exI [of _ rest] exI [of _ t'] exI [of _ R] exI [of _ S] exI [of _ bs]) simp
  next
    case (Some s)
    then show ?thesis using run ok by (cases s) (simp, blast)
  qed
qed

lemma page_demo_heads:
  "pt_heads (pt_Init demo_page_table 64) 0 = 888" "pt_link (pt_Init demo_page_table 64) 888 = INVALID_MEM_ADDR"
  "pt_heads (pt_Init demo_page_table 64) (Suc 0) = 4984" "pt_link (pt_Init demo_page_table 64) 4984 = INVALID_MEM_ADDR"
proof -
  have "first_block (64 + 824) 0 = 888" "first_block (64 + 824) 1 = 4984" "0 < PAGE_MAX_LEVELS" "1 < PAGE_MAX_LEVELS"
    by (simp_all add: first_block_def PAGE_MAX_LEVELS_def)
  then show "pt_heads (pt_Init demo_page_table 64) 0 = 888" "pt_link (pt_Init demo_page_table 64) 888 = INVALID_MEM_ADDR"
    "pt_heads (pt_Init demo_page_table 64) (Suc 0) = 4984" "pt_link (pt_Init demo_page_table 64) 4984 = INVALID_MEM_ADDR"
    using Init_heads(3) [of demo_page_table 64] by (metis One_nat_def)+
qed

lemma table_run_append:
  "table_run sl (xs @ ys) s = (case table_run sl xs s of None \<Rightarrow> None | Some s' \<Rightarrow> table_run sl ys s')"
  by (induction xs arbitrary: s) (simp_all split: option.split)

text \<open>Only giving back can fail.\<close>

lemma table_run_takes: "\<forall>op \<in> set ops. \<forall>a len. op \<noteq> GiveLarge a len \<Longrightarrow> table_run sl ops s \<noteq> None"
proof (induction ops arbitrary: s)
  case (Cons op ops)
  obtain t R S where s: "s = (t, R, S)" by (cases s) simp
  have "table_step sl op s \<noteq> None" using Cons.prems unfolding s by (cases op) (auto split: prod.splits)
  then show ?case using Cons by (auto simp del: table_step.simps)
qed simp

lemma page_demo_run:
  "table_run 0 ([TakeUnit, TakeUnit, GiveLarge 4984 4096] @ [TakeLarge 4000, TakeLarge 8000, TakeSmall 100, Extend])
     (pt_Init demo_page_table 64, {#}, {#}) \<noteq> None"
proof -
  have "table_run 0 [TakeUnit, TakeUnit, GiveLarge 4984 4096] (pt_Init demo_page_table 64, {#}, {#}) \<noteq> None"
    by (simp add: GetUnitFromPageLevel_def SplitFromHighLevel_def split_from.simps [of 0 "Suc 0"] page_demo_heads
      page_level_to_size_def sizes INVALID_MEM_ADDR_def Let_def pt_push_def divide_size_def find_level_def
      first_level.simps pt_FreeData_def FreeDataByPage_def MergePageLevel.simps adjacent_def sub64_def merge_scan.simps
      del: frame_upd)
  then show ?thesis
    using table_run_takes [of "[TakeLarge 4000, TakeLarge 8000, TakeSmall 100, Extend]" 0]
    unfolding table_run_append by (cases "table_run 0 [TakeUnit, TakeUnit, GiveLarge 4984 4096] (pt_Init demo_page_table 64, {#}, {#})")
      (simp_all del: table_run.simps)
qed

theorem page_table_client_witness:
  "\<exists>s bs. table_run 0 [TakeUnit, TakeUnit, GiveLarge 4984 4096, TakeLarge 4000, TakeLarge 8000, TakeSmall 100, Extend]
      (pt_Init demo_page_table 64, {#}, {#}) = Some s \<and> page_table_ok 64 s bs"
proof -
  let ?ops = "[TakeUnit, TakeUnit, GiveLarge 4984 4096, TakeLarge 4000, TakeLarge 8000, TakeSmall 100, Extend]"
  have room: "(64::nat) + DEFAULT_PAGE_MEM_SIZE < INVALID_MEM_ADDR" "0 < SLAB_MAX_LEVELS"
    by (simp_all add: DEFAULT_PAGE_MEM_SIZE_def INVALID_MEM_ADDR_def SLAB_MAX_LEVELS_def)
  obtain s where run: "table_run 0 ?ops (pt_Init demo_page_table 64, {#}, {#}) = Some s"
    using page_demo_run unfolding append_Cons append_Nil by blast
  show ?thesis using page_table_client [OF room, of ?ops demo_page_table] unfolding run option.case by blast
qed

section \<open>Past the highest level\<close>

text \<open>Taking units one after the other empties the lists from the lowest level up.\<close>

lemma first_unit:
  assumes "table_good lo t bs R" "j < PAGE_MAX_LEVELS" "\<forall>l<j. bs l = []" "bs j = [b]"
  shows "\<exists>t'. table_step sl TakeUnit (t, R, S) = Some (t', add_mset (page_level_to_size 0, b) R, S) \<and> same_frame t t' \<and>
    table_good lo t' ((split_bs 0 j b bs)(j := [])) (add_mset (page_level_to_size 0, b) R)"
proof -
  let ?bs' = "(split_bs 0 j b bs)(j := [])"
  obtain t' where T: "GetUnitFromPageLevel t = (b, t')" "lists_ok t' ?bs'"
      "same_cover (add_mset (page_level_to_size 0, b) (free_blocks ?bs')) (free_blocks bs)"
    using GetUnit_first [OF table_goodD(1,3) [OF assms(1)] assms(2-4)] by blast
  have "b \<noteq> 0"
    using in_table_addr(1) [OF table_goodD(3) [OF assms(1)] in_blocksI [OF assms(2), of b bs]] assms(4) by simp
  moreover have frame: "same_frame t t'" using GetUnit_frame [of t] T(1) by simp
  moreover have "table_good lo t' ?bs' (add_mset (page_level_to_size 0, b) R)"
  proof (rule table_good_cover [OF assms(1) T(2)])
    show "same_cover (add_mset (page_level_to_size 0, b) R + free_blocks ?bs') (R + free_blocks bs)"
      using same_cover_plus [OF T(3), of R] by simp
    show "0 < n" if "(n, a) \<in># add_mset (page_level_to_size 0, b) R" for n a
      using that in_blocks_pos [OF assms(1)] by auto
  qed (use frame in \<open>simp_all add: same_frame_def\<close>)
  ultimately show ?thesis using T(1) by simp
qed

lemma units_drain:
  assumes "table_good lo t bs R" "j \<le> PAGE_MAX_LEVELS" "\<forall>l<j. bs l = [f l]"
  shows "\<exists>t' R'. table_run sl (replicate (2 ^ j - 1) TakeUnit) (t, R, S) = Some (t', R', S) \<and> same_frame t t' \<and>
    table_good lo t' (\<lambda>l. if l < j then [] else bs l) R' \<and>
    (0 < j \<longrightarrow> (page_level_to_size 0, f (j - 1) + 4096 * (2 ^ (j - 1) - 1)) \<in># R')"
  using assms
proof (induction j arbitrary: t bs R f)
  case 0
  then show ?case by (auto simp: same_frame_def)
next
  case (Suc j)
  have j: "j < PAGE_MAX_LEVELS" using Suc.prems(2) by simp
  obtain t1 R1 where A: "table_run sl (replicate (2 ^ j - 1) TakeUnit) (t, R, S) = Some (t1, R1, S)" "same_frame t t1"
      "table_good lo t1 (\<lambda>l. if l < j then [] else bs l) R1"
    using Suc.IH [OF Suc.prems(1), of f] Suc.prems(2,3) by auto
  let ?bs1 = "\<lambda>l. if l < j then [] else bs l" and ?b = "f j"
  let ?bs2 = "(split_bs 0 j ?b ?bs1)(j := [])"
  obtain t2 where B: "table_step sl TakeUnit (t1, R1, S) = Some (t2, add_mset (page_level_to_size 0, ?b) R1, S)" "same_frame t1 t2"
      "table_good lo t2 ?bs2 (add_mset (page_level_to_size 0, ?b) R1)"
    using first_unit [OF A(3) j, of ?b] Suc.prems(3) by auto
  have "\<forall>l<j. ?bs2 l = [?b + page_level_to_size l]" by (simp add: split_bs_def)
  with Suc.IH [OF B(3), of "\<lambda>l. ?b + page_level_to_size l"] j obtain t3 R3 where
      C: "table_run sl (replicate (2 ^ j - 1) TakeUnit) (t2, add_mset (page_level_to_size 0, ?b) R1, S) = Some (t3, R3, S)"
      "same_frame t2 t3" "table_good lo t3 (\<lambda>l. if l < j then [] else ?bs2 l) R3"
      "0 < j \<longrightarrow> (page_level_to_size 0, ?b + page_level_to_size (j - 1) + 4096 * (2 ^ (j - 1) - 1)) \<in># R3"
    by (auto simp: less_imp_le)
  have lists: "(\<lambda>l. if l < j then [] else ?bs2 l) = (\<lambda>l. if l < Suc j then [] else bs l)"
    by (auto simp: split_bs_def less_Suc_eq)
  have "(2::nat) ^ Suc j - 1 = (2 ^ j - 1) + Suc (2 ^ j - 1)" by simp
  then have "replicate (2 ^ Suc j - 1) TakeUnit = replicate (2 ^ j - 1) TakeUnit @ TakeUnit # replicate (2 ^ j - 1) TakeUnit"
    by (simp only: replicate_add replicate_Suc)
  then have run: "table_run sl (replicate (2 ^ Suc j - 1) TakeUnit) (t, R, S) = Some (t3, R3, S)"
    using A(1) B(1) C(1) by (simp add: table_run_append del: table_step.simps)
  have unit: "(page_level_to_size 0, ?b + 4096 * (2 ^ j - 1)) \<in># R3"
  proof (cases "j = 0")
    case True
    then show ?thesis using C(1) by auto
  next
    case False
    then obtain i where "j = Suc i" by (cases j) auto
    then have "page_level_to_size (j - 1) + 4096 * (2 ^ (j - 1) - 1) = 4096 * (2 ^ j - 1)"
      by (cases "2 ^ i :: nat") (simp_all add: page_level_to_size_def algebra_simps)
    then show ?thesis using C(4) False by (simp add: add.assoc)
  qed
  show ?case using run A(2) B(2) C(2,3) unit unfolding lists by (auto simp: same_frame_def)
qed

text \<open>More blocks for empty lists.\<close>

lemma extend_empty:
  assumes "table_good lo t bs R" "i + n \<le> PAGE_MAX_LEVELS" "\<forall>l. i \<le> l \<and> l < i + n \<longrightarrow> bs l = []"
    and "pt_current t = first_block c i" "first_block c (i + n) \<le> pt_end t"
  shows "\<exists>t'. extend_levels [i..<i + n] t = (True, t') \<and>
    table_good lo t' (\<lambda>l. if i \<le> l \<and> l < i + n then [first_block c l] else bs l) R"
  using assms
proof (induction n arbitrary: t bs i)
  case 0
  have "(\<lambda>l. if i \<le> l \<and> l < i + 0 then [first_block c l] else bs l) = bs" by (rule ext) (simp, linarith)
  then show ?case using 0(1) by simp
next
  case (Suc n)
  have i: "i < PAGE_MAX_LEVELS" and room: "first_block c (Suc i) \<le> pt_end t" and cur: "pt_current t \<noteq> 0"
    using Suc.prems first_block_less [of "Suc i" "Suc (i + n)" c] by (cases n; auto simp: table_good_def)+
  let ?t = "pt_push i (pt_current t) (t\<lparr>pt_current := pt_current t + page_level_to_size i\<rparr>)"
  have fits: "pt_current t + page_level_to_size i \<le> pt_end t" using room Suc.prems(4) by (simp add: first_block_Suc)
  have good: "table_good lo ?t (bs(i := pt_current t # bs i)) R" by (rule table_good_fresh [OF Suc.prems(1) fits i])
  have "extend_levels [i..<i + Suc n] t = extend_levels [Suc i..<Suc i + n] ?t"
    using fits cur by (simp add: upt_conv_Cons pt_AllocMem_def del: upt_Suc)
  moreover have "\<exists>t'. extend_levels [Suc i..<Suc i + n] ?t = (True, t') \<and>
    table_good lo t' (\<lambda>l. if Suc i \<le> l \<and> l < Suc i + n then [first_block c l] else (bs(i := pt_current t # bs i)) l) R"
    using Suc.prems by (intro Suc.IH [OF good]) (auto simp: first_block_Suc)
  moreover have "(\<lambda>l. if Suc i \<le> l \<and> l < Suc i + n then [first_block c l] else (bs(i := pt_current t # bs i)) l) =
      (\<lambda>l. if i \<le> l \<and> l < i + Suc n then [first_block c l] else bs l)"
    using Suc.prems(3,4) by auto
  ultimately show ?case by simp
qed

text \<open>
  That case is reached: a client takes all the units of a new table, asks for more blocks and gives back the
  last unit.  Its neighbour on the right is the new unit, that of both is the new block of 8 KB, and so on past the
  highest level.
\<close>

theorem merge_past_free_lists:
  assumes "addr + DEFAULT_PAGE_MEM_SIZE < INVALID_MEM_ADDR"
  shows "table_run sl (replicate 63 TakeUnit @ [Extend]) (pt_Init t addr, {#}, {#}) \<noteq> None \<and>
    table_run sl (replicate 63 TakeUnit @ [Extend, GiveLarge (addr + 824 + 4096 * 62) 4096]) (pt_Init t addr, {#}, {#}) = None"
proof -
  let ?c = "addr + 824" and ?h = "addr + 824 + 4096 * 62"
  have six: "2 ^ PAGE_MAX_LEVELS - 1 = (63::nat)" by (simp add: PAGE_MAX_LEVELS_def)
  obtain t1 R where A: "table_run sl (replicate 63 TakeUnit) (pt_Init t addr, {#}, {#}) = Some (t1, R, {#})"
      "same_frame (pt_Init t addr) t1"
      "table_good ?c t1 (\<lambda>l. if l < PAGE_MAX_LEVELS then [] else first_lists ?c PAGE_MAX_LEVELS l) R"
      "0 < PAGE_MAX_LEVELS \<longrightarrow> (page_level_to_size 0, first_block ?c (PAGE_MAX_LEVELS - 1) + 4096 * (2 ^ (PAGE_MAX_LEVELS - 1) - 1)) \<in># R"
    using units_drain [OF Init_good(1) [OF assms], of PAGE_MAX_LEVELS "first_block ?c" sl t "{#}"]
    unfolding six by (auto simp: first_lists_def)
  then have unit: "(page_level_to_size 0, ?h) \<in># R" by (simp add: PAGE_MAX_LEVELS_def first_block_def)
  have cur: "pt_current t1 = first_block (?h + 4096) 0" "pt_end t1 = addr + DEFAULT_PAGE_MEM_SIZE"
    using A(2) Init_heads(1,2) [of t addr] by (simp_all add: same_frame_def first_block_def PAGE_MAX_LEVELS_def)
  let ?bs = "\<lambda>l. if l < PAGE_MAX_LEVELS then [first_block (?h + 4096) l] else first_lists ?c PAGE_MAX_LEVELS l"
  have "(\<lambda>l. if 0 \<le> l \<and> l < 0 + PAGE_MAX_LEVELS then [first_block (?h + 4096) l]
      else if l < PAGE_MAX_LEVELS then [] else first_lists ?c PAGE_MAX_LEVELS l) = ?bs" by auto
  then obtain t2 where B: "ExtendPageMem t1 = (True, t2)" "table_good ?c t2 ?bs R"
    using extend_empty [OF A(3), of 0 PAGE_MAX_LEVELS "?h + 4096"] cur
    by (auto simp: ExtendPageMem_def first_block_def DEFAULT_PAGE_MEM_SIZE_def PAGE_MAX_LEVELS_def)
  have "in_table (add_mset (page_level_to_size 0, ?h) (free_blocks ?bs))"
    using table_goodD(2) [OF B(2)] unit by (elim in_table_mono) (auto simp: subseteq_mset_def dest!: multi_member_split)
  moreover have "first_block (?h + 4096) l = ?h + page_level_to_size l" for l
    by (cases "2 ^ l :: nat") (simp_all add: first_block_def page_level_to_size_def)
  ultimately have "MergePageLevel t2 ?h 0 = None"
    using merge_chain [OF table_goodD(1) [OF B(2)], of 0 ?h] by simp
  moreover have large: "divide_size 4096 = LARGE_OBJECT" "find_level 4096 = 0"
    by (simp_all add: divide_size_def find_level_def Let_def first_level.simps sizes page_level_to_size_def)
  ultimately have "table_step sl (GiveLarge ?h 4096) (t2, R, {#}) = None"
    using unit by (simp add: pt_FreeData_def FreeDataByPage_def)
  then show ?thesis using A(1) B(1) by (simp add: table_run_append del: table_step.simps(5))
qed

text \<open>
  a unit of 4 KB is found exactly when some free list is not empty: it is the
  first of the lowest list that has one, and the rest of the block that is split goes to the
  lists below it, so that the unit and the free blocks cover what the free blocks covered.
\<close>

theorem unit_found:
  assumes "table_good lo t bs R" "GetUnitFromPageLevel t = (a, t')"
  shows "(a = 0 \<longleftrightarrow> (\<forall>l<PAGE_MAX_LEVELS. bs l = [])) \<and>
    (a = 0 \<longrightarrow> t' = t) \<and>
    (a \<noteq> 0 \<longrightarrow> (\<exists>bs'. lists_ok t' bs' \<and>
       same_cover (add_mset (4096, a) (free_blocks bs')) (free_blocks bs)))"
  using GetUnit_ok [OF table_goodD(1,3) [OF assms(1)]] assms(2)
  by (cases "a = 0") (simp_all add: took_def page_level_to_size_def)

theorem unit_found_witness:
  "\<exists>bs'. lists_ok (snd (GetUnitFromPageLevel (pt_Init demo_page_table 64))) bs'"
proof -
  have good: "table_good (64 + 824) (pt_Init demo_page_table 64) (first_lists (64 + 824) PAGE_MAX_LEVELS) {#}"
    by (rule Init_good(1)) (simp add: DEFAULT_PAGE_MEM_SIZE_def INVALID_MEM_ADDR_def)
  have "\<not> (\<forall>l<PAGE_MAX_LEVELS. first_lists (64 + 824) PAGE_MAX_LEVELS l = [])"
    by (simp add: first_lists_def PAGE_MAX_LEVELS_def) (rule exI [of _ 0], simp)
  then show ?thesis using unit_found [OF good surjective_pairing] by blast
qed

text \<open>
  giving back a block of 64 to 128 KB next to a free one of that level runs
  past the level array: the two are merged to a level 6 that no table has.
\<close>

theorem merge_overrun:
  assumes "table_good lo t bs R" "(page_level_to_size 5, a) \<in># R" "65536 < len" "len < 131072"
    "y \<in> set (bs 5)" "a + page_level_to_size 5 = y \<or> y + page_level_to_size 5 = a"
  shows "pt_FreeData t a len = None"
proof -
  have size: "divide_size len = LARGE_OBJECT" using assms(3,4) by (simp add: divide_size_def sizes)
  have five: "find_level len = 5"
    using assms(3,4) by (simp add: find_level_def Let_def first_level.simps sizes page_level_to_size_def)
  have lv: "(5::nat) < PAGE_MAX_LEVELS" by (simp add: PAGE_MAX_LEVELS_def)
  have tab: "in_table (add_mset (page_level_to_size 5, a) (free_blocks bs))"
    using table_goodD(2) [OF assms(1)] assms(2) by (elim in_table_mono) (auto simp: subseteq_mset_def dest!: multi_member_split)
  have "(page_level_to_size 5, y) \<in># free_blocks bs" by (rule in_blocksI [of 5 y bs, OF lv assms(5)])
  then have bounds: "a + page_level_to_size 5 < INVALID_MEM_ADDR" "y + page_level_to_size 5 < INVALID_MEM_ADDR"
    using in_table_addr [OF tab] by auto
  then have "adjacent (page_level_to_size 5) a y" using adjacent_iff [of "page_level_to_size 5" a y] assms(6) by simp
  then have "MergePageLevel t a 5 = None"
    using merge_one_ok [OF table_goodD(1) [OF assms(1)] lv tab] assms(5)
    by (auto simp: merge_one_def MergePageLevel.simps [of _ _ 6] PAGE_MAX_LEVELS_def)
  then show ?thesis by (simp add: pt_FreeData_def size FreeDataByPage_def five)
qed

definition full_table :: page_table where
  "full_table = demo_page_table\<lparr>pt_heads := (\<lambda>l. if l = 5 then 4096 else INVALID_MEM_ADDR), pt_link := (\<lambda>_. INVALID_MEM_ADDR),
     pt_current := 4096 + 2 * 131072, pt_end := DEFAULT_PAGE_MEM_SIZE\<rparr>"

theorem merge_overrun_witness: "pt_FreeData full_table (4096 + 131072) 100000 = None"
proof -
  let ?bs = "\<lambda>l. if l = 5 then [4096::nat] else []" and ?R = "{#(131072::nat, 4096 + 131072::nat)#}"
  have five: "page_level_to_size 5 = 131072" by (simp add: page_level_to_size_def)
  have fb: "free_blocks ?bs = {#(131072, 4096)#}"
    by (simp add: free_blocks_def PAGE_MAX_LEVELS_def lessThan_nat_numeral lessThan_Suc page_level_to_size_def)
  have "table_good 1 full_table ?bs ?R"
    unfolding table_good_def fb
    by (auto simp: full_table_def lists_ok_def INVALID_MEM_ADDR_def separate_def in_region_def DEFAULT_PAGE_MEM_SIZE_def)
  from merge_overrun [OF this, of "4096 + 131072" 100000 4096] show ?thesis by (simp add: five)
qed

text \<open>
  a slab of items of size \<open>sz\<close> hands out, one after the other, as many items
  as its 4 KB hold behind the head, then fails; an item ends before the page does.
\<close>

theorem slab_items:
  "slab_allocs n (slab_Init addr sz) = map (\<lambda>i. if i < 4056 div sz then addr + 40 + sz * i else 0) [0..<n] \<and>
   (\<forall>i < 4056 div sz. addr + 40 + sz * i + sz \<le> addr + 4096)"
proof
  show "slab_allocs n (slab_Init addr sz) = map (\<lambda>i. if i < 4056 div sz then addr + 40 + sz * i else 0) [0..<n]"
    by (simp add: slab_allocs_from slab_Init_def SIZE_LIMIT_SMALL_def SlabMemTableHead_size_def)
  have "sz * (i + 1) \<le> 4056" if "i < 4056 div sz" for i
  proof -
    have "sz * (i + 1) \<le> sz * (4056 div sz)" using that by (intro mult_le_mono2) simp
    also have "\<dots> \<le> 4056" by simp
    finally show ?thesis .
  qed
  then show "\<forall>i < 4056 div sz. addr + 40 + sz * i + sz \<le> addr + 4096" by fastforce
qed

theorem slab_items_witness: "slab_allocs 3 (slab_Init 64 2048) = [104, 0, 0]"
  using slab_items [of 3 64 2048] by (simp add: upt_rec)

end
