(* ===== verification/Arena_Heap.thy ===== *)
theory Arena_Heap
  imports Length_Pools Arena_Blocks
begin

text \<open>
  The heap of the buddy pool (kernel/pool/arena_buddy_pool/heap_mem_manager.h, heap_mem_manager.cc)
  and the pool (arena_buddy_pool.cc) over a mapped pool.  The heap head and the tables lie in the
  mapped file at offsets from the start of its data, and are found again by \<open>Init\<close> of the next
  process along the \<open>next\<close> links; the lists of tables are the process's.  The memory of the head and
  of the tables is kept apart from the bytes of the file, which hold the stored values and their
  headers.  None: a table at the place of the heap head (the store could not grow, and the answer
  of \<open>Alloc\<close> is not looked at), a chain of tables without an end, or an access outside the mapping.

  The missing \<open>AllocBySlab\<close> and the slab level of the incomplete text (see Arena\_Tables) are the first two arguments.
\<close>

section \<open>State\<close>

record heap_head =
  hh_begin :: nat
  hh_end :: nat
  hh_page_start :: nat
  hh_page_end :: nat
  hh_sec_start :: nat
  hh_sec_end :: nat

definition HeapHead_size :: nat where "HeapHead_size = 48"

definition HeapHead_Init :: "nat \<Rightarrow> heap_head" where
  "HeapHead_Init start =
     \<lparr>hh_begin = start, hh_end = start + HeapHead_size, hh_page_start = INVALID_MEM_ADDR, hh_page_end = INVALID_MEM_ADDR,
      hh_sec_start = INVALID_MEM_ADDR, hh_sec_end = INVALID_MEM_ADDR\<rparr>"

record heap_mem =
  hm_head :: heap_head
  hm_pages :: "nat \<Rightarrow> page_table"     \<comment> \<open>the page table at an offset\<close>
  hm_secs :: "nat \<Rightarrow> section_table"  \<comment> \<open>the section at an offset\<close>
  hm_page_list :: "nat list"
  hm_sec_list :: "nat list"
  hm_base :: nat                     \<comment> \<open>\<open>begin_\<close>\<close>
  hm_extend_num :: nat

type_synonym heap_state = "os \<times> mmap_pool \<times> heap_mem"
type_synonym slab_alloc = "page_table \<Rightarrow> nat \<Rightarrow> nat \<times> page_table"

section \<open>Tables\<close>

definition hm_Alloc :: "os \<Rightarrow> mmap_pool \<Rightarrow> heap_mem \<Rightarrow> nat \<Rightarrow> (nat \<times> os \<times> mmap_pool) option" where
  "hm_Alloc os p h sz =
     map_option (\<lambda>(addr, os', p'). (if addr = 0 then 0 else sub64 addr (hm_base h), os', p')) (mp_AllocFromStore os p sz)"

definition hm_NewPage :: "heap_state \<Rightarrow> (nat \<times> heap_state) option" where
  "hm_NewPage = (\<lambda>(os, p, h).
     case hm_Alloc os p h DEFAULT_PAGE_MEM_SIZE of
       None \<Rightarrow> None
     | Some (offset, os', p') \<Rightarrow>
         if offset = 0 then None
         else Some (offset, os', p', h\<lparr>hm_pages := (hm_pages h)(offset := pt_Init (hm_pages h offset) offset),
                                      hm_page_list := hm_page_list h @ [offset]\<rparr>))"

definition hm_NewSection :: "heap_state \<Rightarrow> (nat \<times> heap_state) option" where
  "hm_NewSection = (\<lambda>(os, p, h).
     case hm_Alloc os p h DEFAULT_SECTION_MEM_SIZE of
       None \<Rightarrow> None
     | Some (offset, os', p') \<Rightarrow>
         if offset = 0 then None
         else Some (offset, os', p', h\<lparr>hm_secs := (hm_secs h)(offset := section_Init offset DEFAULT_SECTION_MEM_SIZE),
                                      hm_sec_list := hm_sec_list h @ [offset]\<rparr>))"

definition UpdatePageOffset :: "nat \<Rightarrow> heap_mem \<Rightarrow> heap_mem" where
  "UpdatePageOffset offset h =
     (let e = hh_page_end (hm_head h) in
      if e = INVALID_MEM_ADDR then h\<lparr>hm_head := (hm_head h)\<lparr>hh_page_end := offset\<rparr>\<rparr>
      else h\<lparr>hm_pages := (hm_pages h)(e := (hm_pages h e)\<lparr>pt_next := offset\<rparr>)\<rparr>)"

definition UpdateSectionOffset :: "nat \<Rightarrow> heap_mem \<Rightarrow> heap_mem" where
  "UpdateSectionOffset offset h =
     (let e = hh_sec_end (hm_head h) in
      if e = INVALID_MEM_ADDR then h\<lparr>hm_head := (hm_head h)\<lparr>hh_sec_end := offset\<rparr>\<rparr>
      else h\<lparr>hm_secs := (hm_secs h)(e := (hm_secs h e)\<lparr>sec_next := offset\<rparr>)\<rparr>)"

text \<open>The answer is the first new table.\<close>

fun hm_extend :: "nat \<Rightarrow> heap_state \<Rightarrow> (nat option \<times> heap_state) option" where
  "hm_extend 0 s = Some (None, s)"
| "hm_extend (Suc num) s =
     (case hm_NewPage s of
        None \<Rightarrow> None
      | Some (offset, os, p, h) \<Rightarrow>
          map_option (\<lambda>(_, s'). (Some offset, s')) (hm_extend num (os, p, UpdatePageOffset offset h)))"

definition hm_ExtendPageMem :: "nat \<Rightarrow> heap_state \<Rightarrow> (nat option \<times> heap_state) option" where
  "hm_ExtendPageMem num s =
     map_option (\<lambda>(ret, os, p, h). (ret, os, p, h\<lparr>hm_extend_num := hm_extend_num h + num\<rparr>)) (hm_extend num s)"

section \<open>Start\<close>

definition hm_InitMmap :: "heap_state \<Rightarrow> (bool \<times> heap_state) option" where
  "hm_InitMmap = (\<lambda>(os, p, h).
     let h0 = h\<lparr>hm_base := mp_GetMMapDataBegin p\<rparr> in
     case hm_Alloc os p h0 HeapHead_size of
       None \<Rightarrow> None
     | Some (offset, os1, p1) \<Rightarrow>
         (case hm_NewPage (os1, p1, h0\<lparr>hm_head := HeapHead_Init offset\<rparr>) of
            None \<Rightarrow> None
          | Some (page, os2, p2, h2) \<Rightarrow>
              (case hm_NewSection (os2, p2, h2\<lparr>hm_head := (hm_head h2)\<lparr>hh_page_start := pt_begin (hm_pages h2 page)\<rparr>\<rparr>) of
                 None \<Rightarrow> None
               | Some (sec, os3, p3, h3) \<Rightarrow>
                   Some (True, os3, p3, h3\<lparr>hm_head := (hm_head h3)\<lparr>hh_sec_start := sec_begin (hm_secs h3 sec)\<rparr>\<rparr>))))"

partial_function (option) walk :: "(nat \<Rightarrow> nat) \<Rightarrow> nat \<Rightarrow> nat list option" where
  "walk next_of offset =
     (if offset = INVALID_MEM_ADDR then Some []
      else Option.bind (walk next_of (next_of offset)) (\<lambda>xs. Some (offset # xs)))"

definition hm_Init :: "heap_state \<Rightarrow> (bool \<times> heap_state) option" where
  "hm_Init = (\<lambda>(os, p, h).
     let h0 = h\<lparr>hm_base := mp_GetMMapDataBegin p\<rparr> in
     if mp_begin p = None then None
     else if hh_end (hm_head h) = 0 then hm_InitMmap (os, p, h0)
     else case (walk (\<lambda>a. pt_next (hm_pages h a)) (hh_page_start (hm_head h)),
                walk (\<lambda>a. sec_next (hm_secs h a)) (hh_sec_start (hm_head h))) of
            (Some pages, Some secs) \<Rightarrow>
              Some (True, os, p, h0\<lparr>hm_page_list := hm_page_list h @ pages, hm_sec_list := hm_sec_list h @ secs\<rparr>)
          | _ \<Rightarrow> None)"

section \<open>Allocation\<close>

text \<open>Offsets of blocks; \<open>GetAddr\<close> of the tables adds \<open>begin_\<close>, so that the answer is an address.\<close>

definition hm_GetAddr :: "heap_mem \<Rightarrow> nat \<Rightarrow> nat" where
  "hm_GetAddr h offset = add64 (hm_base h) offset"

definition hm_page_alloc :: "slab_alloc \<Rightarrow> nat \<Rightarrow> nat \<Rightarrow> nat \<Rightarrow> heap_mem \<Rightarrow> nat option \<times> heap_mem" where
  "hm_page_alloc by_slab slab_level len page h =
     (case pt_AllocData by_slab slab_level (hm_pages h page) len of
        (ret, t) \<Rightarrow> (map_option (hm_GetAddr h) ret, h\<lparr>hm_pages := (hm_pages h)(page := t)\<rparr>))"

definition AllocDataFromPage :: "slab_alloc \<Rightarrow> nat \<Rightarrow> heap_state \<Rightarrow> nat \<Rightarrow> (nat option \<times> heap_state) option" where
  "AllocDataFromPage by_slab slab_level = (\<lambda>(os, p, h) len.
     case find (\<lambda>a. pt_valid (hm_pages h a)) (hm_page_list h) of
       Some page \<Rightarrow> (case hm_page_alloc by_slab slab_level len page h of (ret, h') \<Rightarrow> Some (ret, os, p, h'))
     | None \<Rightarrow>
         (case hm_ExtendPageMem 1 (os, p, h) of
            None \<Rightarrow> None
          | Some (None, s) \<Rightarrow> Some (None, s)
          | Some (Some page, os', p', h1) \<Rightarrow>
              (case hm_page_alloc by_slab slab_level len page h1 of (ret, h') \<Rightarrow> Some (ret, os', p', h'))))"

definition hm_sec_alloc :: "nat \<Rightarrow> nat \<Rightarrow> heap_mem \<Rightarrow> nat option \<times> heap_mem" where
  "hm_sec_alloc len sec h =
     (case section_AllocData (hm_secs h sec) len of
        (ret, t) \<Rightarrow> (map_option (hm_GetAddr h) ret, h\<lparr>hm_secs := (hm_secs h)(sec := t)\<rparr>))"

fun first_section :: "nat \<Rightarrow> nat list \<Rightarrow> heap_mem \<Rightarrow> nat option \<times> heap_mem" where
  "first_section len [] h = (None, h)"
| "first_section len (sec # secs) h =
     (case hm_sec_alloc len sec h of
        (Some a, h') \<Rightarrow> (Some a, h')
      | (None, h') \<Rightarrow> first_section len secs h')"

definition AllocDataFromSection :: "heap_state \<Rightarrow> nat \<Rightarrow> (nat option \<times> heap_state) option" where
  "AllocDataFromSection = (\<lambda>(os, p, h) len.
     case first_section len (hm_sec_list h) h of
       (Some a, h') \<Rightarrow> Some (Some a, os, p, h')
     | (None, h') \<Rightarrow>
         (case hm_NewSection (os, p, h') of
            None \<Rightarrow> None
          | Some (sec, os1, p1, h1) \<Rightarrow>
              (case hm_sec_alloc len sec (UpdateSectionOffset (sec_begin (hm_secs h1 sec)) h1) of
                 (ret, h2) \<Rightarrow> Some (ret, os1, p1, h2))))"

definition hm_AllocData :: "slab_alloc \<Rightarrow> nat \<Rightarrow> heap_state \<Rightarrow> nat \<Rightarrow> (nat option \<times> heap_state) option" where
  "hm_AllocData by_slab slab_level s len =
     (case divide_size len of
        HUGE_OBJECT \<Rightarrow> AllocDataFromSection s len
      | _ \<Rightarrow> AllocDataFromPage by_slab slab_level s len)"

section \<open>Freeing\<close>

definition FreeDataFromPage :: "heap_mem \<Rightarrow> nat \<Rightarrow> nat \<Rightarrow> (bool \<times> heap_mem) option" where
  "FreeDataFromPage h addr sz =
     (case find (\<lambda>a. pt_BelongToTable (hm_pages h a) addr sz) (hm_page_list h) of
        None \<Rightarrow> Some (False, h)
      | Some page \<Rightarrow>
          map_option (\<lambda>(ok, t). (ok, h\<lparr>hm_pages := (hm_pages h)(page := t)\<rparr>)) (pt_FreeData (hm_pages h page) addr sz))"

definition hm_Free :: "heap_mem \<Rightarrow> nat \<Rightarrow> nat \<Rightarrow> (bool \<times> heap_mem) option" where
  "hm_Free h addr sz =
     (if addr = 0 then Some (True, h)
      else case divide_size sz of
             HUGE_OBJECT \<Rightarrow> Some (True, h)
           | _ \<Rightarrow> FreeDataFromPage h addr sz)"

section \<open>The pool\<close>

text \<open>A value's block begins with its length, four bytes read and written through the mapping as in \<open>VariableLengthPool\<close>.\<close>

definition AreanaBuddyDataHeader_size :: nat where "AreanaBuddyDataHeader_size = 4"

definition ab_Init :: "os \<Rightarrow> mmap_pool \<Rightarrow> heap_mem \<Rightarrow> string \<Rightarrow> bool \<Rightarrow> (bool \<times> heap_state) option" where
  "ab_Init os p h file_name read_only =
     (case mp_Init os p file_name read_only of None \<Rightarrow> None | Some (_, os', p') \<Rightarrow> hm_Init (os', p', h))"

definition ab_DoAlloc :: "slab_alloc \<Rightarrow> nat \<Rightarrow> heap_state \<Rightarrow> nat \<Rightarrow> (nat \<times> heap_state) option" where
  "ab_DoAlloc by_slab slab_level s sz =
     (case hm_AllocData by_slab slab_level s (add64 sz AreanaBuddyDataHeader_size) of
        None \<Rightarrow> None
      | Some (None, s1) \<Rightarrow> Some (0, s1)
      | Some (Some ret, os1, p1, h1) \<Rightarrow>
          if ret = 0 \<or> p_store p1 = None then Some (0, os1, p1, h1)
          else map_option (\<lambda>os2. (add64 ret AreanaBuddyDataHeader_size, os2, p1, h1)) (vl_poke os1 p1 ret sz))"

text \<open>An answer of -1 is not looked for: the header is then written at address -1.\<close>

definition ab_NewDataLen :: "slab_alloc \<Rightarrow> nat \<Rightarrow> heap_state \<Rightarrow> bytes \<Rightarrow> (int \<times> heap_state) option" where
  "ab_NewDataLen by_slab slab_level s data =
     (case hm_AllocData by_slab slab_level s (add64 (length data) AreanaBuddyDataHeader_size) of
        None \<Rightarrow> None
      | Some (r, os1, p1, h1) \<Rightarrow>
          let ret = (case r of None \<Rightarrow> 2 ^ 64 - 1 | Some a \<Rightarrow> a) in
          if ret = 0 \<or> p_store p1 = None then Some (-1, os1, p1, h1)
          else case vl_poke os1 p1 ret (length data) of
                 None \<Rightarrow> None
               | Some os2 \<Rightarrow>
                   map_option (\<lambda>(ok, os3, p3). (if ok then int (add64 ret AreanaBuddyDataHeader_size) else -1, os3, p3, h1))
                     (mp_Write os2 p1 (add64 ret AreanaBuddyDataHeader_size) data))"

definition ab_NewData :: "slab_alloc \<Rightarrow> nat \<Rightarrow> heap_state \<Rightarrow> bytes \<Rightarrow> (int \<times> heap_state) option" where
  "ab_NewData by_slab slab_level s data =
     (case ab_DoAlloc by_slab slab_level s (length data) of
        None \<Rightarrow> None
      | Some (addr, os1, p1, h1) \<Rightarrow>
          if addr = 0 then Some (-1, os1, p1, h1)
          else let header = sub64 addr AreanaBuddyDataHeader_size in
            if header = 0 \<or> p_store p1 = None then Some (-1, os1, p1, h1)
            else case vl_poke os1 p1 header (length data) of
                   None \<Rightarrow> None
                 | Some os2 \<Rightarrow>
                     map_option (\<lambda>(ok, os3, p3). (if ok then int (mp_GetDataOffset p3 addr) else -1, os3, p3, h1))
                       (mp_Write os2 p1 addr data))"

definition ab_DoFree :: "heap_state \<Rightarrow> nat \<Rightarrow> nat \<Rightarrow> (bool \<times> heap_state) option" where
  "ab_DoFree = (\<lambda>(os, p, h) addr sz.
     let addr_t = sub64 addr AreanaBuddyDataHeader_size in
     if addr_t = 0 \<or> p_store p = None then Some (False, os, p, h)
     else case vl_peek os p addr_t of
            None \<Rightarrow> None
          | Some v \<Rightarrow>
              map_option (\<lambda>(ok, h'). (ok, os, p, h'))
                (hm_Free h (mp_GetDataOffset p addr_t) (add64 (size_t v) AreanaBuddyDataHeader_size)))"

definition ab_Write :: "os \<Rightarrow> mmap_pool \<Rightarrow> nat \<Rightarrow> bytes \<Rightarrow> (bool \<times> os \<times> mmap_pool) option" where
  "ab_Write os p addr data =
     (let header = sub64 addr AreanaBuddyDataHeader_size in
      if p_store p = None \<or> header = 0 then Some (False, os, p)
      else case vl_peek os p header of
             None \<Rightarrow> None
           | Some v \<Rightarrow>
               if signed_take_bit 31 (int (length data)) > v then Some (False, os, p)
               else (case vl_poke os p header (length data) of
                       None \<Rightarrow> None
                     | Some os1 \<Rightarrow> mp_Write os1 p addr data))"

definition ab_Read :: "os \<Rightarrow> mmap_pool \<Rightarrow> nat \<Rightarrow> nat \<Rightarrow> (bool \<times> nat \<times> nat) option" where
  "ab_Read os p addr len =
     (let header = sub64 addr AreanaBuddyDataHeader_size in
      if p_store p = None \<or> header = 0 then Some (False, 0, 0)
      else map_option (\<lambda>v. mp_Read p addr (size_t v)) (vl_peek os p header))"


section \<open>The links of the tables\<close>

lemma hm_Alloc_facts:
  assumes "mps_layout (os, p) st f b" "0 < n" "n < 2 ^ 63" "hm_base h = b + 64" "hm_Alloc os p h n = Some (a, os', p')"
  shows "\<exists>st'. mps_layout (os', p') st' f b \<and> mps_top (os, p) \<le> mps_top (os', p') \<and>
    mps_top (os', p') \<le> mps_top (os, p) + n \<and> (a = 0 \<or> a = mps_top (os, p) - (b + 64) \<and> mps_top (os', p') = mps_top (os, p) + n)"
    "mps_used (os, p) + n + mp_min_expand p \<le> 2 ^ 63 \<Longrightarrow>
      a = mps_top (os, p) - (b + 64) \<and> mps_top (os', p') = mps_top (os, p) + n"
    "mp_min_expand p' = mp_min_expand p"
proof -
  obtain c st' where A: "mp_AllocFromStore os p n = Some (c, os', p')" "mps_layout (os', p') st' f b"
    "c = 0 \<and> mps_top (os', p') = mps_top (os, p) \<or> c = mps_top (os, p) \<and> mps_top (os', p') = c + n"
    "mps_used (os, p) + n + mp_min_expand p \<le> 2 ^ 63 \<Longrightarrow> c \<noteq> 0" "mp_min_expand p' = mp_min_expand p" and a: "a = (if c = 0 then 0 else sub64 c (b + 64))"
    using mps_AllocFromStore [OF assms(1-3)] assms(4,5) by (auto simp: hm_Alloc_def)
  have L: "64 \<le> le_val (get_bytes 0 8 (file_of os f))" "le_val (get_bytes 0 8 (file_of os f)) \<le> 2 ^ 63" "b < 2 ^ 63"
    "mps_top (os, p) = b + le_val (get_bytes 0 8 (file_of os f))"
    using assms(1) mps_layout_top(2) [OF assms(1)] by (auto simp: mps_layout_def)
  then have "sub64 (mps_top (os, p)) (b + 64) = mps_top (os, p) - (b + 64)"
    by (intro sub64_le) auto
  then show "\<exists>st'. mps_layout (os', p') st' f b \<and> mps_top (os, p) \<le> mps_top (os', p') \<and>
    mps_top (os', p') \<le> mps_top (os, p) + n \<and> (a = 0 \<or> a = mps_top (os, p) - (b + 64) \<and> mps_top (os', p') = mps_top (os, p) + n)"
    "mps_used (os, p) + n + mp_min_expand p \<le> 2 ^ 63 \<Longrightarrow>
      a = mps_top (os, p) - (b + 64) \<and> mps_top (os', p') = mps_top (os, p) + n"
    "mp_min_expand p' = mp_min_expand p"
    using A(2-5) a by (auto split: if_splits)
qed

lemma hm_Alloc_enough:
  assumes "mps_layout (os, p) st f b" "0 < n" "n < 2 ^ 63" "hm_base h = b + 64" "mps_used (os, p) + n + mp_min_expand p \<le> 2 ^ 63"
  shows "\<exists>os' p' st'. hm_Alloc os p h n = Some (mps_used (os, p) - 64, os', p') \<and> mps_layout (os', p') st' f b \<and>
    mps_used (os', p') = mps_used (os, p) + n \<and> mp_min_expand p' = mp_min_expand p"
proof -
  obtain a os' p' where A: "hm_Alloc os p h n = Some (a, os', p')"
    using mps_AllocFromStore [OF assms(1-3)] by (auto simp: hm_Alloc_def)
  note F = hm_Alloc_facts [OF assms(1-4) A]
  obtain st' where st': "mps_layout (os', p') st' f b" using F(1) by blast
  have "mps_top (os, p) = b + mps_used (os, p)" "mps_top (os', p') = b + mps_used (os', p')"
    using assms(1) st' by (simp_all add: mps_top_def mp_base_def mps_layout_def)
  then show ?thesis using A st' F(2) [OF assms(5)] F(3) by auto
qed

text \<open>What the next process finds: the first tables, and no link from them.\<close>

definition unlinked :: "nat \<Rightarrow> nat \<Rightarrow> heap_mem \<Rightarrow> bool" where
  "unlinked page sec h \<longleftrightarrow>
     hh_end (hm_head h) \<noteq> 0 \<and> hh_page_start (hm_head h) = page \<and> hh_sec_start (hm_head h) = sec \<and>
     pt_next (hm_pages h page) = INVALID_MEM_ADDR \<and> sec_next (hm_secs h sec) = INVALID_MEM_ADDR \<and>
     hh_page_end (hm_head h) \<noteq> page \<and> hh_sec_end (hm_head h) \<noteq> sec"

definition heap_inv :: "nat \<Rightarrow> nat \<Rightarrow> heap_state \<Rightarrow> bool" where
  "heap_inv page sec = (\<lambda>(os, p, h). unlinked page sec h \<and>
     (\<exists>st f b. mps_layout (os, p) st f b \<and> hm_base h = b + 64 \<and>
        page < mps_top (os, p) - (b + 64) \<and> sec < mps_top (os, p) - (b + 64)))"

lemma heap_inv_mem:
  assumes "heap_inv page sec (os, p, h)" "unlinked page sec h'" "hm_base h' = hm_base h"
  shows "heap_inv page sec (os, p, h')"
  using assms by (auto simp: heap_inv_def)

lemma default_sizes: "0 < DEFAULT_PAGE_MEM_SIZE" "DEFAULT_PAGE_MEM_SIZE < 2 ^ 63"
  "0 < DEFAULT_SECTION_MEM_SIZE" "DEFAULT_SECTION_MEM_SIZE < 2 ^ 63"
  by (simp_all add: DEFAULT_PAGE_MEM_SIZE_def DEFAULT_SECTION_MEM_SIZE_def)

lemma pt_Init_next: "pt_next (pt_Init t addr) = INVALID_MEM_ADDR" "pt_begin (pt_Init t addr) = addr"
proof -
  have keep: "pt_next (fold (\<lambda>i t. case pt_AllocMem t (g i) of
      (a, t') \<Rightarrow> pt_set_link a INVALID_MEM_ADDR (pt_set_head i a t')) ls t) = pt_next t"
    "pt_begin (fold (\<lambda>i t. case pt_AllocMem t (g i) of
      (a, t') \<Rightarrow> pt_set_link a INVALID_MEM_ADDR (pt_set_head i a t')) ls t) = pt_begin t" for g ls t
    by (induction ls arbitrary: t) (auto simp: pt_AllocMem_def pt_set_head_def pt_set_link_def split: prod.splits)
  have "pt_next (snd (pt_AllocMem t n)) = pt_next t" "pt_begin (snd (pt_AllocMem t n)) = pt_begin t" for t n
    by (simp_all add: pt_AllocMem_def)
  then show "pt_next (pt_Init t addr) = INVALID_MEM_ADDR" "pt_begin (pt_Init t addr) = addr"
    by (simp_all add: pt_Init_def Let_def keep)
qed

lemma NewPage_facts:
  assumes inv: "heap_inv page sec (os, p, h)" and new: "hm_NewPage (os, p, h) = Some (offset, os', p', h')"
  shows "heap_inv page sec (os', p', h') \<and> offset \<noteq> page \<and> offset \<noteq> 0"
proof -
  obtain st f b where L: "mps_layout (os, p) st f b" "hm_base h = b + 64"
    "page < mps_top (os, p) - (b + 64)" "sec < mps_top (os, p) - (b + 64)" and un: "unlinked page sec h"
    using inv by (auto simp: heap_inv_def)
  have A: "hm_Alloc os p h DEFAULT_PAGE_MEM_SIZE = Some (offset, os', p')" "offset \<noteq> 0"
    and h': "h' = h\<lparr>hm_pages := (hm_pages h)(offset := pt_Init (hm_pages h offset) offset), hm_page_list := hm_page_list h @ [offset]\<rparr>"
    using new by (auto simp: hm_NewPage_def split: option.splits if_splits)
  obtain st' where st': "mps_layout (os', p') st' f b" "mps_top (os, p) \<le> mps_top (os', p')" "offset = mps_top (os, p) - (b + 64)"
    using hm_Alloc_facts(1) [OF L(1) default_sizes(1,2) L(2) A(1)] A(2) by blast
  have "offset \<noteq> page" using L(3) st'(3) by simp
  moreover have "unlinked page sec h'" using un calculation by (simp add: unlinked_def h')
  moreover have "hm_base h' = b + 64" by (simp add: h' L(2))
  ultimately show ?thesis
    using A(2) L(3,4) st'(1,2) unfolding heap_inv_def by fastforce
qed

lemma NewSection_facts:
  assumes inv: "heap_inv page sec (os, p, h)" and new: "hm_NewSection (os, p, h) = Some (offset, os', p', h')"
  shows "heap_inv page sec (os', p', h') \<and> offset \<noteq> sec \<and> offset \<noteq> 0 \<and> sec_begin (hm_secs h' offset) = offset"
proof -
  obtain st f b where L: "mps_layout (os, p) st f b" "hm_base h = b + 64"
    "page < mps_top (os, p) - (b + 64)" "sec < mps_top (os, p) - (b + 64)" and un: "unlinked page sec h"
    using inv by (auto simp: heap_inv_def)
  have A: "hm_Alloc os p h DEFAULT_SECTION_MEM_SIZE = Some (offset, os', p')" "offset \<noteq> 0"
    and h': "h' = h\<lparr>hm_secs := (hm_secs h)(offset := section_Init offset DEFAULT_SECTION_MEM_SIZE), hm_sec_list := hm_sec_list h @ [offset]\<rparr>"
    using new by (auto simp: hm_NewSection_def split: option.splits if_splits)
  obtain st' where st': "mps_layout (os', p') st' f b" "mps_top (os, p) \<le> mps_top (os', p')" "offset = mps_top (os, p) - (b + 64)"
    using hm_Alloc_facts(1) [OF L(1) default_sizes(3,4) L(2) A(1)] A(2) by blast
  have "offset \<noteq> sec" using L(4) st'(3) by simp
  moreover have "unlinked page sec h'" using un calculation by (simp add: unlinked_def h')
  moreover have "hm_base h' = b + 64" "sec_begin (hm_secs h' offset) = offset" by (simp_all add: h' L(2) section_Init_def)
  ultimately show ?thesis
    using A(2) L(3,4) st'(1,2) unfolding heap_inv_def by fastforce
qed

lemma UpdatePageOffset_inv:
  "heap_inv page sec (os, p, h) \<Longrightarrow> offset \<noteq> page \<Longrightarrow> heap_inv page sec (os, p, UpdatePageOffset offset h)"
  by (rule heap_inv_mem) (auto simp: heap_inv_def unlinked_def UpdatePageOffset_def Let_def)

lemma UpdateSectionOffset_inv:
  "heap_inv page sec (os, p, h) \<Longrightarrow> offset \<noteq> sec \<Longrightarrow> heap_inv page sec (os, p, UpdateSectionOffset offset h)"
  by (rule heap_inv_mem) (auto simp: heap_inv_def unlinked_def UpdateSectionOffset_def Let_def)

lemma page_alloc_inv:
  assumes "heap_inv page sec (os, p, h)" "\<And>t len. pt_next (snd (by_slab t len)) = pt_next t"
    "hm_page_alloc by_slab l len a h = (ret, h')"
  shows "heap_inv page sec (os, p, h')"
proof -
  obtain r t where "pt_AllocData by_slab l (hm_pages h a) len = (r, t)" by fastforce
  then show ?thesis
    using assms(1,3) pt_AllocData_next [of by_slab l "hm_pages h a" len, OF assms(2)]
    by (intro heap_inv_mem [OF assms(1)]) (auto simp: heap_inv_def unlinked_def hm_page_alloc_def)
qed

lemma sec_alloc_inv:
  assumes "heap_inv page sec (os, p, h)" "hm_sec_alloc len a h = (ret, h')"
  shows "heap_inv page sec (os, p, h')"
  using assms
  by (intro heap_inv_mem [OF assms(1)])
     (auto simp: heap_inv_def unlinked_def hm_sec_alloc_def section_AllocData_def split: prod.splits if_splits)

lemma first_section_inv:
  "heap_inv page sec (os, p, h) \<Longrightarrow> heap_inv page sec (os, p, snd (first_section len secs h))"
proof (induction secs arbitrary: h)
  case (Cons a secs)
  obtain r h1 where r: "hm_sec_alloc len a h = (r, h1)" by fastforce
  have "heap_inv page sec (os, p, h1)" using sec_alloc_inv Cons.prems r by blast
  then show ?case using Cons.IH r by (cases r) simp_all
qed simp

lemma FreeDataFromPage_inv:
  assumes "heap_inv page sec (os, p, h)" "FreeDataFromPage h addr sz = Some (ok, h')"
  shows "heap_inv page sec (os, p, h')"
proof (cases "find (\<lambda>a. pt_BelongToTable (hm_pages h a) addr sz) (hm_page_list h)")
  case None
  then show ?thesis using assms by (simp add: FreeDataFromPage_def)
next
  case (Some a)
  then obtain t where "pt_FreeData (hm_pages h a) addr sz = Some (ok, t)" and h': "h' = h\<lparr>hm_pages := (hm_pages h)(a := t)\<rparr>"
    using assms(2) by (auto simp: FreeDataFromPage_def)
  then have "pt_next t = pt_next (hm_pages h a)" using pt_FreeData_next by blast
  then show ?thesis
    using assms(1) by (intro heap_inv_mem [OF assms(1)]) (auto simp: heap_inv_def unlinked_def h')
qed

lemma AllocDataFromPage_inv:
  assumes "heap_inv page sec (os, p, h)" "\<And>t len. pt_next (snd (by_slab t len)) = pt_next t"
    "AllocDataFromPage by_slab l (os, p, h) len = Some (ret, os', p', h')"
  shows "heap_inv page sec (os', p', h')"
proof (cases "find (\<lambda>a. pt_valid (hm_pages h a)) (hm_page_list h)")
  case (Some a)
  obtain r h1 where "hm_page_alloc by_slab l len a h = (r, h1)" by fastforce
  then show ?thesis using assms(3) Some page_alloc_inv [OF assms(1,2)] by (simp add: AllocDataFromPage_def)
next
  case None
  then obtain offset os1 p1 h1 where new: "hm_NewPage (os, p, h) = Some (offset, os1, p1, h1)"
    using assms(3) by (auto simp: AllocDataFromPage_def hm_ExtendPageMem_def split: option.splits prod.splits)
  let ?h2 = "(UpdatePageOffset offset h1)\<lparr>hm_extend_num := hm_extend_num (UpdatePageOffset offset h1) + 1\<rparr>"
  have "heap_inv page sec (os1, p1, UpdatePageOffset offset h1)"
    using NewPage_facts [OF assms(1) new] UpdatePageOffset_inv by blast
  then have inv: "heap_inv page sec (os1, p1, ?h2)"
    by (rule heap_inv_mem) (use \<open>heap_inv page sec (os1, p1, UpdatePageOffset offset h1)\<close> in \<open>simp_all add: heap_inv_def unlinked_def\<close>)
  obtain r h3 where r: "hm_page_alloc by_slab l len offset ?h2 = (r, h3)" by fastforce
  then have "AllocDataFromPage by_slab l (os, p, h) len = Some (r, os1, p1, h3)"
    using None new by (simp add: AllocDataFromPage_def hm_ExtendPageMem_def)
  then show ?thesis using assms(3) page_alloc_inv [OF inv assms(2) r] by simp
qed

lemma AllocDataFromSection_inv:
  assumes "heap_inv page sec (os, p, h)" "AllocDataFromSection (os, p, h) len = Some (ret, os', p', h')"
  shows "heap_inv page sec (os', p', h')"
proof -
  obtain r h1 where f: "first_section len (hm_sec_list h) h = (r, h1)" by fastforce
  have inv1: "heap_inv page sec (os, p, h1)" using first_section_inv [OF assms(1), of len "hm_sec_list h"] f by simp
  show ?thesis
  proof (cases r)
    case (Some a)
    then show ?thesis using assms(2) f inv1 by (simp add: AllocDataFromSection_def)
  next
    case None
    then obtain offset os2 p2 h2 where new: "hm_NewSection (os, p, h1) = Some (offset, os2, p2, h2)"
      using assms(2) f by (auto simp: AllocDataFromSection_def split: option.splits)
    note N = NewSection_facts [OF inv1 new]
    have inv2: "heap_inv page sec (os2, p2, UpdateSectionOffset (sec_begin (hm_secs h2 offset)) h2)"
      using N UpdateSectionOffset_inv by simp
    obtain r3 h3 where r: "hm_sec_alloc len offset (UpdateSectionOffset (sec_begin (hm_secs h2 offset)) h2) = (r3, h3)" by fastforce
    then show ?thesis
      using assms(2) None f new sec_alloc_inv [OF inv2 r] by (simp add: AllocDataFromSection_def)
  qed
qed

text \<open>Requests to the heap, in any order; None is a request that did not return.\<close>

datatype heap_op = HeapAlloc nat | HeapFree nat nat

fun heap_run :: "slab_alloc \<Rightarrow> nat \<Rightarrow> heap_op list \<Rightarrow> heap_state \<Rightarrow> heap_state option" where
  "heap_run by_slab l [] s = Some s"
| "heap_run by_slab l (HeapAlloc len # ops) s =
     (case hm_AllocData by_slab l s len of None \<Rightarrow> None | Some (_, s') \<Rightarrow> heap_run by_slab l ops s')"
| "heap_run by_slab l (HeapFree addr sz # ops) (os, p, h) =
     (case hm_Free h addr sz of None \<Rightarrow> None | Some (_, h') \<Rightarrow> heap_run by_slab l ops (os, p, h'))"

lemma heap_run_inv:
  assumes "heap_inv page sec s" "\<And>t len. pt_next (snd (by_slab t len)) = pt_next t" "heap_run by_slab l ops s = Some s'"
  shows "heap_inv page sec s'"
  using assms(1,3)
proof (induction ops arbitrary: s)
  case (Cons op ops)
  obtain os p h where s: "s = (os, p, h)" by (cases s)
  show ?case
  proof (cases op)
    case (HeapAlloc len)
    then obtain ret os1 p1 h1 where alloc: "hm_AllocData by_slab l (os, p, h) len = Some (ret, os1, p1, h1)"
      and run: "heap_run by_slab l ops (os1, p1, h1) = Some s'"
      using Cons.prems(2) s by (auto split: option.splits)
    have "heap_inv page sec (os1, p1, h1)"
      using alloc Cons.prems(1) AllocDataFromPage_inv [of page sec os p h by_slab l len ret os1 p1 h1]
        AllocDataFromSection_inv [of page sec os p h len ret os1 p1 h1] assms(2)
      unfolding s by (cases "divide_size len") (simp_all add: hm_AllocData_def)
    then show ?thesis using run by (rule Cons.IH)
  next
    case (HeapFree addr sz)
    then obtain ok h1 where free: "hm_Free h addr sz = Some (ok, h1)" and run: "heap_run by_slab l ops (os, p, h1) = Some s'"
      using Cons.prems(2) s by (auto split: option.splits)
    have "heap_inv page sec (os, p, h1)"
      using free Cons.prems(1) FreeDataFromPage_inv [of page sec os p h addr sz ok h1]
      unfolding s by (cases "divide_size sz") (auto simp: hm_Free_def split: if_splits)
    then show ?thesis using run by (rule Cons.IH)
  qed
qed simp


lemma InitMmap_inv:
  assumes L: "mps_layout (os, p) st f b" "mps_used (os, p) = 64" and "hm_page_list h = []" "hm_sec_list h = []"
    and new: "hm_InitMmap (os, p, h) = Some (ok, os', p', h')"
  shows "\<exists>page sec. heap_inv page sec (os', p', h') \<and> hm_page_list h' = [page] \<and> hm_sec_list h' = [sec] \<and>
    page < INVALID_MEM_ADDR \<and> sec < INVALID_MEM_ADDR"
proof -
  let ?h0 = "h\<lparr>hm_base := mp_GetMMapDataBegin p\<rparr>"
  have "mps_top (os, p) = b + 64" "b < 2 ^ 63" "mp_begin p = Some b"
    using L mps_layout_top(2) [OF L(1)] mps_layout_used(1) [OF L(1)] by (auto simp: mps_layout_def mps_used_def)
  then have top: "mps_top (os, p) = b + 64" and base: "hm_base ?h0 = b + 64"
    by (simp_all add: mp_GetMMapDataBegin_def mp_base_def add64_def)
  obtain off os1 p1 page os2 p2 h2 sec os3 p3 h3 where
    A: "hm_Alloc os p ?h0 HeapHead_size = Some (off, os1, p1)"
    "hm_NewPage (os1, p1, ?h0\<lparr>hm_head := HeapHead_Init off\<rparr>) = Some (page, os2, p2, h2)"
    "hm_NewSection (os2, p2, h2\<lparr>hm_head := (hm_head h2)\<lparr>hh_page_start := pt_begin (hm_pages h2 page)\<rparr>\<rparr>) = Some (sec, os3, p3, h3)"
    and h': "os' = os3" "p' = p3" "h' = h3\<lparr>hm_head := (hm_head h3)\<lparr>hh_sec_start := sec_begin (hm_secs h3 sec)\<rparr>\<rparr>"
    using new by (auto simp: hm_InitMmap_def Let_def split: option.splits)
  obtain st1 where st1: "mps_layout (os1, p1) st1 f b" "mps_top (os1, p1) \<le> b + 64 + 48"
    using hm_Alloc_facts(1) [OF L(1) _ _ base A(1)] top by (auto simp: HeapHead_size_def)
  let ?h1 = "?h0\<lparr>hm_head := HeapHead_Init off\<rparr>"
  have B: "hm_Alloc os1 p1 ?h1 DEFAULT_PAGE_MEM_SIZE = Some (page, os2, p2)" "page \<noteq> 0"
    and h2: "h2 = ?h1\<lparr>hm_pages := (hm_pages h)(page := pt_Init (hm_pages h page) page), hm_page_list := [page]\<rparr>"
    using A(2) assms(3) by (auto simp: hm_NewPage_def split: option.splits if_splits)
  have base1: "hm_base ?h1 = b + 64" using base by simp
  obtain st2 where st2: "mps_layout (os2, p2) st2 f b" "page = mps_top (os1, p1) - (b + 64)"
    "mps_top (os2, p2) = mps_top (os1, p1) + DEFAULT_PAGE_MEM_SIZE"
    using hm_Alloc_facts(1) [OF st1(1) default_sizes(1,2) base1 B(1)] B(2) by blast
  let ?h2 = "h2\<lparr>hm_head := (hm_head h2)\<lparr>hh_page_start := pt_begin (hm_pages h2 page)\<rparr>\<rparr>"
  have C: "hm_Alloc os2 p2 ?h2 DEFAULT_SECTION_MEM_SIZE = Some (sec, os3, p3)" "sec \<noteq> 0"
    and h3: "h3 = ?h2\<lparr>hm_secs := (hm_secs h)(sec := section_Init sec DEFAULT_SECTION_MEM_SIZE), hm_sec_list := [sec]\<rparr>"
    using A(3) assms(4) by (auto simp: hm_NewSection_def h2 split: option.splits if_splits)
  have base2: "hm_base ?h2 = b + 64" using base by (simp add: h2)
  obtain st3 where st3: "mps_layout (os3, p3) st3 f b" "sec = mps_top (os2, p2) - (b + 64)"
    "mps_top (os3, p3) = mps_top (os2, p2) + DEFAULT_SECTION_MEM_SIZE"
    using hm_Alloc_facts(1) [OF st2(1) default_sizes(3,4) base2 C(1)] C(2) by blast
  have bounds: "page < INVALID_MEM_ADDR" "sec < INVALID_MEM_ADDR"
    "page < mps_top (os3, p3) - (b + 64)" "sec < mps_top (os3, p3) - (b + 64)"
    using st1(2) st2(2,3) st3(2,3) B(2) C(2)
    by (auto simp: DEFAULT_PAGE_MEM_SIZE_def DEFAULT_SECTION_MEM_SIZE_def INVALID_MEM_ADDR_def)
  moreover have "unlinked page sec h'"
    using bounds by (simp add: unlinked_def h' h3 h2 pt_Init_next section_Init_def HeapHead_Init_def HeapHead_size_def)
  moreover have "hm_base h' = b + 64" using base by (simp add: h' h3 h2)
  ultimately have "heap_inv page sec (os', p', h')"
    using st3(1) unfolding heap_inv_def h'(1,2) by fastforce
  moreover have "hm_page_list h' = [page]" "hm_sec_list h' = [sec]" by (simp_all add: h' h3 h2)
  ultimately show ?thesis using bounds(1,2) by blast
qed

lemma huge_grows:
  assumes "mps_layout (os, p) st f b" "hm_base h = b + 64" "64 < mps_used (os, p)"
    and "mps_used (os, p) + DEFAULT_SECTION_MEM_SIZE + mp_min_expand p \<le> 2 ^ 63"
    and "\<forall>a\<in>set (hm_sec_list h). sec_end (hm_secs h a) < sec_current (hm_secs h a) + len"
    and "DEFAULT_SECTION_MEM_SIZE - SectionMemTableHead_size < len"
  shows "\<exists>os' p' h'. hm_AllocData by_slab l (os, p, h) len = Some (None, os', p', h') \<and>
    mps_used (os', p') = mps_used (os, p) + DEFAULT_SECTION_MEM_SIZE \<and>
    length (hm_sec_list h') = length (hm_sec_list h) + 1 \<and>
    (\<forall>a\<in>set (hm_sec_list h'). sec_end (hm_secs h' a) < sec_current (hm_secs h' a) + len)"
proof -
  let ?n = DEFAULT_SECTION_MEM_SIZE
  have huge: "divide_size len = HUGE_OBJECT"
    using assms(6) by (simp add: divide_size_def sizes DEFAULT_SECTION_MEM_SIZE_def SectionMemTableHead_size_def)
  have full: "hm_sec_alloc len a g = (None, g)" if "sec_end (hm_secs g a) < sec_current (hm_secs g a) + len" for a g
    using that by (simp add: hm_sec_alloc_def section_AllocData_def)
  have none: "first_section len (hm_sec_list h) h = (None, h)"
  proof -
    have "first_section len as h = (None, h)" if "set as \<subseteq> set (hm_sec_list h)" for as
      using that assms(5) by (induction "as") (auto simp: full)
    then show ?thesis by blast
  qed
  obtain os' p' st' where A: "hm_Alloc os p h ?n = Some (mps_used (os, p) - 64, os', p')" "mps_layout (os', p') st' f b"
    "mps_used (os', p') = mps_used (os, p) + ?n"
    using hm_Alloc_enough [OF assms(1) default_sizes(3,4) assms(2,4)] by blast
  define a where "a = mps_used (os, p) - 64"
  have a: "a \<noteq> 0" using assms(3) by (simp add: a_def)
  define h1 where "h1 = h\<lparr>hm_secs := (hm_secs h)(a := section_Init a ?n), hm_sec_list := hm_sec_list h @ [a]\<rparr>"
  have new: "hm_NewSection (os, p, h) = Some (a, os', p', h1)"
    using A(1) a by (simp add: hm_NewSection_def h1_def flip: a_def)
  define h2 where "h2 = UpdateSectionOffset (sec_begin (hm_secs h1 a)) h1"
  have sec: "sec_end (hm_secs h2 c) = sec_end (hm_secs h1 c)" "sec_current (hm_secs h2 c) = sec_current (hm_secs h1 c)"
    "hm_sec_list h2 = hm_sec_list h1" for c
    by (simp_all add: h2_def UpdateSectionOffset_def Let_def)
  have all: "sec_end (hm_secs h2 c) < sec_current (hm_secs h2 c) + len" if "c \<in> set (hm_sec_list h2)" for c
    using that assms(5,6) unfolding sec by (auto simp: h1_def section_Init_def)
  then have "hm_sec_alloc len a h2 = (None, h2)" by (intro full) (simp add: sec(3), simp add: h1_def)
  then have "hm_AllocData by_slab l (os, p, h) len = Some (None, os', p', h2)"
    using huge none new by (simp add: hm_AllocData_def AllocDataFromSection_def flip: h2_def)
  then show ?thesis
    using all A(3) by (intro exI [of _ os'] exI [of _ p'] exI [of _ h2]) (auto simp: sec(3) h1_def)
qed

text \<open>A heap made in an empty pool that can grow.\<close>

lemma InitMmap_returns:
  assumes L: "mps_layout (os, p) st f b" and used: "mps_used (os, p) = 64" and room: "mp_min_expand p \<le> 2 ^ 62"
    and lists: "hm_page_list h = []" "hm_sec_list h = []"
  shows "\<exists>os' p' h' st'. hm_InitMmap (os, p, h) = Some (True, os', p', h') \<and> mps_layout (os', p') st' f b \<and>
    mps_used (os', p') = 112 + DEFAULT_PAGE_MEM_SIZE + DEFAULT_SECTION_MEM_SIZE \<and> mp_min_expand p' = mp_min_expand p \<and>
    hm_base h' = b + 64 \<and> hm_page_list h' = [48] \<and> hm_sec_list h' = [48 + DEFAULT_PAGE_MEM_SIZE] \<and>
    hm_secs h' (48 + DEFAULT_PAGE_MEM_SIZE) = section_Init (48 + DEFAULT_PAGE_MEM_SIZE) DEFAULT_SECTION_MEM_SIZE"
proof -
  have "b < 2 ^ 63" "mp_begin p = Some b" using L by (simp_all add: mps_layout_def)
  then have base: "mp_GetMMapDataBegin p = b + 64"
    by (simp add: mp_GetMMapDataBegin_def mp_base_def add64_def)
  have small: "DEFAULT_PAGE_MEM_SIZE + DEFAULT_SECTION_MEM_SIZE < 2 ^ 24"
    by (simp add: DEFAULT_PAGE_MEM_SIZE_def DEFAULT_SECTION_MEM_SIZE_def)
  let ?h0 = "h\<lparr>hm_base := b + 64\<rparr>"
  obtain os1 p1 st1 where A: "hm_Alloc os p ?h0 HeapHead_size = Some (0, os1, p1)" "mps_layout (os1, p1) st1 f b"
    "mps_used (os1, p1) = 112" "mp_min_expand p1 = mp_min_expand p"
    using hm_Alloc_enough [OF L, of HeapHead_size ?h0] used room by (auto simp: HeapHead_size_def)
  let ?h1 = "?h0\<lparr>hm_head := HeapHead_Init 0\<rparr>"
  obtain os2 p2 st2 where B: "hm_Alloc os1 p1 ?h1 DEFAULT_PAGE_MEM_SIZE = Some (48, os2, p2)" "mps_layout (os2, p2) st2 f b"
    "mps_used (os2, p2) = 112 + DEFAULT_PAGE_MEM_SIZE" "mp_min_expand p2 = mp_min_expand p"
    using hm_Alloc_enough [OF A(2) default_sizes(1,2), of ?h1] A(3,4) room small by auto
  let ?h2 = "?h1\<lparr>hm_pages := (hm_pages h)(48 := pt_Init (hm_pages h 48) 48), hm_page_list := [48]\<rparr>"
  let ?h3 = "?h2\<lparr>hm_head := (HeapHead_Init 0)\<lparr>hh_page_start := pt_begin (pt_Init (hm_pages h 48) 48)\<rparr>\<rparr>"
  obtain os3 p3 st3 where C: "hm_Alloc os2 p2 ?h3 DEFAULT_SECTION_MEM_SIZE = Some (48 + DEFAULT_PAGE_MEM_SIZE, os3, p3)"
    "mps_layout (os3, p3) st3 f b" "mps_used (os3, p3) = 112 + DEFAULT_PAGE_MEM_SIZE + DEFAULT_SECTION_MEM_SIZE"
    "mp_min_expand p3 = mp_min_expand p"
    using hm_Alloc_enough [OF B(2) default_sizes(3,4), of ?h3] B(3,4) room small by auto
  have "hm_NewPage (os1, p1, ?h1) = Some (48, os2, p2, ?h2)" using B(1) lists by (simp add: hm_NewPage_def)
  moreover have "hm_NewSection (os2, p2, ?h3) = Some (48 + DEFAULT_PAGE_MEM_SIZE, os3, p3,
      ?h3\<lparr>hm_secs := (hm_secs h)(48 + DEFAULT_PAGE_MEM_SIZE := section_Init (48 + DEFAULT_PAGE_MEM_SIZE) DEFAULT_SECTION_MEM_SIZE),
        hm_sec_list := [48 + DEFAULT_PAGE_MEM_SIZE]\<rparr>)"
    using C(1) lists by (simp add: hm_NewSection_def)
  ultimately show ?thesis using A(1) C(2-4) by (simp add: hm_InitMmap_def base, blast)
qed

section \<open>Properties\<close>

text \<open>
  C29: whatever a heap has allocated since it was made in an empty pool, the next
  process finds only the two tables of the start: the tables allocated later are not on the
  chains that \<open>Init\<close> follows, since the first link is never written.  \<open>AllocBySlab\<close> is any
  function that leaves the link of the table alone.
\<close>

theorem heap_reload_forgets:
  assumes "mps_layout (os, p) st f b" "mps_used (os, p) = 64" "hm_page_list h = []" "hm_sec_list h = []"
    and "\<And>t len. pt_next (snd (by_slab t len)) = pt_next t"
    and "hm_InitMmap (os, p, h) = Some (ok, os1, p1, h1)" "heap_run by_slab l ops (os1, p1, h1) = Some (os2, p2, h2)"
  shows "\<exists>h3. hm_Init (os2, p2, h2\<lparr>hm_page_list := [], hm_sec_list := []\<rparr>) = Some (True, os2, p2, h3) \<and>
    hm_page_list h3 = hm_page_list h1 \<and> length (hm_page_list h1) = 1 \<and>
    hm_sec_list h3 = hm_sec_list h1 \<and> length (hm_sec_list h1) = 1"
proof -
  obtain page sec where I: "heap_inv page sec (os1, p1, h1)" "hm_page_list h1 = [page]" "hm_sec_list h1 = [sec]"
    "page < INVALID_MEM_ADDR" "sec < INVALID_MEM_ADDR"
    using InitMmap_inv [OF assms(1-4,6)] by blast
  have inv: "heap_inv page sec (os2, p2, h2)" by (rule heap_run_inv [OF I(1) assms(5,7)])
  then have un: "unlinked page sec h2" and begin': "mp_begin p2 \<noteq> None"
    by (auto simp: heap_inv_def mps_layout_def)
  have "walk (\<lambda>a. pt_next (hm_pages h2 a)) page = Some [page]" "walk (\<lambda>a. sec_next (hm_secs h2 a)) sec = Some [sec]"
    using un I(4,5) by (simp_all add: walk.simps unlinked_def)
  then show ?thesis
    using un begin' I(2,3) by (simp add: hm_Init_def Let_def unlinked_def)
qed

definition demo_heap :: heap_mem where
  "demo_heap = \<lparr>hm_head = HeapHead_Init 0, hm_pages = (\<lambda>_. \<lparr>pt_begin = 0, pt_end = 0, pt_current = 0, pt_next = 0, pt_valid = False,
       pt_heads = (\<lambda>_. 0), pt_slab_node = (\<lambda>_. 0), pt_slab_free = (\<lambda>_. 0), pt_link = (\<lambda>_. 0), pt_slabs = (\<lambda>_. slab_Init 0 8)\<rparr>),
     hm_secs = (\<lambda>_. section_Init 0 0), hm_page_list = [], hm_sec_list = [], hm_base = 0, hm_extend_num = 0\<rparr>"

lemma demo_start:
  obtains st f b os1 p1 h1 st1 os2 p2 h2 where "mps_layout demo_mmap_pool st f b" "mps_used demo_mmap_pool = 64"
    "hm_InitMmap (fst demo_mmap_pool, snd demo_mmap_pool, demo_heap) = Some (True, os1, p1, h1)"
    "mps_layout (os1, p1) st1 f b" "hm_base h1 = b + 64" "64 < mps_used (os1, p1)"
    "mps_used (os1, p1) + DEFAULT_SECTION_MEM_SIZE + mp_min_expand p1 \<le> 2 ^ 63"
    "\<forall>a\<in>set (hm_sec_list h1). sec_end (hm_secs h1 a) < sec_current (hm_secs h1 a) + 2000000"
    "hm_AllocData by_slab l (os1, p1, h1) 2000000 = Some (None, os2, p2, h2)" "length (hm_sec_list h2) = 2"
proof -
  obtain st f b where L: "mps_layout demo_mmap_pool st f b" using demo_mmap_pool_ok by (auto simp: mps_good_def)
  have "f = ''p''" using L by (auto simp: mps_layout_def mapped_def demo_mmap_pool_def)
  moreover have "le_val (get_bytes 0 8 (le_bytes 8 64 @ replicate 56 0)) = 64"
    by (simp add: get_bytes_def le_val_le_bytes)
  ultimately have used: "mps_used demo_mmap_pool = 64"
    using mps_layout_used(1) [of "fst demo_mmap_pool" "snd demo_mmap_pool" st f b] L
    by (simp add: mps_used_def) (simp add: demo_mmap_pool_def file_of_def del: le_bytes.simps)
  have m: "mp_min_expand (snd demo_mmap_pool) = 16" by (simp add: demo_mmap_pool_def)
  obtain os1 p1 h1 st1 where I: "hm_InitMmap (fst demo_mmap_pool, snd demo_mmap_pool, demo_heap) = Some (True, os1, p1, h1)"
    "mps_layout (os1, p1) st1 f b" "mps_used (os1, p1) = 112 + DEFAULT_PAGE_MEM_SIZE + DEFAULT_SECTION_MEM_SIZE"
    "mp_min_expand p1 = 16" "hm_base h1 = b + 64" "hm_sec_list h1 = [48 + DEFAULT_PAGE_MEM_SIZE]"
    "hm_secs h1 (48 + DEFAULT_PAGE_MEM_SIZE) = section_Init (48 + DEFAULT_PAGE_MEM_SIZE) DEFAULT_SECTION_MEM_SIZE"
    using InitMmap_returns [of "fst demo_mmap_pool" "snd demo_mmap_pool" st f b demo_heap] L used m
    by (auto simp: demo_heap_def)
  have room: "64 < mps_used (os1, p1)" "mps_used (os1, p1) + DEFAULT_SECTION_MEM_SIZE + mp_min_expand p1 \<le> 2 ^ 63"
    and full: "\<forall>a\<in>set (hm_sec_list h1). sec_end (hm_secs h1 a) < sec_current (hm_secs h1 a) + 2000000"
    using I(3,4,6,7) by (simp_all add: section_Init_def DEFAULT_SECTION_MEM_SIZE_def DEFAULT_PAGE_MEM_SIZE_def)
  have "DEFAULT_SECTION_MEM_SIZE - SectionMemTableHead_size < 2000000" by (simp add: DEFAULT_SECTION_MEM_SIZE_def)
  from huge_grows [OF I(2,5) room full this, of by_slab l] show ?thesis
    using that [OF L used I(1,2,5) room full] I(6) by auto
qed

theorem heap_reload_forgets_witness:
  "\<exists>os1 p1 h1 os2 p2 h2 h3. hm_InitMmap (fst demo_mmap_pool, snd demo_mmap_pool, demo_heap) = Some (True, os1, p1, h1) \<and>
    heap_run (\<lambda>t len. slab_part t (find_slab_level len)) 0 [HeapAlloc 2000000] (os1, p1, h1) = Some (os2, p2, h2) \<and>
    length (hm_sec_list h2) = 2 \<and>
    hm_Init (os2, p2, h2\<lparr>hm_page_list := [], hm_sec_list := []\<rparr>) = Some (True, os2, p2, h3) \<and> length (hm_sec_list h3) = 1"
proof -
  let ?by = "\<lambda>t len. slab_part t (find_slab_level len)"
  obtain st f b os1 p1 h1 st1 os2 p2 h2 where D: "mps_layout demo_mmap_pool st f b" "mps_used demo_mmap_pool = 64"
    "hm_InitMmap (fst demo_mmap_pool, snd demo_mmap_pool, demo_heap) = Some (True, os1, p1, h1)"
    "hm_AllocData ?by 0 (os1, p1, h1) 2000000 = Some (None, os2, p2, h2)" "length (hm_sec_list h2) = 2"
    by (rule demo_start [of ?by 0])
  have run: "heap_run ?by 0 [HeapAlloc 2000000] (os1, p1, h1) = Some (os2, p2, h2)" using D(4) by simp
  have lists: "hm_page_list demo_heap = []" "hm_sec_list demo_heap = []" by (simp_all add: demo_heap_def)
  have next': "pt_next (snd (slab_part t (find_slab_level len))) = pt_next t" for t len by (rule slab_part_next)
  have L: "mps_layout (fst demo_mmap_pool, snd demo_mmap_pool) st f b" "mps_used (fst demo_mmap_pool, snd demo_mmap_pool) = 64"
    using D(1,2) by simp_all
  from heap_reload_forgets [OF L lists next' D(3) run] show ?thesis using D(3,5) run by auto
qed

text \<open>
  A request that no section can hold (more than 1 MB less 40 bytes, with the
  header) is refused, and every time it is made the file grows by a new section for nothing.
\<close>

theorem huge_request_grows:
  assumes "mps_layout (os, p) st f b" "hm_base h = b + 64" "64 < mps_used (os, p)"
    and "mps_used (os, p) + DEFAULT_SECTION_MEM_SIZE + mp_min_expand p \<le> 2 ^ 63"
    and "\<forall>a\<in>set (hm_sec_list h). sec_end (hm_secs h a) < sec_current (hm_secs h a) + len"
    and "DEFAULT_SECTION_MEM_SIZE - SectionMemTableHead_size < len"
  shows "\<exists>os' p' h'. hm_AllocData by_slab l (os, p, h) len = Some (None, os', p', h') \<and>
    mps_used (os', p') = mps_used (os, p) + DEFAULT_SECTION_MEM_SIZE \<and>
    length (hm_sec_list h') = length (hm_sec_list h) + 1 \<and>
    (\<forall>a\<in>set (hm_sec_list h'). sec_end (hm_secs h' a) < sec_current (hm_secs h' a) + len)"
  by (rule huge_grows [OF assms])


theorem huge_request_grows_witness:
  "\<exists>os1 p1 h1 os2 p2 h2. hm_InitMmap (fst demo_mmap_pool, snd demo_mmap_pool, demo_heap) = Some (True, os1, p1, h1) \<and>
    hm_AllocData (\<lambda>t len. (0, t)) 0 (os1, p1, h1) 2000000 = Some (None, os2, p2, h2) \<and>
    mps_used (os2, p2) = mps_used (os1, p1) + DEFAULT_SECTION_MEM_SIZE"
proof -
  obtain st f b os1 p1 h1 st1 where D: "hm_InitMmap (fst demo_mmap_pool, snd demo_mmap_pool, demo_heap) = Some (True, os1, p1, h1)"
    "mps_layout (os1, p1) st1 f b" "hm_base h1 = b + 64" "64 < mps_used (os1, p1)"
    "mps_used (os1, p1) + DEFAULT_SECTION_MEM_SIZE + mp_min_expand p1 \<le> 2 ^ 63"
    "\<forall>a\<in>set (hm_sec_list h1). sec_end (hm_secs h1 a) < sec_current (hm_secs h1 a) + 2000000"
    by (rule demo_start [of "\<lambda>t len. (0, t)" 0])
  have "DEFAULT_SECTION_MEM_SIZE - SectionMemTableHead_size < 2000000" by (simp add: DEFAULT_SECTION_MEM_SIZE_def)
  from huge_request_grows [OF D(2-6) this, of "\<lambda>t len. (0, t)" 0] show ?thesis using D(1) by blast
qed

end
