(* ===== verification/Arena_Pool.thy ===== *)
theory Arena_Pool
  imports Arena_Heap
begin

text \<open>
  Values of 128 KB and more in the buddy pool (arena_buddy_pool.cc over \<open>AllocDataFromSection\<close> of
  heap_mem_manager.cc): what \<open>NewData\<close> stores is read back and leaves what was stored before as it was.
\<close>

section \<open>Sections of a heap\<close>

definition secs_ok :: "heap_state \<Rightarrow> bool" where
  "secs_ok = (\<lambda>(os, p, h). mps_good (os, p) \<and> hm_base h = mps_bot (os, p) \<and> 64 < mps_used (os, p) \<and>
     (\<forall>a\<in>set (hm_sec_list h). sec_begin (hm_secs h a) = a \<and> sec_begin (hm_secs h a) + 40 \<le> sec_current (hm_secs h a) \<and>
        sec_current (hm_secs h a) \<le> sec_end (hm_secs h a) \<and> mps_bot (os, p) + sec_end (hm_secs h a) \<le> mps_top (os, p)) \<and>
     (\<forall>a\<in>set (hm_sec_list h). \<forall>c\<in>set (hm_sec_list h). a \<noteq> c \<longrightarrow>
        sec_end (hm_secs h a) \<le> sec_begin (hm_secs h c) \<or> sec_end (hm_secs h c) \<le> sec_begin (hm_secs h a)))"

text \<open>The offsets that sections have given out.\<close>

definition sec_taken :: "heap_mem \<Rightarrow> nat \<Rightarrow> bool" where
  "sec_taken h x \<longleftrightarrow> (\<exists>a\<in>set (hm_sec_list h). sec_begin (hm_secs h a) \<le> x \<and> x < sec_current (hm_secs h a))"

definition gave :: "nat \<Rightarrow> nat \<Rightarrow> heap_mem \<Rightarrow> heap_mem \<Rightarrow> bool" where
  "gave off len h h' \<longleftrightarrow>
     (\<forall>x. off \<le> x \<and> x < off + len \<longrightarrow> \<not> sec_taken h x \<and> sec_taken h' x) \<and> (\<forall>x. sec_taken h x \<longrightarrow> sec_taken h' x)"

definition bump :: "nat \<Rightarrow> nat \<Rightarrow> heap_mem \<Rightarrow> heap_mem" where
  "bump a len h = h\<lparr>hm_secs := (hm_secs h)(a := (hm_secs h a)\<lparr>sec_current := sec_current (hm_secs h a) + len\<rparr>)\<rparr>"

lemma bump_simps [simp]:
  "hm_sec_list (bump a len h) = hm_sec_list h" "hm_base (bump a len h) = hm_base h"
  "sec_begin (hm_secs (bump a len h) c) = sec_begin (hm_secs h c)" "sec_end (hm_secs (bump a len h) c) = sec_end (hm_secs h c)"
  "sec_current (hm_secs (bump a len h) c) = sec_current (hm_secs h c) + (if c = a then len else 0)"
  by (simp_all add: bump_def)

lemma first_section_cases:
  obtains "first_section len secs h = (None, h)"
  | a where "a \<in> set secs" "sec_current (hm_secs h a) + len \<le> sec_end (hm_secs h a)"
    "first_section len secs h = (Some (hm_GetAddr h (sec_current (hm_secs h a))), bump a len h)"
proof -
  have "first_section len secs h = (None, h) \<or>
    (\<exists>a\<in>set secs. sec_current (hm_secs h a) + len \<le> sec_end (hm_secs h a) \<and>
       first_section len secs h = (Some (hm_GetAddr h (sec_current (hm_secs h a))), bump a len h))"
    by (induction secs) (auto simp: hm_sec_alloc_def section_AllocData_def bump_def)
  then show ?thesis using that by blast
qed

lemma bump_ok:
  assumes "secs_ok (os, p, h)" "a \<in> set (hm_sec_list h)" "sec_current (hm_secs h a) + len \<le> sec_end (hm_secs h a)"
  shows "secs_ok (os, p, bump a len h) \<and> gave (sec_current (hm_secs h a)) len h (bump a len h)"
proof -
  have ok: "\<forall>a\<in>set (hm_sec_list h). sec_begin (hm_secs h a) + 40 \<le> sec_current (hm_secs h a) \<and>
        sec_current (hm_secs h a) \<le> sec_end (hm_secs h a)"
    and apart: "\<forall>a\<in>set (hm_sec_list h). \<forall>c\<in>set (hm_sec_list h). a \<noteq> c \<longrightarrow>
        sec_end (hm_secs h a) \<le> sec_begin (hm_secs h c) \<or> sec_end (hm_secs h c) \<le> sec_begin (hm_secs h a)"
    using assms(1) unfolding secs_ok_def prod.case by blast+
  have "\<not> sec_taken h x" if x: "sec_current (hm_secs h a) \<le> x \<and> x < sec_current (hm_secs h a) + len" for x
  proof
    assume "sec_taken h x"
    then obtain c where c: "c \<in> set (hm_sec_list h)" "sec_begin (hm_secs h c) \<le> x" "x < sec_current (hm_secs h c)"
      by (auto simp: sec_taken_def)
    then have "c \<noteq> a" using x by auto
    then have "sec_end (hm_secs h a) \<le> sec_begin (hm_secs h c) \<or> sec_end (hm_secs h c) \<le> sec_begin (hm_secs h a)"
      using apart assms(2) c(1) by blast
    then show False using bspec [OF ok assms(2)] bspec [OF ok c(1)] c(2,3) x assms(3) by linarith
  qed
  moreover have "sec_taken (bump a len h) x" if "sec_current (hm_secs h a) \<le> x \<and> x < sec_current (hm_secs h a) + len" for x
    using that bspec [OF ok assms(2)] assms(2) by (auto simp: sec_taken_def intro!: bexI [of _ a])
  moreover have "sec_taken (bump a len h) x" if "sec_taken h x" for x
    using that by (auto simp: sec_taken_def trans_less_add1)
  moreover have "secs_ok (os, p, bump a len h)"
  proof -
    have "\<forall>c\<in>set (hm_sec_list h). sec_begin (hm_secs h c) = c \<and>
      sec_begin (hm_secs h c) + 40 \<le> sec_current (hm_secs h c) + (if c = a then len else 0) \<and>
      sec_current (hm_secs h c) + (if c = a then len else 0) \<le> sec_end (hm_secs h c) \<and>
      mps_bot (os, p) + sec_end (hm_secs h c) \<le> mps_top (os, p)"
      using assms by (auto simp: secs_ok_def)
    then show ?thesis
      using assms(1) apart unfolding secs_ok_def prod.case bump_simps by blast
  qed
  ultimately show ?thesis by (simp add: gave_def)
qed

text \<open>A new section lies above the others.\<close>

definition with_new :: "nat \<Rightarrow> heap_mem \<Rightarrow> heap_mem" where
  "with_new a h = UpdateSectionOffset a (h\<lparr>hm_secs := (hm_secs h)(a := section_Init a DEFAULT_SECTION_MEM_SIZE), hm_sec_list := hm_sec_list h @ [a]\<rparr>)"

lemma with_new_simps [simp]:
  "hm_sec_list (with_new a h) = hm_sec_list h @ [a]" "hm_base (with_new a h) = hm_base h"
  "sec_begin (hm_secs (with_new a h) c) = (if c = a then a else sec_begin (hm_secs h c))"
  "sec_end (hm_secs (with_new a h) c) = (if c = a then a + DEFAULT_SECTION_MEM_SIZE else sec_end (hm_secs h c))"
  "sec_current (hm_secs (with_new a h) c) = (if c = a then a + SectionMemTableHead_size else sec_current (hm_secs h c))"
  "sec_valid (hm_secs (with_new a h) c) = (if c = a then True else sec_valid (hm_secs h c))"
  by (simp_all add: with_new_def UpdateSectionOffset_def Let_def section_Init_def)

lemma secs_ok_new:
  assumes ok: "secs_ok (os, p, h)" and "mps_good (os', p')" and bot: "mps_bot (os', p') = mps_bot (os, p)"
    and top: "mps_top (os', p') = mps_top (os, p) + DEFAULT_SECTION_MEM_SIZE" and "mps_used (os, p) \<le> mps_used (os', p')"
    and a: "a = mps_top (os, p) - mps_bot (os, p)" and le: "mps_bot (os, p) \<le> mps_top (os, p)"
  shows "secs_ok (os', p', with_new a h) \<and> a \<notin> set (hm_sec_list h) \<and> (\<forall>x. sec_taken h x \<longrightarrow> x < a \<and> sec_taken (with_new a h) x)"
proof -
  have below: "sec_begin (hm_secs h c) = c \<and> c + 40 \<le> sec_current (hm_secs h c) \<and>
      sec_current (hm_secs h c) \<le> sec_end (hm_secs h c) \<and> sec_end (hm_secs h c) \<le> a" if "c \<in> set (hm_sec_list h)" for c
    using ok that a le by (fastforce simp: secs_ok_def)
  then have notin: "a \<notin> set (hm_sec_list h)" by fastforce
  have "40 \<le> DEFAULT_SECTION_MEM_SIZE" "SectionMemTableHead_size = 40"
    by (simp_all add: DEFAULT_SECTION_MEM_SIZE_def SectionMemTableHead_size_def)
  then have "secs_ok (os', p', with_new a h)"
    using ok assms(2,5) bot top a le notin below by (auto simp: secs_ok_def)
  moreover have "x < a \<and> sec_taken (with_new a h) x" if "sec_taken h x" for x
    using that below notin by (fastforce simp: sec_taken_def)
  ultimately show ?thesis using notin by blast
qed

text \<open>A request that needs a new section: the store grows by one, and the block lies behind its head.\<close>

lemma AllocSection_new:
  assumes ok: "secs_ok (os, p, h)" and len: "0 < len" "len + SectionMemTableHead_size \<le> DEFAULT_SECTION_MEM_SIZE"
    and room: "mps_used (os, p) + DEFAULT_SECTION_MEM_SIZE + mp_min_expand p \<le> 2 ^ 63"
    and f: "first_section len (hm_sec_list h) h = (None, h)"
  defines "a \<equiv> mps_top (os, p) - mps_bot (os, p)"
  defines "off \<equiv> a + SectionMemTableHead_size"
  obtains os' p' h' where "AllocDataFromSection (os, p, h) len = Some (Some (mps_bot (os, p) + off), os', p', h')"
    "secs_ok (os', p', h')" "gave off len h h'" "mps_bot (os', p') = mps_bot (os, p)" "mps_end (os', p') = mps_end (os, p)"
    "mps_top (os', p') = mps_top (os, p) + DEFAULT_SECTION_MEM_SIZE" "mps_bot (os, p) + a = mps_top (os, p)"
    "\<forall>c m. mps_bot (os, p) \<le> c \<longrightarrow> c + m \<le> mps_top (os, p) \<longrightarrow> mps_bytes (os', p') c m = mps_bytes (os, p) c m"
proof -
  obtain st f b where L: "mps_layout (os, p) st f b" and fl: "fl_ok (p_free_list p)" and base: "hm_base h = mps_bot (os, p)"
    and used: "64 < mps_used (os, p)"
    using ok by (auto simp: secs_ok_def mps_good_def)
  have b: "mps_bot (os, p) = b + 64" "mps_top (os, p) = b + mps_used (os, p)" "b < 2 ^ 63"
    using L mps_layout_top [OF L] mps_layout_used(1) [OF L] by (simp_all add: mps_layout_def mps_used_def)
  obtain c os' p' st' where A: "mp_AllocFromStore os p DEFAULT_SECTION_MEM_SIZE = Some (c, os', p')" "mps_layout (os', p') st' f b"
    "p' = p\<lparr>p_store := Some st'\<rparr>" "mm_size st' = mm_size st" "c \<noteq> 0" "c = mps_top (os, p)"
    "mps_top (os', p') = c + DEFAULT_SECTION_MEM_SIZE"
    "\<forall>d m. b + 64 \<le> d \<longrightarrow> d + m \<le> mps_top (os, p) \<longrightarrow> mps_bytes (os', p') d m = mps_bytes (os, p) d m"
    using mps_AllocFromStore [OF L default_sizes(3,4)] room by blast
  have a0: "a \<noteq> 0" and le: "mps_bot (os, p) \<le> mps_top (os, p)" using b used by (simp_all add: a_def)
  have "sub64 c (hm_base h) = a" using sub64_le [of "b + 64" c] A(6) b used room by (simp add: base a_def)
  then have alloc: "hm_Alloc os p h DEFAULT_SECTION_MEM_SIZE = Some (a, os', p')" using A(1,5) by (simp add: hm_Alloc_def)
  let ?h1 = "h\<lparr>hm_secs := (hm_secs h)(a := section_Init a DEFAULT_SECTION_MEM_SIZE), hm_sec_list := hm_sec_list h @ [a]\<rparr>"
  have new: "hm_NewSection (os, p, h) = Some (a, os', p', ?h1)" using alloc a0 by (simp add: hm_NewSection_def)
  have upd: "UpdateSectionOffset (sec_begin (hm_secs ?h1 a)) ?h1 = with_new a h"
    by (simp add: with_new_def section_Init_def)
  have pos: "mps_bot (os', p') = mps_bot (os, p)" "mps_end (os', p') = mps_end (os, p)" "mps_good (os', p')"
    "mps_used (os, p) \<le> mps_used (os', p')" "mps_top (os', p') = mps_top (os, p) + DEFAULT_SECTION_MEM_SIZE"
    using A(2-4,6,7) b fl mps_layout_top(1,2) [OF A(2)] mps_end_layout [OF A(2)] mps_end_layout [OF L] mps_layout_used(1) [OF A(2)]
    by (auto simp: mps_good_def mps_used_def)
  note W = secs_ok_new [OF ok pos(3,1,5,4) a_def [THEN meta_eq_to_obj_eq] le]
  have sec: "hm_sec_alloc len a (with_new a h) = (Some (hm_GetAddr h off), bump a len (with_new a h))"
    using len(2) by (simp add: hm_sec_alloc_def section_AllocData_def bump_def hm_GetAddr_def off_def)
  have B: "secs_ok (os', p', bump a len (with_new a h)) \<and> gave off len (with_new a h) (bump a len (with_new a h))"
    using bump_ok [of os' p' "with_new a h" a len] W len(2) by (simp add: off_def)
  then have G: "gave off len h (bump a len (with_new a h))" using W by (auto simp: gave_def)
  have "hm_GetAddr h off = mps_bot (os, p) + off"
    using b used room len by (simp add: hm_GetAddr_def base add64_def off_def a_def)
  then show ?thesis
    using B G f new upd sec pos A(8) b le
    by (intro that [of os' p' "bump a len (with_new a h)"]) (auto simp: AllocDataFromSection_def a_def)
qed

lemma AllocSection_ok:
  assumes ok: "secs_ok (os, p, h)" and len: "0 < len" "len + SectionMemTableHead_size \<le> DEFAULT_SECTION_MEM_SIZE"
    and room: "mps_used (os, p) + DEFAULT_SECTION_MEM_SIZE + mp_min_expand p \<le> 2 ^ 63"
    and fits: "mps_top (os, p) + DEFAULT_SECTION_MEM_SIZE \<le> mps_end (os, p)"
  obtains off os' p' h' where
    "AllocDataFromSection (os, p, h) len = Some (Some (mps_bot (os, p) + off), os', p', h')"
    "secs_ok (os', p', h')" "gave off len h h'" "mps_bot (os', p') = mps_bot (os, p)" "mps_end (os', p') = mps_end (os, p)"
    "mps_top (os, p) \<le> mps_top (os', p')" "mps_bot (os, p) + off + len \<le> mps_top (os', p')" "mps_top (os', p') \<le> mps_end (os', p')"
    "\<forall>c m. mps_bot (os, p) \<le> c \<longrightarrow> c + m \<le> mps_top (os, p) \<longrightarrow> mps_bytes (os', p') c m = mps_bytes (os, p) c m"
proof (rule first_section_cases [of len "hm_sec_list h" h])
  fix a assume a: "a \<in> set (hm_sec_list h)" "sec_current (hm_secs h a) + len \<le> sec_end (hm_secs h a)"
    and f: "first_section len (hm_sec_list h) h = (Some (hm_GetAddr h (sec_current (hm_secs h a))), bump a len h)"
  obtain st f b where L: "mps_layout (os, p) st f b" and base: "hm_base h = mps_bot (os, p)"
    using ok by (auto simp: secs_ok_def mps_good_def)
  have b: "mps_top (os, p) = b + mps_used (os, p)" "b < 2 ^ 63"
    using L mps_layout_top [OF L] mps_layout_used(1) [OF L] by (simp_all add: mps_layout_def mps_used_def)
  have top: "mps_bot (os, p) + sec_end (hm_secs h a) \<le> mps_top (os, p)" using ok a(1) by (simp add: secs_ok_def)
  then have addr: "hm_GetAddr h (sec_current (hm_secs h a)) = mps_bot (os, p) + sec_current (hm_secs h a)"
    using a(2) b room by (simp add: hm_GetAddr_def base add64_def)
  show ?thesis
    by (rule that [of "sec_current (hm_secs h a)" os p "bump a len h"])
       (use f addr bump_ok [OF ok a] top a(2) fits in \<open>auto simp: AllocDataFromSection_def\<close>)
next
  assume f: "first_section len (hm_sec_list h) h = (None, h)"
  let ?a = "mps_top (os, p) - mps_bot (os, p)"
  obtain os' p' h' where N: "AllocDataFromSection (os, p, h) len = Some (Some (mps_bot (os, p) + (?a + SectionMemTableHead_size)), os', p', h')"
    "secs_ok (os', p', h')" "gave (?a + SectionMemTableHead_size) len h h'" "mps_bot (os', p') = mps_bot (os, p)"
    "mps_end (os', p') = mps_end (os, p)" "mps_top (os', p') = mps_top (os, p) + DEFAULT_SECTION_MEM_SIZE"
    "mps_bot (os, p) + ?a = mps_top (os, p)"
    "\<forall>c m. mps_bot (os, p) \<le> c \<longrightarrow> c + m \<le> mps_top (os, p) \<longrightarrow> mps_bytes (os', p') c m = mps_bytes (os, p) c m"
    by (rule AllocSection_new [OF ok len room f])
  then show ?thesis using len(2) fits by (intro that [OF N(1-5) _ _ _ N(8)]) linarith+
qed

section \<open>Properties\<close>

lemma secs_ok_store:
  assumes "secs_ok (os, p, h)" "mps_good (os', p')" "mps_bot (os', p') = mps_bot (os, p)" "mps_top (os', p') = mps_top (os, p)"
  shows "secs_ok (os', p', h)"
proof -
  have "mps_used (os', p') = mps_used (os, p)"
    using assms(1-4) mps_layout_top(1,2) by (fastforce simp: secs_ok_def mps_top_def mps_bot_def)
  moreover have "\<forall>a\<in>set (hm_sec_list h). sec_begin (hm_secs h a) = a \<and>
      sec_begin (hm_secs h a) + 40 \<le> sec_current (hm_secs h a) \<and> sec_current (hm_secs h a) \<le> sec_end (hm_secs h a) \<and>
      mps_bot (os', p') + sec_end (hm_secs h a) \<le> mps_top (os', p')"
    using assms by (auto simp: secs_ok_def)
  ultimately show ?thesis
    using assms(1) unfolding secs_ok_def prod.case assms(3) by (simp only: assms(2) simp_thms) blast
qed

lemma poke_keeps:
  assumes "mps_good (os, p)" "mps_bot (os, p) \<le> a" "a + 4 \<le> mps_top (os, p)" "a + 4 \<le> mps_end (os, p)" "vl_poke os p a v = Some os'"
  shows "mps_good (os', p)" "mps_bot (os', p) = mps_bot (os, p)" "mps_top (os', p) = mps_top (os, p)" "mps_end (os', p) = mps_end (os, p)"
    "\<And>c m. mps_bot (os, p) \<le> c \<Longrightarrow> c + m \<le> mps_top (os, p) \<Longrightarrow> c + m \<le> a \<or> a + 4 \<le> c \<Longrightarrow>
      mps_bytes (os', p) c m = mps_bytes (os, p) c m"
proof -
  have "mps_write (os, p) a (le_bytes 4 v) = Some (True, (os', p))"
    using vl_poke_facts [OF assms(1-4)] assms(5) by (metis option.inject)
  then show "mps_good (os', p)" "mps_bot (os', p) = mps_bot (os, p)" "mps_top (os', p) = mps_top (os, p)" "mps_end (os', p) = mps_end (os, p)"
    "\<And>c m. mps_bot (os, p) \<le> c \<Longrightarrow> c + m \<le> mps_top (os, p) \<Longrightarrow> c + m \<le> a \<or> a + 4 \<le> c \<Longrightarrow>
      mps_bytes (os', p) c m = mps_bytes (os, p) c m"
    using mps_write_facts [OF assms(1), of "le_bytes 4 v" a] assms(2,3) by auto
qed

lemma write_keeps:
  assumes "mps_good (os, p)" "mps_bot (os, p) \<le> a" "a + length d \<le> mps_top (os, p)" "d \<noteq> []"
    "mp_Write os p a d = Some (True, os', p')"
  shows "mps_good (os', p')" "mps_bot (os', p') = mps_bot (os, p)" "mps_top (os', p') = mps_top (os, p)" "mps_end (os', p') = mps_end (os, p)"
    "\<And>c m. mps_bot (os, p) \<le> c \<Longrightarrow> c + m \<le> mps_top (os, p) \<Longrightarrow> c + m \<le> a \<or> a + length d \<le> c \<Longrightarrow>
      mps_bytes (os', p') c m = mps_bytes (os, p) c m"
proof -
  have "mps_write (os, p) a d = Some (True, (os', p'))" using assms(5) by (simp add: mps_write_def)
  then show "mps_good (os', p')" "mps_bot (os', p') = mps_bot (os, p)" "mps_top (os', p') = mps_top (os, p)" "mps_end (os', p') = mps_end (os, p)"
    "\<And>c m. mps_bot (os, p) \<le> c \<Longrightarrow> c + m \<le> mps_top (os, p) \<Longrightarrow> c + m \<le> a \<or> a + length d \<le> c \<Longrightarrow>
      mps_bytes (os', p') c m = mps_bytes (os, p) c m"
    using mps_write_facts [OF assms(1,4,2,3)] by auto
qed

text \<open>The length is written when the block is allocated and again with the value.\<close>

lemma store_twice:
  assumes good: "mps_good (os, p)" "mps_bot (os, p) \<le> a" "a + (4 + length d) \<le> mps_top (os, p)" "mps_top (os, p) \<le> mps_end (os, p)"
    and d: "d \<noteq> []" "length d < 2 ^ 31"
  obtains os1 os2 os3 p3 where "vl_poke os p a (length d) = Some os1" "vl_poke os1 p a (length d) = Some os2"
    "mp_Write os2 p (a + 4) d = Some (True, os3, p3)" "vl_holds (os3, p3) a d" "p_store p3 \<noteq> None" "mp_begin p3 = mp_begin p"
    "mps_bot (os3, p3) = mps_bot (os, p)" "mps_top (os3, p3) = mps_top (os, p)"
    "\<And>c m. mps_bot (os, p) \<le> c \<Longrightarrow> c + m \<le> mps_top (os, p) \<Longrightarrow> c + m \<le> a \<or> a + (4 + length d) \<le> c \<Longrightarrow>
      mps_bytes (os3, p3) c m = mps_bytes (os, p) c m"
proof -
  have a: "a + 4 \<le> mps_top (os, p)" "a + 4 \<le> mps_end (os, p)" using good(3,4) by simp_all
  obtain os1 where P: "vl_poke os p a (length d) = Some os1" by (rule vl_poke_facts [OF good(1,2) a])
  note F = poke_keeps [OF good(1,2) a P]
  obtain os2 os3 p3 where W: "vl_poke os1 p a (length d) = Some os2" "mp_Write os2 p (a + 4) d = Some (True, os3, p3)"
    "vl_holds (os3, p3) a d" "p_store p3 \<noteq> None" "mp_begin p3 = mp_begin p"
    by (rule vl_store [OF F(1), of a d]) (use F good d in auto)
  have a2: "mps_bot (os1, p) \<le> a" "a + 4 \<le> mps_top (os1, p)" "a + 4 \<le> mps_end (os1, p)" using F a good by simp_all
  note G = poke_keeps [OF F(1) a2 W(1)]
  have a3: "mps_bot (os2, p) \<le> a + 4" "a + 4 + length d \<le> mps_top (os2, p)" using F G good by simp_all
  note H = write_keeps [OF G(1) a3 d(1) W(2)]
  show ?thesis
    by (rule that [OF P W]) (use F(2,3,5) G(2,3,5) H(2,3,5) in \<open>auto simp: add.assoc\<close>)
qed

lemma taken_range_apart:
  assumes "gave off len h h'" "0 < m" "\<forall>x. c \<le> x \<and> x < c + m \<longrightarrow> sec_taken h x" "0 < len"
  shows "c + m \<le> off \<or> off + len \<le> c"
proof (rule ccontr)
  assume no: "\<not> ?thesis"
  let ?x = "max c off"
  have "c \<le> ?x \<and> ?x < c + m" "off \<le> ?x \<and> ?x < off + len" using assms(2,4) no by auto
  then have "sec_taken h ?x" "\<not> sec_taken h ?x" using assms(1,3) unfolding gave_def by blast+
  then show False by blast
qed

lemma taken_range_below:
  assumes "secs_ok (os, p, h)" "0 < m" "\<forall>x. c \<le> x \<and> x < c + m \<longrightarrow> sec_taken h x"
  shows "mps_bot (os, p) + c + m \<le> mps_top (os, p)"
proof -
  have "sec_taken h (c + m - 1)" using assms(2,3) by simp
  then show ?thesis using assms(1,2) by (fastforce simp: secs_ok_def sec_taken_def)
qed

text \<open>A value in a block of a section: its length, its bytes and its offset.\<close>

lemma ab_NewData_block:
  assumes "divide_size (length d + 4) = HUGE_OBJECT" "add64 (length d) AreanaBuddyDataHeader_size = length d + 4"
    and d: "d \<noteq> []" "length d < 2 ^ 31"
    and A: "AllocDataFromSection (os, p, h) (length d + 4) = Some (Some a, os1, p1, h1)" "secs_ok (os1, p1, h1)"
    and off: "a = mps_bot (os1, p1) + off"
    and place: "a + (length d + 4) \<le> mps_top (os1, p1)" "mps_top (os1, p1) \<le> mps_end (os1, p1)"
  obtains os' p' where "ab_NewData by_slab l (os, p, h) d = Some (int (off + 4), os', p', h1)" "secs_ok (os', p', h1)"
    "mp_GetDataAddr p' (off + 4) = a + 4" "vl_holds (os', p') a d"
    "\<And>n. ab_Read os' p' (a + 4) n = vl_Read os' p' a n"
    "\<And>c m. mps_bot (os1, p1) \<le> c \<Longrightarrow> c + m \<le> mps_top (os1, p1) \<Longrightarrow> c + m \<le> a \<or> a + (4 + length d) \<le> c \<Longrightarrow>
      mps_bytes (os', p') c m = mps_bytes (os1, p1) c m"
proof -
  have good1: "mps_good (os1, p1)" using A(2) by (simp add: secs_ok_def)
  then obtain st1 f b where L1: "mps_layout (os1, p1) st1 f b" by (auto simp: mps_good_def)
  note T1 = mps_layout_top [OF L1]
  have b: "mps_bot (os1, p1) = b + 64" "0 < b" "b < 2 ^ 63" using L1 T1(1) by (simp_all add: mps_layout_def)
  have top: "mps_top (os1, p1) \<le> b + 2 ^ 63" using L1 T1(2) by (auto simp: mps_layout_def)
  have a: "a \<noteq> 0" "a + 4 < 2 ^ 64" "mps_bot (os1, p1) \<le> a" "a + 4 \<le> mps_top (os1, p1)" "a + 4 \<le> mps_end (os1, p1)"
    using place b top d(1) by (auto simp: off)
  obtain os2 os3 os4 p4 where W: "vl_poke os1 p1 a (length d) = Some os2" "vl_poke os2 p1 a (length d) = Some os3"
    "mp_Write os3 p1 (a + 4) d = Some (True, os4, p4)" "vl_holds (os4, p4) a d" "p_store p4 \<noteq> None" "mp_begin p4 = mp_begin p1"
    "mps_bot (os4, p4) = mps_bot (os1, p1)" "mps_top (os4, p4) = mps_top (os1, p1)"
    "\<And>c m. mps_bot (os1, p1) \<le> c \<Longrightarrow> c + m \<le> mps_top (os1, p1) \<Longrightarrow> c + m \<le> a \<or> a + (4 + length d) \<le> c \<Longrightarrow>
      mps_bytes (os4, p4) c m = mps_bytes (os1, p1) c m"
    by (rule store_twice [OF good1 a(3), of d]) (use place d in auto)
  have alloc: "ab_DoAlloc by_slab l (os, p, h) (length d) = Some (a + 4, os2, p1, h1)"
    using A(1) a(1,2) W(1) assms(1,2) L1
    by (simp add: ab_DoAlloc_def hm_AllocData_def mps_layout_def AreanaBuddyDataHeader_size_def add64_def)
  have "secs_ok (os4, p4, h1)" by (rule secs_ok_store [OF A(2) _ W(7,8)]) (use W(4) in \<open>simp add: vl_holds_def\<close>)
  moreover have begin4: "mp_begin p4 = Some b" using W(6) L1 by (simp add: mps_layout_def)
  moreover have addr: "mp_GetDataAddr p4 (mp_GetDataOffset p4 (a + 4)) = a + 4" "mp_GetDataOffset p4 (a + 4) = off + 4"
    using mp_offset_addr [OF begin4, of "a + 4"] a(2) b
    by (simp_all add: off mp_GetDataOffset_def mp_base_def begin4 sub64_le)
  moreover have hd: "sub64 (a + 4) AreanaBuddyDataHeader_size = a" using a(2) by (simp add: AreanaBuddyDataHeader_size_def sub64_le)
  moreover have "p_store p1 \<noteq> None" using L1 by (simp add: mps_layout_def)
  ultimately show ?thesis
    using that [of os4 p4] alloc a(1) W(2-5,9) by (simp add: ab_NewData_def ab_Read_def vl_Read_def VariableDataHeader_size_def)
qed

text \<open>
  C24: a value of 128 KB or more, up to what a section holds, that is stored in a
  buddy pool whose file may grow and whose mapping is large enough, gets a block no section had
  given out; it is read back whole, and whatever a section had given out is as it was.
\<close>

theorem ab_NewData_Read:
  assumes "secs_ok (os, p, h)" "divide_size (length d + 4) = HUGE_OBJECT" "length d + 4 \<le> DEFAULT_SECTION_MEM_SIZE - 40"
    and "mps_used (os, p) + DEFAULT_SECTION_MEM_SIZE + mp_min_expand p \<le> 2 ^ 63"
    and "mps_top (os, p) + DEFAULT_SECTION_MEM_SIZE \<le> mps_end (os, p)"
  shows "\<exists>r os' p' h'. ab_NewData by_slab l (os, p, h) d = Some (int r, os', p', h') \<and> secs_ok (os', p', h') \<and>
    ab_Read os' p' (mp_GetDataAddr p' r) n = Some (True, mp_GetDataAddr p' r, length d) \<and>
    (\<forall>st. p_store p' = Some st \<longrightarrow> mapped_read os' st (mp_GetDataAddr p' r) (length d) = Some d) \<and>
    (\<forall>x. r \<le> x \<and> x < r + length d \<longrightarrow> \<not> sec_taken h x \<and> sec_taken h' x) \<and>
    (\<forall>c m. 0 < m \<longrightarrow> (\<forall>x. c \<le> x \<and> x < c + m \<longrightarrow> sec_taken h x) \<longrightarrow>
       mps_bytes (os', p') (mps_bot (os, p) + c) m = mps_bytes (os, p) (mps_bot (os, p) + c) m)"
proof -
  let ?len = "length d + 4"
  have len: "0 < ?len" "?len + SectionMemTableHead_size \<le> DEFAULT_SECTION_MEM_SIZE" "d \<noteq> []" "length d < 2 ^ 31"
    and size: "add64 (length d) AreanaBuddyDataHeader_size = ?len"
    using assms(2,3)
    by (auto simp: SectionMemTableHead_size_def DEFAULT_SECTION_MEM_SIZE_def AreanaBuddyDataHeader_size_def add64_def
      divide_size_def sizes)
  obtain off os1 p1 h1 where A: "AllocDataFromSection (os, p, h) ?len = Some (Some (mps_bot (os, p) + off), os1, p1, h1)"
    "secs_ok (os1, p1, h1)" "gave off ?len h h1" "mps_bot (os1, p1) = mps_bot (os, p)" "mps_end (os1, p1) = mps_end (os, p)"
    "mps_top (os, p) \<le> mps_top (os1, p1)" "mps_bot (os, p) + off + ?len \<le> mps_top (os1, p1)" "mps_top (os1, p1) \<le> mps_end (os1, p1)"
    "\<forall>c m. mps_bot (os, p) \<le> c \<longrightarrow> c + m \<le> mps_top (os, p) \<longrightarrow> mps_bytes (os1, p1) c m = mps_bytes (os, p) c m"
    by (rule AllocSection_ok [OF assms(1) len(1,2) assms(4,5)])
  define a where "a = mps_bot (os, p) + off"
  obtain os' p' where N: "ab_NewData by_slab l (os, p, h) d = Some (int (off + 4), os', p', h1)" "secs_ok (os', p', h1)"
    "mp_GetDataAddr p' (off + 4) = a + 4" "vl_holds (os', p') a d" "\<And>n. ab_Read os' p' (a + 4) n = vl_Read os' p' a n"
    "\<And>c m. mps_bot (os1, p1) \<le> c \<Longrightarrow> c + m \<le> mps_top (os1, p1) \<Longrightarrow> c + m \<le> a \<or> a + (4 + length d) \<le> c \<Longrightarrow>
      mps_bytes (os', p') c m = mps_bytes (os1, p1) c m"
    by (rule ab_NewData_block [OF assms(2) size len(3,4) A(1) [folded a_def] A(2), of off by_slab l])
      (use A(4,7,8) a_def in auto)
  have "mps_bytes (os', p') (mps_bot (os, p) + c) m = mps_bytes (os, p) (mps_bot (os, p) + c) m"
    if m: "0 < m" and c: "\<forall>x. c \<le> x \<and> x < c + m \<longrightarrow> sec_taken h x" for c m
  proof -
    let ?c = "mps_bot (os, p) + c"
    have "?c + m \<le> mps_top (os, p)" by (rule taken_range_below [OF assms(1) m c])
    moreover have "?c + m \<le> a \<or> a + ?len \<le> ?c" using taken_range_apart [OF A(3) m c] by (auto simp: a_def)
    ultimately show ?thesis using N(6) [of ?c m] A(4,6,9) by (auto simp: add.assoc add.commute)
  qed
  then show ?thesis
    using N(1-3,5) vl_peek_holds(2,3) [OF N(4)] A(3)
    by (intro exI [of _ "off + 4"] exI [of _ os'] exI [of _ p'] exI [of _ h1]) (auto simp: gave_def)
qed

definition demo_big :: mmap_pool_state where
  "demo_big =
     (plain_os\<lparr>files := [''p'' \<mapsto> le_bytes 8 112 @ replicate 120 0]\<rparr>,
      (MMapPool_new 0)\<lparr>p_store := Some \<lparr>fs_fd = Some (''p'', False), fs_size = 128, fs_name = ''p'',
          mm_base = Some 4096, mm_size = 2 ^ 30, mm_memory_lock = False, mm_memory_preload = False\<rparr>,
        mp_begin := Some 4096, mp_min_expand := 16\<rparr>)"

lemma demo_big_ok: "mps_good demo_big" "mps_bot demo_big = 4160" "mps_top demo_big = 4208" "mps_used demo_big = 112"
  "mps_end demo_big = 4096 + 2 ^ 30"
proof -
  have le: "le_val (get_bytes 0 8 (le_bytes 8 112 @ replicate 120 0)) = 112"
    by (simp add: get_bytes_def le_val_le_bytes)
  have L: "mps_layout demo_big \<lparr>fs_fd = Some (''p'', False), fs_size = 128, fs_name = ''p'',
          mm_base = Some 4096, mm_size = 2 ^ 30, mm_memory_lock = False, mm_memory_preload = False\<rparr> ''p'' 4096"
    using le by (simp add: mps_layout_def demo_big_def MMapPool_new_def pool.defs FilePool_new_def mapped_def
        coherent_def file_of_def del: le_bytes.simps)
  then show "mps_good demo_big"
    by (auto simp: mps_good_def demo_big_def MMapPool_new_def pool.defs FilePool_new_def)
  show used: "mps_used demo_big = 112"
    using le by (simp add: mps_used_def mp_GetUsedSize_def mp_peek_def demo_big_def mapped_read_def file_of_def del: le_bytes.simps)
  have "mp_base (snd demo_big) = 4096" by (simp add: mp_base_def demo_big_def)
  then show "mps_bot demo_big = 4160" "mps_top demo_big = 4208" "mps_end demo_big = 4096 + 2 ^ 30"
    using used by (simp_all add: mps_bot_def mps_top_def mps_end_def demo_big_def)
qed

theorem ab_NewData_Read_witness:
  "\<exists>r os' p' h'. ab_NewData (\<lambda>t len. (0, t)) 0 (fst demo_big, snd demo_big, demo_heap\<lparr>hm_base := 4160\<rparr>) (replicate 200000 7) =
      Some (int r, os', p', h') \<and>
    ab_Read os' p' (mp_GetDataAddr p' r) 0 = Some (True, mp_GetDataAddr p' r, length (replicate 200000 (7 :: byte)))"
proof -
  have "secs_ok (fst demo_big, snd demo_big, demo_heap\<lparr>hm_base := 4160\<rparr>)"
    using demo_big_ok by (simp add: secs_ok_def demo_heap_def)
  moreover have "divide_size (length (replicate 200000 (7 :: byte)) + 4) = HUGE_OBJECT"
    "length (replicate 200000 (7 :: byte)) + 4 \<le> DEFAULT_SECTION_MEM_SIZE - 40"
    by (simp_all add: divide_size_def sizes DEFAULT_SECTION_MEM_SIZE_def)
  moreover have "mps_used (fst demo_big, snd demo_big) + DEFAULT_SECTION_MEM_SIZE + mp_min_expand (snd demo_big) \<le> 2 ^ 63"
    "mps_top (fst demo_big, snd demo_big) + DEFAULT_SECTION_MEM_SIZE \<le> mps_end (fst demo_big, snd demo_big)"
    using demo_big_ok by (simp_all add: DEFAULT_SECTION_MEM_SIZE_def demo_big_def)
  ultimately show ?thesis
    using ab_NewData_Read [of "fst demo_big" "snd demo_big" "demo_heap\<lparr>hm_base := 4160\<rparr>" "replicate 200000 7" "\<lambda>t len. (0, t)" 0 0]
    by blast
qed

end
