(* ===== verification/Snapshot.thy ===== *)
theory Snapshot
  imports Thread_Pool Mmap_Pool "HOL-Library.Word"
begin

unbundle bit_operations_syntax

text \<open>
  What the headers of a snapshot define (kernel/snapshot/snapshot.h, snapshot_segment.h): the two
  parts of a document id, the number of segments, the choice of one, and a segment's stores and
  threads.  The rest of \<open>Snapshot\<close> is declared but has no body in the repository.
\<close>

section \<open>Document ids\<close>

text \<open>A segment level is a number below 64: a document id has its segment in its highest bits.\<close>

definition GetSegmentIdFromDocId :: "nat \<Rightarrow> 64 word \<Rightarrow> 64 word" where
  "GetSegmentIdFromDocId segment_level doc_id =
     (if segment_level = 0 then 0 else drop_bit (64 - segment_level) doc_id)"

definition GetOffsetFromDocId :: "nat \<Rightarrow> 64 word \<Rightarrow> 64 word" where
  "GetOffsetFromDocId segment_level doc_id = doc_id AND drop_bit segment_level (- 1)"

definition GetSegmentCount :: "nat \<Rightarrow> 32 word" where
  "GetSegmentCount segment_level = push_bit segment_level 1"

text \<open>The outer None is an access before the vector, the inner one \<open>nullptr\<close>.\<close>

definition GetSegment :: "'s list \<Rightarrow> int \<Rightarrow> 's option option" where
  "GetSegment segments segment_id =
     (if segment_id \<ge> int (length segments) then Some None
      else if segment_id < 0 then None
      else Some (Some (segments ! nat segment_id)))"

section \<open>Segments\<close>

record 'a snapshot_segment =
  ss_thread_pool :: "'a thread_pool"
  ss_fix_store :: "mmap_pool option"
  ss_var_store :: "mmap_pool option"

definition SnapshotSegment_new :: "u64 \<Rightarrow> 'a snapshot_segment" where
  "SnapshotSegment_new thread_queue_size =
     \<lparr>ss_thread_pool = tp_Start (ThreadPool_new 1 thread_queue_size), ss_fix_store = None, ss_var_store = None\<rparr>"

definition DO_RELEASE :: "os \<Rightarrow> mmap_pool option \<Rightarrow> os option" where
  "DO_RELEASE os obj =
     (case obj of
        None \<Rightarrow> Some os
      | Some p \<Rightarrow> (case mp_Release os p of None \<Rightarrow> None | Some (os1, p1) \<Rightarrow> map_option fst (mp_delete os1 p1)))"

text \<open>None: a thread is still at work, or the dump of a free list does not end.\<close>

definition ss_Release :: "os \<Rightarrow> 'a snapshot_segment \<Rightarrow> (os \<times> 'a snapshot_segment) option" where
  "ss_Release os s =
     (let t = ss_thread_pool s in
      case (if tp_status t \<noteq> 1 then Returns t else tp_join [0..<tp_worker_size t] (tp_Stop t)) of
        Returns t' \<Rightarrow>
          (case DO_RELEASE os (ss_fix_store s) of
             None \<Rightarrow> None
           | Some os1 \<Rightarrow>
               map_option (\<lambda>os2. (os2, s\<lparr>ss_thread_pool := t', ss_fix_store := None, ss_var_store := None\<rparr>))
                 (DO_RELEASE os1 (ss_var_store s)))
      | _ \<Rightarrow> None)"

section \<open>Properties\<close>

lemma unat_below: "unat (w :: 64 word) < 2 ^ 64"
  using unsigned_less [of w] by simp

text \<open>
  the segment id and the offset of a document id are its quotient and
  remainder by the size of a segment, for every level, 0 included; the segment is below the
  number of segments, and no two ids have the same segment and offset.
\<close>

theorem doc_id_parts:
  assumes "level < 64"
  shows "unat (GetSegmentIdFromDocId level doc_id) = unat doc_id div 2 ^ (64 - level) \<and>
    unat (GetOffsetFromDocId level doc_id) = unat doc_id mod 2 ^ (64 - level) \<and>
    unat (GetSegmentIdFromDocId level doc_id) < 2 ^ level \<and>
    (level < 31 \<longrightarrow> unat (GetSegmentCount level) = 2 ^ level) \<and>
    (GetSegmentIdFromDocId level doc_id = GetSegmentIdFromDocId level doc_id' \<and>
     GetOffsetFromDocId level doc_id = GetOffsetFromDocId level doc_id' \<longrightarrow> doc_id = doc_id')"
proof -
  have seg: "unat (GetSegmentIdFromDocId level w) = unat w div 2 ^ (64 - level)" for w
  proof (cases "level = 0")
    case True
    then show ?thesis using unat_below [of w] by (simp add: GetSegmentIdFromDocId_def)
  next
    case False
    have "unat (drop_bit (64 - level) w) = unat w div 2 ^ (64 - level)"
      unfolding unsigned_drop_bit_eq drop_bit_eq_div [where 'a = nat]
      using unat_below [of w] by (simp add: take_bit_eq_mod)
    then show ?thesis using False by (simp only: GetSegmentIdFromDocId_def if_False)
  qed
  have off: "unat (GetOffsetFromDocId level w) = unat w mod 2 ^ (64 - level)" for w
  proof -
    have "drop_bit level (- 1 :: 64 word) = mask (64 - level)"
      by (rule bit_word_eqI) (auto simp: bit_simps)
    then have "GetOffsetFromDocId level w = take_bit (64 - level) w"
      by (simp add: GetOffsetFromDocId_def take_bit_eq_mask)
    then have "unat (GetOffsetFromDocId level w) = take_bit (64 - level) (unat w)" by (simp only: unsigned_take_bit_eq)
    then show ?thesis by (simp only: take_bit_eq_mod [where 'a = nat])
  qed
  have below: "unat w div 2 ^ (64 - level) < 2 ^ level" for w :: "64 word"
  proof -
    have "unat w < 2 ^ (64 - level) * 2 ^ level"
      using unat_below [of w] assms by (simp flip: power_add)
    then show ?thesis by (simp add: less_mult_imp_div_less mult.commute)
  qed
  have "unat (GetSegmentCount level) = 2 ^ level" if "level < 31"
  proof -
    have "(2 :: nat) ^ level < 2 ^ 32" by (rule power_strict_increasing) (use that in simp_all)
    moreover have "unat (GetSegmentCount level) = take_bit 32 (2 ^ level)"
      unfolding GetSegmentCount_def unsigned_push_bit_eq by (simp add: push_bit_of_1)
    ultimately show ?thesis by (simp add: take_bit_eq_mod)
  qed
  moreover have "doc_id = doc_id'" if "GetSegmentIdFromDocId level doc_id = GetSegmentIdFromDocId level doc_id'"
    "GetOffsetFromDocId level doc_id = GetOffsetFromDocId level doc_id'"
    using that seg off by (metis div_mod_decomp word_unat_eq_iff)
  ultimately show ?thesis using seg off below by simp
qed

theorem doc_id_parts_witness:
  "unat (GetSegmentIdFromDocId 4 0x3000000000000007) = 3 \<and> unat (GetOffsetFromDocId 4 0x3000000000000007) = 7"
  using doc_id_parts [of 4 "0x3000000000000007" 0] by simp

lemma join_done: "tp_join is t = Returns t' \<Longrightarrow> tp_status t' = tp_status t"
  by (induction "is" arbitrary: t) (auto split: worker.splits)

text \<open>
  \<open>Release\<close> of a segment whose thread has come to its end releases both stores; called again, as the
  destructor does, it changes nothing.
\<close>

theorem ss_Release_again:
  assumes "ss_Release os s = Some (os', s')"
  shows "ss_fix_store s' = None \<and> ss_var_store s' = None \<and> tp_status (ss_thread_pool s') \<noteq> 1 \<and> ss_Release os' s' = Some (os', s')"
proof -
  let ?t = "ss_thread_pool s"
  obtain t' where t': "(if tp_status ?t \<noteq> 1 then Returns ?t else tp_join [0..<tp_worker_size ?t] (tp_Stop ?t)) = Returns t'"
    and s': "s' = s\<lparr>ss_thread_pool := t', ss_fix_store := None, ss_var_store := None\<rparr>"
    using assms by (auto simp: ss_Release_def Let_def split: join_result.splits option.splits)
  have "tp_status t' \<noteq> 1"
    using t' join_done [of "[0..<tp_worker_size ?t]" "tp_Stop ?t" t'] by (auto simp: tp_Stop_def split: if_splits)
  then show ?thesis by (simp add: s' ss_Release_def DO_RELEASE_def)
qed

end
