(* ===== verification/Spec2Isabelle.thy ===== *)
theory Spec2Isabelle
  imports Prelude Murmur String_Utils Data_Views File_Store Mmap_Store Allocator File_Pool Mmap_Pool Upward_Pools
    Kv_Index Table_Session Hash_Bucket Hash_Table Hash_Index Hash_Iterator Hash_Session
    Sort_Search Sort_Table Sort_Index Sort_Session Field_Info Table_Info Table_Layout
    Lock_Free_Queue Task_Names Thread_Pool Length_Pools Arena_Tables Arena_Blocks Arena_Client Arena_Heap Arena_Pool Snapshot
begin

text \<open>
  A model of the storage kernel of \<open>ad_index\<close> (src/kernel) and its correctness.

  \<^bold>\<open>The program.\<close>  A \<^emph>\<open>store\<close> is a file, read and written by position or through a memory mapping
  (store/).  A \<^emph>\<open>pool\<close> hands out blocks of a store and takes them back (pool/).  An \<^emph>\<open>index\<close> finds a
  value by a key in memory that a pool handed out: a chained hash table and a sorted table (index/).
  A \<^emph>\<open>table\<close> is described by a configuration, from which its fields and their layout are computed
  (manager/table_info/).  Work is done by \<^emph>\<open>worker threads\<close> with a queue each (common/concurrency/).
  Strings, hashing and the result of an operation are in common/.

  \<^bold>\<open>Theories.\<close>
  \<^item> \<open>Prelude\<close>: bytes, little-endian numbers, ranges of a byte list, 64-bit arithmetic on \<open>nat\<close>.
  \<^item> \<open>Murmur\<close> (common/utils/utils.cc): \<open>MurmurHash2\<close> on 32-bit words.  Short keys of one length do
    not collide.
  \<^item> \<open>String_Utils\<close> (common/utils/utils.cc, string_util.cc, string_util.h): splitting, joining, stripping.
    Splitting and joining are inverse.  \<open>Data_Views\<close> (common/data/data.h): the overloads that split into views of the
    text; the searching one gives the same pieces, the scanning one for separators of one character and
    not in general.
  \<^item> \<open>File_Store\<close> (common/data/status.h, store/file_store.cc) and \<open>Mmap_Store\<close> (store/mmap_store.cc): the
    store's record over an explicit operating system, whose calls may fail or be short.  What is
    written is read back, and the cached size stays that of the file.
  \<^item> \<open>Allocator\<close>: what a client relies on, as the locales \<open>allocator\<close> and \<open>data_pool\<close>; their
    theorem is about every sequence of client operations and steps of the thread that frees late.
  \<^item> \<open>File_Pool\<close> (pool/file_pool.cc) and \<open>Mmap_Pool\<close> (pool/mmap_pool.cc): the free list, allocation,
    delayed frees, start and stop.  Both are interpretations of \<open>data_pool\<close>, so regions in use never
    overlap and keep their contents; the free list refines a multiset of blocks and survives a restart.
  \<^item> \<open>Upward_Pools\<close>: what the indexes rely on in a pool, as the locales \<open>bump_pool\<close> (blocks follow each other
    without gaps) and \<open>table_pool\<close> (and freed blocks wait); the mapped pool without free blocks is such a pool.
    \<open>mps_touch\<close> is \<open>Alloc\<close> together with the client's writes to the block: it faults where the block reaches past
    the mapping, and inside the mapping it never does (\<open>touched_bump\<close>, \<open>touched_table\<close>).
  \<^item> \<open>Length_Pools\<close> (pool/fix_length_pool.cc, variable_length_pool.cc): pools over a mapped file for values of one size, and
    for values stored behind their length; both read back what they stored.
  \<^item> \<open>Arena_Tables\<close> (pool/arena_buddy_pool/page_mem_table.cc, section_mem_table.cc, slab_mem_table.h): the tables of the
    buddy pool, their free lists as links between offsets.  \<open>Arena_Blocks\<close> takes the lists as lists of
    blocks (\<open>lists_ok\<close>) and shows that splitting and merging keep every byte in one block;
    \<open>Arena_Client\<close> concludes it for every sequence of requests (\<open>table_run\<close>), up to the one that makes merging pass
    the highest level, which a client can reach (\<open>merge_past_free_lists\<close>).
  \<^item> \<open>Arena_Heap\<close> (pool/arena_buddy_pool/heap_mem_manager.cc, arena_buddy_pool.cc): the heap of tables in a mapped pool, its
    start and restart, and the pool's operations.  \<open>Arena_Pool\<close>: large values are read back and keep apart.
  \<^item> \<open>Kv_Index\<close> (index/index.h, index.cc): key-value pairs, headers, batches of operations.
  \<^item> \<open>Hash_Bucket\<close> and \<open>Hash_Table\<close> (index/hash_table/): the packed bucket and every operation of the
    table, over a memory of buckets at addresses.  \<open>ht_wf\<close> is the invariant of the table, \<open>ht_lookup\<close> the
    map it stands for.  \<open>Hash_Index\<close> puts the table in a mapped pool and states what
    the operations do to the map.  \<open>Hash_Iterator\<close> is the table's iterator: from \<open>Begin\<close> to \<open>End\<close> it passes every
    occupied bucket once.
  \<^item> \<open>Sort_Search\<close>, \<open>Sort_Table\<close>, \<open>Sort_Index\<close> (index/sort_table/): the search that samples several
    records at a time meets the contract of a searcher (locale \<open>key_search\<close>), and the table's
    operations those of a map with ordered keys.
  \<^item> \<open>Table_Session\<close>: the contract of a client of either table (locale \<open>map_table\<close>).  A session is a sequence of
    insertions, deletions, searches and questions for the size, and a table that meets the contract
    answers it as a map does.  \<open>Hash_Session\<close> and \<open>Sort_Session\<close> interpret it with the two tables in a mapped
    pool whose mapping has room for what the session may take, from \<open>Init\<close> on and through the growth in that
    room, and reopen the tables at another address after a session.  That freed blocks wait is needed: \<open>Hash_Session\<close> ends with a key that is lost because
    \<open>Delete\<close> frees a bucket of the table itself.  That an exclusive sort table is the only client of its pool is
    needed too: \<open>Sort_Session\<close> ends with one that grows into the block of another client.
  \<^item> \<open>Field_Info\<close> and \<open>Table_Info\<close> (manager/table_info/): types and sizes of fields, conversion of values,
    the parsers of table configurations.  \<open>Table_Layout\<close> shows that the ranges of the fields of a table,
    and of the parts of a message field, do not overlap.
  \<^item> \<open>Lock_Free_Queue\<close> (common/concurrency/lock_free_queue.hpp): \<open>Push\<close> and \<open>Pop\<close> as the sequence of
    their accesses to shared memory.  Alone they implement a bounded list (locale \<open>bounded_fifo\<close>); any number
    of concurrent pushes is safe; a push and a pop at the same time are not.  \<open>Task_Names\<close>: the names of the
    thread pool's tasks do not pass through the queue.
  \<^item> \<open>Thread_Pool\<close> (common/concurrency/thread_pool.cc): callers, \<open>Stop\<close> and workers as a step relation.  A
    worker refines an abstract one (\<open>worker_move\<close>).  No task is lost, run twice or overtaken, and stopping
    runs all accepted tasks, unless a call of \<open>AddTask\<close> races with \<open>Stop\<close>.
  \<^item> \<open>Snapshot\<close> (snapshot/snapshot.h, snapshot_segment.h): the parts of a document id, the stores and the thread of a segment.

  \<^bold>\<open>Conventions.\<close>  A failure the code reports is a value (\<open>False\<close>, an address 0, a status); None is a
  call that does not return or that dereferences a null pointer or a missing node.  Loops that may run for ever
  are partial functions with results in \<open>option\<close>, so that a theorem which says that a call
  returns says so; no fuel is used.  Pointers are natural numbers and memory is a map from addresses; the bytes of
  a mapped file are the file's bytes, and memory as far as the file and the mapping reach.  Machine integers are words, or numbers with the reduction
  written out.  The sizes that theorems bound (files below \<open>2 ^ 63\<close> bytes, tables below \<open>2 ^ 31\<close> records,
  layouts below \<open>2 ^ 31\<close> bytes) are those at which the code's own integer types wrap around; tables and blocks in a
  mapped pool must besides fit into its mapping, 1 GB unless the program asks for more.

  \<^bold>\<open>Not modelled.\<close>  The sources of src/include are the headers of a vendored XML library.  rapidjson, protobuf
  and the JNI headers are not in the repository: what the code asks of them is an argument of the
  definitions.  Logging has no effect on the state.  The data manager's files are empty, and of the snapshot
  only the bodies in its headers exist.  Some members are declared and never defined, or do not compile against
  the headers they include; the components of the manifest name them.  In the buddy pool the
  beginning of \<open>AllocBySlab\<close> is missing: the function is an argument, and the theorems that depend on
  it ask only that it leaves the link between tables alone.
\<close>

end
